(* ===== verification/Prelude.thy ===== *)
theory Prelude
  imports Main
    "HOL-Library.Word"
    "HOL-Library.List_Lexorder"
    "HOL-Library.Product_Lexorder"
    "HOL-Library.Sublist"
    "HOL-Library.Multiset"
    "HOL-Library.Monad_Syntax"
begin

text \<open>
  Shared vocabulary of the development: the machine integers of the kernel
  (RV64, so \<open>usize\<close> is 64 bits wide), little-endian byte encodings, the
  operations of Rust's \<open>Vec\<close>, \<open>VecDeque\<close> and \<open>BTreeMap\<close> that the sources use,
  and UTF-8 validation (\<open>core::str::from_utf8\<close>).  A Rust panic is the value
  \<open>None\<close> of an \<open>option\<close> result throughout the development.
\<close>

unbundle bit_operations_syntax

section \<open>Machine integers\<close>

type_synonym u8 = "8 word"
type_synonym u16 = "16 word"
type_synonym u32 = "32 word"
type_synonym u64 = "64 word"
type_synonym usize = "64 word"
type_synonym isize = int

text \<open>Facts that move word comparisons and sums to natural numbers.\<close>

named_theorems unat_simps

lemma unat_bound: "unat (w :: 'a::len word) < 2 ^ LENGTH('a)"
  by (rule unsigned_less)

lemma unat_add_u32_small [unat_simps]:
  "unat (a :: u32) + unat b < 2 ^ 32 \<Longrightarrow> unat (a + b) = unat a + unat b"
  by (simp add: unat_word_ariths)

lemma unat_add_u64_small [unat_simps]:
  "unat (a :: u64) + unat b < 2 ^ 64 \<Longrightarrow> unat (a + b) = unat a + unat b"
  by (simp add: unat_word_ariths)

lemma unat_of_nat_u32 [unat_simps]:
  "n < 2 ^ 32 \<Longrightarrow> unat (word_of_nat n :: u32) = n"
  by (simp add: unat_of_nat)

lemma unat_of_nat_u64 [unat_simps]:
  "n < 2 ^ 64 \<Longrightarrow> unat (word_of_nat n :: u64) = n"
  by (simp add: unat_of_nat)

lemma unat_sub_le [unat_simps]:
  "(b :: 'a::len word) \<le> a \<Longrightarrow> unat (a - b) = unat a - unat b"
  by (rule unat_sub)

lemma word_le_unat: "(a :: 'a::len word) \<le> b \<longleftrightarrow> unat a \<le> unat b"
  by (rule word_le_nat_alt)

lemma word_less_unat: "(a :: 'a::len word) < b \<longleftrightarrow> unat a < unat b"
  by (rule word_less_nat_alt)

lemma unat_Suc_pred: "(x :: usize) \<noteq> 0 \<Longrightarrow> unat x = Suc (unat (x - 1))"
  using unat_minus_one [of x] unat_eq_0 [of x] by linarith

lemma unat_ucast_u32_u64 [simp]: "unat (ucast (x :: u32) :: u64) = unat x"
  using unat_bound [of x] by (simp add: unsigned_ucast_eq take_bit_nat_eq_self)

lemma ucast_of_nat_u32: "(ucast (word_of_nat n :: u64) :: u32) = word_of_nat n"
  by (simp add: word_unat_eq_iff unat_of_nat unsigned_ucast_eq take_bit_eq_mod mod_mod_cancel)

text \<open>\<open>saturating_sub\<close> and \<open>min\<close> of the unsigned integers.\<close>

definition saturating_sub :: "'a::len word \<Rightarrow> 'a word \<Rightarrow> 'a word" where
  "saturating_sub a b = (if a < b then 0 else a - b)"

lemma unat_saturating_sub [unat_simps]:
  "unat (saturating_sub a b) = unat a - unat b"
  by (simp add: saturating_sub_def word_less_unat not_less unat_sub word_le_unat)

section \<open>Little-endian bytes\<close>

fun nat_to_le :: "nat \<Rightarrow> nat \<Rightarrow> u8 list" where
  "nat_to_le 0 x = []"
| "nat_to_le (Suc n) x = word_of_nat (x mod 256) # nat_to_le n (x div 256)"

fun nat_from_le :: "u8 list \<Rightarrow> nat" where
  "nat_from_le [] = 0"
| "nat_from_le (b # bs) = unat b + 256 * nat_from_le bs"

text \<open>\<open>to_le_bytes\<close> and \<open>from_le_bytes\<close> of \<open>u16\<close>, \<open>u32\<close> and \<open>u64\<close>.\<close>

definition to_le_bytes :: "'a::len word \<Rightarrow> u8 list" where
  "to_le_bytes w = nat_to_le (LENGTH('a) div 8) (unat w)"

definition from_le_bytes :: "u8 list \<Rightarrow> 'a::len word" where
  "from_le_bytes bs = word_of_nat (nat_from_le bs)"

lemma length_nat_to_le [simp]: "length (nat_to_le n x) = n"
  by (induction n arbitrary: x) auto

lemma length_to_le_bytes [simp]: "length (to_le_bytes (w :: 'a::len word)) = LENGTH('a) div 8"
  by (simp add: to_le_bytes_def)

lemma unat_byte_of_nat [simp]: "unat (word_of_nat (x mod 256) :: u8) = x mod 256"
  by (simp add: unat_of_nat)

lemma nat_from_to_le: "nat_from_le (nat_to_le n x) = x mod 256 ^ n"
proof (induction n arbitrary: x)
  case 0
  then show ?case by simp
next
  case (Suc n)
  have "x mod 256 + 256 * (x div 256 mod 256 ^ n) = x mod (256 * 256 ^ n)"
    by (simp add: mod_mult2_eq)
  with Suc show ?case by simp
qed

lemma nat_from_le_bound: "nat_from_le bs < 256 ^ length bs"
proof (induction bs)
  case (Cons b bs)
  have "unat b < 256" using unat_bound [of b] by simp
  moreover from Cons have "256 * nat_from_le bs + 256 \<le> 256 * 256 ^ length bs"
    by (simp add: Suc_leI)
  ultimately show ?case by simp
qed simp

lemma nat_to_from_le: "nat_to_le (length bs) (nat_from_le bs) = bs"
proof (induction bs)
  case (Cons b bs)
  have "unat b < 256" using unat_bound [of b] by simp
  then have "(unat b + 256 * nat_from_le bs) mod 256 = unat b"
    and "(unat b + 256 * nat_from_le bs) div 256 = nat_from_le bs" by simp_all
  with Cons show ?case by simp
qed simp

lemma from_to_le_u16 [simp]: "from_le_bytes (to_le_bytes (w :: u16)) = w"
  using unat_bound [of w] by (simp add: from_le_bytes_def to_le_bytes_def nat_from_to_le)

lemma from_to_le_u32 [simp]: "from_le_bytes (to_le_bytes (w :: u32)) = w"
  using unat_bound [of w] by (simp add: from_le_bytes_def to_le_bytes_def nat_from_to_le)

lemma from_to_le_u64 [simp]: "from_le_bytes (to_le_bytes (w :: u64)) = w"
  using unat_bound [of w] by (simp add: from_le_bytes_def to_le_bytes_def nat_from_to_le)

lemma to_from_le_u32:
  assumes "length bs = 4"
  shows "to_le_bytes (from_le_bytes bs :: u32) = bs"
proof -
  have "nat_from_le bs < 2 ^ 32" using nat_from_le_bound [of bs] assms by simp
  then show ?thesis
    using nat_to_from_le [of bs] assms
    by (simp add: to_le_bytes_def from_le_bytes_def unat_of_nat)
qed

lemma to_from_le_u16:
  assumes "length bs = 2"
  shows "to_le_bytes (from_le_bytes bs :: u16) = bs"
proof -
  have "nat_from_le bs < 2 ^ 16" using nat_from_le_bound [of bs] assms by simp
  then show ?thesis
    using nat_to_from_le [of bs] assms
    by (simp add: to_le_bytes_def from_le_bytes_def unat_of_nat)
qed

section \<open>Vectors\<close>

text \<open>
  \<open>Vec::remove\<close> and \<open>VecDeque::remove\<close> keep the order of the rest;
  \<open>Vec::swap_remove\<close> moves the last element into the hole; \<open>slice_at\<close> is the
  range \<open>[off .. off + n]\<close> and \<open>splice\<close> is \<open>copy_from_slice\<close> into such a range.
\<close>

definition vec_remove :: "nat \<Rightarrow> 'a list \<Rightarrow> 'a list" where
  "vec_remove i xs = take i xs @ drop (Suc i) xs"

definition swap_remove :: "nat \<Rightarrow> 'a list \<Rightarrow> 'a list" where
  "swap_remove i xs = (if Suc i = length xs then butlast xs else (butlast xs)[i := last xs])"

fun position :: "('a \<Rightarrow> bool) \<Rightarrow> 'a list \<Rightarrow> nat option" where
  "position P [] = None"
| "position P (x # xs) = (if P x then Some 0 else map_option Suc (position P xs))"

definition slice_at :: "nat \<Rightarrow> nat \<Rightarrow> 'a list \<Rightarrow> 'a list" where
  "slice_at off n xs = take n (drop off xs)"

definition splice :: "nat \<Rightarrow> 'a list \<Rightarrow> 'a list \<Rightarrow> 'a list" where
  "splice off ys xs = take off xs @ ys @ drop (off + length ys) xs"

lemma upt_split: "[0..<n + k] = [0..<n] @ map (\<lambda>i. n + i) [0..<k]"
  by (induction k) simp_all

lemma length_vec_remove: "i < length xs \<Longrightarrow> length (vec_remove i xs) = length xs - 1"
  by (simp add: vec_remove_def)

lemma set_vec_remove_subset: "set (vec_remove i xs) \<subseteq> set xs"
  by (auto simp: vec_remove_def dest: in_set_takeD in_set_dropD)

lemma mset_vec_remove:
  assumes "i < length xs"
  shows "mset (vec_remove i xs) = mset xs - {#xs ! i#}"
proof -
  have "mset xs = mset (take i xs @ xs ! i # drop (Suc i) xs)"
    using id_take_nth_drop [OF assms] by simp
  then show ?thesis by (simp add: vec_remove_def)
qed

lemma vec_remove_distinct:
  assumes "i < length xs" "distinct xs"
  shows "set (vec_remove i xs) = set xs - {xs ! i} \<and> distinct (vec_remove i xs)"
proof -
  have "xs = take i xs @ xs ! i # drop (Suc i) xs" by (rule id_take_nth_drop [OF assms(1)])
  moreover from this assms(2) have "distinct (take i xs @ xs ! i # drop (Suc i) xs)" by metis
  ultimately show ?thesis
    unfolding vec_remove_def
    by (metis Diff_insert_absorb Un_insert_right distinct.simps(2) distinct_append
        disjoint_insert(1) list.simps(15) set_append insert_Diff_single Un_iff)
qed

lemma vec_remove_0 [simp]: "vec_remove 0 xs = tl xs"
  by (cases xs) (simp_all add: vec_remove_def)

lemma mset_swap_remove:
  assumes "i < length xs"
  shows "mset (swap_remove i xs) = mset xs - {#xs ! i#}"
proof (cases "Suc i = length xs")
  case True
  with assms have "xs ! i = last xs" by (metis diff_Suc_1 last_conv_nth length_0_conv not_less0)
  moreover have "xs = butlast xs @ [last xs]" using assms by (cases xs rule: rev_cases) auto
  then have "mset xs = add_mset (last xs) (mset (butlast xs))"
    by (metis mset.simps(2) mset_append add_mset_add_single mset.simps(1))
  ultimately show ?thesis using True by (simp add: swap_remove_def)
next
  case False
  obtain ys y where xs: "xs = ys @ [y]" using assms by (cases xs rule: rev_cases) auto
  with False assms have "i < length ys" by simp
  with False xs show ?thesis
    by (simp add: swap_remove_def mset_update nth_append)
qed

lemma position_Some:
  "position P xs = Some i \<Longrightarrow> i < length xs \<and> P (xs ! i) \<and> (\<forall>j<i. \<not> P (xs ! j))"
proof (induction xs arbitrary: i)
  case (Cons x xs)
  show ?case
  proof (cases "P x")
    case False
    with Cons.prems obtain k where "position P xs = Some k" "i = Suc k" by auto
    with False Cons.IH [of k] show ?thesis by (auto simp: less_Suc_eq_0_disj)
  qed (use Cons.prems in simp)
qed simp

lemma position_None: "position P xs = None \<longleftrightarrow> (\<forall>x\<in>set xs. \<not> P x)"
  by (induction xs) auto

lemma slice_at_length: "off + n \<le> length xs \<Longrightarrow> length (slice_at off n xs) = n"
  by (simp add: slice_at_def)

lemma slice_at_append:
  "slice_at (length xs) (length ys) (xs @ ys @ zs) = ys"
  by (simp add: slice_at_def)

lemma length_splice [simp]: "off + length ys \<le> length xs \<Longrightarrow> length (splice off ys xs) = length xs"
  by (simp add: splice_def)

lemma nth_splice:
  "off + length ys \<le> length xs \<Longrightarrow> i < length xs \<Longrightarrow>
   splice off ys xs ! i = (if off \<le> i \<and> i < off + length ys then ys ! (i - off) else xs ! i)"
  by (auto simp: splice_def nth_append)

lemma slice_at_splice_same:
  "off + length ys \<le> length xs \<Longrightarrow> slice_at off (length ys) (splice off ys xs) = ys"
  by (simp add: slice_at_def splice_def)

lemma slice_at_splice_other:
  assumes "off + length ys \<le> length xs" "i + n \<le> length xs"
    and "i + n \<le> off \<or> off + length ys \<le> i"
  shows "slice_at i n (splice off ys xs) = slice_at i n xs"
  by (rule nth_equalityI) (use assms in \<open>auto simp: slice_at_def nth_splice\<close>)

lemma splice_splice:
  "off + length ys + length zs \<le> length xs \<Longrightarrow>
   splice (off + length ys) zs (splice off ys xs) = splice off (ys @ zs) xs"
  by (simp add: splice_def ac_simps)

end
