(* ===== verification/Rust_Std.thy ===== *)
theory Rust_Std
  imports Prelude
begin

text \<open>
  The parts of the Rust standard library the kernel's data structures rest on:
  \<open>alloc::collections::BTreeMap\<close> (a map iterated in key order) with its contract
  as the locale \<open>ordered_map\<close>, Rust strings (byte vectors), UTF-8 validation and
  lossy decoding, and decimal formatting of unsigned integers.
\<close>

section \<open>Strings\<close>

text \<open>
  A Rust \<open>String\<close> or \<open>&str\<close> is its UTF-8 bytes, compared bytewise; \<open>str\<close> gives
  the bytes of an ASCII literal of the source.
\<close>

type_synonym rstring = "u8 list"

definition str :: "string \<Rightarrow> rstring" where
  "str s = map (\<lambda>c. word_of_nat (of_char c)) s"

text \<open>One decoding step of UTF-8: the length of the leading valid sequence, or the
  length of the leading invalid part, as in \<open>core::str::lossy\<close>.\<close>

datatype utf8_step = Utf8_Ok nat | Utf8_Bad nat

definition utf8_cont :: "u8 \<Rightarrow> bool" where
  "utf8_cont b \<longleftrightarrow> 0x80 \<le> b \<and> b \<le> 0xBF"

text \<open>The second byte a three- or four-byte sequence may have.\<close>

definition utf8_second :: "u8 \<Rightarrow> u8 \<Rightarrow> bool" where
  "utf8_second b0 b1 \<longleftrightarrow>
     (b0 = 0xE0 \<and> 0xA0 \<le> b1 \<and> b1 \<le> 0xBF) \<or>
     (0xE1 \<le> b0 \<and> b0 \<le> 0xEC \<and> utf8_cont b1) \<or>
     (b0 = 0xED \<and> 0x80 \<le> b1 \<and> b1 \<le> 0x9F) \<or>
     (0xEE \<le> b0 \<and> b0 \<le> 0xEF \<and> utf8_cont b1) \<or>
     (b0 = 0xF0 \<and> 0x90 \<le> b1 \<and> b1 \<le> 0xBF) \<or>
     (0xF1 \<le> b0 \<and> b0 \<le> 0xF3 \<and> utf8_cont b1) \<or>
     (b0 = 0xF4 \<and> 0x80 \<le> b1 \<and> b1 \<le> 0x8F)"

definition nth_is :: "u8 list \<Rightarrow> nat \<Rightarrow> (u8 \<Rightarrow> bool) \<Rightarrow> bool" where
  "nth_is bs i P \<longleftrightarrow> i < length bs \<and> P (bs ! i)"

definition utf8_first :: "u8 \<Rightarrow> u8 list \<Rightarrow> utf8_step" where
  "utf8_first b0 bs =
     (if b0 < 0x80 then Utf8_Ok 1
      else if 0xC2 \<le> b0 \<and> b0 \<le> 0xDF then
        (if nth_is bs 0 utf8_cont then Utf8_Ok 2 else Utf8_Bad 1)
      else if 0xE0 \<le> b0 \<and> b0 \<le> 0xEF then
        (if \<not> nth_is bs 0 (utf8_second b0) then Utf8_Bad 1
         else if \<not> nth_is bs 1 utf8_cont then Utf8_Bad 2 else Utf8_Ok 3)
      else if 0xF0 \<le> b0 \<and> b0 \<le> 0xF4 then
        (if \<not> nth_is bs 0 (utf8_second b0) then Utf8_Bad 1
         else if \<not> nth_is bs 1 utf8_cont then Utf8_Bad 2
         else if \<not> nth_is bs 2 utf8_cont then Utf8_Bad 3 else Utf8_Ok 4)
      else Utf8_Bad 1)"

function utf8_valid :: "u8 list \<Rightarrow> bool" where
  "utf8_valid [] = True"
| "utf8_valid (b # bs) =
     (case utf8_first b bs of Utf8_Ok n \<Rightarrow> utf8_valid (drop (n - 1) bs) | Utf8_Bad n \<Rightarrow> False)"
  by pat_completeness auto
termination
  by (relation "measure length") auto

text \<open>\<open>core::str::from_utf8\<close> and \<open>String::from_utf8_lossy\<close>: an invalid part
  becomes the replacement character U+FFFD.\<close>

definition from_utf8 :: "u8 list \<Rightarrow> rstring option" where
  "from_utf8 bs = (if utf8_valid bs then Some bs else None)"

function from_utf8_lossy :: "u8 list \<Rightarrow> rstring" where
  "from_utf8_lossy [] = []"
| "from_utf8_lossy (b # bs) =
     (case utf8_first b bs of
        Utf8_Ok n \<Rightarrow> b # take (n - 1) bs @ from_utf8_lossy (drop (n - 1) bs)
      | Utf8_Bad n \<Rightarrow> [0xEF, 0xBF, 0xBD] @ from_utf8_lossy (drop (n - 1) bs))"
  by pat_completeness auto
termination
  by (relation "measure length") auto

lemma from_utf8_lossy_valid: "utf8_valid bs \<Longrightarrow> from_utf8_lossy bs = bs"
  by (induction bs rule: utf8_valid.induct) (auto split: utf8_step.splits)

text \<open>\<open>format!("{}", n)\<close> of an unsigned integer.\<close>

fun decimal :: "nat \<Rightarrow> rstring" where
  "decimal n = (if n < 10 then [word_of_nat (48 + n)]
                else decimal (n div 10) @ [word_of_nat (48 + n mod 10)])"

declare decimal.simps [simp del]

fun undecimal :: "nat \<Rightarrow> rstring \<Rightarrow> nat" where
  "undecimal acc [] = acc"
| "undecimal acc (b # bs) = undecimal (10 * acc + (unat b - 48)) bs"

lemma undecimal_append: "undecimal acc (xs @ ys) = undecimal (undecimal acc xs) ys"
  by (induction xs arbitrary: acc) auto

lemma undecimal_decimal: "undecimal 0 (decimal n) = n"
proof (induction n rule: decimal.induct)
  case (1 n)
  have d: "unat (word_of_nat (48 + k) :: u8) = 48 + k" if "k < 10" for k :: nat
    using that by (simp add: unat_of_nat del: of_nat_add)
  show ?case
  proof (cases "n < 10")
    case True
    then show ?thesis by (subst decimal.simps) (simp add: d del: of_nat_add)
  next
    case False
    with "1" show ?thesis
      by (subst decimal.simps) (simp add: d undecimal_append del: of_nat_add)
  qed
qed

lemma decimal_inj: "decimal m = decimal n \<longleftrightarrow> m = n"
  by (metis undecimal_decimal)

section \<open>Ordered maps\<close>

text \<open>
  The contract of an ordered map: lookups after an insertion or a removal, and an
  iteration that lists every entry once in ascending key order.
\<close>

locale ordered_map =
  fixes inv :: "'m \<Rightarrow> bool"
    and empty :: "'m"
    and get :: "'m \<Rightarrow> 'k::linorder \<Rightarrow> 'v option"
    and ins :: "'k \<Rightarrow> 'v \<Rightarrow> 'm \<Rightarrow> 'm"
    and del :: "'k \<Rightarrow> 'm \<Rightarrow> 'm"
    and entries :: "'m \<Rightarrow> ('k \<times> 'v) list"
  assumes inv_empty: "inv empty"
    and inv_ins: "inv m \<Longrightarrow> inv (ins k v m)"
    and inv_del: "inv m \<Longrightarrow> inv (del k m)"
    and get_empty: "get empty k = None"
    and get_ins: "get (ins k v m) k' = (if k' = k then Some v else get m k')"
    and get_del: "inv m \<Longrightarrow> get (del k m) k' = (if k' = k then None else get m k')"
    and entries_set: "inv m \<Longrightarrow> (k, v) \<in> set (entries m) \<longleftrightarrow> get m k = Some v"
    and entries_sorted: "inv m \<Longrightarrow> sorted_wrt (<) (map fst (entries m))"
begin

lemma entries_distinct: "inv m \<Longrightarrow> distinct (map fst (entries m))"
  using entries_sorted strict_sorted_iff by blast

lemma keys_dom: "inv m \<Longrightarrow> set (map fst (entries m)) = {k. get m k \<noteq> None}"
proof (rule set_eqI)
  fix k
  assume "inv m"
  then show "k \<in> set (map fst (entries m)) \<longleftrightarrow> k \<in> {k. get m k \<noteq> None}"
    using entries_set [of m k] by (auto simp: image_iff Bex_def)
qed

lemma filter_entries_set:
  "inv m \<Longrightarrow> n \<in> set (map fst (filter P (entries m))) \<longleftrightarrow> (\<exists>v. get m n = Some v \<and> P (n, v))"
  by (force simp: entries_set image_iff)

lemma filter_entries_distinct: "inv m \<Longrightarrow> distinct (map fst (filter P (entries m)))"
  by (rule distinct_map_filter [OF entries_distinct])

end

text \<open>
  \<open>BTreeMap\<close> as the list of its entries in iteration order.
\<close>

type_synonym ('k, 'v) btree_map = "('k \<times> 'v) list"

definition bt_get :: "('k, 'v) btree_map \<Rightarrow> 'k \<Rightarrow> 'v option" where
  "bt_get m k = map_of m k"

fun bt_insert :: "'k::linorder \<Rightarrow> 'v \<Rightarrow> ('k, 'v) btree_map \<Rightarrow> ('k, 'v) btree_map" where
  "bt_insert k v [] = [(k, v)]"
| "bt_insert k v (e # m) =
     (if fst e < k then e # bt_insert k v m
      else if fst e = k then (k, v) # m
      else (k, v) # e # m)"

definition bt_remove :: "'k \<Rightarrow> ('k, 'v) btree_map \<Rightarrow> ('k, 'v) btree_map" where
  "bt_remove k m = filter (\<lambda>e. fst e \<noteq> k) m"

definition bt_keys :: "('k, 'v) btree_map \<Rightarrow> 'k list" where
  "bt_keys m = map fst m"

definition bt_inv :: "('k::linorder, 'v) btree_map \<Rightarrow> bool" where
  "bt_inv m \<longleftrightarrow> sorted_wrt (<) (map fst m)"

text \<open>\<open>entry(k).or_default()\<close> reads the stored value or the type's default.\<close>

definition bt_get_or :: "'v \<Rightarrow> ('k, 'v) btree_map \<Rightarrow> 'k \<Rightarrow> 'v" where
  "bt_get_or d m k = (case bt_get m k of None \<Rightarrow> d | Some v \<Rightarrow> v)"

lemma bt_insert_keys: "set (map fst (bt_insert k v m)) = insert k (set (map fst m))"
  by (induction m) auto

lemma bt_inv_insert: "bt_inv m \<Longrightarrow> bt_inv (bt_insert k v m)"
proof (induction m)
  case (Cons e m)
  have "\<forall>x\<in>set (map fst (bt_insert k v m)). fst e < x" if "fst e < k"
    using Cons.prems that unfolding bt_insert_keys by (auto simp: bt_inv_def)
  with Cons show ?case by (fastforce simp: bt_inv_def)
qed (simp add: bt_inv_def)

lemma bt_get_insert: "bt_get (bt_insert k v m) k' = (if k' = k then Some v else bt_get m k')"
  by (induction m) (auto simp: bt_get_def)

interpretation bt: ordered_map bt_inv "[]" bt_get bt_insert bt_remove "\<lambda>m. m"
proof (unfold_locales, goal_cases)
  case (2 m k v)
  then show ?case by (rule bt_inv_insert)
next
  case (3 m k)
  then show ?case by (induction m) (auto simp: bt_inv_def bt_remove_def)
next
  case (5 k v m k')
  show ?case by (rule bt_get_insert)
next
  case (6 m k k')
  show ?case by (induction m) (auto simp: bt_get_def bt_remove_def)
next
  case (7 m k v)
  then have "distinct (map fst m)" by (simp add: bt_inv_def strict_sorted_iff)
  then show ?case by (auto simp: bt_get_def)
qed (simp_all add: bt_inv_def bt_get_def)

lemmas bt_simps = bt.get_ins bt.get_del bt.inv_ins bt.inv_del bt.get_empty

end
