(* ===== verification/File_Attr.thy ===== *)
theory File_Attr
  imports Rust_Std
begin

text \<open>
  The file-attribute store of \<open>os/src/agent/file_attr.rs\<close>: per-file attributes
  (\<open>by_name\<close>) and two inverted indexes (\<open>index_kv\<close>, \<open>index_tag\<close>), the operations
  that set and remove attributes, the indexed query and the full scan it is
  measured against, the demo data and the in-kernel benchmark.  The invariant
  \<open>store_ok\<close> says that both indexes are exactly the inversion of \<open>by_name\<close>; every
  operation keeps it, and it makes the two query routines agree.
\<close>

section \<open>Data\<close>

record file_attrs =
  kv :: "(rstring, rstring) btree_map"
  tags :: "rstring list"
  digest :: "u8 list"

record file_attr_store =
  by_name :: "(rstring, file_attrs) btree_map"
  index_kv :: "(rstring \<times> rstring, rstring list) btree_map"
  index_tag :: "(rstring, rstring list) btree_map"

definition file_attrs_default :: file_attrs where
  "file_attrs_default = \<lparr>kv = [], tags = [], digest = []\<rparr>"

definition file_attr_store_new :: file_attr_store where
  "file_attr_store_new = \<lparr>by_name = [], index_kv = [], index_tag = []\<rparr>"

section \<open>Index updates\<close>

text \<open>
  \<open>index_add\<close> is the tail of \<open>set_kv\<close> and \<open>add_tag\<close>; \<open>index_retain\<close> is the
  removal inside \<open>set_kv\<close>, which leaves an emptied list in place; \<open>index_drop\<close>
  is the removal of \<open>remove_tag\<close>, \<open>remove_kv\<close> and \<open>remove_file\<close>, which also
  removes an emptied list.
\<close>

definition index_add :: "'k::linorder \<Rightarrow> rstring \<Rightarrow> ('k, rstring list) btree_map \<Rightarrow> ('k, rstring list) btree_map" where
  "index_add k name idx =
     (let entry = bt_get_or [] idx k
      in bt_insert k (if list_ex (\<lambda>n. n = name) entry then entry else entry @ [name]) idx)"

definition index_retain :: "'k::linorder \<Rightarrow> rstring \<Rightarrow> ('k, rstring list) btree_map \<Rightarrow> ('k, rstring list) btree_map" where
  "index_retain k name idx =
     (case bt_get idx k of
        Some v \<Rightarrow> bt_insert k (filter (\<lambda>f. f \<noteq> name) v) idx
      | None \<Rightarrow> idx)"

definition index_drop :: "'k::linorder \<Rightarrow> rstring \<Rightarrow> ('k, rstring list) btree_map \<Rightarrow> ('k, rstring list) btree_map" where
  "index_drop k name idx =
     (case bt_get idx k of
        Some v \<Rightarrow>
          (let v' = filter (\<lambda>f. f \<noteq> name) v
           in if v' = [] then bt_remove k idx else bt_insert k v' idx)
      | None \<Rightarrow> idx)"

section \<open>Operations\<close>

definition set_kv :: "file_attr_store \<Rightarrow> rstring \<Rightarrow> rstring \<Rightarrow> rstring \<Rightarrow> file_attr_store" where
  "set_kv s name key val =
     (let attrs = bt_get_or file_attrs_default (by_name s) name;
          old = bt_get (kv attrs) key;
          attrs' = attrs\<lparr>kv := bt_insert key val (kv attrs)\<rparr>;
          idx = (case old of Some old \<Rightarrow> index_retain (key, old) name (index_kv s)
                           | None \<Rightarrow> index_kv s)
      in s\<lparr>by_name := bt_insert name attrs' (by_name s),
           index_kv := index_add (key, val) name idx\<rparr>)"

definition add_tag :: "file_attr_store \<Rightarrow> rstring \<Rightarrow> rstring \<Rightarrow> file_attr_store" where
  "add_tag s name tag =
     (let attrs = bt_get_or file_attrs_default (by_name s) name;
          attrs' = (if list_ex (\<lambda>t. t = tag) (tags attrs) then attrs
                    else attrs\<lparr>tags := tags attrs @ [tag]\<rparr>)
      in s\<lparr>by_name := bt_insert name attrs' (by_name s),
           index_tag := index_add tag name (index_tag s)\<rparr>)"

definition set_owner :: "file_attr_store \<Rightarrow> rstring \<Rightarrow> rstring \<Rightarrow> file_attr_store" where
  "set_owner s name owner = set_kv s name (str ''owner'') owner"

definition set_digest :: "file_attr_store \<Rightarrow> rstring \<Rightarrow> u8 list \<Rightarrow> file_attr_store" where
  "set_digest s name dig =
     (let attrs = bt_get_or file_attrs_default (by_name s) name
      in s\<lparr>by_name := bt_insert name (attrs\<lparr>digest := dig\<rparr>) (by_name s)\<rparr>)"

definition remove_tag :: "file_attr_store \<Rightarrow> rstring \<Rightarrow> rstring \<Rightarrow> file_attr_store \<times> bool" where
  "remove_tag s name tag =
     (let (names, removed) =
        (case bt_get (by_name s) name of
           Some attrs \<Rightarrow>
             (let ts = filter (\<lambda>t. t \<noteq> tag) (tags attrs)
              in (bt_insert name (attrs\<lparr>tags := ts\<rparr>) (by_name s), length ts \<noteq> length (tags attrs)))
         | None \<Rightarrow> (by_name s, False))
      in (s\<lparr>by_name := names, index_tag := index_drop tag name (index_tag s)\<rparr>, removed))"

definition remove_kv :: "file_attr_store \<Rightarrow> rstring \<Rightarrow> rstring \<Rightarrow> file_attr_store \<times> bool" where
  "remove_kv s name key =
     (case bt_get (by_name s) name of
        None \<Rightarrow> (s, False)
      | Some attrs \<Rightarrow>
          (let s' = s\<lparr>by_name := bt_insert name (attrs\<lparr>kv := bt_remove key (kv attrs)\<rparr>) (by_name s)\<rparr>
           in case bt_get (kv attrs) key of
                Some old \<Rightarrow> (s'\<lparr>index_kv := index_drop (key, old) name (index_kv s)\<rparr>, True)
              | None \<Rightarrow> (s', False)))"

definition remove_file :: "file_attr_store \<Rightarrow> rstring \<Rightarrow> file_attr_store \<times> bool" where
  "remove_file s name =
     (case bt_get (by_name s) name of
        None \<Rightarrow> (s, False)
      | Some attrs \<Rightarrow>
          (s\<lparr>by_name := bt_remove name (by_name s),
             index_kv := fold (\<lambda>e. index_drop e name) (kv attrs) (index_kv s),
             index_tag := fold (\<lambda>t. index_drop t name) (tags attrs) (index_tag s)\<rparr>, True))"

section \<open>Queries\<close>

definition intersect :: "rstring list option \<Rightarrow> rstring list \<Rightarrow> rstring list" where
  "intersect a b = (case a of None \<Rightarrow> b | Some prev \<Rightarrow> filter (\<lambda>x. x \<in> set b) prev)"

definition memmem :: "u8 list \<Rightarrow> u8 list \<Rightarrow> bool" where
  "memmem hay needle =
     (if needle = [] then True
      else if length needle > length hay then False
      else list_ex (\<lambda>i. take (length needle) (drop i hay) = needle)
                   [0 ..< length hay - length needle + 1])"

definition query_indexed ::
  "file_attr_store \<Rightarrow> rstring option \<Rightarrow> rstring option \<Rightarrow> rstring option \<Rightarrow> rstring list" where
  "query_indexed s tag owner keyword =
     (let c0 = None;
          c1 = (case tag of
                  Some t \<Rightarrow> Some (intersect c0 (bt_get_or [] (index_tag s) t))
                | None \<Rightarrow> c0);
          c2 = (case owner of
                  Some ow \<Rightarrow> Some (intersect c1 (bt_get_or [] (index_kv s) (str ''owner'', ow)))
                | None \<Rightarrow> c1);
          c3 = (case keyword of
                  Some k \<Rightarrow>
                    (let names = (case c2 of Some c \<Rightarrow> c | None \<Rightarrow> bt_keys (by_name s))
                     in Some (filter (\<lambda>n. case bt_get (by_name s) n of
                                            Some a \<Rightarrow> memmem (digest a) k | None \<Rightarrow> False) names))
                | None \<Rightarrow> c2)
      in (case c3 of Some c \<Rightarrow> c | None \<Rightarrow> []))"

text \<open>The three filters of the full scan, applied to one entry of \<open>by_name\<close>.\<close>

definition scan_match ::
  "rstring option \<Rightarrow> rstring option \<Rightarrow> rstring option \<Rightarrow> file_attrs \<Rightarrow> bool" where
  "scan_match tag owner keyword attrs \<longleftrightarrow>
     (case tag of Some t \<Rightarrow> list_ex (\<lambda>x. x = t) (tags attrs) | None \<Rightarrow> True) \<and>
     (case owner of Some ow \<Rightarrow> bt_get (kv attrs) (str ''owner'') = Some ow | None \<Rightarrow> True) \<and>
     (case keyword of Some k \<Rightarrow> memmem (digest attrs) k | None \<Rightarrow> True)"

definition query_full_scan ::
  "file_attr_store \<Rightarrow> rstring option \<Rightarrow> rstring option \<Rightarrow> rstring option \<Rightarrow> rstring list" where
  "query_full_scan s tag owner keyword =
     map fst (filter (\<lambda>e. scan_match tag owner keyword (snd e)) (by_name s))"

section \<open>Demo data and benchmark\<close>

definition demo_file ::
  "string \<Rightarrow> string list \<Rightarrow> string \<Rightarrow> string \<Rightarrow> file_attr_store \<Rightarrow> file_attr_store" where
  "demo_file name ts owner dig s =
     set_digest (set_owner (fold (\<lambda>t s. add_tag s (str name) (str t)) ts s)
                  (str name) (str owner)) (str name) (str dig)"

definition init_demo_attrs :: "file_attr_store \<Rightarrow> file_attr_store" where
  "init_demo_attrs s0 =
     (let s1 = demo_file ''agent_demo_create'' [''demo'', ''task-1''] ''Agent-A''
                 ''demonstrates agent process creation'' s0;
          s2 = demo_file ''agent_demo_tool'' [''demo'', ''task-2''] ''Agent-A''
                 ''shows structured tool calling protocol'' s1;
          s3 = demo_file ''agent_demo_path'' [''demo'', ''task-3''] ''Agent-B''
                 ''context path push/query/rollback'' s2;
          s4 = demo_file ''agent_demo_file'' [''demo'', ''task-4''] ''Agent-B''
                 ''queries files by tag and content keyword'' s3
      in demo_file ''user_shell'' [''system''] ''Kernel'' ''interactive shell entry'' s4)"

definition bench_hits :: "nat \<Rightarrow> nat" where
  "bench_hits n = (if n \<ge> 8 then 4 else min n 1)"

definition bench_name :: "nat \<Rightarrow> rstring" where
  "bench_name i = str ''bench_file_'' @ decimal i"

definition bench_attrs :: "nat \<Rightarrow> nat \<Rightarrow> file_attrs" where
  "bench_attrs hits i =
     (if i < hits
      then \<lparr>kv = bt_insert (str ''owner'') (str ''Agent-Hit'') [], tags = [str ''needle''], digest = []\<rparr>
      else \<lparr>kv = bt_insert (str ''owner'') (str ''Agent-Bg'') [], tags = [str ''bg''], digest = []\<rparr>)"

definition bench_store :: "nat \<Rightarrow> file_attr_store" where
  "bench_store n =
     (let hits = bench_hits n;
          needle_names = map bench_name (filter (\<lambda>i. i < hits) [0..<n]);
          bg_names = map bench_name (filter (\<lambda>i. \<not> i < hits) [0..<n])
      in \<lparr>by_name = fold (\<lambda>i m. bt_insert (bench_name i) (bench_attrs hits i) m) [0..<n] [],
          index_kv = bt_insert (str ''owner'', str ''Agent-Hit'') needle_names
                       (bt_insert (str ''owner'', str ''Agent-Bg'') bg_names []),
          index_tag = bt_insert (str ''needle'') needle_names (bt_insert (str ''bg'') bg_names [])\<rparr>)"

text \<open>
  One timed query of the benchmark.  \<open>CLOCK_FREQ\<close> is 12500000 on the QEMU board;
  the two readings of the \<open>time\<close> register are arguments.
\<close>

definition CLOCK_FREQ :: usize where
  "CLOCK_FREQ = 12500000"

definition bench_query :: "nat \<Rightarrow> bool \<Rightarrow> rstring list" where
  "bench_query n use_index =
     (if use_index
      then query_indexed (bench_store n) (Some (str ''needle'')) (Some (str ''Agent-Hit'')) None
      else query_full_scan (bench_store n) (Some (str ''needle'')) (Some (str ''Agent-Hit'')) None)"

definition run_benchmark :: "usize \<Rightarrow> usize \<Rightarrow> nat \<Rightarrow> nat \<Rightarrow> bool \<Rightarrow> usize \<times> usize" where
  "run_benchmark start stop n iters use_index =
     (let acc = ((\<lambda>acc. acc + word_of_nat (length (bench_query n use_index))) ^^ iters) 0;
          elapsed_ticks = stop - start
      in (elapsed_ticks * 1000000000 div CLOCK_FREQ, acc))"

section \<open>The contract of an inverted index\<close>

text \<open>
  What the store relies on: after \<open>add k n\<close> the name \<open>n\<close> is listed under \<open>k\<close>,
  after \<open>del k n\<close> it is not, other lists are untouched, and no list holds a
  name twice.
\<close>

locale inverted_index =
  fixes inv :: "'i \<Rightarrow> bool"
    and look :: "'i \<Rightarrow> 'k \<Rightarrow> 'n list"
    and add :: "'k \<Rightarrow> 'n \<Rightarrow> 'i \<Rightarrow> 'i"
    and del :: "'k \<Rightarrow> 'n \<Rightarrow> 'i \<Rightarrow> 'i"
  assumes inv_add: "inv i \<Longrightarrow> inv (add k n i)"
    and inv_del: "inv i \<Longrightarrow> inv (del k n i)"
    and look_add: "inv i \<Longrightarrow> look (add k n i) k' =
          (if k' = k \<and> n \<notin> set (look i k) then look i k @ [n] else look i k')"
    and look_del: "inv i \<Longrightarrow> look (del k n i) k' =
          (if k' = k then filter (\<lambda>m. m \<noteq> n) (look i k) else look i k')"
begin

definition inverts :: "'i \<Rightarrow> ('k \<Rightarrow> 'n set) \<Rightarrow> bool" where
  "inverts i R \<longleftrightarrow> inv i \<and> (\<forall>k. distinct (look i k) \<and> set (look i k) = R k)"

lemma inverts_add: "inverts i R \<Longrightarrow> inverts (add k n i) (\<lambda>k'. if k' = k then insert n (R k) else R k')"
  by (auto simp: inverts_def inv_add look_add)

lemma inverts_del: "inverts i R \<Longrightarrow> inverts (del k n i) (\<lambda>k'. if k' = k then R k - {n} else R k')"
  by (auto simp: inverts_def inv_del look_del)

lemma inverts_fold_del:
  "inverts i R \<Longrightarrow> inverts (fold (\<lambda>k. del k n) ks i) (\<lambda>k'. if k' \<in> set ks then R k' - {n} else R k')"
proof (induction ks arbitrary: i R)
  case Nil
  then show ?case by simp
next
  case (Cons k ks)
  have eq: "(\<lambda>k'. if k' \<in> set ks then (if k' = k then R k - {n} else R k') - {n}
                  else if k' = k then R k - {n} else R k') =
        (\<lambda>k'. if k' \<in> set (k # ks) then R k' - {n} else R k')" by (auto simp: fun_eq_iff)
  from Cons.IH [OF inverts_del [OF Cons.prems, of k n]] show ?case by (simp add: eq)
qed

end

lemma bt_get_or_insert: "bt_get_or d (bt_insert k v m) k' = (if k' = k then v else bt_get_or d m k')"
  by (simp add: bt_get_or_def bt_simps)

lemma index_add_look:
  "bt_get_or [] (index_add k n i) k' =
     (if k' = k \<and> n \<notin> set (bt_get_or [] i k) then bt_get_or [] i k @ [n] else bt_get_or [] i k')"
  by (auto simp: index_add_def Let_def bt_get_or_insert list_ex_iff)

lemma index_add_inv: "bt_inv i \<Longrightarrow> bt_inv (index_add k n i)"
  by (simp add: index_add_def Let_def bt_simps)

lemma index_drop_look:
  assumes "bt_inv i"
  shows "bt_get_or [] (index_drop k n i) k' =
     (if k' = k then filter (\<lambda>m. m \<noteq> n) (bt_get_or [] i k) else bt_get_or [] i k')"
  using assms by (cases "bt_get i k") (auto simp: index_drop_def Let_def bt_get_or_def bt_simps)

lemma index_retain_look:
  "bt_get_or [] (index_retain k n i) k' =
     (if k' = k then filter (\<lambda>m. m \<noteq> n) (bt_get_or [] i k) else bt_get_or [] i k')"
  by (cases "bt_get i k") (auto simp: index_retain_def bt_get_or_def bt_simps)

lemma index_del_inv: "bt_inv i \<Longrightarrow> bt_inv (index_drop k n i)" "bt_inv i \<Longrightarrow> bt_inv (index_retain k n i)"
  by (auto simp: index_drop_def index_retain_def Let_def bt_simps split: option.splits)

interpretation ixd: inverted_index bt_inv "bt_get_or []" index_add index_drop
  by unfold_locales (simp_all add: index_add_inv index_add_look index_drop_look index_del_inv)

interpretation ixr: inverted_index bt_inv "bt_get_or []" index_add index_retain
  by unfold_locales (simp_all add: index_add_inv index_add_look index_retain_look index_del_inv)

section \<open>The store invariant\<close>

text \<open>The two relations the indexes invert.\<close>

definition files_with_kv :: "file_attr_store \<Rightarrow> rstring \<times> rstring \<Rightarrow> rstring set" where
  "files_with_kv s e = {n. \<exists>a. bt_get (by_name s) n = Some a \<and> bt_get (kv a) (fst e) = Some (snd e)}"

definition files_with_tag :: "file_attr_store \<Rightarrow> rstring \<Rightarrow> rstring set" where
  "files_with_tag s t = {n. \<exists>a. bt_get (by_name s) n = Some a \<and> t \<in> set (tags a)}"

definition index_inverts :: "('k::linorder, rstring list) btree_map \<Rightarrow> ('k \<Rightarrow> rstring set) \<Rightarrow> bool" where
  "index_inverts i R \<longleftrightarrow> bt_inv i \<and> (\<forall>k. distinct (bt_get_or [] i k) \<and> set (bt_get_or [] i k) = R k)"

definition store_ok :: "file_attr_store \<Rightarrow> bool" where
  "store_ok s \<longleftrightarrow>
     bt_inv (by_name s) \<and>
     (\<forall>n a. bt_get (by_name s) n = Some a \<longrightarrow> bt_inv (kv a) \<and> distinct (tags a)) \<and>
     index_inverts (index_kv s) (files_with_kv s) \<and>
     index_inverts (index_tag s) (files_with_tag s)"

lemma inverts_eq: "ixd.inverts i R = index_inverts i R" "ixr.inverts i R = index_inverts i R"
  by (simp_all add: ixd.inverts_def ixr.inverts_def index_inverts_def)

lemmas index_add_inverts = ixd.inverts_add [unfolded inverts_eq]
lemmas index_drop_inverts = ixd.inverts_del [unfolded inverts_eq]
lemmas index_retain_inverts = ixr.inverts_del [unfolded inverts_eq]
lemmas index_fold_drop_inverts = ixd.inverts_fold_del [unfolded inverts_eq]

lemma index_inverts_cong: "index_inverts i R \<Longrightarrow> (\<And>k. R k = R' k) \<Longrightarrow> index_inverts i R'"
  by (simp add: index_inverts_def)

text \<open>The attributes a name has before an update: the stored ones or the default.\<close>

lemma store_ok_attrs:
  assumes "store_ok s"
  shows "bt_inv (kv (bt_get_or file_attrs_default (by_name s) n))"
    and "distinct (tags (bt_get_or file_attrs_default (by_name s) n))"
  using assms by (auto simp: store_ok_def bt_get_or_def file_attrs_default_def bt_inv_def split: option.splits)

lemma in_files_with_kv:
  "n \<in> files_with_kv s e \<longleftrightarrow> bt_get (kv (bt_get_or file_attrs_default (by_name s) n)) (fst e) = Some (snd e)"
  by (auto simp: files_with_kv_def bt_get_or_def file_attrs_default_def bt_simps split: option.splits)

lemma in_files_with_tag:
  "n \<in> files_with_tag s t \<longleftrightarrow> t \<in> set (tags (bt_get_or file_attrs_default (by_name s) n))"
  by (auto simp: files_with_tag_def bt_get_or_def file_attrs_default_def split: option.splits)

lemma store_ok_new: "store_ok file_attr_store_new"
  by (simp add: store_ok_def file_attr_store_new_def index_inverts_def files_with_kv_def
      files_with_tag_def bt_inv_def bt_get_or_def bt_simps)

lemma store_okD:
  assumes "store_ok s"
  shows "bt_inv (by_name s)" "index_inverts (index_kv s) (files_with_kv s)"
    "index_inverts (index_tag s) (files_with_tag s)"
    "\<And>n a. bt_get (by_name s) n = Some a \<Longrightarrow> bt_inv (kv a) \<and> distinct (tags a)"
  using assms by (auto simp: store_ok_def)

text \<open>
  One rule for every update that replaces the attributes of one name: the new
  attributes are well formed and the new indexes invert the changed relations.
\<close>

lemma store_ok_update:
  assumes s: "store_ok s" and "bt_inv (kv a)" "distinct (tags a)"
    and "index_inverts ikv (\<lambda>e. if bt_get (kv a) (fst e) = Some (snd e)
           then insert name (files_with_kv s e) else files_with_kv s e - {name})"
    and "index_inverts itag (\<lambda>t. if t \<in> set (tags a)
           then insert name (files_with_tag s t) else files_with_tag s t - {name})"
  shows "store_ok \<lparr>by_name = bt_insert name a (by_name s), index_kv = ikv, index_tag = itag\<rparr>"
proof -
  let ?s = "\<lparr>by_name = bt_insert name a (by_name s), index_kv = ikv, index_tag = itag\<rparr>"
  have "files_with_kv ?s = (\<lambda>e. if bt_get (kv a) (fst e) = Some (snd e)
           then insert name (files_with_kv s e) else files_with_kv s e - {name})"
    by (auto simp: files_with_kv_def bt_simps fun_eq_iff split: if_splits)
  moreover have "files_with_tag ?s = (\<lambda>t. if t \<in> set (tags a)
           then insert name (files_with_tag s t) else files_with_tag s t - {name})"
    by (auto simp: files_with_tag_def bt_simps fun_eq_iff split: if_splits)
  ultimately show ?thesis
    using assms by (auto simp: store_ok_def bt_simps split: if_splits)
qed

lemma store_eta:
  "s\<lparr>by_name := b\<rparr> = \<lparr>by_name = b, index_kv = index_kv s, index_tag = index_tag s\<rparr>"
  "s\<lparr>by_name := b, index_kv := i\<rparr> = \<lparr>by_name = b, index_kv = i, index_tag = index_tag s\<rparr>"
  "s\<lparr>by_name := b, index_tag := t\<rparr> = \<lparr>by_name = b, index_kv = index_kv s, index_tag = t\<rparr>"
  by simp_all

lemma files_with_index_upd:
  "files_with_kv (s\<lparr>index_tag := i\<rparr>) = files_with_kv s"
  "files_with_tag (s\<lparr>index_tag := i\<rparr>) = files_with_tag s"
  by (simp_all add: files_with_kv_def files_with_tag_def fun_eq_iff)

section \<open>Every operation keeps the invariant\<close>

lemma set_kv_ok:
  assumes s: "store_ok s"
  shows "store_ok (set_kv s name key val)"
proof -
  define a where "a = bt_get_or file_attrs_default (by_name s) name"
  define idx where "idx = (case bt_get (kv a) key of Some old \<Rightarrow> index_retain (key, old) name (index_kv s)
                                                   | None \<Rightarrow> index_kv s)"
  note wf = store_ok_attrs [OF s, of name, folded a_def]
  have other: "name \<in> files_with_kv s (k, v) \<longleftrightarrow> bt_get (kv a) k = Some v" for k v
    by (simp add: in_files_with_kv a_def)
  have idx: "index_inverts idx (\<lambda>e. if fst e = key then files_with_kv s e - {name} else files_with_kv s e)"
  proof (cases "bt_get (kv a) key")
    case None
    then show ?thesis unfolding idx_def
      by (auto intro!: index_inverts_cong [OF store_okD(2) [OF s]] simp: other split: if_splits)
  next
    case (Some old)
    then show ?thesis unfolding idx_def
      by (auto intro!: index_inverts_cong [OF index_retain_inverts [OF store_okD(2) [OF s], of "(key, old)" name]]
          simp: other split: if_splits)
  qed
  have "store_ok \<lparr>by_name = bt_insert name (a\<lparr>kv := bt_insert key val (kv a)\<rparr>) (by_name s),
                  index_kv = index_add (key, val) name idx, index_tag = index_tag s\<rparr>"
  proof (rule store_ok_update [OF s])
    show "bt_inv (kv (a\<lparr>kv := bt_insert key val (kv a)\<rparr>))" using wf by (simp add: bt_simps)
    show "distinct (tags (a\<lparr>kv := bt_insert key val (kv a)\<rparr>))" using wf by simp
    show "index_inverts (index_add (key, val) name idx)
        (\<lambda>e. if bt_get (kv (a\<lparr>kv := bt_insert key val (kv a)\<rparr>)) (fst e) = Some (snd e)
             then insert name (files_with_kv s e) else files_with_kv s e - {name})"
      by (rule index_inverts_cong [OF index_add_inverts [OF idx, of "(key, val)" name]])
        (auto simp: bt_simps other split: if_splits)
    show "index_inverts (index_tag s) (\<lambda>t. if t \<in> set (tags (a\<lparr>kv := bt_insert key val (kv a)\<rparr>))
             then insert name (files_with_tag s t) else files_with_tag s t - {name})"
      by (rule index_inverts_cong [OF store_okD(3) [OF s]])
        (auto simp: in_files_with_tag a_def split: if_splits)
  qed
  then show ?thesis by (simp add: set_kv_def Let_def a_def idx_def store_eta)
qed

lemma add_tag_ok:
  assumes s: "store_ok s"
  shows "store_ok (add_tag s name tag)"
proof -
  define a where "a = bt_get_or file_attrs_default (by_name s) name"
  define a' where "a' = (if list_ex (\<lambda>t. t = tag) (tags a) then a else a\<lparr>tags := tags a @ [tag]\<rparr>)"
  note wf = store_ok_attrs [OF s, of name, folded a_def]
  have a': "kv a' = kv a" "distinct (tags a')" "set (tags a') = insert tag (set (tags a))"
    using wf by (auto simp: a'_def list_ex_iff)
  have "store_ok \<lparr>by_name = bt_insert name a' (by_name s), index_kv = index_kv s,
                  index_tag = index_add tag name (index_tag s)\<rparr>"
  proof (rule store_ok_update [OF s])
    show "index_inverts (index_kv s) (\<lambda>e. if bt_get (kv a') (fst e) = Some (snd e)
             then insert name (files_with_kv s e) else files_with_kv s e - {name})"
      by (rule index_inverts_cong [OF store_okD(2) [OF s]])
        (auto simp: in_files_with_kv a' a_def split: if_splits)
    show "index_inverts (index_add tag name (index_tag s)) (\<lambda>t. if t \<in> set (tags a')
             then insert name (files_with_tag s t) else files_with_tag s t - {name})"
      by (rule index_inverts_cong [OF index_add_inverts [OF store_okD(3) [OF s], of tag name]])
        (auto simp: in_files_with_tag a' a_def split: if_splits)
  qed (use wf a' in simp_all)
  then show ?thesis unfolding add_tag_def Let_def store_eta a'_def a_def by simp
qed

lemma set_owner_ok: "store_ok s \<Longrightarrow> store_ok (set_owner s name owner)"
  by (simp add: set_owner_def set_kv_ok)

lemma set_digest_ok:
  assumes s: "store_ok s"
  shows "store_ok (set_digest s name dig)"
proof -
  define a where "a = bt_get_or file_attrs_default (by_name s) name"
  note wf = store_ok_attrs [OF s, of name, folded a_def]
  have "store_ok \<lparr>by_name = bt_insert name (a\<lparr>digest := dig\<rparr>) (by_name s), index_kv = index_kv s,
                  index_tag = index_tag s\<rparr>"
    by (rule store_ok_update [OF s])
      (use wf in \<open>auto intro!: index_inverts_cong [OF store_okD(2) [OF s]] index_inverts_cong [OF store_okD(3) [OF s]]
         simp: in_files_with_kv in_files_with_tag a_def split: if_splits\<close>)
  then show ?thesis by (simp add: set_digest_def Let_def a_def store_eta)
qed

lemma remove_tag_ok:
  assumes s: "store_ok s"
  shows "store_ok (fst (remove_tag s name tag))"
proof (cases "bt_get (by_name s) name")
  case None
  then have nt: "name \<notin> files_with_tag s t" for t by (simp add: files_with_tag_def)
  have "index_inverts (index_drop tag name (index_tag s)) (files_with_tag s)"
    by (rule index_inverts_cong [OF index_drop_inverts [OF store_okD(3) [OF s], of tag name]]) (use nt in auto)
  then show ?thesis
    using s None by (simp add: remove_tag_def store_ok_def files_with_index_upd)
next
  case (Some a)
  define a' where "a' = a\<lparr>tags := filter (\<lambda>t. t \<noteq> tag) (tags a)\<rparr>"
  note wf = store_okD(4) [OF s Some]
  have "store_ok \<lparr>by_name = bt_insert name a' (by_name s), index_kv = index_kv s,
                  index_tag = index_drop tag name (index_tag s)\<rparr>"
  proof (rule store_ok_update [OF s])
    show "index_inverts (index_kv s) (\<lambda>e. if bt_get (kv a') (fst e) = Some (snd e)
             then insert name (files_with_kv s e) else files_with_kv s e - {name})"
      by (rule index_inverts_cong [OF store_okD(2) [OF s]])
        (auto simp: files_with_kv_def Some a'_def split: if_splits)
    show "index_inverts (index_drop tag name (index_tag s)) (\<lambda>t. if t \<in> set (tags a')
             then insert name (files_with_tag s t) else files_with_tag s t - {name})"
      by (rule index_inverts_cong [OF index_drop_inverts [OF store_okD(3) [OF s], of tag name]])
        (auto simp: files_with_tag_def Some a'_def split: if_splits)
  qed (use wf in \<open>simp_all add: a'_def\<close>)
  then show ?thesis by (simp add: remove_tag_def Some Let_def a'_def store_eta)
qed

lemma remove_kv_ok:
  assumes s: "store_ok s"
  shows "store_ok (fst (remove_kv s name key))"
proof (cases "bt_get (by_name s) name")
  case None
  with s show ?thesis by (simp add: remove_kv_def)
next
  case (Some a)
  define a' where "a' = a\<lparr>kv := bt_remove key (kv a)\<rparr>"
  define idx where "idx = (case bt_get (kv a) key of Some old \<Rightarrow> index_drop (key, old) name (index_kv s)
                                                   | None \<Rightarrow> index_kv s)"
  note wf = store_okD(4) [OF s Some]
  have old: "name \<in> files_with_kv s e \<longleftrightarrow> bt_get (kv a) (fst e) = Some (snd e)" for e
    by (auto simp: files_with_kv_def Some)
  have idx: "index_inverts idx (\<lambda>e. if fst e = key then files_with_kv s e - {name} else files_with_kv s e)"
  proof (cases "bt_get (kv a) key")
    case None
    then show ?thesis unfolding idx_def
      by (auto intro!: index_inverts_cong [OF store_okD(2) [OF s]] simp: old split: if_splits)
  next
    case (Some w)
    then show ?thesis unfolding idx_def
      by (auto intro!: index_inverts_cong [OF index_drop_inverts [OF store_okD(2) [OF s], of "(key, w)" name]]
          simp: old split: if_splits)
  qed
  have "store_ok \<lparr>by_name = bt_insert name a' (by_name s), index_kv = idx, index_tag = index_tag s\<rparr>"
  proof (rule store_ok_update [OF s])
    show "index_inverts idx (\<lambda>e. if bt_get (kv a') (fst e) = Some (snd e)
             then insert name (files_with_kv s e) else files_with_kv s e - {name})"
      by (rule index_inverts_cong [OF idx]) (use wf in \<open>auto simp: a'_def bt_simps old split: if_splits\<close>)
    show "index_inverts (index_tag s) (\<lambda>t. if t \<in> set (tags a')
             then insert name (files_with_tag s t) else files_with_tag s t - {name})"
      by (rule index_inverts_cong [OF store_okD(3) [OF s]])
        (auto simp: files_with_tag_def Some a'_def split: if_splits)
  qed (use wf in \<open>simp_all add: a'_def bt_simps\<close>)
  then show ?thesis by (auto simp: remove_kv_def Some Let_def a'_def idx_def store_eta split: option.splits)
qed

lemma remove_file_ok:
  assumes s: "store_ok s"
  shows "store_ok (fst (remove_file s name))"
proof (cases "bt_get (by_name s) name")
  case None
  with s show ?thesis by (simp add: remove_file_def)
next
  case (Some a)
  note inv = store_okD(1) [OF s] and wf = store_okD(4) [OF s Some]
  define s' where "s' = fst (remove_file s name)"
  have s'_eq: "s' = \<lparr>by_name = bt_remove name (by_name s),
             index_kv = fold (\<lambda>e. index_drop e name) (kv a) (index_kv s),
             index_tag = fold (\<lambda>t. index_drop t name) (tags a) (index_tag s)\<rparr>"
    by (simp add: s'_def remove_file_def Some)
  have "index_inverts (index_kv s') (files_with_kv s')"
    unfolding s'_eq file_attr_store.simps
  proof (rule index_inverts_cong [OF index_fold_drop_inverts [OF store_okD(2) [OF s]]])
    fix e :: "rstring \<times> rstring"
    have "e \<in> set (kv a) \<longleftrightarrow> name \<in> files_with_kv s e"
      using bt.entries_set [of "kv a" "fst e" "snd e"] wf by (auto simp: files_with_kv_def Some)
    then show "(if e \<in> set (kv a) then files_with_kv s e - {name} else files_with_kv s e) =
        files_with_kv \<lparr>by_name = bt_remove name (by_name s),
             index_kv = fold (\<lambda>e. index_drop e name) (kv a) (index_kv s),
             index_tag = fold (\<lambda>t. index_drop t name) (tags a) (index_tag s)\<rparr> e"
      by (auto simp: files_with_kv_def bt.get_del [OF inv])
  qed
  moreover have "index_inverts (index_tag s') (files_with_tag s')"
    unfolding s'_eq file_attr_store.simps
    by (rule index_inverts_cong [OF index_fold_drop_inverts [OF store_okD(3) [OF s]]])
      (auto simp: files_with_tag_def Some bt.get_del [OF inv])
  ultimately have "store_ok s'"
    using inv store_okD(4) [OF s] by (auto simp: store_ok_def s'_eq bt.get_del [OF inv] bt.inv_del split: if_splits)
  then show ?thesis by (simp add: s'_def)
qed

lemmas store_ops_ok = store_ok_new set_kv_ok add_tag_ok set_owner_ok set_digest_ok
  remove_tag_ok remove_kv_ok remove_file_ok

section \<open>What the queries return\<close>

lemma memmem_sublist: "memmem hay needle \<longleftrightarrow> sublist needle hay"
proof
  assume "memmem hay needle"
  then consider "needle = []" | i where "take (length needle) (drop i hay) = needle"
    by (simp add: memmem_def list_ex_iff Bex_def split: if_splits) blast+
  then show "sublist needle hay"
  proof cases
    case (2 i)
    have "hay = take i hay @ take (length needle) (drop i hay) @ drop (length needle) (drop i hay)"
      by (simp only: append_take_drop_id)
    with 2 show ?thesis by (metis sublist_appendI)
  qed simp
next
  assume "sublist needle hay"
  then obtain ps ss where hay: "hay = ps @ needle @ ss" by (auto simp: sublist_def)
  then have "length ps \<in> set [0..<length hay - length needle + 1]"
    and "take (length needle) (drop (length ps) hay) = needle" by auto
  with hay show "memmem hay needle"
    by (auto simp: memmem_def list_ex_iff intro!: bexI [of _ "length ps"])
qed

lemma scan_set:
  assumes "store_ok s"
  shows "n \<in> set (query_full_scan s tag owner keyword) \<longleftrightarrow>
     (\<exists>a. bt_get (by_name s) n = Some a \<and> scan_match tag owner keyword a)"
  using bt.filter_entries_set [OF store_okD(1) [OF assms], of n] by (simp add: query_full_scan_def)

lemma scan_distinct:
  assumes "store_ok s"
  shows "distinct (query_full_scan s tag owner keyword)"
  unfolding query_full_scan_def by (rule bt.filter_entries_distinct [OF store_okD(1) [OF assms]])

text \<open>The candidate list after the two indexed filters.\<close>

definition indexed_candidates :: "file_attr_store \<Rightarrow> rstring option \<Rightarrow> rstring option \<Rightarrow> rstring list option" where
  "indexed_candidates s tag owner =
     (let c1 = (case tag of Some t \<Rightarrow> Some (intersect None (bt_get_or [] (index_tag s) t)) | None \<Rightarrow> None)
      in case owner of
           Some ow \<Rightarrow> Some (intersect c1 (bt_get_or [] (index_kv s) (str ''owner'', ow)))
         | None \<Rightarrow> c1)"

lemma query_indexed_alt:
  "query_indexed s tag owner keyword =
     (case keyword of
        Some k \<Rightarrow> filter (\<lambda>n. case bt_get (by_name s) n of Some a \<Rightarrow> memmem (digest a) k | None \<Rightarrow> False)
                   (case indexed_candidates s tag owner of Some c \<Rightarrow> c | None \<Rightarrow> bt_keys (by_name s))
      | None \<Rightarrow> (case indexed_candidates s tag owner of Some c \<Rightarrow> c | None \<Rightarrow> []))"
  by (simp add: query_indexed_def indexed_candidates_def Let_def split: option.splits)

lemma indexed_candidates_spec:
  assumes s: "store_ok s" and c: "indexed_candidates s tag owner = Some c"
  shows "distinct c" and "n \<in> set c \<longleftrightarrow> (\<exists>a. bt_get (by_name s) n = Some a \<and> scan_match tag owner None a)"
proof -
  have ik: "distinct (bt_get_or [] (index_kv s) k)" "set (bt_get_or [] (index_kv s) k) = files_with_kv s k" for k
    using store_okD(2) [OF s] by (simp_all add: index_inverts_def del: split_paired_All)
  have it: "distinct (bt_get_or [] (index_tag s) t)" "set (bt_get_or [] (index_tag s) t) = files_with_tag s t" for t
    using store_okD(3) [OF s] by (auto simp: index_inverts_def)
  show "distinct c" and "n \<in> set c \<longleftrightarrow> (\<exists>a. bt_get (by_name s) n = Some a \<and> scan_match tag owner None a)"
    using c ik it
    by (cases tag; cases owner; auto simp: indexed_candidates_def intersect_def scan_match_def
        files_with_kv_def files_with_tag_def list_ex_iff)+
qed

lemma indexed_candidates_None: "indexed_candidates s tag owner = None \<longleftrightarrow> tag = None \<and> owner = None"
  by (simp add: indexed_candidates_def split: option.splits)

lemma scan_match_keyword:
  "scan_match tag owner keyword a \<longleftrightarrow>
     scan_match tag owner None a \<and> (case keyword of Some k \<Rightarrow> memmem (digest a) k | None \<Rightarrow> True)"
  by (simp add: scan_match_def split: option.splits)

lemma query_indexed_spec:
  assumes s: "store_ok s" and some: "tag \<noteq> None \<or> owner \<noteq> None \<or> keyword \<noteq> None"
  shows "distinct (query_indexed s tag owner keyword)"
    and "n \<in> set (query_indexed s tag owner keyword) \<longleftrightarrow> n \<in> set (query_full_scan s tag owner keyword)"
proof -
  let ?base = "case indexed_candidates s tag owner of Some c \<Rightarrow> c | None \<Rightarrow> bt_keys (by_name s)"
  have base: "distinct ?base" "m \<in> set ?base \<longleftrightarrow> (\<exists>a. bt_get (by_name s) m = Some a \<and> scan_match tag owner None a)" for m
  proof -
    show "distinct ?base"
      using bt.entries_distinct [OF store_okD(1) [OF s]] indexed_candidates_spec(1) [OF s]
      by (auto simp: bt_keys_def split: option.splits)
    show "m \<in> set ?base \<longleftrightarrow> (\<exists>a. bt_get (by_name s) m = Some a \<and> scan_match tag owner None a)"
      using bt.keys_dom [OF store_okD(1) [OF s]] indexed_candidates_spec(2) [OF s, of tag owner _ m]
      by (cases "indexed_candidates s tag owner")
        (auto simp: bt_keys_def scan_match_def dest: indexed_candidates_None [THEN iffD1])
  qed
  have eq: "query_indexed s tag owner keyword = (case keyword of
        Some k \<Rightarrow> filter (\<lambda>n. case bt_get (by_name s) n of Some a \<Rightarrow> memmem (digest a) k | None \<Rightarrow> False) ?base
      | None \<Rightarrow> ?base)"
    using some by (auto simp: query_indexed_alt indexed_candidates_None split: option.splits)
  show "distinct (query_indexed s tag owner keyword)"
    using base(1) by (simp add: eq split: option.splits)
  show "n \<in> set (query_indexed s tag owner keyword) \<longleftrightarrow> n \<in> set (query_full_scan s tag owner keyword)"
    using base(2) [of n] by (auto simp: eq scan_set [OF s] scan_match_keyword [of tag owner keyword] split: option.splits)
qed

section \<open>Runs of the store\<close>

text \<open>Any sequence of the store's mutating operations, as the kernel issues them.\<close>

datatype store_op =
    SetKv rstring rstring rstring
  | AddTag rstring rstring
  | SetOwner rstring rstring
  | SetDigest rstring "u8 list"
  | RemoveTag rstring rstring
  | RemoveKv rstring rstring
  | RemoveFile rstring

fun store_step :: "store_op \<Rightarrow> file_attr_store \<Rightarrow> file_attr_store" where
  "store_step (SetKv n k v) s = set_kv s n k v"
| "store_step (AddTag n t) s = add_tag s n t"
| "store_step (SetOwner n w) s = set_owner s n w"
| "store_step (SetDigest n d) s = set_digest s n d"
| "store_step (RemoveTag n t) s = fst (remove_tag s n t)"
| "store_step (RemoveKv n k) s = fst (remove_kv s n k)"
| "store_step (RemoveFile n) s = fst (remove_file s n)"

lemma store_step_ok: "store_ok s \<Longrightarrow> store_ok (store_step opn s)"
  by (cases opn) (simp_all add: store_ops_ok)

lemma store_run_ok: "store_ok s \<Longrightarrow> store_ok (fold store_step ops s)"
  by (induction ops arbitrary: s) (simp_all add: store_step_ok)

lemma demo_file_ok: "store_ok s \<Longrightarrow> store_ok (demo_file name ts owner dig s)"
proof -
  assume "store_ok s"
  then have "store_ok (fold (\<lambda>t s. add_tag s (str name) (str t)) ts s)"
    by (induction ts arbitrary: s) (simp_all add: add_tag_ok)
  then show ?thesis by (simp add: demo_file_def store_ops_ok)
qed

lemma init_demo_attrs_ok: "store_ok s \<Longrightarrow> store_ok (init_demo_attrs s)"
  by (simp add: init_demo_attrs_def Let_def demo_file_ok)

section \<open>The benchmark data set\<close>

lemma bench_name_inj: "bench_name i = bench_name j \<longleftrightarrow> i = j"
  by (simp add: bench_name_def decimal_inj)

lemma bt_inv_fold_insert: "bt_inv m \<Longrightarrow> bt_inv (fold (\<lambda>i. bt_insert (f i) (g i)) xs m)"
  by (induction xs arbitrary: m) (simp_all add: bt_simps)

lemma bt_get_fold_insert:
  assumes "\<And>i j. f i = f j \<longleftrightarrow> i = j"
  shows "bt_get (fold (\<lambda>i. bt_insert (f i) (g i)) [0..<n] []) k = Some a \<longleftrightarrow> (\<exists>i<n. k = f i \<and> a = g i)"
  using assms by (induction n) (auto simp: bt_simps less_Suc_eq)

lemma bench_store_by_name:
  "bt_get (by_name (bench_store n)) k = Some a \<longleftrightarrow> (\<exists>i<n. k = bench_name i \<and> a = bench_attrs (bench_hits n) i)"
  using bt_get_fold_insert [OF bench_name_inj] by (simp add: bench_store_def Let_def)

lemma bench_literals:
  "str ''needle'' \<noteq> str ''bg''" "str ''Agent-Hit'' \<noteq> str ''Agent-Bg''"
  by (simp_all add: str_def)

lemma bench_attrs_simps:
  "bt_inv (kv (bench_attrs h i))" "distinct (tags (bench_attrs h i))"
  "bt_get (kv (bench_attrs h i)) k = Some v \<longleftrightarrow>
     k = str ''owner'' \<and> v = (if i < h then str ''Agent-Hit'' else str ''Agent-Bg'')"
  "t \<in> set (tags (bench_attrs h i)) \<longleftrightarrow> t = (if i < h then str ''needle'' else str ''bg'')"
  by (auto simp: bench_attrs_def bt_inv_def bt_get_def)

lemma bench_names_distinct: "distinct (map bench_name (filter P [0..<n]))"
  by (simp add: distinct_map inj_on_def bench_name_inj)

lemma bench_index_look:
  "bt_get_or [] (index_kv (bench_store n)) e =
     (if e = (str ''owner'', str ''Agent-Hit'') then map bench_name (filter (\<lambda>i. i < bench_hits n) [0..<n])
      else if e = (str ''owner'', str ''Agent-Bg'') then map bench_name (filter (\<lambda>i. \<not> i < bench_hits n) [0..<n])
      else [])"
  "bt_get_or [] (index_tag (bench_store n)) t =
     (if t = str ''needle'' then map bench_name (filter (\<lambda>i. i < bench_hits n) [0..<n])
      else if t = str ''bg'' then map bench_name (filter (\<lambda>i. \<not> i < bench_hits n) [0..<n])
      else [])"
  by (simp_all only: bench_store_def Let_def bt_get_or_insert file_attr_store.simps)
    (simp_all add: bt_get_or_def bt_simps)

lemma bench_index_inv: "bt_inv (index_kv (bench_store n))" "bt_inv (index_tag (bench_store n))"
  by (simp_all only: bench_store_def Let_def file_attr_store.simps bt_inv_insert bt.inv_empty)

lemma bench_files_with_kv:
  "files_with_kv (bench_store n) e = {bench_name i | i. i < n \<and>
      e = (str ''owner'', if i < bench_hits n then str ''Agent-Hit'' else str ''Agent-Bg'')}"
proof -
  have "files_with_kv (bench_store n) e =
      {bench_name i | i. i < n \<and> bt_get (kv (bench_attrs (bench_hits n) i)) (fst e) = Some (snd e)}"
    by (auto simp: files_with_kv_def bench_store_by_name)
  then show ?thesis by (cases e) (simp add: bench_attrs_simps(3))
qed

lemma bench_files_with_tag:
  "files_with_tag (bench_store n) t = {bench_name i | i. i < n \<and>
      t = (if i < bench_hits n then str ''needle'' else str ''bg'')}"
proof -
  have "files_with_tag (bench_store n) t =
      {bench_name i | i. i < n \<and> t \<in> set (tags (bench_attrs (bench_hits n) i))}"
    by (auto simp: files_with_tag_def bench_store_by_name)
  then show ?thesis by (simp add: bench_attrs_simps(4))
qed

lemma bench_store_ok: "store_ok (bench_store n)"
proof -
  have inv: "bt_inv (by_name (bench_store n))"
    using bt_inv_fold_insert [OF bt.inv_empty] by (simp add: bench_store_def Let_def)
  have "index_inverts (index_kv (bench_store n)) (files_with_kv (bench_store n))"
    unfolding index_inverts_def bench_files_with_kv bench_files_with_tag bench_index_look
    using bench_index_inv bench_names_distinct bench_literals by (auto simp del: split_paired_All)
  moreover have "index_inverts (index_tag (bench_store n)) (files_with_tag (bench_store n))"
    unfolding index_inverts_def bench_files_with_kv bench_files_with_tag bench_index_look
    using bench_index_inv bench_names_distinct bench_literals by auto
  ultimately show ?thesis
    using inv by (auto simp: store_ok_def bench_store_by_name bench_attrs_simps)
qed

section \<open>Properties\<close>

text \<open>The store as the kernel has it after boot and any sequence of operations.\<close>

definition booted_store :: "store_op list \<Rightarrow> file_attr_store" where
  "booted_store ops = fold store_step ops (init_demo_attrs file_attr_store_new)"

lemma booted_store_ok: "store_ok (booted_store ops)"
  by (simp add: booted_store_def store_run_ok init_demo_attrs_ok store_ok_new)

text \<open>C6: index soundness.  After boot and any sequence of set and remove operations, both
  inverted indexes are exactly the inversion of the per-file attributes: a name is listed
  under \<open>(key, value)\<close> (or under a tag) once if the file has that attribute, and not at
  all otherwise.\<close>

theorem file_attr_indexes_exact:
  "store_ok (booted_store ops)"
  by (rule booted_store_ok)

text \<open>C14: the optimised query agrees with the reference.  When at least one filter is
  given, \<open>query_indexed\<close> returns the same files as \<open>query_full_scan\<close>, each once.\<close>

theorem indexed_query_equals_scan:
  assumes "tag \<noteq> None \<or> owner \<noteq> None \<or> keyword \<noteq> None"
  shows "mset (query_indexed (booted_store ops) tag owner keyword)
       = mset (query_full_scan (booted_store ops) tag owner keyword)"
proof (rule set_eq_iff_mset_eq_distinct [THEN iffD1])
  note spec = query_indexed_spec [OF booted_store_ok [of ops] assms]
  show "distinct (query_indexed (booted_store ops) tag owner keyword)" by (rule spec(1))
  show "distinct (query_full_scan (booted_store ops) tag owner keyword)"
    by (rule scan_distinct [OF booted_store_ok])
  show "set (query_indexed (booted_store ops) tag owner keyword)
      = set (query_full_scan (booted_store ops) tag owner keyword)"
    using spec(2) by blast
qed

theorem indexed_query_equals_scan_witness:
  "mset (query_indexed (booted_store [AddTag (str ''a'') (str ''x'')]) (Some (str ''x'')) None None)
   = mset (query_full_scan (booted_store [AddTag (str ''a'') (str ''x'')]) (Some (str ''x'')) None None)"
  by (rule indexed_query_equals_scan) simp

text \<open>the two routines differ when no filter is given: the indexed query returns no
  file and the full scan returns every file.\<close>

lemma unfiltered_queries_differ:
  "query_indexed s None None None = [] \<and> query_full_scan s None None None = bt_keys (by_name s)"
  by (simp add: query_indexed_def query_full_scan_def scan_match_def bt_keys_def)

lemma add_tag_present:
  obtains a where "bt_get (by_name (add_tag s name tag)) name = Some a" "tag \<in> set (tags a)"
proof
  let ?a = "bt_get_or file_attrs_default (by_name s) name"
  show "bt_get (by_name (add_tag s name tag)) name =
      Some (if list_ex (\<lambda>t. t = tag) (tags ?a) then ?a else ?a\<lparr>tags := tags ?a @ [tag]\<rparr>)"
    by (simp add: add_tag_def Let_def bt_simps)
  show "tag \<in> set (tags (if list_ex (\<lambda>t. t = tag) (tags ?a) then ?a else ?a\<lparr>tags := tags ?a @ [tag]\<rparr>))"
    by (simp add: list_ex_iff)
qed

lemma remove_tag_absent:
  assumes "store_ok s"
  shows "name \<notin> set (query_full_scan (fst (remove_tag s name tag)) (Some tag) None None)"
  unfolding scan_set [OF remove_tag_ok [OF assms]]
  by (cases "bt_get (by_name s) name") (auto simp: remove_tag_def Let_def bt_simps scan_match_def list_ex_iff)

text \<open>set, query and delete a tag.  A tagged file is found through the index by its
  tag; \<open>remove_tag\<close> then reports a removal and the file is found no more.\<close>

lemma tag_set_query_delete:
  "name \<in> set (query_indexed (add_tag (booted_store ops) name tag) (Some tag) None None) \<and>
   snd (remove_tag (add_tag (booted_store ops) name tag) name tag) \<and>
   name \<notin> set (query_indexed (fst (remove_tag (add_tag (booted_store ops) name tag) name tag)) (Some tag) None None)"
proof -
  let ?s = "add_tag (booted_store ops) name tag"
  have ok: "store_ok ?s" by (simp add: store_ops_ok booted_store_ok)
  obtain a where a: "bt_get (by_name ?s) name = Some a" "tag \<in> set (tags a)"
    by (rule add_tag_present)
  have "name \<in> set (query_full_scan ?s (Some tag) None None)"
    using a by (auto simp: scan_set [OF ok] scan_match_def list_ex_iff)
  moreover have "length (filter (\<lambda>t. t \<noteq> tag) (tags a)) \<noteq> length (tags a)"
    using length_filter_less [of tag "tags a" "\<lambda>t. t \<noteq> tag"] a(2) by simp
  then have "snd (remove_tag ?s name tag)" using a(1) by (simp add: remove_tag_def Let_def)
  moreover have "name \<notin> set (query_full_scan (fst (remove_tag ?s name tag)) (Some tag) None None)"
    by (rule remove_tag_absent [OF ok])
  ultimately show ?thesis
    using query_indexed_spec(2) [OF ok] query_indexed_spec(2) [OF remove_tag_ok [OF ok]] by simp
qed

text \<open>C21: \<open>remove_file\<close> forgets a file: it reports whether the file had attributes and
  afterwards no query of either kind returns the name, whatever the filters.\<close>

theorem remove_file_forgets:
  "snd (remove_file (booted_store ops) name) = (bt_get (by_name (booted_store ops)) name \<noteq> None) \<and>
   name \<notin> set (query_indexed (fst (remove_file (booted_store ops) name)) tag owner keyword) \<and>
   name \<notin> set (query_full_scan (fst (remove_file (booted_store ops) name)) tag owner keyword)"
proof -
  let ?s = "booted_store ops"
  have ok: "store_ok ?s" by (rule booted_store_ok)
  have gone: "bt_get (by_name (fst (remove_file ?s name))) name = None"
    using bt.get_del [OF store_okD(1) [OF ok]] by (auto simp: remove_file_def split: option.splits)
  then have scan: "name \<notin> set (query_full_scan (fst (remove_file ?s name)) tag owner keyword)"
    by (simp add: scan_set [OF remove_file_ok [OF ok]])
  have "name \<notin> set (query_indexed (fst (remove_file ?s name)) tag owner keyword)"
  proof (cases "tag = None \<and> owner = None \<and> keyword = None")
    case True
    then show ?thesis by (simp add: query_indexed_def)
  next
    case False
    with scan query_indexed_spec(2) [OF remove_file_ok [OF ok]] show ?thesis by blast
  qed
  with scan show ?thesis by (auto simp: remove_file_def split: option.splits)
qed

text \<open>C22: the benchmark compares like with like.  On its synthetic data set of \<open>n\<close> files,
  the indexed query and the full scan both return exactly the \<open>bench_hits n\<close> planted files.\<close>

theorem benchmark_queries_find_needles:
  "mset (bench_query n use_index) = mset (map bench_name [0..<bench_hits n])"
proof -
  let ?q = "query_full_scan (bench_store n) (Some (str ''needle'')) (Some (str ''Agent-Hit'')) None"
  have hits: "bench_hits n \<le> n" by (simp add: bench_hits_def)
  have match: "scan_match (Some (str ''needle'')) (Some (str ''Agent-Hit'')) None (bench_attrs h i) \<longleftrightarrow> i < h" for h i
    using bench_literals by (auto simp: scan_match_def list_ex_iff bench_attrs_simps split: if_splits)
  have "set ?q = {bench_name i | i. i < n \<and> i < bench_hits n}"
    by (auto simp: scan_set [OF bench_store_ok] bench_store_by_name match bench_name_inj)
  then have scan: "set ?q = bench_name ` {0..<bench_hits n}"
    using hits by auto
  have set_q: "set (bench_query n use_index) = bench_name ` {0..<bench_hits n}"
    using query_indexed_spec(2) [OF bench_store_ok, of "Some (str ''needle'')"] scan
    by (auto simp: bench_query_def)
  have dist: "distinct (bench_query n use_index)"
    using query_indexed_spec(1) [OF bench_store_ok, of "Some (str ''needle'')"] scan_distinct [OF bench_store_ok]
    by (simp add: bench_query_def)
  have "distinct (map bench_name [0..<bench_hits n])"
    by (simp add: distinct_map inj_on_def bench_name_inj)
  moreover have "set (bench_query n use_index) = set (map bench_name [0..<bench_hits n])"
    by (simp add: set_q)
  ultimately show ?thesis
    using set_eq_iff_mset_eq_distinct [THEN iffD1, OF dist] by blast
qed

end
