(* ===== verification/Agent_Proto.thy ===== *)
theory Agent_Proto
  imports Rust_Std
begin

text \<open>
  The tool-call protocol shared by kernel and user space (\<open>agent_proto/src/lib.rs\<close>):
  its request, response and result types, the six-byte frame header, and the framing
  around the \<open>postcard\<close> body.  \<open>postcard\<close> is a third-party crate: its serializers and
  deserializers are the fields of the record \<open>postcard\<close>, an argument of every
  definition that calls the crate.
\<close>

section \<open>Protocol types\<close>

datatype frame_error = TooShort | BadMagic | UnsupportedVersion u16

datatype tool_name = SystemStatus | QueryProcess | ReadContext | SendMessage | QueryFile

datatype proc_status = PRunning | PReady | PZombie | PBlocked

datatype agent_type_filter = AnyType | NormalType | AgentType

datatype context_target_type = TProcess | TFile | TAgent

datatype tool_params =
    PSystemStatus
  | PQueryProcess (status_filter: "proc_status option") (ty_filter: agent_type_filter)
  | PReadContext (target_type: context_target_type) (target_id: u64)
  | PSendMessage (target_pid: u64) (payload: "u8 list")
  | PQueryFile (tag_filter: "rstring option") (owner_filter: "rstring option")
      (keyword_filter: "rstring option") (use_index: bool)

record tool_request =
  req_id :: u64
  tool :: tool_name
  params :: tool_params

datatype tool_status =
    StOk | StToolNotFound | StBadParams | StPermissionDenied | StQuotaExceeded
  | StInternalError | StNotImplemented

record tool_response =
  resp_req_id :: u64
  resp_status :: tool_status
  result_offset :: u32
  result_len :: u32

record process_info =
  pi_pid :: u32
  pi_name :: rstring
  pi_status :: proc_status
  pi_is_agent :: bool

record file_info =
  fi_inode_id :: u32
  fi_name :: rstring
  fi_size :: u32
  fi_tags :: "rstring list"
  fi_owner :: "rstring option"
  fi_digest_preview :: rstring

record system_status_info =
  total_procs :: u32
  agent_procs :: u32
  running_procs :: u32
  memory_used_bytes :: u64
  uptime_ticks :: u64

record tool_descriptor =
  td_name :: rstring
  td_doc :: rstring

text \<open>The metadata list \<open>serialize_meta\<close> emits: offset, length, sequence number, time.\<close>

type_synonym meta_serde = "u32 \<times> u32 \<times> u64 \<times> u64"

definition ToolName_ALL :: "tool_name list" where
  "ToolName_ALL = [SystemStatus, QueryProcess, ReadContext, SendMessage, QueryFile]"

fun tool_as_str :: "tool_name \<Rightarrow> rstring" where
  "tool_as_str SystemStatus = str ''system_status''"
| "tool_as_str QueryProcess = str ''query_process''"
| "tool_as_str ReadContext = str ''read_context''"
| "tool_as_str SendMessage = str ''send_message''"
| "tool_as_str QueryFile = str ''query_file''"

section \<open>The postcard crate\<close>

text \<open>
  \<open>pc_to_slice\<close> fields take the capacity of the output slice and give the bytes written
  or an error; the \<open>to_allocvec\<close> fields give the bytes or an error; the \<open>from_bytes\<close>
  fields read a message from the front of a slice.
\<close>

record 'e postcard =
  pc_buffer_full :: 'e
  pc_request_to_slice :: "tool_request \<Rightarrow> nat \<Rightarrow> 'e + u8 list"
  pc_response_to_slice :: "tool_response \<Rightarrow> nat \<Rightarrow> 'e + u8 list"
  pc_request_from_bytes :: "u8 list \<Rightarrow> 'e + tool_request"
  pc_response_from_bytes :: "u8 list \<Rightarrow> 'e + tool_response"
  pc_status_info :: "system_status_info \<Rightarrow> 'e + u8 list"
  pc_process_list :: "process_info list \<Rightarrow> 'e + u8 list"
  pc_process :: "process_info \<Rightarrow> 'e + u8 list"
  pc_file_list :: "file_info list \<Rightarrow> 'e + u8 list"
  pc_tool_list :: "tool_descriptor list \<Rightarrow> 'e + u8 list"
  pc_meta_list :: "meta_serde list \<Rightarrow> 'e + u8 list"

section \<open>Frames\<close>

definition PROTO_MAGIC :: u32 where
  "PROTO_MAGIC = 0xA9E47F00"

definition PROTO_VERSION :: u16 where
  "PROTO_VERSION = 0x0001"

definition FRAME_HEADER_SIZE :: nat where
  "FRAME_HEADER_SIZE = 6"

definition write_frame_header :: "u8 list \<Rightarrow> (u8 list \<times> nat) option" where
  "write_frame_header buf =
     (if length buf \<ge> FRAME_HEADER_SIZE
      then Some (splice 4 (to_le_bytes PROTO_VERSION) (splice 0 (to_le_bytes PROTO_MAGIC) buf),
                 FRAME_HEADER_SIZE)
      else None)"

definition check_frame_header :: "u8 list \<Rightarrow> frame_error + nat" where
  "check_frame_header buf =
     (if length buf < FRAME_HEADER_SIZE then Inl TooShort
      else
        let magic = (from_le_bytes [buf ! 0, buf ! 1, buf ! 2, buf ! 3] :: u32)
        in if magic \<noteq> PROTO_MAGIC then Inl BadMagic
        else
          let version = (from_le_bytes [buf ! 4, buf ! 5] :: u16)
          in if version \<noteq> PROTO_VERSION then Inl (UnsupportedVersion version)
          else Inr FRAME_HEADER_SIZE)"

text \<open>
  The result of \<open>encode_request\<close> and \<open>encode_response\<close> is the number of bytes and the
  output slice after the call; on an error the slice is not described.
\<close>

definition encode_frame :: "'e \<Rightarrow> (nat \<Rightarrow> 'e + u8 list) \<Rightarrow> u8 list \<Rightarrow> ('e + nat \<times> u8 list) option" where
  "encode_frame full body_to_slice out =
     (if length out < FRAME_HEADER_SIZE then Some (Inl full)
      else do {
        (out1, _) \<leftarrow> write_frame_header out;
        Some (case body_to_slice (length out1 - FRAME_HEADER_SIZE) of
                Inl e \<Rightarrow> Inl e
              | Inr body \<Rightarrow> Inr (FRAME_HEADER_SIZE + length body, splice FRAME_HEADER_SIZE body out1))
      })"

definition encode_request :: "'e postcard \<Rightarrow> tool_request \<Rightarrow> u8 list \<Rightarrow> ('e + nat \<times> u8 list) option" where
  "encode_request pc req out = encode_frame (pc_buffer_full pc) (pc_request_to_slice pc req) out"

definition encode_response :: "'e postcard \<Rightarrow> tool_response \<Rightarrow> u8 list \<Rightarrow> ('e + nat \<times> u8 list) option" where
  "encode_response pc resp out = encode_frame (pc_buffer_full pc) (pc_response_to_slice pc resp) out"

datatype 'e decode_error = FrameErr frame_error | PostcardErr 'e

definition decode_frame :: "(u8 list \<Rightarrow> 'e + 'a) \<Rightarrow> u8 list \<Rightarrow> 'e decode_error + 'a" where
  "decode_frame from_bytes buf =
     (case check_frame_header buf of
        Inl e \<Rightarrow> Inl (FrameErr e)
      | Inr body_off \<Rightarrow>
          (case from_bytes (drop body_off buf) of
             Inl e \<Rightarrow> Inl (PostcardErr e)
           | Inr m \<Rightarrow> Inr m))"

definition decode_request :: "'e postcard \<Rightarrow> u8 list \<Rightarrow> 'e decode_error + tool_request" where
  "decode_request pc buf = decode_frame (pc_request_from_bytes pc) buf"

definition decode_response :: "'e postcard \<Rightarrow> u8 list \<Rightarrow> 'e decode_error + tool_response" where
  "decode_response pc buf = decode_frame (pc_response_from_bytes pc) buf"

section \<open>Lemmas\<close>

definition frame_header :: "u8 list" where
  "frame_header = to_le_bytes PROTO_MAGIC @ to_le_bytes PROTO_VERSION"

lemma length_frame_header [simp]: "length frame_header = 6"
  by (simp add: frame_header_def)

lemma take4: "length buf \<ge> 4 \<Longrightarrow> take 4 buf = [buf ! 0, buf ! 1, buf ! 2, buf ! 3]"
  by (auto simp: numeral_eq_Suc Suc_le_length_iff)

lemma take_drop42: "length buf \<ge> 6 \<Longrightarrow> take 2 (drop 4 buf) = [buf ! 4, buf ! 5]"
  by (auto simp: numeral_eq_Suc Suc_le_length_iff)

lemma le_bytes_eq_u32: "length bs = 4 \<Longrightarrow> from_le_bytes bs = (w :: u32) \<longleftrightarrow> bs = to_le_bytes w"
  using to_from_le_u32 by auto

lemma le_bytes_eq_u16: "length bs = 2 \<Longrightarrow> from_le_bytes bs = (w :: u16) \<longleftrightarrow> bs = to_le_bytes w"
  using to_from_le_u16 by auto

lemma write_frame_header_eq:
  "length buf \<ge> 6 \<Longrightarrow> write_frame_header buf = Some (frame_header @ drop 6 buf, 6)"
  by (simp add: write_frame_header_def FRAME_HEADER_SIZE_def splice_def frame_header_def)

text \<open>The check in terms of the byte strings it compares.\<close>

lemma check_frame_header_alt:
  "check_frame_header buf =
     (if length buf < 6 then Inl TooShort
      else if take 4 buf \<noteq> to_le_bytes PROTO_MAGIC then Inl BadMagic
      else if take 2 (drop 4 buf) \<noteq> to_le_bytes PROTO_VERSION
        then Inl (UnsupportedVersion (from_le_bytes (take 2 (drop 4 buf))))
      else Inr 6)"
proof (cases "length buf < 6")
  case False
  then have "from_le_bytes [buf ! 0, buf ! 1, buf ! 2, buf ! 3] = PROTO_MAGIC \<longleftrightarrow> take 4 buf = to_le_bytes PROTO_MAGIC"
    and "from_le_bytes [buf ! 4, buf ! 5] = PROTO_VERSION \<longleftrightarrow> take 2 (drop 4 buf) = to_le_bytes PROTO_VERSION"
    using le_bytes_eq_u32 [of "take 4 buf" PROTO_MAGIC] le_bytes_eq_u16 [of "take 2 (drop 4 buf)" PROTO_VERSION]
    by (simp_all add: take4 take_drop42)
  with False show ?thesis
    by (simp only: check_frame_header_def FRAME_HEADER_SIZE_def Let_def take_drop42 not_less if_False)
qed (simp add: check_frame_header_def FRAME_HEADER_SIZE_def)

lemma check_frame_header_Inr:
  "check_frame_header buf = Inr n \<longleftrightarrow> n = 6 \<and> take 6 buf = frame_header"
proof (cases "length buf < 6")
  case True
  have "take 6 buf = frame_header \<Longrightarrow> length buf \<ge> 6"
    by (metis length_frame_header length_take min.cobounded1)
  with True show ?thesis by (auto simp: check_frame_header_alt)
next
  case False
  have "take 6 buf = take 4 buf @ take 2 (drop 4 buf)"
    using take_add [of 4 2 buf] by simp
  then have "take 6 buf = frame_header \<longleftrightarrow>
      take 4 buf = to_le_bytes PROTO_MAGIC \<and> take 2 (drop 4 buf) = to_le_bytes PROTO_VERSION"
    using False by (simp add: frame_header_def)
  with False show ?thesis by (auto simp: check_frame_header_alt)
qed

text \<open>Each answer in terms of the bytes of the buffer.\<close>

lemma take_prefix: "length xs = n \<Longrightarrow> take n buf = xs \<longleftrightarrow> (\<exists>rest. buf = xs @ rest)"
  by (metis append_eq_conv_conj append_take_drop_id)

lemma check_frame_header_short: "check_frame_header buf = Inl TooShort \<longleftrightarrow> length buf < 6"
  by (simp add: check_frame_header_alt)

lemma check_frame_header_magic:
  "check_frame_header buf = Inl BadMagic \<longleftrightarrow> 6 \<le> length buf \<and> (\<nexists>rest. buf = to_le_bytes PROTO_MAGIC @ rest)"
  using take_prefix [of "to_le_bytes PROTO_MAGIC" 4 buf] by (auto simp: check_frame_header_alt)

lemma check_frame_header_version:
  "check_frame_header buf = Inl (UnsupportedVersion v) \<longleftrightarrow>
     v \<noteq> PROTO_VERSION \<and> (\<exists>body. buf = to_le_bytes PROTO_MAGIC @ to_le_bytes v @ body)"
proof
  assume "check_frame_header buf = Inl (UnsupportedVersion v)"
  then have b: "6 \<le> length buf" "take 4 buf = to_le_bytes PROTO_MAGIC" "take 2 (drop 4 buf) \<noteq> to_le_bytes PROTO_VERSION"
    "v = from_le_bytes (take 2 (drop 4 buf))"
    by (auto simp: check_frame_header_alt split: if_splits)
  then have v: "take 2 (drop 4 buf) = to_le_bytes v" using le_bytes_eq_u16 [of "take 2 (drop 4 buf)" v] by simp
  have "buf = take 4 buf @ take 2 (drop 4 buf) @ drop 2 (drop 4 buf)" by (metis append_take_drop_id)
  then have "buf = to_le_bytes PROTO_MAGIC @ to_le_bytes v @ drop 2 (drop 4 buf)" unfolding b(2) v .
  with b(3) v show "v \<noteq> PROTO_VERSION \<and> (\<exists>body. buf = to_le_bytes PROTO_MAGIC @ to_le_bytes v @ body)" by metis
next
  assume "v \<noteq> PROTO_VERSION \<and> (\<exists>body. buf = to_le_bytes PROTO_MAGIC @ to_le_bytes v @ body)"
  then obtain body where b: "v \<noteq> PROTO_VERSION" "buf = to_le_bytes PROTO_MAGIC @ to_le_bytes v @ body" by blast
  have "to_le_bytes v \<noteq> to_le_bytes PROTO_VERSION" using b(1) from_to_le_u16 by metis
  then show "check_frame_header buf = Inl (UnsupportedVersion v)" by (simp add: b(2) check_frame_header_alt from_to_le_u16)
qed

lemma written_header_accepted:
  "case write_frame_header buf of
     None \<Rightarrow> length buf < 6
   | Some (buf', k) \<Rightarrow> 6 \<le> length buf \<and> check_frame_header buf' = Inr k \<and> drop k buf' = drop k buf"
proof (cases "length buf < 6")
  case False
  then show ?thesis by (simp add: write_frame_header_eq check_frame_header_Inr)
qed (simp add: write_frame_header_def FRAME_HEADER_SIZE_def)

text \<open>A header with one byte changed.\<close>

lemma header_literals:
  "to_le_bytes PROTO_MAGIC = [0, 0x7F, 0xE4, 0xA9]" "to_le_bytes PROTO_VERSION = [1, 0]" "frame_header = [0, 0x7F, 0xE4, 0xA9, 1, 0]"
proof -
  have four: "(4 :: nat) = Suc (Suc (Suc (Suc 0)))" and two: "(2 :: nat) = Suc (Suc 0)" by simp_all
  have "nat_to_le 4 x = [word_of_nat (x mod 256), word_of_nat (x div 256 mod 256), word_of_nat (x div 256 div 256 mod 256),
      word_of_nat (x div 256 div 256 div 256 mod 256)]" for x by (simp only: four nat_to_le.simps)
  then show m: "to_le_bytes PROTO_MAGIC = [0, 0x7F, 0xE4, 0xA9]" by (simp add: to_le_bytes_def PROTO_MAGIC_def)
  have "nat_to_le 2 x = [word_of_nat (x mod 256), word_of_nat (x div 256 mod 256)]" for x by (simp only: two nat_to_le.simps)
  then show v: "to_le_bytes PROTO_VERSION = [1, 0]" by (simp add: to_le_bytes_def PROTO_VERSION_def)
  show "frame_header = [0, 0x7F, 0xE4, 0xA9, 1, 0]" by (simp add: frame_header_def m v)
qed

lemma check_frame_header_Cons:
  "check_frame_header (b0 # b1 # b2 # b3 # b4 # b5 # body) =
    (if [b0, b1, b2, b3] \<noteq> [0, 0x7F, 0xE4, 0xA9] then Inl BadMagic
     else if [b4, b5] \<noteq> [1, 0] then Inl (UnsupportedVersion (from_le_bytes [b4, b5])) else Inr 6)"
  by (simp add: check_frame_header_alt header_literals)

lemma damaged_header:
  assumes "i < 6" "b \<noteq> frame_header ! i"
  shows "check_frame_header ((frame_header @ body)[i := b]) =
    Inl (if i < 4 then BadMagic else UnsupportedVersion (from_le_bytes [if i = 4 then b else 1, if i = 5 then b else 0]))"
proof -
  from assms(1) consider "i = 0" | "i = Suc 0" | "i = Suc (Suc 0)" | "i = Suc (Suc (Suc 0))" | "i = Suc (Suc (Suc (Suc 0)))"
    | "i = Suc (Suc (Suc (Suc (Suc 0))))" by linarith
  then show ?thesis
    by cases (use assms(2) in \<open>simp_all add: header_literals check_frame_header_Cons\<close>)
qed

lemma encode_frame_Inr:
  assumes "encode_frame full ser out = Some (Inr (n, out'))"
  obtains body where "ser (length out - 6) = Inr body" "n = 6 + length body"
    "out' = frame_header @ body @ drop (length body) (drop 6 out)"
proof -
  from assms have len: "length out \<ge> 6"
    by (simp add: encode_frame_def FRAME_HEADER_SIZE_def split: if_splits)
  with assms obtain body where "ser (length out - 6) = Inr body"
    "n = 6 + length body" "out' = splice 6 body (frame_header @ drop 6 out)"
    by (auto simp: encode_frame_def FRAME_HEADER_SIZE_def write_frame_header_eq split: sum.splits)
  with that show thesis by (simp add: splice_def add.commute)
qed

lemma decode_frame_encode:
  assumes enc: "encode_frame full ser out = Some (Inr (n, out'))"
    and rt: "\<And>cap body rest. ser cap = Inr body \<Longrightarrow> de (body @ rest) = Inr m"
  shows "decode_frame de (take n out' @ rest) = Inr m"
proof -
  from enc obtain body where b: "ser (length out - 6) = Inr body" and "n = 6 + length body"
    and "out' = frame_header @ body @ drop (length body) (drop 6 out)"
    by (rule encode_frame_Inr)
  then have "take n out' @ rest = frame_header @ body @ rest" by simp
  moreover have "check_frame_header (frame_header @ body @ rest) = Inr 6"
    by (simp add: check_frame_header_Inr)
  ultimately show ?thesis using rt [OF b] by (simp add: decode_frame_def)
qed

section \<open>Properties\<close>

text \<open>C23: the header check is exact in every case.  \<open>check_frame_header\<close> accepts a buffer, with
  body offset 6, if and only if the buffer is the magic number and the version in little-endian order
  and any bytes behind them; it answers \<open>TooShort\<close> exactly for fewer than six bytes, \<open>BadMagic\<close> exactly
  when there are six and the first four are not the magic number, whatever the version, and
  \<open>UnsupportedVersion v\<close> exactly when the magic number is right and the version that follows is a
  \<open>v\<close> other than the supported one.  \<open>write_frame_header\<close> panics on fewer than six bytes; otherwise it
  leaves a header that the check accepts and keeps all bytes behind it.\<close>

theorem frame_header_check_exact:
  "(check_frame_header buf = Inr n \<longleftrightarrow> n = 6 \<and> (\<exists>body. buf = to_le_bytes PROTO_MAGIC @ to_le_bytes PROTO_VERSION @ body)) \<and>
   (check_frame_header buf = Inl TooShort \<longleftrightarrow> length buf < 6) \<and>
   (check_frame_header buf = Inl BadMagic \<longleftrightarrow> 6 \<le> length buf \<and> (\<nexists>rest. buf = to_le_bytes PROTO_MAGIC @ rest)) \<and>
   (check_frame_header buf = Inl (UnsupportedVersion v) \<longleftrightarrow>
      v \<noteq> PROTO_VERSION \<and> (\<exists>body. buf = to_le_bytes PROTO_MAGIC @ to_le_bytes v @ body)) \<and>
   (case write_frame_header buf of
      None \<Rightarrow> length buf < 6
    | Some (buf', k) \<Rightarrow> 6 \<le> length buf \<and> check_frame_header buf' = Inr k \<and> drop k buf' = drop k buf)"
  using check_frame_header_Inr [of buf n] check_frame_header_short [of buf] check_frame_header_magic [of buf]
    check_frame_header_version [of buf v] take_prefix [of frame_header 6 buf] written_header_accepted [of buf]
  by (simp add: frame_header_def)

text \<open>C18: a request survives the wire.  If \<open>postcard\<close> reads back what it wrote (its documented
  contract, for this request), every frame \<open>encode_request\<close> produces is decoded by
  \<open>decode_request\<close> to the same request, also when bytes follow the frame.\<close>

theorem request_frame_roundtrip:
  assumes "encode_request pc req out = Some (Inr (n, out'))"
    and "\<And>cap body rest. pc_request_to_slice pc req cap = Inr body \<Longrightarrow>
           pc_request_from_bytes pc (body @ rest) = Inr req"
  shows "decode_request pc (take n out' @ rest) = Inr req"
  unfolding decode_request_def
  by (rule decode_frame_encode [OF assms(1) [unfolded encode_request_def]]) (rule assms(2))

text \<open>A serializer for the parameterless request, to exercise the round trip.\<close>

definition demo_postcard :: "nat postcard" where
  "demo_postcard =
     \<lparr>pc_buffer_full = 0,
      pc_request_to_slice = (\<lambda>r cap. if cap < 8 then Inl 0 else Inr (to_le_bytes (req_id r))),
      pc_response_to_slice = (\<lambda>r cap. Inl 0),
      pc_request_from_bytes = (\<lambda>bs. if length bs < 8 then Inl 1
         else Inr \<lparr>req_id = from_le_bytes (take 8 bs), tool = SystemStatus, params = PSystemStatus\<rparr>),
      pc_response_from_bytes = (\<lambda>bs. Inl 1),
      pc_status_info = (\<lambda>i. Inr (to_le_bytes (total_procs i) @ to_le_bytes (agent_procs i))),
      pc_process_list = (\<lambda>ps. Inr (map (\<lambda>p. ucast (pi_pid p)) ps)),
      pc_process = (\<lambda>p. Inr [ucast (pi_pid p)]),
      pc_file_list = (\<lambda>fs. Inr (concat (map fi_name fs))),
      pc_tool_list = (\<lambda>ts. Inr (concat (map td_name ts))),
      pc_meta_list = (\<lambda>ms. Inr (concat (map (\<lambda>(a, b, c, d). to_le_bytes a @ to_le_bytes b) ms)))\<rparr>"

theorem request_frame_roundtrip_witness:
  "\<exists>n out'. encode_request demo_postcard \<lparr>req_id = 7, tool = SystemStatus, params = PSystemStatus\<rparr> (replicate 20 0)
       = Some (Inr (n, out')) \<and>
     decode_request demo_postcard (take n out' @ [])
       = Inr \<lparr>req_id = 7, tool = SystemStatus, params = PSystemStatus\<rparr>"
proof -
  let ?req = "\<lparr>req_id = 7, tool = SystemStatus, params = PSystemStatus\<rparr>"
  obtain n out' where enc: "encode_request demo_postcard ?req (replicate 20 0) = Some (Inr (n, out'))"
    by (simp add: encode_request_def encode_frame_def FRAME_HEADER_SIZE_def write_frame_header_def demo_postcard_def)
  have "decode_request demo_postcard (take n out' @ []) = Inr ?req"
    by (rule request_frame_roundtrip [OF enc]) (auto simp: demo_postcard_def split: if_splits)
  with enc show ?thesis by blast
qed

text \<open>C24: damage to the header of a request never goes unnoticed, whatever the deserializer does.  A
  frame that \<open>encode_request\<close> made is rejected by \<open>decode_request\<close> as \<open>TooShort\<close> when fewer than its six
  header bytes arrive, as \<open>BadMagic\<close> when one of the first four bytes was changed to any other value, and
  as \<open>UnsupportedVersion\<close>, with the two bytes that did arrive, when a byte of the version was; the body is
  not looked at.\<close>

theorem damaged_frames_are_rejected:
  assumes "encode_request pc req out = Some (Inr (n, out'))" "i < 6" "b \<noteq> out' ! i"
  shows "decode_request pc (take i out') = Inl (FrameErr TooShort) \<and>
     decode_request pc ((take n out')[i := b]) =
       Inl (FrameErr (if i < 4 then BadMagic
                      else UnsupportedVersion (from_le_bytes [if i = 4 then b else 1, if i = 5 then b else 0])))"
proof -
  from assms(1) obtain body where o: "n = 6 + length body" "out' = frame_header @ body @ drop (length body) (drop 6 out)"
    unfolding encode_request_def by (rule encode_frame_Inr)
  then have "take n out' = frame_header @ body" "out' ! i = frame_header ! i" using assms(2) by (simp_all add: nth_append)
  moreover have "check_frame_header (take i out') = Inl TooShort" using assms(2) by (auto simp: check_frame_header_short)
  ultimately show ?thesis
    using damaged_header [OF assms(2), of b body] assms(3) by (simp add: decode_request_def decode_frame_def)
qed

theorem damaged_frames_are_rejected_witness:
  "\<exists>n out'. encode_request demo_postcard \<lparr>req_id = 7, tool = SystemStatus, params = PSystemStatus\<rparr> (replicate 20 0) = Some (Inr (n, out')) \<and>
     decode_request demo_postcard (take 4 out') = Inl (FrameErr TooShort) \<and>
     decode_request demo_postcard ((take n out')[4 := 2]) = Inl (FrameErr (UnsupportedVersion 2))"
proof -
  let ?req = "\<lparr>req_id = 7, tool = SystemStatus, params = PSystemStatus\<rparr>"
  obtain n out' where enc: "encode_request demo_postcard ?req (replicate 20 0) = Some (Inr (n, out'))" "out' ! 4 \<noteq> 2"
    by (simp add: encode_request_def encode_frame_def FRAME_HEADER_SIZE_def write_frame_header_eq demo_postcard_def
        splice_def header_literals)
  have "from_le_bytes [2, 0] = (2 :: u16)" by (simp add: from_le_bytes_def)
  with damaged_frames_are_rejected [OF enc(1), of 4 2] enc show ?thesis by auto
qed

end
