(* ===== verification/Address.thy ===== *)
theory Address
  imports Prelude
begin

text \<open>
  Physical and virtual addresses and page numbers of SV39 paging
  (\<open>os/src/mm/address.rs\<close>, \<open>os/src/config.rs\<close>), and the physical memory they
  address.  The four newtypes wrap a \<open>usize\<close>; their conversions mask or
  sign-extend it, which is kept at the word level here.  Physical memory is a
  total map from addresses to bytes: the kernel runs identity-mapped, so the raw
  pointers the code builds from a \<open>PhysAddr\<close> index this map directly.
\<close>

unbundle bit_operations_syntax

section \<open>Constants\<close>

definition PAGE_SIZE :: usize where "PAGE_SIZE = 0x1000"
definition PAGE_SIZE_BITS :: nat where "PAGE_SIZE_BITS = 0xc"
definition USER_STACK_SIZE :: usize where "USER_STACK_SIZE = 4096 * 2"
definition KERNEL_STACK_SIZE :: usize where "KERNEL_STACK_SIZE = 4096 * 2"
definition TRAMPOLINE :: usize where "TRAMPOLINE = - 1 - PAGE_SIZE + 1"
definition TRAP_CONTEXT :: usize where "TRAP_CONTEXT = TRAMPOLINE - PAGE_SIZE"

definition PA_WIDTH_SV39 :: nat where "PA_WIDTH_SV39 = 56"
definition VA_WIDTH_SV39 :: nat where "VA_WIDTH_SV39 = 39"
definition PPN_WIDTH_SV39 :: nat where "PPN_WIDTH_SV39 = PA_WIDTH_SV39 - PAGE_SIZE_BITS"
definition VPN_WIDTH_SV39 :: nat where "VPN_WIDTH_SV39 = VA_WIDTH_SV39 - PAGE_SIZE_BITS"

lemmas addr_consts = PAGE_SIZE_def PAGE_SIZE_BITS_def PA_WIDTH_SV39_def VA_WIDTH_SV39_def
  PPN_WIDTH_SV39_def VPN_WIDTH_SV39_def

section \<open>Addresses and page numbers\<close>

type_synonym phys_addr = usize
type_synonym virt_addr = usize
type_synonym phys_page_num = usize
type_synonym virt_page_num = usize

definition low_mask :: "nat \<Rightarrow> usize" where
  "low_mask n = push_bit n 1 - 1"

definition pa_from_usize :: "usize \<Rightarrow> phys_addr" where
  "pa_from_usize v = v AND low_mask PA_WIDTH_SV39"

definition ppn_from_usize :: "usize \<Rightarrow> phys_page_num" where
  "ppn_from_usize v = v AND low_mask PPN_WIDTH_SV39"

definition va_from_usize :: "usize \<Rightarrow> virt_addr" where
  "va_from_usize v = v AND low_mask VA_WIDTH_SV39"

definition vpn_from_usize :: "usize \<Rightarrow> virt_page_num" where
  "vpn_from_usize v = v AND low_mask VPN_WIDTH_SV39"

text \<open>\<open>From<VirtAddr> for usize\<close> sign-extends bit 38.\<close>

definition usize_from_va :: "virt_addr \<Rightarrow> usize" where
  "usize_from_va v = (if push_bit (VA_WIDTH_SV39 - 1) 1 \<le> v then v OR NOT (low_mask VA_WIDTH_SV39) else v)"

definition va_floor :: "virt_addr \<Rightarrow> virt_page_num" where
  "va_floor v = v div PAGE_SIZE"

definition va_ceil :: "virt_addr \<Rightarrow> virt_page_num" where
  "va_ceil v = (if v = 0 then 0 else (v - 1 + PAGE_SIZE) div PAGE_SIZE)"

definition va_page_offset :: "virt_addr \<Rightarrow> usize" where
  "va_page_offset v = v AND (PAGE_SIZE - 1)"

definition va_aligned :: "virt_addr \<Rightarrow> bool" where
  "va_aligned v \<longleftrightarrow> va_page_offset v = 0"

text \<open>\<open>From<VirtAddr> for VirtPageNum\<close> asserts alignment.\<close>

definition vpn_from_va :: "virt_addr \<Rightarrow> virt_page_num option" where
  "vpn_from_va v = (if va_page_offset v = 0 then Some (va_floor v) else None)"

definition va_from_vpn :: "virt_page_num \<Rightarrow> virt_addr" where
  "va_from_vpn v = push_bit PAGE_SIZE_BITS v"

definition pa_floor :: "phys_addr \<Rightarrow> phys_page_num" where
  "pa_floor v = v div PAGE_SIZE"

definition pa_ceil :: "phys_addr \<Rightarrow> phys_page_num" where
  "pa_ceil v = (if v = 0 then 0 else (v - 1 + PAGE_SIZE) div PAGE_SIZE)"

definition pa_page_offset :: "phys_addr \<Rightarrow> usize" where
  "pa_page_offset v = v AND (PAGE_SIZE - 1)"

definition pa_aligned :: "phys_addr \<Rightarrow> bool" where
  "pa_aligned v \<longleftrightarrow> pa_page_offset v = 0"

definition ppn_from_pa :: "phys_addr \<Rightarrow> phys_page_num option" where
  "ppn_from_pa v = (if pa_page_offset v = 0 then Some (pa_floor v) else None)"

definition pa_from_ppn :: "phys_page_num \<Rightarrow> phys_addr" where
  "pa_from_ppn v = push_bit PAGE_SIZE_BITS v"

text \<open>\<open>VirtPageNum::indexes\<close>: the loop fills \<open>idx[2]\<close>, \<open>idx[1]\<close>, \<open>idx[0]\<close> from the
  low bits up.\<close>

fun indexes_loop :: "nat \<Rightarrow> usize \<Rightarrow> usize list \<Rightarrow> usize list" where
  "indexes_loop 0 vpn idx = idx"
| "indexes_loop (Suc i) vpn idx = indexes_loop i (drop_bit 9 vpn) (idx[i := vpn AND 511])"

definition vpn_indexes :: "virt_page_num \<Rightarrow> usize list" where
  "vpn_indexes vpn = indexes_loop 3 vpn [0, 0, 0]"

section \<open>Ranges of page numbers\<close>

record vpn_range =
  range_l :: virt_page_num
  range_r :: virt_page_num

definition range_new :: "virt_page_num \<Rightarrow> virt_page_num \<Rightarrow> vpn_range option" where
  "range_new s e = (if s \<le> e then Some \<lparr>range_l = s, range_r = e\<rparr> else None)"

text \<open>\<open>SimpleRangeIterator::next\<close>, and the iteration of a \<open>for\<close> loop over a range:
  it stops at equality, so a range that \<open>range_new\<close> accepted is walked from its
  start to its end.\<close>

definition range_next :: "usize \<times> usize \<Rightarrow> (usize \<times> (usize \<times> usize)) option" where
  "range_next it = (if fst it = snd it then None else Some (fst it, (fst it + 1, snd it)))"

function range_iter :: "usize \<times> usize \<Rightarrow> usize list" where
  "range_iter it = (case range_next it of None \<Rightarrow> [] | Some (t, it') \<Rightarrow> t # range_iter it')"
  by pat_completeness auto
termination
proof (relation "measure (\<lambda>it. unat (snd it - fst it))", goal_cases)
  case (2 it p t it')
  then have it': "it' = (fst it + 1, snd it)" and ne: "snd it - fst it \<noteq> 0"
    by (auto simp: range_next_def split: if_splits)
  have "snd it - (fst it + 1) = (snd it - fst it) - 1" by simp
  with ne have "unat (snd it - (fst it + 1)) < unat (snd it - fst it)"
    by (metis unat_minus_one unat_eq_0 diff_less less_one neq0_conv)
  with it' show ?case by simp
qed simp

declare range_iter.simps [simp del]

definition range_list :: "vpn_range \<Rightarrow> virt_page_num list" where
  "range_list r = range_iter (range_l r, range_r r)"

section \<open>Physical memory\<close>

type_synonym memory = "phys_addr \<Rightarrow> u8"

text \<open>A run of bytes written through a raw slice, and read from one.\<close>

definition load_bytes :: "memory \<Rightarrow> phys_addr \<Rightarrow> nat \<Rightarrow> u8 list" where
  "load_bytes m a n = map (\<lambda>i. m (a + word_of_nat i)) [0..<n]"

definition store_bytes :: "memory \<Rightarrow> phys_addr \<Rightarrow> u8 list \<Rightarrow> memory" where
  "store_bytes m a bs = (\<lambda>x. if unat (x - a) < length bs then bs ! unat (x - a) else m x)"

definition load_u64 :: "memory \<Rightarrow> phys_addr \<Rightarrow> u64" where
  "load_u64 m a = from_le_bytes (load_bytes m a 8)"

definition store_u64 :: "memory \<Rightarrow> phys_addr \<Rightarrow> u64 \<Rightarrow> memory" where
  "store_u64 m a v = store_bytes m a (to_le_bytes v)"

section \<open>Arithmetic of addresses\<close>

named_theorems addr_nat

lemma low_mask_mask: "low_mask n = mask n"
  by (simp add: low_mask_def mask_eq_exp_minus_1)

lemma unat_and_low_mask [addr_nat]: "unat (v AND low_mask n) = unat v mod 2 ^ n"
proof -
  have "v AND low_mask n = take_bit n v" by (simp add: low_mask_mask take_bit_eq_mask)
  then have "unat (v AND low_mask n) = take_bit n (unat v)" by (simp only: unsigned_take_bit_eq)
  then show ?thesis by (simp add: take_bit_eq_mod)
qed

lemma page_mask: "PAGE_SIZE - 1 = low_mask 12"
  by (simp add: PAGE_SIZE_def low_mask_def)

lemma unat_va_from_usize [addr_nat]: "unat (va_from_usize v) = unat v mod 2 ^ 39"
  by (simp add: va_from_usize_def addr_nat addr_consts)

lemma unat_pa_from_usize [addr_nat]: "unat (pa_from_usize v) = unat v mod 2 ^ 56"
  by (simp add: pa_from_usize_def addr_nat addr_consts)

lemma unat_ppn_from_usize [addr_nat]: "unat (ppn_from_usize v) = unat v mod 2 ^ 44"
  by (simp add: ppn_from_usize_def addr_nat addr_consts)

lemma unat_vpn_from_usize [addr_nat]: "unat (vpn_from_usize v) = unat v mod 2 ^ 27"
  by (simp add: vpn_from_usize_def addr_nat addr_consts)

lemma unat_va_floor [addr_nat]: "unat (va_floor v) = unat v div 4096"
  by (simp add: va_floor_def PAGE_SIZE_def unat_div)

lemma unat_pa_floor [addr_nat]: "unat (pa_floor v) = unat v div 4096"
  by (simp add: pa_floor_def PAGE_SIZE_def unat_div)

lemma unat_va_page_offset [addr_nat]: "unat (va_page_offset v) = unat v mod 4096"
  by (simp add: va_page_offset_def page_mask unat_and_low_mask)

lemma unat_pa_page_offset [addr_nat]: "unat (pa_page_offset v) = unat v mod 4096"
  by (simp add: pa_page_offset_def page_mask unat_and_low_mask)

lemma unat_push_12: "unat (push_bit 12 (v :: usize)) = unat v * 4096 mod 2 ^ 64"
  by (simp add: push_bit_eq_mult unat_word_ariths)

lemma unat_va_from_vpn [addr_nat]: "unat v < 2 ^ 52 \<Longrightarrow> unat (va_from_vpn v) = unat v * 4096"
  by (simp add: va_from_vpn_def PAGE_SIZE_BITS_def unat_push_12)

lemma unat_pa_from_ppn [addr_nat]: "unat v < 2 ^ 52 \<Longrightarrow> unat (pa_from_ppn v) = unat v * 4096"
  by (simp add: pa_from_ppn_def PAGE_SIZE_BITS_def unat_push_12)

lemma unat_va_ceil [addr_nat]:
  assumes "unat v + 4096 < 2 ^ 64"
  shows "unat (va_ceil v) = (unat v + 4095) div 4096"
proof (cases "v = 0")
  case False
  then have "unat (v - 1) = unat v - 1" "0 < unat v"
    by (simp_all add: unat_minus_one unat_gt_0)
  moreover from this assms have "unat (v - 1 + 0x1000) = unat v + 4095"
    by (subst unat_add_u64_small) simp_all
  ultimately show ?thesis using False by (simp add: va_ceil_def PAGE_SIZE_def unat_div)
qed (simp add: va_ceil_def)

lemma unat_va_ceil_sv39: "unat v \<le> 2 ^ 39 \<Longrightarrow> unat (va_ceil v) = (unat v + 4095) div 4096"
  by (simp add: addr_nat)

lemma va_from_usize_id: "unat v < 2 ^ 39 \<Longrightarrow> va_from_usize v = v"
  by (metis unat_va_from_usize mod_less word_unat_eq_iff)

lemma usize_from_va_low: "unat v < 2 ^ 38 \<Longrightarrow> usize_from_va v = v"
  by (simp add: usize_from_va_def VA_WIDTH_SV39_def word_le_unat)

lemma usize_from_va_cases:
  assumes "unat v < 2 ^ 39"
  shows "unat (usize_from_va v) = (if unat v < 2 ^ 38 then unat v else unat v + (2 ^ 64 - 2 ^ 39))"
proof (cases "unat v < 2 ^ 38")
  case False
  have "v AND NOT (low_mask 39) = 0"
  proof -
    have "v AND low_mask 39 = v"
      using assms by (simp add: word_unat_eq_iff unat_and_low_mask)
    then show ?thesis by (metis and.assoc bit.conj_cancel_right bit.conj_zero_right)
  qed
  then have "v OR NOT (low_mask 39) = v + NOT (low_mask 39)"
    by (rule disjunctive_add_eq_or [symmetric])
  moreover have "unat (NOT (low_mask 39)) = 2 ^ 64 - 2 ^ 39"
    by (simp add: low_mask_def)
  ultimately have "unat (v OR NOT (low_mask 39)) = unat v + (2 ^ 64 - 2 ^ 39)"
    using assms by (simp add: unat_add_u64_small)
  with False show ?thesis
    by (simp add: usize_from_va_def VA_WIDTH_SV39_def word_le_unat)
qed (simp add: usize_from_va_low)

text \<open>
  C25: \<open>usize -> VirtAddr -> usize\<close> (\<open>From<usize> for VirtAddr\<close>, then
  \<open>From<VirtAddr> for usize\<close>) gives the address back exactly when it is canonical
  for SV39, that is below \<open>2^38\<close> or in the top \<open>2^38\<close> bytes; every other address is
  folded onto a canonical one.
\<close>

theorem virt_addr_roundtrip_canonical:
  "(usize_from_va (va_from_usize v) = v \<longleftrightarrow> unat v < 2 ^ 38 \<or> 2 ^ 64 - 2 ^ 38 \<le> unat v) \<and>
   va_from_usize (usize_from_va (va_from_usize v)) = va_from_usize v"
proof -
  let ?w = "va_from_usize v"
  have u: "unat (usize_from_va ?w) =
    (if unat v mod 2 ^ 39 < 2 ^ 38 then unat v mod 2 ^ 39 else unat v mod 2 ^ 39 + (2 ^ 64 - 2 ^ 39))"
    by (subst usize_from_va_cases) (simp_all add: unat_va_from_usize)
  have b: "unat v < 2 ^ 64" using unat_bound [of v] by simp
  obtain q r where qr: "unat v = q * 2 ^ 39 + r" "r < 2 ^ 39" "unat v mod 2 ^ 39 = r"
    using div_mult_mod_eq [of "unat v" "2 ^ 39"] by (metis mod_less_divisor zero_less_numeral zero_less_power)
  have "q * 549755813888 < 33554432 * 549755813888" using b qr(1) by simp
  then have "q < 33554431 \<or> q = 33554431" by auto
  then have "unat (usize_from_va ?w) = unat v \<longleftrightarrow> unat v < 2 ^ 38 \<or> 2 ^ 64 - 2 ^ 38 \<le> unat v"
    unfolding u qr(3) unfolding qr(1) using b qr(1,2) by (cases "q = 0") auto
  moreover have "unat (va_from_usize (usize_from_va ?w)) = unat ?w"
    unfolding unat_va_from_usize u qr(3)
    using qr(2) mod_mult_self1 [of r "2 ^ 25 - 1" "2 ^ 39"] by simp
  ultimately show ?thesis by (simp add: word_unat_eq_iff)
qed

lemma vpn_indexes_eq:
  "vpn_indexes v = [drop_bit 18 v AND 511, drop_bit 9 v AND 511, v AND 511]"
  by (simp add: vpn_indexes_def numeral_3_eq_3)

lemma unat_and_511: "unat (v AND 511 :: usize) = unat v mod 512"
proof -
  have "(511 :: usize) = low_mask 9" by (simp add: low_mask_def)
  then have "unat (v AND 511) = unat v mod 2 ^ 9" by (simp only: unat_and_low_mask)
  then show ?thesis by simp
qed


lemma unat_drop_bit_u64 [addr_nat]: "unat (drop_bit n (v :: usize)) = unat v div 2 ^ n"
proof -
  have "unat (drop_bit n v) = drop_bit n (take_bit 64 (unat v))"
    by (subst unsigned_drop_bit_eq) simp
  then show ?thesis using unat_bound [of v] by (simp add: drop_bit_eq_div take_bit_eq_mod)
qed

lemma split_27_bits:
  "n mod 2 ^ 27 = n div 2 ^ 18 mod 512 * 2 ^ 18 + n div 2 ^ 9 mod 512 * 2 ^ 9 + n mod (512 :: nat)"
proof -
  have "n mod (512 * (512 * 512)) = 512 * (n div 512 mod (512 * 512)) + n mod 512"
    by (rule mod_mult2_eq)
  also have "n div 512 mod (512 * 512) = 512 * (n div 512 div 512 mod 512) + n div 512 mod 512"
    by (rule mod_mult2_eq)
  finally show ?thesis by (simp add: div_mult2_eq [symmetric] algebra_simps)
qed

text \<open>
  \<open>VirtPageNum::indexes\<close> splits a page number into three nine-bit table
  indices from which its low 27 bits are rebuilt, so two SV39 page numbers with the
  same indices are equal.
\<close>

lemma vpn_indexes_exact:
  "\<exists>a b c. vpn_indexes v = [a, b, c] \<and> unat a < 512 \<and> unat b < 512 \<and> unat c < 512 \<and>
     unat v mod 2 ^ 27 = unat a * 2 ^ 18 + unat b * 2 ^ 9 + unat c"
  using split_27_bits [of "unat v"] by (simp add: vpn_indexes_eq unat_and_511 addr_nat)

text \<open>Distinct SV39 page numbers differ in one of the three indices.\<close>

lemma vpn_indexes_inj:
  assumes "vpn_indexes v = vpn_indexes w" "unat v < 2 ^ 27" "unat w < 2 ^ 27"
  shows "v = w"
proof -
  note d = split_27_bits [of "unat v"] split_27_bits [of "unat w"]
  from assms(1) have "unat v div 2 ^ 18 mod 512 = unat w div 2 ^ 18 mod 512"
    "unat v div 2 ^ 9 mod 512 = unat w div 2 ^ 9 mod 512" "unat v mod 512 = unat w mod 512"
    by (simp_all add: vpn_indexes_eq word_unat_eq_iff unat_and_511 unat_drop_bit_u64)
  with d assms(2,3) have "unat v = unat w" by simp
  then show ?thesis by (simp add: word_unat_eq_iff)
qed


text \<open>Walking a range.\<close>

lemma range_iter_upt:
  "l \<le> r \<Longrightarrow> map unat (range_iter (l, r)) = [unat l..<unat r]"
proof (induction "(l, r)" arbitrary: l rule: range_iter.induct)
  case 1
  show ?case
  proof (cases "l = r")
    case False
    with \<open>l \<le> r\<close> have lt: "unat l < unat r" by (simp add: word_le_unat word_unat_eq_iff)
    moreover have "unat r < 2 ^ 64" using unat_bound [of r] by simp
    ultimately have s: "unat (l + 1) = Suc (unat l)" by (simp add: unat_add_u64_small)
    with lt have "l + 1 \<le> r" by (simp add: word_le_unat)
    with False "1.hyps" have "map unat (range_iter (l + 1, r)) = [Suc (unat l)..<unat r]"
      by (simp add: range_next_def s)
    with False lt show ?thesis
      by (subst range_iter.simps) (simp add: range_next_def upt_conv_Cons)
  qed (subst range_iter.simps, simp add: range_next_def)
qed

lemma range_list_upt:
  "range_new s e = Some r \<Longrightarrow> map unat (range_list r) = [unat s..<unat e]"
  by (auto simp: range_new_def range_list_def range_iter_upt split: if_splits)

lemma range_list_set:
  assumes "range_new s e = Some r"
  shows "v \<in> set (range_list r) \<longleftrightarrow> unat s \<le> unat v \<and> unat v < unat e"
proof -
  have "unat ` set (range_list r) = {unat s..<unat e}"
    using range_list_upt [OF assms] by (metis list.set_map set_upt)
  moreover have "inj (unat :: usize \<Rightarrow> nat)" by (auto simp: inj_def word_unat_eq_iff)
  ultimately show ?thesis using inj_image_mem_iff [of unat v "set (range_list r)"] by auto
qed

lemma range_list_distinct: "range_new s e = Some r \<Longrightarrow> distinct (range_list r)"
  using range_list_upt [of s e r] by (metis distinct_map distinct_upt)

section \<open>Laws of physical memory\<close>

lemma length_load_bytes [simp]: "length (load_bytes m a n) = n"
  by (simp add: load_bytes_def)

lemma nth_load_bytes [simp]: "i < n \<Longrightarrow> load_bytes m a n ! i = m (a + word_of_nat i)"
  by (simp add: load_bytes_def)

lemma store_bytes_in:
  "i < length bs \<Longrightarrow> length bs \<le> 2 ^ 64 \<Longrightarrow> store_bytes m a bs (a + word_of_nat i) = bs ! i"
  by (simp add: store_bytes_def unat_of_nat_u64)

lemma load_store_same:
  "length bs \<le> 2 ^ 64 \<Longrightarrow> load_bytes (store_bytes m a bs) a (length bs) = bs"
  by (rule nth_equalityI) (simp_all add: store_bytes_in)

lemma store_bytes_out: "length bs \<le> unat (x - a) \<Longrightarrow> store_bytes m a bs x = m x"
  by (simp add: store_bytes_def)

lemma load_store_out:
  "(\<And>i. i < n \<Longrightarrow> length bs \<le> unat (b + word_of_nat i - a)) \<Longrightarrow>
   load_bytes (store_bytes m a bs) b n = load_bytes m b n"
  by (rule nth_equalityI) (simp_all add: store_bytes_out)

text \<open>Two runs of bytes that end below the top of memory are apart when one ends
  before the other starts.\<close>

lemma unat_diff_add:
  assumes "unat b + i < 2 ^ 64" "unat a + n \<le> 2 ^ 64"
    and "unat b + i < unat a \<or> unat a + n \<le> unat b + i"
  shows "n \<le> unat (b + word_of_nat i - (a :: usize))"
proof (cases "unat a \<le> unat b + i")
  case True
  have "unat (b + word_of_nat i) = unat b + i"
    using assms(1) by (subst unat_add_u64_small) (simp_all add: unat_of_nat_u64)
  with True have "unat (b + word_of_nat i - a) = unat b + i - unat a"
    by (subst unat_sub) (simp_all add: word_le_unat)
  with True assms(3) show ?thesis by simp
next
  case False
  have s: "unat (b + word_of_nat i) = unat b + i"
    using assms(1) by (subst unat_add_u64_small) (simp_all add: unat_of_nat_u64)
  have "unat (b + word_of_nat i - a) = 2 ^ 64 + (unat b + i) - unat a"
    using False s unat_bound [of a] by (simp add: unat_sub_if' word_le_unat)
  with False assms(2) show ?thesis by simp
qed

lemma load_store_apart:
  assumes "unat b + n \<le> 2 ^ 64" "unat a + length bs \<le> 2 ^ 64"
    and "unat b + n \<le> unat a \<or> unat a + length bs \<le> unat b"
  shows "load_bytes (store_bytes m a bs) b n = load_bytes m b n"
proof (rule load_store_out)
  fix i
  assume "i < n"
  with assms show "length bs \<le> unat (b + word_of_nat i - a)" by (intro unat_diff_add) auto
qed

lemma load_store_u64_same [simp]: "load_u64 (store_u64 m a v) a = v"
proof -
  have "load_bytes (store_bytes m a (to_le_bytes v)) a 8 = to_le_bytes v"
    using load_store_same [of "to_le_bytes v" m a] by simp
  then show ?thesis by (simp add: load_u64_def store_u64_def)
qed

lemma load_store_u64_apart:
  assumes "unat b + 8 \<le> 2 ^ 64" "unat a + 8 \<le> 2 ^ 64"
    and "unat b + 8 \<le> unat a \<or> unat a + 8 \<le> unat b"
  shows "load_u64 (store_u64 m a v) b = load_u64 m b"
  unfolding load_u64_def store_u64_def by (subst load_store_apart) (use assms in simp_all)

end
