(* ===== verification/Allocators.thy ===== *)
theory Allocators
  imports Address
begin

text \<open>
  The two recycling allocators of the kernel: \<open>StackFrameAllocator\<close>
  (\<open>os/src/mm/frame_allocator.rs\<close>) for physical frames and \<open>PidAllocator\<close>
  (\<open>os/src/task/pid.rs\<close>) for process identifiers, with the kernel-stack layout
  that is computed from a pid.  Their common contract is the locale
  \<open>handle_allocator\<close>: handles are owned by RAII guards (\<open>FrameTracker\<close>,
  \<open>PidHandle\<close>), an allocation returns a handle nobody owns, and dropping an owned
  guard never panics.
\<close>

section \<open>Physical frames\<close>

record stack_frame_allocator =
  fa_current :: usize
  fa_end :: usize
  fa_recycled :: "usize list"

definition frame_allocator_new :: stack_frame_allocator where
  "frame_allocator_new = \<lparr>fa_current = 0, fa_end = 0, fa_recycled = []\<rparr>"

definition frame_allocator_init ::
  "phys_page_num \<Rightarrow> phys_page_num \<Rightarrow> stack_frame_allocator \<Rightarrow> stack_frame_allocator" where
  "frame_allocator_init l r a = a\<lparr>fa_current := l, fa_end := r\<rparr>"

text \<open>\<open>Vec::pop\<close> takes from the end; the popped or fresh number passes through
  \<open>usize::into\<close>, which masks it to the 44 bits of a \<open>PhysPageNum\<close>.\<close>

definition frame_allocator_alloc ::
  "stack_frame_allocator \<Rightarrow> (phys_page_num \<times> stack_frame_allocator) option" where
  "frame_allocator_alloc a =
     (if fa_recycled a \<noteq> []
      then Some (ppn_from_usize (last (fa_recycled a)), a\<lparr>fa_recycled := butlast (fa_recycled a)\<rparr>)
      else if fa_current a = fa_end a then None
      else let a' = a\<lparr>fa_current := fa_current a + 1\<rparr> in
           Some (ppn_from_usize (fa_current a' - 1), a'))"

text \<open>\<open>dealloc\<close>; \<open>None\<close> is the panic of its validity check.\<close>

definition frame_allocator_dealloc ::
  "phys_page_num \<Rightarrow> stack_frame_allocator \<Rightarrow> stack_frame_allocator option" where
  "frame_allocator_dealloc ppn a =
     (if fa_current a \<le> ppn \<or> ppn \<in> set (fa_recycled a) then None
      else Some (a\<lparr>fa_recycled := fa_recycled a @ [ppn]\<rparr>))"

text \<open>\<open>init_frame_allocator\<close>: the frames between the end of the kernel image, a linker
  symbol, and \<open>MEMORY_END\<close>.\<close>

definition MEMORY_END :: usize where "MEMORY_END = 0x88000000"

definition init_frame_allocator :: "usize \<Rightarrow> stack_frame_allocator \<Rightarrow> stack_frame_allocator" where
  "init_frame_allocator ekernel a =
     frame_allocator_init (pa_ceil (pa_from_usize ekernel)) (pa_floor (pa_from_usize MEMORY_END)) a"

section \<open>Process identifiers\<close>

record pid_allocator =
  pa_current :: usize
  pa_recycled :: "usize list"

definition pid_allocator_new :: pid_allocator where
  "pid_allocator_new = \<lparr>pa_current = 0, pa_recycled = []\<rparr>"

definition pid_allocator_alloc :: "pid_allocator \<Rightarrow> usize \<times> pid_allocator" where
  "pid_allocator_alloc a =
     (if pa_recycled a \<noteq> []
      then (last (pa_recycled a), a\<lparr>pa_recycled := butlast (pa_recycled a)\<rparr>)
      else let a' = a\<lparr>pa_current := pa_current a + 1\<rparr> in (pa_current a' - 1, a'))"

definition pid_allocator_dealloc :: "usize \<Rightarrow> pid_allocator \<Rightarrow> pid_allocator option" where
  "pid_allocator_dealloc pid a =
     (if \<not> pid < pa_current a then None
      else if pid \<in> set (pa_recycled a) then None
      else Some (a\<lparr>pa_recycled := pa_recycled a @ [pid]\<rparr>))"

text \<open>\<open>kernel_stack_position\<close>: stacks grow down from the trampoline, one guard page
  apart.\<close>

definition kernel_stack_position :: "usize \<Rightarrow> usize \<times> usize" where
  "kernel_stack_position app_id =
     (let top = TRAMPOLINE - app_id * (KERNEL_STACK_SIZE + PAGE_SIZE);
          bottom = top - KERNEL_STACK_SIZE
      in (bottom, top))"

definition kernel_stack_get_top :: "usize \<Rightarrow> usize" where
  "kernel_stack_get_top pid = snd (kernel_stack_position pid)"

section \<open>The contract of a handle allocator\<close>

text \<open>
  \<open>pool\<close> is the set of handles an allocator may ever give out and \<open>owned\<close> the
  handles it has given out and not taken back.  \<open>room\<close> excludes the wrap-around of
  a counter.
\<close>

datatype alloc_op = OpAlloc | OpDrop nat

text \<open>A client that keeps its guards in a vector: allocation pushes a guard (a failed
  one leaves the vector), and dropping the \<open>k\<close>-th guard returns its handle.  \<open>None\<close>
  is a panic.\<close>

fun client_run :: "('s \<Rightarrow> ('h \<times> 's) option) \<Rightarrow> ('h \<Rightarrow> 's \<Rightarrow> 's option) \<Rightarrow>
    alloc_op list \<Rightarrow> 's \<times> 'h list \<Rightarrow> ('s \<times> 'h list) option" where
  "client_run al de [] (s, hs) = Some (s, hs)"
| "client_run al de (OpAlloc # ops) (s, hs) =
     (case al s of None \<Rightarrow> client_run al de ops (s, hs)
      | Some (h, s') \<Rightarrow> client_run al de ops (s', hs @ [h]))"
| "client_run al de (OpDrop k # ops) (s, hs) =
     (if k < length hs
      then (case de (hs ! k) s of None \<Rightarrow> None
            | Some s' \<Rightarrow> client_run al de ops (s', vec_remove k hs))
      else client_run al de ops (s, hs))"

locale handle_allocator =
  fixes inv :: "'s \<Rightarrow> bool"
    and owned :: "'s \<Rightarrow> 'h set"
    and pool :: "'h set"
    and al :: "'s \<Rightarrow> ('h \<times> 's) option"
    and de :: "'h \<Rightarrow> 's \<Rightarrow> 's option"
  assumes owned_pool: "inv s \<Longrightarrow> owned s \<subseteq> pool"
    and al_fresh: "inv s \<Longrightarrow> al s = Some (h, s') \<Longrightarrow>
          inv s' \<and> h \<in> pool \<and> h \<notin> owned s \<and> owned s' = insert h (owned s)"
    and al_full: "inv s \<Longrightarrow> al s = None \<Longrightarrow> owned s = pool"
    and de_owned: "inv s \<Longrightarrow> h \<in> owned s \<Longrightarrow>
          \<exists>s'. de h s = Some s' \<and> inv s' \<and> owned s' = owned s - {h}"
    and de_free: "inv s \<Longrightarrow> h \<in> pool \<Longrightarrow> h \<notin> owned s \<Longrightarrow> de h s = None"
begin

lemma double_free_panics:
  assumes "inv s" "h \<in> owned s" "de h s = Some s'"
  shows "de h s' = None"
proof -
  from assms de_owned [of s h] have "inv s'" "owned s' = owned s - {h}" by auto
  moreover have "h \<in> pool" using assms owned_pool by blast
  ultimately show ?thesis using de_free [of s' h] by simp
qed

text \<open>Guards held by the client stay distinct and exactly the owned handles, and no
  drop panics, whatever the order of allocations and drops.\<close>

lemma client_safe:
  assumes "inv s" "owned s = set hs" "distinct hs"
  shows "\<exists>s' hs'. client_run al de ops (s, hs) = Some (s', hs') \<and>
           inv s' \<and> owned s' = set hs' \<and> distinct hs' \<and> set hs' \<subseteq> pool"
  using assms
proof (induction ops arbitrary: s hs)
  case Nil
  then show ?case using owned_pool by force
next
  case (Cons op ops)
  show ?case
  proof (cases op)
    case OpAlloc
    show ?thesis
    proof (cases "al s")
      case None
      with OpAlloc Cons show ?thesis by simp
    next
      case (Some r)
      obtain h s' where r: "r = (h, s')" by (cases r)
      with Some Cons.prems have "inv s'" "owned s' = set (hs @ [h])" "distinct (hs @ [h])"
        using al_fresh [of s h s'] by auto
      from Cons.IH [OF this] show ?thesis using OpAlloc Some r by simp
    qed
  next
    case (OpDrop k)
    show ?thesis
    proof (cases "k < length hs")
      case False
      with OpDrop Cons show ?thesis by simp
    next
      case True
      with Cons.prems de_owned [of s "hs ! k"] obtain s'
        where s': "de (hs ! k) s = Some s'" "inv s'" "owned s' = set hs - {hs ! k}" by auto
      have "set (vec_remove k hs) = set hs - {hs ! k}" "distinct (vec_remove k hs)"
        using vec_remove_distinct [OF True Cons.prems(3)] by simp_all
      with Cons.IH [of s' "vec_remove k hs"] s' True OpDrop show ?thesis by simp
    qed
  qed
qed

end

section \<open>The frame allocator is a handle allocator\<close>

definition frame_inv :: "usize \<Rightarrow> usize \<Rightarrow> stack_frame_allocator \<Rightarrow> bool" where
  "frame_inv l r a \<longleftrightarrow> fa_end a = r \<and> unat r \<le> 2 ^ 44 \<and> l \<le> fa_current a \<and> fa_current a \<le> r \<and>
     distinct (fa_recycled a) \<and> (\<forall>x\<in>set (fa_recycled a). l \<le> x \<and> x < fa_current a)"

definition frame_owned :: "usize \<Rightarrow> stack_frame_allocator \<Rightarrow> usize set" where
  "frame_owned l a = {x. l \<le> x \<and> x < fa_current a} - set (fa_recycled a)"

lemma ppn_from_usize_id: "unat v < 2 ^ 44 \<Longrightarrow> ppn_from_usize v = v"
  by (simp add: word_unat_eq_iff unat_ppn_from_usize)

lemma pop_set:
  assumes "xs \<noteq> []" "distinct xs"
  shows "last xs \<in> set xs \<and> last xs \<notin> set (butlast xs) \<and> set xs = insert (last xs) (set (butlast xs)) \<and>
         distinct (butlast xs)"
proof -
  from assms(1) obtain ys y where "xs = ys @ [y]" by (cases xs rule: rev_cases) auto
  with assms(2) show ?thesis by auto
qed

text \<open>Counting up by one below a bound.\<close>

lemma less_inc_iff: "c < (b :: usize) \<Longrightarrow> x < c + 1 \<longleftrightarrow> x = c \<or> x < c"
  using unat_bound [of b]
  by (auto simp: word_less_unat word_unat_eq_iff unat_add_u64_small)

lemma inc_le: "c < (b :: usize) \<Longrightarrow> c + 1 \<le> b"
  using unat_bound [of b] by (simp add: word_less_unat word_le_unat unat_add_u64_small)

lemma frame_alloc_fresh:
  assumes inv: "frame_inv l r a" and al: "frame_allocator_alloc a = Some (h, a')"
  shows "frame_inv l r a' \<and> h \<in> {l..<r} \<and> h \<notin> frame_owned l a \<and>
         frame_owned l a' = insert h (frame_owned l a)"
proof (cases "fa_recycled a = []")
  case False
  let ?x = "last (fa_recycled a)"
  note p = pop_set [of "fa_recycled a"]
  from inv False p have x: "l \<le> ?x" "?x < fa_current a" "fa_current a \<le> r" "unat r \<le> 2 ^ 44"
    by (auto simp: frame_inv_def)
  then have "ppn_from_usize ?x = ?x" by (intro ppn_from_usize_id) (simp add: word_less_unat word_le_unat)
  with al False have h: "h = ?x" "a' = a\<lparr>fa_recycled := butlast (fa_recycled a)\<rparr>"
    by (simp_all add: frame_allocator_alloc_def)
  from inv have "distinct (fa_recycled a)" by (simp add: frame_inv_def)
  note p = pop_set [OF False this]
  show ?thesis using inv x p unfolding h
    by (auto simp: frame_inv_def frame_owned_def intro: less_le_trans)
next
  case True
  let ?c = "fa_current a"
  from al inv True have c: "?c < r" "unat r \<le> 2 ^ 44" "l \<le> ?c"
    by (auto simp: frame_allocator_alloc_def frame_inv_def split: if_splits)
  then have "ppn_from_usize ?c = ?c" by (intro ppn_from_usize_id) (simp add: word_less_unat)
  with al True have h: "h = ?c" "a' = a\<lparr>fa_current := ?c + 1\<rparr>"
    by (auto simp: frame_allocator_alloc_def Let_def split: if_splits)
  from c have "l \<le> ?c + 1"
    using less_inc_iff [OF c(1), of l] by (auto simp: le_less)
  with inv c True inc_le [OF c(1)] show ?thesis unfolding h
    by (auto simp: frame_inv_def frame_owned_def less_inc_iff [OF c(1)])
qed

interpretation fa: handle_allocator "frame_inv l r" "frame_owned l" "{l..<r}"
    frame_allocator_alloc frame_allocator_dealloc for l r
proof (unfold_locales, goal_cases)
  case (1 a)
  then show ?case by (auto simp: frame_inv_def frame_owned_def)
next
  case (2 a h a')
  then show ?case by (rule frame_alloc_fresh)
next
  case (3 a)
  then show ?case
    by (auto simp: frame_allocator_alloc_def frame_inv_def frame_owned_def Let_def split: if_splits)
next
  case (4 a h)
  then show ?case
    by (auto simp: frame_allocator_dealloc_def frame_inv_def frame_owned_def)
next
  case (5 a h)
  then show ?case by (auto simp: frame_allocator_dealloc_def frame_owned_def not_less)
qed

lemma frame_inv_init:
  "l \<le> r \<Longrightarrow> unat r \<le> 2 ^ 44 \<Longrightarrow> frame_inv l r (frame_allocator_init l r frame_allocator_new)"
  by (simp add: frame_inv_def frame_allocator_init_def frame_allocator_new_def)

lemma unat_pa_ceil: "unat v \<le> 2 ^ 56 \<Longrightarrow> unat (pa_ceil v) = (unat v + 4095) div 4096"
  using unat_va_ceil [of v] by (simp add: va_ceil_def pa_ceil_def)

lemma frame_owned_init [simp]:
  "frame_owned l (frame_allocator_init l r frame_allocator_new) = {}"
  by (auto simp: frame_owned_def frame_allocator_init_def)

text \<open>
  C19: from \<open>init_frame_allocator\<close> on, whatever guards the kernel takes and drops in
  whatever order, no drop of a \<open>FrameTracker\<close> panics, no two live guards hold the same
  frame, every frame lies between the end of the kernel image and \<open>MEMORY_END\<close>, and
  \<open>frame_alloc\<close> fails only when every such frame is held.
\<close>

theorem frame_allocator_safe:
  assumes "unat ekernel \<le> 0x88000000"
  shows "\<exists>a hs. client_run frame_allocator_alloc frame_allocator_dealloc ops
           (init_frame_allocator ekernel frame_allocator_new, []) = Some (a, hs) \<and>
         distinct hs \<and>
         (\<forall>h\<in>set hs. unat ekernel \<le> unat h * 4096 \<and> unat h * 4096 + 4096 \<le> 0x88000000) \<and>
         (frame_allocator_alloc a = None \<longleftrightarrow>
            set hs = {pa_ceil (pa_from_usize ekernel)..<pa_floor (pa_from_usize MEMORY_END)})"
proof -
  let ?l = "pa_ceil (pa_from_usize ekernel)" and ?r = "pa_floor (pa_from_usize MEMORY_END)"
  have l: "unat ?l = (unat ekernel + 4095) div 4096"
    using assms by (simp add: unat_pa_ceil addr_nat)
  have r: "unat ?r = 0x88000"
    by (simp add: addr_nat MEMORY_END_def)
  have inv: "frame_inv ?l ?r (frame_allocator_init ?l ?r frame_allocator_new)"
    using assms by (intro frame_inv_init) (simp_all add: word_le_unat l r)
  from fa.client_safe [OF inv, where hs = "[]" and ops = ops] obtain a hs where
    run: "client_run frame_allocator_alloc frame_allocator_dealloc ops
            (frame_allocator_init ?l ?r frame_allocator_new, []) = Some (a, hs)"
    and a: "frame_inv ?l ?r a" "frame_owned ?l a = set hs" "distinct hs" "set hs \<subseteq> {?l..<?r}"
    by auto
  have b: "unat ekernel \<le> unat h * 4096 \<and> unat h * 4096 + 4096 \<le> 0x88000000" if "h \<in> set hs" for h
  proof -
    from that a(4) have "unat ?l \<le> unat h" "unat h < unat ?r" by (auto simp: word_le_unat word_less_unat)
    then show ?thesis unfolding l r by linarith
  qed
  have "frame_allocator_alloc a = None \<longleftrightarrow> set hs = {?l..<?r}"
    using a(2) fa.al_full [OF a(1)] fa.al_fresh [OF a(1)]
    by (metis not_None_eq old.prod.exhaust)
  with run a(3) b show ?thesis by (auto simp: init_frame_allocator_def)
qed

theorem frame_allocator_safe_witness:
  "\<exists>a hs. client_run frame_allocator_alloc frame_allocator_dealloc [OpAlloc, OpAlloc, OpDrop 0, OpAlloc]
       (init_frame_allocator 0x80400000 frame_allocator_new, []) = Some (a, hs) \<and> distinct hs"
  using frame_allocator_safe [of "0x80400000" "[OpAlloc, OpAlloc, OpDrop 0, OpAlloc]"] by auto

section \<open>The pid allocator is a handle allocator\<close>

definition pid_inv :: "pid_allocator \<Rightarrow> bool" where
  "pid_inv a \<longleftrightarrow> distinct (pa_recycled a) \<and> (\<forall>x\<in>set (pa_recycled a). x < pa_current a)"

definition pid_owned :: "pid_allocator \<Rightarrow> usize set" where
  "pid_owned a = {x. x < pa_current a} - set (pa_recycled a)"

text \<open>The counter is a \<open>usize\<close>: the contract covers every run in which fewer than
  \<open>2^64 - 1\<close> processes are alive at once.\<close>

definition pid_alloc_guarded :: "pid_allocator \<Rightarrow> (usize \<times> pid_allocator) option" where
  "pid_alloc_guarded a =
     (if pa_recycled a = [] \<and> pa_current a = - 1 then None else Some (pid_allocator_alloc a))"

lemma pid_alloc_fresh:
  assumes inv: "pid_inv a" and al: "pid_alloc_guarded a = Some (h, a')"
  shows "pid_inv a' \<and> h \<in> {..< - 1} \<and> h \<notin> pid_owned a \<and> pid_owned a' = insert h (pid_owned a)"
proof (cases "pa_recycled a = []")
  case False
  let ?x = "last (pa_recycled a)"
  from al False have h: "h = ?x" "a' = a\<lparr>pa_recycled := butlast (pa_recycled a)\<rparr>"
    by (auto simp: pid_alloc_guarded_def pid_allocator_alloc_def)
  from inv have "distinct (pa_recycled a)" by (simp add: pid_inv_def)
  note p = pop_set [OF False this]
  with inv have "?x < pa_current a" by (simp add: pid_inv_def)
  moreover have "pa_current a \<le> - 1" by simp
  ultimately have "?x < - 1" by (rule less_le_trans)
  with inv p show ?thesis unfolding h by (auto simp: pid_inv_def pid_owned_def)
next
  case True
  let ?c = "pa_current a"
  from al True have c: "?c < - 1" and h: "h = ?c" "a' = a\<lparr>pa_current := ?c + 1\<rparr>"
    by (auto simp: pid_alloc_guarded_def pid_allocator_alloc_def Let_def word_order.not_eq_extremum
        split: if_splits)
  with inv True show ?thesis unfolding h
    by (auto simp: pid_inv_def pid_owned_def less_inc_iff [OF c])
qed

interpretation pid: handle_allocator pid_inv pid_owned "{..< - 1}"
    pid_alloc_guarded pid_allocator_dealloc
proof (unfold_locales, goal_cases)
  case (1 a)
  have "x < - 1" if "x < pa_current a" for x
    using that by (rule less_le_trans) simp
  then show ?case by (auto simp: pid_owned_def)
next
  case (2 a h a')
  then show ?case by (rule pid_alloc_fresh)
next
  case (3 a)
  then show ?case by (auto simp: pid_alloc_guarded_def pid_owned_def split: if_splits)
next
  case (4 a h)
  then show ?case by (auto simp: pid_allocator_dealloc_def pid_inv_def pid_owned_def)
next
  case (5 a h)
  then show ?case by (auto simp: pid_allocator_dealloc_def pid_owned_def)
qed

text \<open>Kernel stacks of two pids whose stacks lie in the upper half of the address
  space do not overlap and have a guard page between them.\<close>

lemma kernel_stack_unat:
  assumes "unat p * 0x3000 + 0x3000 \<le> 2 ^ 38"
  shows "unat (fst (kernel_stack_position p)) = 2 ^ 64 - 0x1000 - (unat p * 0x3000 + 0x2000) \<and>
         unat (snd (kernel_stack_position p)) = 2 ^ 64 - 0x1000 - unat p * 0x3000"
proof -
  have m: "unat (p * 0x3000) = unat p * 0x3000" using assms by (simp add: unat_word_ariths)
  have t: "unat TRAMPOLINE = 2 ^ 64 - 0x1000" by (simp add: TRAMPOLINE_def PAGE_SIZE_def)
  have top: "unat (TRAMPOLINE - p * 0x3000) = 2 ^ 64 - 0x1000 - unat p * 0x3000"
    using assms by (subst unat_sub) (simp_all add: word_le_unat m t)
  moreover from this have "unat (TRAMPOLINE - p * 0x3000 - 0x2000) = 2 ^ 64 - 0x1000 - (unat p * 0x3000 + 0x2000)"
    using assms by (subst unat_sub) (simp_all add: word_le_unat)
  ultimately show ?thesis
    by (simp add: kernel_stack_position_def Let_def KERNEL_STACK_SIZE_def PAGE_SIZE_def)
qed

definition stack_in_upper_half :: "usize \<Rightarrow> bool" where
  "stack_in_upper_half p \<longleftrightarrow> unat p * 0x3000 + 0x3000 \<le> 2 ^ 38"

definition stacks_apart :: "usize \<Rightarrow> usize \<Rightarrow> bool" where
  "stacks_apart p q \<longleftrightarrow>
     (let (b, t) = kernel_stack_position p; (b', t') = kernel_stack_position q
      in unat t \<le> unat TRAMPOLINE \<and> unat b + 0x2000 = unat t \<and>
         (unat t + 0x1000 \<le> unat b' \<or> unat t' + 0x1000 \<le> unat b))"

lemma stacks_apart_pids:
  assumes "p \<noteq> q" and pq: "stack_in_upper_half p" "stack_in_upper_half q"
  shows "stacks_apart p q"
proof -
  obtain b t b' t' where bt: "kernel_stack_position p = (b, t)" "kernel_stack_position q = (b', t')"
    by (metis surj_pair)
  from assms(1) have "unat p < unat q \<or> unat q < unat p" by (auto simp: word_unat_eq_iff)
  with kernel_stack_unat [of p] kernel_stack_unat [of q] pq show ?thesis
    by (auto simp: stacks_apart_def stack_in_upper_half_def bt TRAMPOLINE_def PAGE_SIZE_def)
qed

text \<open>
  C20: \<open>pid_alloc\<close> never hands a live pid to a second process and dropping a
  \<open>PidHandle\<close> never panics, for every order of creations and exits; and the kernel
  stacks \<open>kernel_stack_position\<close> gives to two live pids are separated by at least a
  guard page and lie below the trampoline (for pids whose stacks stay in the upper
  half of the SV39 address space).
\<close>

theorem pids_and_kernel_stacks_disjoint:
  "\<exists>a hs. client_run pid_alloc_guarded pid_allocator_dealloc ops (pid_allocator_new, []) = Some (a, hs) \<and>
     distinct hs \<and>
     (\<forall>i<length hs. \<forall>j<length hs.
        i \<noteq> j \<and> stack_in_upper_half (hs ! i) \<and> stack_in_upper_half (hs ! j) \<longrightarrow>
        stacks_apart (hs ! i) (hs ! j))"
proof -
  have inv: "pid_inv pid_allocator_new" "pid_owned pid_allocator_new = {}"
    by (auto simp: pid_inv_def pid_owned_def pid_allocator_new_def)
  obtain a hs where "client_run pid_alloc_guarded pid_allocator_dealloc ops (pid_allocator_new, []) = Some (a, hs)"
    "distinct hs" using pid.client_safe [OF inv(1), where hs = "[]" and ops = ops] inv(2) by auto
  then show ?thesis
    by (auto simp: nth_eq_iff_index_eq intro!: stacks_apart_pids)
qed

theorem pids_and_kernel_stacks_disjoint_witness:
  "\<exists>a hs. client_run pid_alloc_guarded pid_allocator_dealloc [OpAlloc, OpAlloc] (pid_allocator_new, []) = Some (a, hs) \<and>
     hs = [0, 1] \<and> stacks_apart 0 1"
proof -
  have s: "stack_in_upper_half 0" "stack_in_upper_half 1" by (simp_all add: stack_in_upper_half_def)
  obtain a hs where r: "client_run pid_alloc_guarded pid_allocator_dealloc [OpAlloc, OpAlloc] (pid_allocator_new, []) = Some (a, hs)"
    and p: "\<forall>i<length hs. \<forall>j<length hs. i \<noteq> j \<and> stack_in_upper_half (hs ! i) \<and> stack_in_upper_half (hs ! j) \<longrightarrow>
        stacks_apart (hs ! i) (hs ! j)"
    using pids_and_kernel_stacks_disjoint [of "[OpAlloc, OpAlloc]"] by blast
  from r have hs: "hs = [0, 1]"
    by (auto simp: pid_alloc_guarded_def pid_allocator_alloc_def pid_allocator_new_def split: if_splits)
  from p have "stacks_apart (hs ! 0) (hs ! 1)" using s unfolding hs by fastforce
  with r hs show ?thesis by auto
qed

end
