(* ===== verification/Page_Table.thy ===== *)
theory Page_Table
  imports Allocators Rust_Std
begin

text \<open>
  SV39 page tables (\<open>os/src/mm/page_table.rs\<close>) over physical memory: page table
  entries, the three-level walk with and without creation of intermediate tables,
  mapping, unmapping and translation, and the routines by which the kernel reaches
  user memory.  A \<open>PageTable\<close> keeps the frames of its tables alive; its entries live
  in physical memory, so the operations thread the machine state.
\<close>

unbundle bit_operations_syntax

section \<open>Frames in memory\<close>

record machine =
  mem :: memory
  frame_allocator :: stack_frame_allocator

text \<open>\<open>FrameTracker::new\<close> clears the page.\<close>

definition frame_tracker_new :: "phys_page_num \<Rightarrow> memory \<Rightarrow> memory" where
  "frame_tracker_new ppn m = store_bytes m (pa_from_ppn ppn) (replicate 4096 0)"

definition frame_alloc :: "machine \<Rightarrow> (phys_page_num \<times> machine) option" where
  "frame_alloc mc =
     (case frame_allocator_alloc (frame_allocator mc) of
        None \<Rightarrow> None
      | Some (ppn, a) \<Rightarrow> Some (ppn, mc\<lparr>mem := frame_tracker_new ppn (mem mc), frame_allocator := a\<rparr>))"

definition frame_dealloc :: "phys_page_num \<Rightarrow> machine \<Rightarrow> machine option" where
  "frame_dealloc ppn mc =
     map_option (\<lambda>a. mc\<lparr>frame_allocator := a\<rparr>) (frame_allocator_dealloc ppn (frame_allocator mc))"

text \<open>Dropping a vector of \<open>FrameTracker\<close>s drops them in order.\<close>

fun frames_drop :: "phys_page_num list \<Rightarrow> machine \<Rightarrow> machine option" where
  "frames_drop [] mc = Some mc"
| "frames_drop (p # ps) mc = do { mc \<leftarrow> frame_dealloc p mc; frames_drop ps mc }"

section \<open>Page table entries\<close>

type_synonym pte_flags = u8

definition PTE_V :: pte_flags where "PTE_V = push_bit 0 1"
definition PTE_R :: pte_flags where "PTE_R = push_bit 1 1"
definition PTE_W :: pte_flags where "PTE_W = push_bit 2 1"
definition PTE_X :: pte_flags where "PTE_X = push_bit 3 1"
definition PTE_U :: pte_flags where "PTE_U = push_bit 4 1"

type_synonym page_table_entry = usize

definition pte_new :: "phys_page_num \<Rightarrow> pte_flags \<Rightarrow> page_table_entry" where
  "pte_new ppn fl = push_bit 10 ppn OR ucast fl"

definition pte_empty :: page_table_entry where
  "pte_empty = 0"

definition pte_ppn :: "page_table_entry \<Rightarrow> phys_page_num" where
  "pte_ppn e = ppn_from_usize (drop_bit 10 e AND low_mask 44)"

definition pte_get_flags :: "page_table_entry \<Rightarrow> pte_flags" where
  "pte_get_flags e = ucast e"

definition pte_is_valid :: "page_table_entry \<Rightarrow> bool" where
  "pte_is_valid e \<longleftrightarrow> pte_get_flags e AND PTE_V \<noteq> 0"

definition pte_readable :: "page_table_entry \<Rightarrow> bool" where
  "pte_readable e \<longleftrightarrow> pte_get_flags e AND PTE_R \<noteq> 0"

definition pte_writable :: "page_table_entry \<Rightarrow> bool" where
  "pte_writable e \<longleftrightarrow> pte_get_flags e AND PTE_W \<noteq> 0"

definition pte_executable :: "page_table_entry \<Rightarrow> bool" where
  "pte_executable e \<longleftrightarrow> pte_get_flags e AND PTE_X \<noteq> 0"

section \<open>Page tables\<close>

record page_table =
  root_ppn :: phys_page_num
  pt_frames :: "phys_page_num list"

text \<open>\<open>&ppn.get_pte_array()[idx]\<close> is the address of an eight-byte entry.\<close>

definition pte_slot :: "phys_page_num \<Rightarrow> usize \<Rightarrow> phys_addr" where
  "pte_slot ppn idx = pa_from_ppn ppn + 8 * idx"

definition page_table_new :: "machine \<Rightarrow> (page_table \<times> machine) option" where
  "page_table_new mc = do {
     (f, mc) \<leftarrow> frame_alloc mc;
     Some (\<lparr>root_ppn = f, pt_frames = [f]\<rparr>, mc)
   }"

definition page_table_from_token :: "usize \<Rightarrow> page_table" where
  "page_table_from_token satp = \<lparr>root_ppn = ppn_from_usize (satp AND low_mask 44), pt_frames = []\<rparr>"

text \<open>The walks return the address of the leaf entry.  In \<open>find_pte_create\<close> a missing
  intermediate table is allocated; \<open>None\<close> is then the panic of
  \<open>frame_alloc().unwrap()\<close>, while in \<open>find_pte\<close> it is the value \<open>None\<close>.\<close>

fun find_pte_create_loop :: "phys_page_num \<Rightarrow> usize list \<Rightarrow> phys_page_num list \<times> machine \<Rightarrow>
    (phys_addr \<times> (phys_page_num list \<times> machine)) option" where
  "find_pte_create_loop ppn [] s = None"
| "find_pte_create_loop ppn [idx] s = Some (pte_slot ppn idx, s)"
| "find_pte_create_loop ppn (idx # i # is) (fs, mc) = do {
     let pte = pte_slot ppn idx;
     (fs, mc) \<leftarrow>
       (if \<not> pte_is_valid (load_u64 (mem mc) pte) then do {
          (f, mc) \<leftarrow> frame_alloc mc;
          Some (fs @ [f], mc\<lparr>mem := store_u64 (mem mc) pte (pte_new f PTE_V)\<rparr>)
        } else Some (fs, mc));
     find_pte_create_loop (pte_ppn (load_u64 (mem mc) pte)) (i # is) (fs, mc)
   }"

definition find_pte_create :: "virt_page_num \<Rightarrow> page_table \<times> machine \<Rightarrow> (phys_addr \<times> (page_table \<times> machine)) option" where
  "find_pte_create vpn = (\<lambda>(pt, mc). do {
     (a, fs, mc) \<leftarrow> find_pte_create_loop (root_ppn pt) (vpn_indexes vpn) (pt_frames pt, mc);
     Some (a, pt\<lparr>pt_frames := fs\<rparr>, mc)
   })"

fun find_pte_loop :: "memory \<Rightarrow> phys_page_num \<Rightarrow> usize list \<Rightarrow> phys_addr option" where
  "find_pte_loop m ppn [] = None"
| "find_pte_loop m ppn [idx] = Some (pte_slot ppn idx)"
| "find_pte_loop m ppn (idx # i # is) =
     (let pte = load_u64 m (pte_slot ppn idx) in
      if \<not> pte_is_valid pte then None else find_pte_loop m (pte_ppn pte) (i # is))"

definition find_pte :: "memory \<Rightarrow> page_table \<Rightarrow> virt_page_num \<Rightarrow> phys_addr option" where
  "find_pte m pt vpn = find_pte_loop m (root_ppn pt) (vpn_indexes vpn)"

text \<open>\<open>PageTable::map\<close>, \<open>unmap\<close>, \<open>translate\<close>, \<open>translate_va\<close> and \<open>token\<close>.\<close>

definition pt_map :: "virt_page_num \<Rightarrow> phys_page_num \<Rightarrow> pte_flags \<Rightarrow> page_table \<times> machine \<Rightarrow> (page_table \<times> machine) option" where
  "pt_map vpn ppn fl s = do {
     (pte, pt, mc) \<leftarrow> find_pte_create vpn s;
     if pte_is_valid (load_u64 (mem mc) pte) then None
     else Some (pt, mc\<lparr>mem := store_u64 (mem mc) pte (pte_new ppn (fl OR PTE_V))\<rparr>)
   }"

definition pt_unmap :: "virt_page_num \<Rightarrow> page_table \<times> machine \<Rightarrow> (page_table \<times> machine) option" where
  "pt_unmap vpn = (\<lambda>(pt, mc). do {
     pte \<leftarrow> find_pte (mem mc) pt vpn;
     if \<not> pte_is_valid (load_u64 (mem mc) pte) then None
     else Some (pt, mc\<lparr>mem := store_u64 (mem mc) pte pte_empty\<rparr>)
   })"

definition pt_translate :: "memory \<Rightarrow> page_table \<Rightarrow> virt_page_num \<Rightarrow> page_table_entry option" where
  "pt_translate m pt vpn = map_option (load_u64 m) (find_pte m pt vpn)"

definition pt_translate_va :: "memory \<Rightarrow> page_table \<Rightarrow> virt_addr \<Rightarrow> phys_addr option" where
  "pt_translate_va m pt va =
     map_option (\<lambda>pte. pa_from_usize (pa_from_ppn (pte_ppn (load_u64 m pte)) + va_page_offset va))
       (find_pte m pt (va_floor va))"

definition pt_token :: "page_table \<Rightarrow> usize" where
  "pt_token pt = push_bit 60 8 OR root_ppn pt"

section \<open>Access to user memory\<close>

text \<open>
  \<open>translated_byte_buffer\<close> returns mutable slices of physical memory: the address
  and the length of each.  The slice of a page runs from the offset of the start to
  the offset of the end, and to the end of the page when that offset is zero; a start
  offset beyond the end offset is a slice-index panic.  The \<open>while\<close> loop ends on no
  bound of its own, so \<open>None\<close> stands for the panics and for not returning.
\<close>

type_synonym slices = "(phys_addr \<times> nat) list"

definition byte_slice :: "phys_page_num \<Rightarrow> usize \<Rightarrow> usize \<Rightarrow> (phys_addr \<times> nat) option" where
  "byte_slice ppn s e =
     (if e = 0 then Some (pa_from_ppn ppn + s, 4096 - unat s)
      else if s \<le> e then Some (pa_from_ppn ppn + s, unat e - unat s) else None)"

partial_function (option) translated_loop :: "memory \<Rightarrow> page_table \<Rightarrow> usize \<Rightarrow> usize \<Rightarrow> slices option" where
  "translated_loop m pt s e =
     (if s < e then
        (let start_va = va_from_usize s; vpn = va_floor start_va in
         Option.bind (pt_translate m pt vpn) (\<lambda>pte.
         let ppn = pte_ppn pte;
             end_va = min (va_from_vpn (vpn + 1)) (va_from_usize e) in
         Option.bind (byte_slice ppn (va_page_offset start_va) (va_page_offset end_va)) (\<lambda>sl.
         Option.bind (translated_loop m pt (usize_from_va end_va) e) (\<lambda>v. Some (sl # v)))))
      else Some [])"

definition translated_byte_buffer :: "memory \<Rightarrow> usize \<Rightarrow> usize \<Rightarrow> usize \<Rightarrow> slices option" where
  "translated_byte_buffer m token ptr len =
     translated_loop m (page_table_from_token token) ptr (ptr + len)"

text \<open>\<open>translated_str\<close>: \<open>ch as char\<close> is the Latin-1 character of the byte, which
  \<open>String::push\<close> encodes in UTF-8.\<close>

definition char_utf8 :: "u8 \<Rightarrow> rstring" where
  "char_utf8 b = (if b < 0x80 then [b] else [0xC0 OR drop_bit 6 b, 0x80 OR (b AND 0x3F)])"

partial_function (option) translated_str_loop :: "memory \<Rightarrow> page_table \<Rightarrow> usize \<Rightarrow> rstring option" where
  "translated_str_loop m pt va =
     Option.bind (pt_translate_va m pt (va_from_usize va)) (\<lambda>pa.
       (if m pa = 0 then Some []
        else Option.bind (translated_str_loop m pt (va + 1)) (\<lambda>s. Some (char_utf8 (m pa) @ s))))"

definition translated_str :: "memory \<Rightarrow> usize \<Rightarrow> usize \<Rightarrow> rstring option" where
  "translated_str m token ptr = translated_str_loop m (page_table_from_token token) ptr"

text \<open>\<open>translated_ref\<close> and \<open>translated_refmut\<close>: the physical address of the object.\<close>

definition translated_refmut :: "memory \<Rightarrow> usize \<Rightarrow> usize \<Rightarrow> phys_addr option" where
  "translated_refmut m token ptr = pt_translate_va m (page_table_from_token token) (va_from_usize ptr)"

text \<open>\<open>UserBuffer::len\<close> and the order in which \<open>UserBufferIterator\<close> visits the bytes
  (its state is the current buffer and the index in it).  An empty buffer makes
  \<open>next\<close> index out of range.\<close>

definition user_buffer_len :: "slices \<Rightarrow> nat" where
  "user_buffer_len bs = sum_list (map snd bs)"

definition user_buffer_next :: "slices \<Rightarrow> nat \<times> nat \<Rightarrow> (phys_addr option \<times> (nat \<times> nat)) option" where
  "user_buffer_next bs = (\<lambda>(cb, ci).
     if length bs \<le> cb then Some (None, (cb, ci))
     else if \<not> ci < snd (bs ! cb) then None
     else let r = fst (bs ! cb) + word_of_nat ci in
          if ci + 1 = snd (bs ! cb) then Some (Some r, (cb + 1, 0)) else Some (Some r, (cb, ci + 1)))"

text \<open>Writing and reading a run of bytes through slices
  (\<open>write_user_bytes\<close> and \<open>read_user_bytes\<close> of \<open>agent/context_area.rs\<close>).\<close>

fun write_slices :: "slices \<Rightarrow> u8 list \<Rightarrow> memory \<Rightarrow> memory" where
  "write_slices [] bs m = m"
| "write_slices ((a, n) # sl) bs m =
     (let k = min n (length bs); m' = store_bytes m a (take k bs) in
      if length bs \<le> k then m' else write_slices sl (drop k bs) m')"

fun read_slices :: "slices \<Rightarrow> u8 list \<Rightarrow> memory \<Rightarrow> u8 list" where
  "read_slices [] buf m = buf"
| "read_slices ((a, n) # sl) buf m =
     (let k = min n (length buf) in
      load_bytes m a k @ (if length buf \<le> k then [] else read_slices sl (drop k buf) m))"

definition write_user_bytes :: "usize \<Rightarrow> usize \<Rightarrow> u8 list \<Rightarrow> memory \<Rightarrow> memory option" where
  "write_user_bytes token va bs m = do {
     chunks \<leftarrow> translated_byte_buffer m token va (word_of_nat (length bs));
     Some (write_slices chunks bs m)
   }"

definition read_user_bytes :: "usize \<Rightarrow> usize \<Rightarrow> u8 list \<Rightarrow> memory \<Rightarrow> u8 list option" where
  "read_user_bytes token va buf m = do {
     chunks \<leftarrow> translated_byte_buffer m token va (word_of_nat (length buf));
     Some (read_slices chunks buf m)
   }"

end
