(* ===== verification/Page_Table_Laws.thy ===== *)
theory Page_Table_Laws
  imports Page_Table
begin

text \<open>
  Correctness of the page tables of \<open>Page_Table\<close>: entries decode to what was encoded,
  the tables reached from a root form a tree over frames the page table owns, and seen
  from outside a page table is a finite map from page numbers to entries
  (\<open>pt_view\<close>) that \<open>map\<close> and \<open>unmap\<close> update at one point.
\<close>

unbundle bit_operations_syntax

section \<open>Entries\<close>

lemma low_mask_bit: "bit (low_mask n) i \<longleftrightarrow> i < n \<and> i < 64"
  by (auto simp: low_mask_mask bit_simps)

lemma small_bits: "unat (p :: usize) < 2 ^ n \<Longrightarrow> bit p i \<Longrightarrow> i < n"
proof -
  assume "unat p < 2 ^ n" "bit p i"
  have "take_bit n (unat p) = unat p" using \<open>unat p < 2 ^ n\<close> by (simp add: take_bit_nat_eq_self)
  moreover have "bit (unat p) i" using \<open>bit p i\<close> by (simp add: bit_unsigned_iff)
  ultimately show "i < n" by (metis bit_take_bit_iff)
qed

lemma pte_ppn_new:
  assumes "unat p < 2 ^ 44"
  shows "pte_ppn (pte_new p fl) = p"
proof -
  have "(drop_bit 10 (pte_new p fl) AND low_mask 44) = p"
  proof (rule bit_eqI)
    fix i
    show "bit (drop_bit 10 (pte_new p fl) AND low_mask 44) i = bit p i"
      using small_bits [OF assms, of i] bit_imp_le_length [of fl "10 + i"]
      by (auto simp: pte_new_def bit_simps low_mask_bit)
  qed
  then show ?thesis using assms by (simp add: pte_ppn_def ppn_from_usize_id)
qed

lemma pte_flags_new: "pte_get_flags (pte_new p fl) = fl"
  by (rule bit_eqI) (auto simp: pte_get_flags_def pte_new_def bit_simps)

lemma pte_valid_flag: "pte_is_valid e \<longleftrightarrow> bit e 0"
proof -
  have "pte_is_valid e \<longleftrightarrow> bit (ucast e :: u8) 0"
    by (simp add: pte_is_valid_def pte_get_flags_def PTE_V_def and_one_eq mod_2_eq_odd bit_0)
  then show ?thesis by (simp add: bit_simps)
qed

lemma pte_valid_new: "pte_is_valid (pte_new p (fl OR PTE_V))"
  by (simp add: pte_valid_flag pte_new_def PTE_V_def bit_simps)

lemma pte_invalid_0: "\<not> pte_is_valid 0"
  by (simp add: pte_valid_flag)

lemma pte_ppn_bound: "unat (pte_ppn e) < 2 ^ 44"
  by (simp add: pte_ppn_def unat_ppn_from_usize)


section \<open>Frames do not overlap\<close>

definition frame_ok :: "phys_page_num \<Rightarrow> bool" where
  "frame_ok p \<longleftrightarrow> unat p < 2 ^ 44"

lemma unat_in_frame:
  assumes "frame_ok p" "unat off \<le> 4096"
  shows "unat (pa_from_ppn p + off) = unat p * 4096 + unat off"
  using assms by (simp add: frame_ok_def unat_add_u64_small unat_pa_from_ppn)

lemma frames_apart:
  assumes "frame_ok p" "frame_ok q" "p \<noteq> q" "unat o1 + length bs \<le> 4096" "unat o2 + n \<le> 4096"
  shows "load_bytes (store_bytes m (pa_from_ppn p + o1) bs) (pa_from_ppn q + o2) n =
         load_bytes m (pa_from_ppn q + o2) n"
proof -
  from assms(3) have "unat p < unat q \<or> unat q < unat p" by (auto simp: word_unat_eq_iff)
  then have "unat q * 4096 + 4096 \<le> unat p * 4096 \<or> unat p * 4096 + 4096 \<le> unat q * 4096" by linarith
  moreover have "unat (pa_from_ppn p + o1) = unat p * 4096 + unat o1"
    "unat (pa_from_ppn q + o2) = unat q * 4096 + unat o2"
    using assms by (simp_all add: unat_in_frame)
  moreover have "unat p * 4096 + 4096 \<le> 2 ^ 64" "unat q * 4096 + 4096 \<le> 2 ^ 64"
    using assms(1,2) by (simp_all add: frame_ok_def)
  ultimately show ?thesis using assms(4,5) by (intro load_store_apart) auto
qed

lemma unat_8_times: "unat i < 512 \<Longrightarrow> unat (8 * i :: usize) = 8 * unat i"
  by (simp add: unat_word_ariths)

lemma unat_pte_slot:
  "frame_ok p \<Longrightarrow> unat i < 512 \<Longrightarrow> unat (pte_slot p i) = unat p * 4096 + 8 * unat i"
  by (simp add: pte_slot_def unat_in_frame unat_8_times)

lemma load_store_slot:
  assumes "frame_ok p" "frame_ok q" "unat i < 512" "unat j < 512"
  shows "load_u64 (store_u64 m (pte_slot p i) v) (pte_slot q j) =
         (if p = q \<and> i = j then v else load_u64 m (pte_slot q j))"
proof (cases "p = q \<and> i = j")
  case False
  have "unat (pte_slot q j) + 8 \<le> unat (pte_slot p i) \<or> unat (pte_slot p i) + 8 \<le> unat (pte_slot q j)"
  proof (cases "p = q")
    case True
    with False have "unat i \<noteq> unat j" by (simp add: word_unat_eq_iff)
    with True assms show ?thesis by (auto simp: unat_pte_slot)
  next
    case pq: False
    then have "unat p < unat q \<or> unat q < unat p" by (auto simp: word_unat_eq_iff)
    with assms show ?thesis by (auto simp: unat_pte_slot)
  qed
  with False assms show ?thesis
    by (simp only: if_False) (rule load_store_u64_apart; simp add: unat_pte_slot frame_ok_def)
qed simp

lemma load_zeroed_slot:
  assumes "frame_ok f" "frame_ok q" "unat j < 512"
  shows "load_u64 (frame_tracker_new f m) (pte_slot q j) = (if q = f then 0 else load_u64 m (pte_slot q j))"
proof (cases "q = f")
  case True
  have "load_bytes (frame_tracker_new f m) (pte_slot f j) 8 = replicate 8 0"
  proof (rule nth_equalityI)
    fix i
    assume "i < length (load_bytes (frame_tracker_new f m) (pte_slot f j) 8)"
    then have i: "i < 8" by simp
    have d: "pte_slot f j + word_of_nat i - pa_from_ppn f = 8 * j + word_of_nat i"
      by (simp add: pte_slot_def)
    have "unat (pte_slot f j + word_of_nat i - pa_from_ppn f) < 4096"
      unfolding d using assms(3) i
      by (subst unat_add_u64_small) (simp_all add: unat_8_times unat_of_nat_u64)
    then show "load_bytes (frame_tracker_new f m) (pte_slot f j) 8 ! i = replicate 8 0 ! i"
      using i by (simp add: frame_tracker_new_def store_bytes_def)
  qed simp
  then show ?thesis using True
    by (simp add: load_u64_def from_le_bytes_def numeral_eq_Suc)
next
  case False
  have "load_bytes (store_bytes m (pa_from_ppn f + 0) (replicate 4096 0)) (pa_from_ppn q + 8 * j) 8 =
        load_bytes m (pa_from_ppn q + 8 * j) 8"
    using assms False by (intro frames_apart) (simp_all add: unat_8_times)
  with False show ?thesis by (simp add: load_u64_def frame_tracker_new_def pte_slot_def)
qed

section \<open>The tree of tables\<close>

definition pt_next :: "memory \<Rightarrow> phys_page_num \<Rightarrow> usize \<Rightarrow> phys_page_num option" where
  "pt_next m p i = (let e = load_u64 m (pte_slot p i) in if pte_is_valid e then Some (pte_ppn e) else None)"

fun pt_node :: "memory \<Rightarrow> phys_page_num \<Rightarrow> usize list \<Rightarrow> phys_page_num option" where
  "pt_node m p [] = Some p"
| "pt_node m p (i # is) = Option.bind (pt_next m p i) (\<lambda>q. pt_node m q is)"

definition idx_path :: "usize list \<Rightarrow> bool" where
  "idx_path path \<longleftrightarrow> length path \<le> 2 \<and> (\<forall>i\<in>set path. unat i < 512)"

text \<open>Every table of the tree is one of the frames \<open>F\<close>, and no table is reached by two
  paths.\<close>

definition pt_tree :: "memory \<Rightarrow> phys_page_num \<Rightarrow> phys_page_num set \<Rightarrow> bool" where
  "pt_tree m root F \<longleftrightarrow> (\<forall>f\<in>F. frame_ok f) \<and>
     (\<forall>path q. idx_path path \<longrightarrow> pt_node m root path = Some q \<longrightarrow> q \<in> F) \<and>
     (\<forall>path path' q. idx_path path \<longrightarrow> idx_path path' \<longrightarrow> pt_node m root path = Some q \<longrightarrow>
        pt_node m root path' = Some q \<longrightarrow> path = path')"

lemma pt_node_append: "pt_node m p (xs @ ys) = Option.bind (pt_node m p xs) (\<lambda>q. pt_node m q ys)"
  by (induction xs arbitrary: p) simp_all

lemma pt_node_snoc: "pt_node m p (xs @ [i]) = Option.bind (pt_node m p xs) (\<lambda>q. pt_next m q i)"
  by (simp add: pt_node_append)

lemma find_pte_node:
  "find_pte_loop m p [i, j, k] = map_option (\<lambda>q. pte_slot q k) (pt_node m p [i, j])"
  by (simp add: pt_next_def Let_def)

lemma idx_path_snoc: "idx_path (xs @ [i]) \<Longrightarrow> idx_path xs \<and> length xs \<le> 1 \<and> unat i < 512"
  by (simp add: idx_path_def)

lemma pt_treeD:
  assumes "pt_tree m root F" "idx_path path" "pt_node m root path = Some q"
  shows "q \<in> F" "frame_ok q"
  using assms unfolding pt_tree_def by blast+

lemma pt_tree_inj:
  assumes "pt_tree m root F" "idx_path path" "idx_path path'" "pt_node m root path = Some q"
    "pt_node m root path' = Some q"
  shows "path = path'"
  using assms unfolding pt_tree_def by blast

text \<open>Memory that agrees on the tables holds the same tree.\<close>

lemma pt_node_agree:
  assumes "pt_tree m root F"
    and agree: "\<And>f i. f \<in> F \<Longrightarrow> unat i < 512 \<Longrightarrow> load_u64 m' (pte_slot f i) = load_u64 m (pte_slot f i)"
    and "idx_path path"
  shows "pt_node m' root path = pt_node m root path"
  using assms(3)
proof (induction path rule: rev_induct)
  case (snoc i path)
  note p = idx_path_snoc [OF snoc.prems]
  with snoc.IH have "pt_node m' root path = pt_node m root path" by blast
  moreover have "pt_next m' q i = pt_next m q i" if "pt_node m root path = Some q" for q
    using pt_treeD(1) [OF assms(1) _ that] agree [of q i] p by (simp add: pt_next_def)
  ultimately show ?case by (cases "pt_node m root path") (simp_all add: pt_node_snoc)
qed simp

lemma pt_tree_agree:
  assumes "pt_tree m root F"
    and "\<And>f i. f \<in> F \<Longrightarrow> unat i < 512 \<Longrightarrow> load_u64 m' (pte_slot f i) = load_u64 m (pte_slot f i)"
  shows "pt_tree m' root F"
proof -
  have "pt_node m' root path = pt_node m root path" if "idx_path path" for path
    using pt_node_agree [OF assms that] by blast
  with assms(1) show ?thesis by (simp add: pt_tree_def)
qed

text \<open>Writing a leaf entry keeps the tree.\<close>

lemma pt_node_leaf_write:
  assumes t: "pt_tree m root F" and leaf: "idx_path lp" "length lp = 2" "pt_node m root lp = Some q"
    and k: "unat k < 512" and "idx_path path"
  shows "pt_node (store_u64 m (pte_slot q k) v) root path = pt_node m root path"
  using \<open>idx_path path\<close>
proof (induction path rule: rev_induct)
  case (snoc i path)
  let ?m = "store_u64 m (pte_slot q k) v"
  note p = idx_path_snoc [OF snoc.prems]
  with snoc.IH have ih: "pt_node ?m root path = pt_node m root path" by blast
  show ?case
  proof (cases "pt_node m root path")
    case (Some r)
    have "r \<noteq> q"
    proof
      assume "r = q"
      with Some leaf p have "path = lp" using pt_tree_inj [OF t] by blast
      with p leaf show False by simp
    qed
    moreover have "frame_ok q" "frame_ok r" using pt_treeD(2) [OF t] leaf Some p by blast+
    ultimately have "pt_next ?m r i = pt_next m r i"
      using p k by (simp add: pt_next_def load_store_slot)
    with ih Some show ?thesis by (simp add: pt_node_snoc)
  qed (use ih in \<open>simp add: pt_node_snoc\<close>)
qed simp


text \<open>Linking a fresh, cleared frame into an empty entry adds one table.\<close>

lemma pt_node_create:
  assumes t: "pt_tree m root F" and p0: "idx_path (p0 @ [i])" "pt_node m root p0 = Some p"
    and none: "pt_next m p i = None" and f: "f \<notin> F" "frame_ok f"
    and "idx_path path"
  shows "pt_node (store_u64 (frame_tracker_new f m) (pte_slot p i) (pte_new f PTE_V)) root path =
         (if path = p0 @ [i] then Some f else pt_node m root path)"
  using \<open>idx_path path\<close>
proof (induction path rule: rev_induct)
  case (snoc j ys)
  let ?m = "store_u64 (frame_tracker_new f m) (pte_slot p i) (pte_new f PTE_V)"
  note y = idx_path_snoc [OF snoc.prems] and i = idx_path_snoc [OF p0(1)]
  have ih: "pt_node ?m root ys = (if ys = p0 @ [i] then Some f else pt_node m root ys)"
    using snoc.IH y by blast
  have p: "p \<in> F" "frame_ok p" using pt_treeD [OF t _ p0(2)] i by blast+
  have ld: "load_u64 ?m (pte_slot r j) =
      (if p = r \<and> i = j then pte_new f PTE_V else if r = f then 0 else load_u64 m (pte_slot r j))"
    if "frame_ok r" for r
    using that p f y i by (simp add: load_store_slot load_zeroed_slot)
  show ?case
  proof (cases "ys = p0 @ [i]")
    case True
    have "p \<noteq> f" using p f by blast
    then have fj: "pt_next ?m f j = None" using ld [OF f(2)] by (simp add: pt_next_def pte_invalid_0)
    from True ih have "pt_node ?m root ys = Some f" by (simp only: if_True simp_thms)
    with fj have "pt_node ?m root (ys @ [j]) = None" by (simp add: pt_node_snoc)
    moreover have "pt_node m root ys = None" using True p0(2) none by (simp add: pt_node_snoc)
    then have "pt_node m root (ys @ [j]) = None" by (simp add: pt_node_snoc)
    moreover have "ys @ [j] \<noteq> p0 @ [i]" using True by simp
    ultimately show ?thesis by (simp only: if_False)
  next
    case ys: False
    with ih have ih': "pt_node ?m root ys = pt_node m root ys" by (simp only: if_False)
    show ?thesis
    proof (cases "pt_node m root ys")
      case None
      with p0(2) have "ys \<noteq> p0" by auto
      with None ih' show ?thesis by (simp add: pt_node_snoc)
    next
      case (Some r)
      then have r: "r \<in> F" "frame_ok r" using pt_treeD [OF t _ Some] y by blast+
      with f have "r \<noteq> f" by blast
      have ysp: "ys = p0 \<longleftrightarrow> r = p"
      proof
        assume "ys = p0"
        with Some p0(2) show "r = p" by simp
      next
        assume "r = p"
        with Some p0(2) y i show "ys = p0" using pt_tree_inj [OF t, of ys p0] by blast
      qed
      show ?thesis
      proof (cases "r = p \<and> i = j")
        case True
        have "pte_is_valid (pte_new f PTE_V)" using pte_valid_new [of f 0] by simp
        with True ld [OF r(2)] f(2) have "pt_next ?m r j = Some f"
          by (simp add: pt_next_def frame_ok_def pte_ppn_new)
        with True ih' Some ysp show ?thesis by (simp add: pt_node_snoc)
      next
        case False
        with ld [OF r(2)] \<open>r \<noteq> f\<close> have "load_u64 ?m (pte_slot r j) = load_u64 m (pte_slot r j)"
          by (simp only: if_False) metis
        then have nx: "pt_next ?m r j = pt_next m r j" by (simp add: pt_next_def)
        have ne: "ys @ [j] \<noteq> p0 @ [i]" using False ysp by auto
        show ?thesis unfolding if_not_P [OF ne] using ih' Some nx by (simp add: pt_node_snoc)
      qed
    qed
  qed
qed simp

lemma pt_tree_create:
  assumes t: "pt_tree m root F" and p0: "idx_path (p0 @ [i])" "pt_node m root p0 = Some p"
    and none: "pt_next m p i = None" and f: "f \<notin> F" "frame_ok f"
  shows "pt_tree (store_u64 (frame_tracker_new f m) (pte_slot p i) (pte_new f PTE_V)) root (insert f F)"
proof -
  let ?m = "store_u64 (frame_tracker_new f m) (pte_slot p i) (pte_new f PTE_V)"
  have n: "pt_node ?m root path = (if path = p0 @ [i] then Some f else pt_node m root path)"
    if "idx_path path" for path by (rule pt_node_create [OF assms that])
  have F: "q \<in> F" if "idx_path path" "pt_node m root path = Some q" for path q
    using pt_treeD(1) [OF t that] .
  show ?thesis
    unfolding pt_tree_def
  proof (intro conjI allI impI ballI)
    fix g
    assume "g \<in> insert f F"
    with t f show "frame_ok g" by (auto simp: pt_tree_def)
  next
    fix path q
    assume "idx_path path" "pt_node ?m root path = Some q"
    with n F show "q \<in> insert f F" by (auto split: if_splits)
  next
    fix path path' q
    assume a: "idx_path path" "idx_path path'" "pt_node ?m root path = Some q" "pt_node ?m root path' = Some q"
    then show "path = path'"
      using n [OF a(1)] n [OF a(2)] F [OF a(1)] F [OF a(2)] f(1) pt_tree_inj [OF t a(1,2)]
      by (auto split: if_splits)
  qed
qed


section \<open>Growing a page table\<close>

definition leaf_view :: "memory \<Rightarrow> phys_page_num \<Rightarrow> usize list \<Rightarrow> usize \<Rightarrow> page_table_entry option" where
  "leaf_view m root lp k =
     (case pt_node m root lp of None \<Rightarrow> None
      | Some q \<Rightarrow> let e = load_u64 m (pte_slot q k) in if pte_is_valid e then Some e else None)"

text \<open>The invariant of a page table: its tables form a tree over its own frames, which
  the frame allocator has handed out.\<close>

definition pt_inv :: "usize \<Rightarrow> usize \<Rightarrow> phys_page_num \<Rightarrow> phys_page_num list \<Rightarrow> machine \<Rightarrow> bool" where
  "pt_inv l r root fs mc \<longleftrightarrow> frame_inv l r (frame_allocator mc) \<and> pt_tree (mem mc) root (set fs) \<and>
     distinct fs \<and> set fs \<subseteq> frame_owned l (frame_allocator mc)"

text \<open>What an operation that only adds tables leaves as it was: the existing tables, the
  valid leaf entries, every frame outside the tables, and the frames owned before.\<close>

definition same_frame :: "phys_page_num \<Rightarrow> memory \<Rightarrow> memory \<Rightarrow> bool" where
  "same_frame p m m' \<longleftrightarrow> (\<forall>off n. unat off + n \<le> 4096 \<longrightarrow>
     load_bytes m' (pa_from_ppn p + off) n = load_bytes m (pa_from_ppn p + off) n)"

definition pt_grows :: "usize \<Rightarrow> phys_page_num \<Rightarrow> phys_page_num list \<times> machine \<Rightarrow> phys_page_num list \<times> machine \<Rightarrow> bool" where
  "pt_grows l root s s' \<longleftrightarrow>
     (\<forall>path q. idx_path path \<longrightarrow> pt_node (mem (snd s)) root path = Some q \<longrightarrow> pt_node (mem (snd s')) root path = Some q) \<and>
     (\<forall>lp k. idx_path lp \<longrightarrow> length lp = 2 \<longrightarrow> unat k < 512 \<longrightarrow>
        leaf_view (mem (snd s')) root lp k = leaf_view (mem (snd s)) root lp k) \<and>
     (\<forall>p. frame_ok p \<longrightarrow> p \<notin> set (fst s') \<longrightarrow> same_frame p (mem (snd s)) (mem (snd s'))) \<and>
     (\<exists>fs. fst s' = fst s @ fs \<and> set fs \<inter> frame_owned l (frame_allocator (snd s)) = {} \<and>
        frame_owned l (frame_allocator (snd s')) = frame_owned l (frame_allocator (snd s)) \<union> set fs)"

lemma same_frame_refl [simp]: "same_frame p m m"
  by (simp add: same_frame_def)

lemma same_frame_trans: "same_frame p m m' \<Longrightarrow> same_frame p m' m'' \<Longrightarrow> same_frame p m m''"
  by (simp add: same_frame_def)

lemma pt_grows_refl: "pt_grows l root s s"
  by (simp add: pt_grows_def)

lemma pt_growsD:
  assumes "pt_grows l root s s'"
  shows "idx_path path \<Longrightarrow> pt_node (mem (snd s)) root path = Some q \<Longrightarrow> pt_node (mem (snd s')) root path = Some q"
    and "idx_path lp \<Longrightarrow> length lp = 2 \<Longrightarrow> unat k < 512 \<Longrightarrow>
           leaf_view (mem (snd s')) root lp k = leaf_view (mem (snd s)) root lp k"
    and "frame_ok p \<Longrightarrow> p \<notin> set (fst s') \<Longrightarrow> same_frame p (mem (snd s)) (mem (snd s'))"
    and "\<exists>fs. fst s' = fst s @ fs \<and> set fs \<inter> frame_owned l (frame_allocator (snd s)) = {} \<and>
        frame_owned l (frame_allocator (snd s')) = frame_owned l (frame_allocator (snd s)) \<union> set fs"
  using assms unfolding pt_grows_def by simp_all

lemma pt_grows_trans:
  assumes a: "pt_grows l root s t" and b: "pt_grows l root t u"
  shows "pt_grows l root s u"
proof -
  from pt_growsD(4) [OF a] pt_growsD(4) [OF b] obtain fs gs where
    f: "fst t = fst s @ fs" "fst u = fst t @ gs"
    "set fs \<inter> frame_owned l (frame_allocator (snd s)) = {}" "set gs \<inter> frame_owned l (frame_allocator (snd t)) = {}"
    "frame_owned l (frame_allocator (snd t)) = frame_owned l (frame_allocator (snd s)) \<union> set fs"
    "frame_owned l (frame_allocator (snd u)) = frame_owned l (frame_allocator (snd t)) \<union> set gs"
    by blast
  show ?thesis
    unfolding pt_grows_def
  proof (intro conjI allI impI)
    show "\<exists>fs. fst u = fst s @ fs \<and> set fs \<inter> frame_owned l (frame_allocator (snd s)) = {} \<and>
      frame_owned l (frame_allocator (snd u)) = frame_owned l (frame_allocator (snd s)) \<union> set fs"
      using f by (intro exI [of _ "fs @ gs"]) auto
  next
    fix p
    assume "frame_ok p" "p \<notin> set (fst u)"
    moreover from this have "p \<notin> set (fst t)" by (simp add: f(2))
    ultimately show "same_frame p (mem (snd s)) (mem (snd u))"
      using pt_growsD(3) [OF a] pt_growsD(3) [OF b] same_frame_trans by blast
  qed (simp_all add: pt_growsD(1) [OF b] pt_growsD(1) [OF a] pt_growsD(2) [OF b] pt_growsD(2) [OF a])
qed

lemma same_frame_store_u64:
  "frame_ok p \<Longrightarrow> frame_ok q \<Longrightarrow> p \<noteq> q \<Longrightarrow> unat i < 512 \<Longrightarrow> same_frame q m (store_u64 m (pte_slot p i) v)"
  by (auto simp: same_frame_def store_u64_def pte_slot_def unat_8_times intro!: frames_apart)

lemma same_frame_cleared:
  assumes "frame_ok p" "frame_ok q" "p \<noteq> q"
  shows "same_frame q m (frame_tracker_new p m)"
  unfolding same_frame_def
proof (intro allI impI)
  fix off n
  assume "unat (off :: usize) + n \<le> 4096"
  with assms have "load_bytes (store_bytes m (pa_from_ppn p + 0) (replicate 4096 0)) (pa_from_ppn q + off) n =
      load_bytes m (pa_from_ppn q + off) n"
    by (intro frames_apart) simp_all
  then show "load_bytes (frame_tracker_new p m) (pa_from_ppn q + off) n = load_bytes m (pa_from_ppn q + off) n"
    by (simp add: frame_tracker_new_def)
qed

lemma same_frame_slot: "same_frame p m m' \<Longrightarrow> unat i < 512 \<Longrightarrow> load_u64 m' (pte_slot p i) = load_u64 m (pte_slot p i)"
  by (simp add: same_frame_def load_u64_def pte_slot_def unat_8_times)

lemma frame_alloc_props:
  assumes "frame_inv l r (frame_allocator mc)" "frame_alloc mc = Some (f, mc')"
  shows "frame_inv l r (frame_allocator mc')" "frame_ok f" "f \<notin> frame_owned l (frame_allocator mc)"
    "frame_owned l (frame_allocator mc') = insert f (frame_owned l (frame_allocator mc))"
    "mem mc' = frame_tracker_new f (mem mc)" "l \<le> f" "f < r"
proof -
  from assms(2) obtain a where a: "frame_allocator_alloc (frame_allocator mc) = Some (f, a)"
    "mc' = mc\<lparr>mem := frame_tracker_new f (mem mc), frame_allocator := a\<rparr>"
    by (auto simp: frame_alloc_def split: option.splits)
  note fr = frame_alloc_fresh [OF assms(1) a(1)]
  with a show "frame_inv l r (frame_allocator mc')" "f \<notin> frame_owned l (frame_allocator mc)"
    "frame_owned l (frame_allocator mc') = insert f (frame_owned l (frame_allocator mc))"
    "mem mc' = frame_tracker_new f (mem mc)" "l \<le> f" "f < r" by auto
  with assms(1) show "frame_ok f" by (simp add: frame_ok_def frame_inv_def word_less_unat)
qed

lemma pt_create_level:
  assumes inv: "pt_inv l r root fs mc" and p0: "idx_path (p0 @ [i])" "pt_node (mem mc) root p0 = Some p"
    and none: "pt_next (mem mc) p i = None" and al: "frame_alloc mc = Some (f, mc1)"
    and mc2: "mc2 = mc1\<lparr>mem := store_u64 (mem mc1) (pte_slot p i) (pte_new f PTE_V)\<rparr>"
  shows "pt_inv l r root (fs @ [f]) mc2 \<and> pt_grows l root (fs, mc) (fs @ [f], mc2) \<and>
         pt_node (mem mc2) root (p0 @ [i]) = Some f"
proof -
  from inv have fi: "frame_inv l r (frame_allocator mc)" and t: "pt_tree (mem mc) root (set fs)"
    and fs: "distinct fs" "set fs \<subseteq> frame_owned l (frame_allocator mc)" by (simp_all add: pt_inv_def)
  note al' = frame_alloc_props [OF fi al]
  have f: "f \<notin> set fs" using al'(3) fs(2) by blast
  have p: "p \<in> set fs" "frame_ok p" using pt_treeD [OF t _ p0(2)] idx_path_snoc [OF p0(1)] by blast+
  have m2: "mem mc2 = store_u64 (frame_tracker_new f (mem mc)) (pte_slot p i) (pte_new f PTE_V)"
    by (simp add: mc2 al'(5))
  note n = pt_node_create [OF t p0 none f al'(2), folded m2]
  have i: "unat i < 512" using idx_path_snoc [OF p0(1)] by blast
  have pn: "pt_node (mem mc) root (p0 @ [i]) = None" using p0(2) none by (simp add: pt_node_snoc)
  have inv2: "pt_inv l r root (fs @ [f]) mc2"
    using pt_tree_create [OF t p0 none f al'(2), folded m2] fs f al'
    by (auto simp: pt_inv_def mc2)
  have same: "same_frame q (mem mc) (mem mc2)" if "frame_ok q" "q \<noteq> f" "q \<noteq> p" for q
    unfolding m2 using that al'(2) p i
    by (intro same_frame_trans [OF same_frame_cleared same_frame_store_u64]) auto
  have lv: "leaf_view (mem mc2) root lp k = leaf_view (mem mc) root lp k"
    if lp: "idx_path lp" "length lp = 2" "unat k < 512" for lp k
  proof (cases "lp = p0 @ [i]")
    case True
    have "load_u64 (mem mc2) (pte_slot f k) = 0"
      unfolding m2 using al'(2) p f i lp(3) by (auto simp: load_store_slot load_zeroed_slot)
    with True n [OF lp(1)] pn show ?thesis by (simp add: leaf_view_def pte_invalid_0)
  next
    case False
    then have nd: "pt_node (mem mc2) root lp = pt_node (mem mc) root lp" using n [OF lp(1)] by simp
    show ?thesis
    proof (cases "pt_node (mem mc) root lp")
      case (Some q)
      with lp have q: "q \<in> set fs" "frame_ok q" using pt_treeD [OF t] by blast+
      moreover have "q \<noteq> p"
        using pt_tree_inj [OF t lp(1) _ Some, of p0] p0(2) idx_path_snoc [OF p0(1)] lp(2) by force
      ultimately have "load_u64 (mem mc2) (pte_slot q k) = load_u64 (mem mc) (pte_slot q k)"
        using same [of q] f lp(3) by (metis same_frame_slot)
      with nd Some show ?thesis by (simp add: leaf_view_def)
    qed (simp add: leaf_view_def nd)
  qed
  have "pt_grows l root (fs, mc) (fs @ [f], mc2)"
    unfolding pt_grows_def
  proof (intro conjI allI impI)
    fix path q
    assume "idx_path path" "pt_node (mem (snd (fs, mc))) root path = Some q"
    then show "pt_node (mem (snd (fs @ [f], mc2))) root path = Some q" using n pn by auto
  next
    show "\<exists>gs. fst (fs @ [f], mc2) = fst (fs, mc) @ gs \<and>
      set gs \<inter> frame_owned l (frame_allocator (snd (fs, mc))) = {} \<and>
      frame_owned l (frame_allocator (snd (fs @ [f], mc2))) = frame_owned l (frame_allocator (snd (fs, mc))) \<union> set gs"
      using al'(3,4) by (simp add: mc2)
  qed (use lv same p in auto)
  with inv2 n [OF p0(1)] show ?thesis by simp
qed


lemma find_pte_create_loop_ok:
  assumes "find_pte_create_loop p is (fs, mc) = Some (a, fs', mc')"
    and "pt_inv l r root fs mc" "pt_node (mem mc) root p0 = Some p"
    and "\<forall>i\<in>set (p0 @ is). unat i < 512" "length p0 + length is = 3"
  shows "pt_inv l r root fs' mc' \<and> pt_grows l root (fs, mc) (fs', mc') \<and>
         (\<exists>q. pt_node (mem mc') root (p0 @ butlast is) = Some q \<and> a = pte_slot q (last is))"
  using assms
proof (induction "is" arbitrary: p p0 fs mc)
  case (Cons idx "is")
  show ?case
  proof (cases "is")
    case Nil
    with Cons.prems show ?thesis by (auto simp: pt_grows_refl)
  next
    case (Cons i is')
    let ?e = "load_u64 (mem mc) (pte_slot p idx)"
    note IH = Cons.IH [of _ _ _ "p0 @ [idx]"] and prems = Cons.prems
    have ip: "idx_path (p0 @ [idx])" "\<forall>i\<in>set ((p0 @ [idx]) @ is). unat i < 512"
      "length (p0 @ [idx]) + length is = 3"
      using prems(4,5) Cons by (auto simp: idx_path_def)
    have bl: "(p0 @ [idx]) @ butlast is = p0 @ butlast (idx # is)" "last (idx # is) = last is"
      using Cons by simp_all
    show ?thesis
    proof (cases "pte_is_valid ?e")
      case True
      with prems(3) have "pt_node (mem mc) root (p0 @ [idx]) = Some (pte_ppn ?e)"
        by (simp add: pt_node_snoc pt_next_def)
      moreover have "find_pte_create_loop (pte_ppn ?e) is (fs, mc) = Some (a, fs', mc')"
        using prems(1) True Cons by (simp add: Let_def)
      ultimately show ?thesis using IH [OF _ prems(2) _ ip(2,3)] unfolding bl by blast
    next
      case False
      with prems(1) Cons obtain f mc1 where al: "frame_alloc mc = Some (f, mc1)"
        by (auto simp: Let_def split: bind_splits)
      define mc2 where "mc2 = mc1\<lparr>mem := store_u64 (mem mc1) (pte_slot p idx) (pte_new f PTE_V)\<rparr>"
      from False have "pt_next (mem mc) p idx = None" by (simp add: pt_next_def)
      note c = pt_create_level [OF prems(2) ip(1) prems(3) this al mc2_def]
      have "load_u64 (mem mc2) (pte_slot p idx) = pte_new f PTE_V" by (simp add: mc2_def)
      moreover have "frame_ok f" using frame_alloc_props(2) [OF _ al] prems(2) by (auto simp: pt_inv_def)
      ultimately have "pte_ppn (load_u64 (mem mc2) (pte_slot p idx)) = f"
        by (simp add: frame_ok_def pte_ppn_new)
      then have "find_pte_create_loop f is (fs @ [f], mc2) = Some (a, fs', mc')"
        using prems(1) False al Cons by (simp add: Let_def mc2_def [symmetric])
      from IH [OF this _ _ ip(2,3)] c show ?thesis unfolding bl using pt_grows_trans by blast
    qed
  qed
qed simp


text \<open>The number of frames the allocator can still give out.\<close>

definition frames_free :: "stack_frame_allocator \<Rightarrow> nat" where
  "frames_free a = length (fa_recycled a) + unat (fa_end a - fa_current a)"

lemma frame_alloc_free: "frame_alloc mc = None \<longleftrightarrow> frames_free (frame_allocator mc) = 0"
  by (auto simp: frame_alloc_def frame_allocator_alloc_def frames_free_def Let_def unat_eq_0)

lemma frame_alloc_free_less:
  assumes "frame_alloc mc = Some (f, mc')"
  shows "frames_free (frame_allocator mc) = Suc (frames_free (frame_allocator mc'))"
proof (cases "fa_recycled (frame_allocator mc) = []")
  case True
  with assms have ne: "fa_end (frame_allocator mc) - fa_current (frame_allocator mc) \<noteq> 0"
    and a: "frame_allocator mc' = (frame_allocator mc)\<lparr>fa_current := fa_current (frame_allocator mc) + 1\<rparr>"
    by (auto simp: frame_alloc_def frame_allocator_alloc_def Let_def split: if_splits)
  have "fa_end (frame_allocator mc) - (fa_current (frame_allocator mc) + 1) =
    fa_end (frame_allocator mc) - fa_current (frame_allocator mc) - 1" by simp
  then have "unat (fa_end (frame_allocator mc) - fa_current (frame_allocator mc)) =
    Suc (unat (fa_end (frame_allocator mc) - (fa_current (frame_allocator mc) + 1)))"
    using unat_Suc_pred [OF ne] by (simp only:)
  with a True show ?thesis by (simp add: frames_free_def)
next
  case False
  with assms have "frame_allocator mc' = (frame_allocator mc)\<lparr>fa_recycled := butlast (fa_recycled (frame_allocator mc))\<rparr>"
    by (auto simp: frame_alloc_def frame_allocator_alloc_def)
  with False show ?thesis by (cases "fa_recycled (frame_allocator mc)") (simp_all add: frames_free_def)
qed

lemma find_pte_create_loop_panics:
  assumes "find_pte_create_loop p is (fs, mc) = None" "is \<noteq> []"
  shows "frames_free (frame_allocator mc) < length is - 1"
  using assms
proof (induction "is" arbitrary: p fs mc)
  case (Cons idx "is")
  show ?case
  proof (cases "is")
    case Nil
    with Cons.prems show ?thesis by simp
  next
    case (Cons i is')
    note IH = Cons.IH and prems = Cons.prems
    show ?thesis
    proof (cases "pte_is_valid (load_u64 (mem mc) (pte_slot p idx))")
      case True
      with prems Cons have "find_pte_create_loop (pte_ppn (load_u64 (mem mc) (pte_slot p idx))) is (fs, mc) = None"
        by (simp add: Let_def)
      with IH Cons have "frames_free (frame_allocator mc) < length is - 1" by blast
      then show ?thesis using Cons by simp
    next
      case False
      show ?thesis
      proof (cases "frame_alloc mc")
        case None
        then show ?thesis using Cons by (simp add: frame_alloc_free)
      next
        case (Some fm)
        obtain f mc1 where fm: "fm = (f, mc1)" by (cases fm)
        define mc2 where "mc2 = mc1\<lparr>mem := store_u64 (mem mc1) (pte_slot p idx) (pte_new f PTE_V)\<rparr>"
        have "find_pte_create_loop (pte_ppn (load_u64 (mem mc2) (pte_slot p idx))) is (fs @ [f], mc2) = None"
          using prems False Some fm Cons by (simp add: Let_def mc2_def [symmetric])
        then have "frames_free (frame_allocator mc2) < length is - 1"
          using IH Cons by blast
        then show ?thesis
          using frame_alloc_free_less [OF Some [unfolded fm]] Cons by (simp add: mc2_def)
      qed
    qed
  qed
qed simp

section \<open>A page table is a map from page numbers to entries\<close>

definition pt_view :: "memory \<Rightarrow> phys_page_num \<Rightarrow> virt_page_num \<Rightarrow> page_table_entry option" where
  "pt_view m root vpn =
     (case vpn_indexes vpn of [i, j, k] \<Rightarrow> leaf_view m root [i, j] k | _ \<Rightarrow> None)"

lemma vpn_idx:
  "\<exists>i j k. vpn_indexes vpn = [i, j, k] \<and> idx_path [i, j] \<and> unat i < 512 \<and> unat j < 512 \<and> unat k < 512"
  by (simp add: vpn_indexes_eq idx_path_def unat_and_511)

lemma pt_view_translate:
  "pt_view m (root_ppn pt) vpn =
     (case pt_translate m pt vpn of None \<Rightarrow> None | Some e \<Rightarrow> if pte_is_valid e then Some e else None)"
proof -
  from vpn_idx [of vpn] obtain i j k where "vpn_indexes vpn = [i, j, k]" by blast
  then show ?thesis
    by (cases "pt_node m (root_ppn pt) [i, j]")
      (simp_all only: pt_view_def leaf_view_def pt_translate_def find_pte_def find_pte_node
        list.case option.case option.map Let_def)
qed

lemma pt_translate_view: "pt_view m (root_ppn pt) vpn = Some e \<Longrightarrow> pt_translate m pt vpn = Some e"
  by (auto simp: pt_view_translate split: option.splits if_splits)

lemma pt_grows_view:
  "pt_grows l root s s' \<Longrightarrow> pt_view (mem (snd s')) root vpn = pt_view (mem (snd s)) root vpn"
  using vpn_idx [of vpn] pt_growsD(2) [of l root s s'] by (auto simp: pt_view_def)

lemma pt_view_agree:
  assumes "pt_tree m root F" "\<And>f. f \<in> F \<Longrightarrow> same_frame f m m'"
  shows "pt_view m' root vpn = pt_view m root vpn"
proof -
  from vpn_idx [of vpn] obtain i j k where ijk: "vpn_indexes vpn = [i, j, k]" "idx_path [i, j]" "unat k < 512"
    by blast
  have "pt_node m' root [i, j] = pt_node m root [i, j]"
    by (rule pt_node_agree [OF assms(1) _ ijk(2)]) (use assms(2) same_frame_slot in blast)
  moreover have "load_u64 m' (pte_slot q k) = load_u64 m (pte_slot q k)" if "pt_node m root [i, j] = Some q" for q
    using pt_treeD(1) [OF assms(1) ijk(2) that] assms(2) ijk(3) same_frame_slot by blast
  ultimately show ?thesis
    by (auto simp: pt_view_def leaf_view_def ijk(1) simp del: pt_node.simps split: option.splits)
qed

text \<open>Writing the leaf entry of one page number changes the view there only.\<close>

lemma pt_view_leaf_write:
  assumes t: "pt_tree m root F" and ix: "vpn_indexes vpn = [i, j, k]" "unat vpn < 2 ^ 27"
    and q: "pt_node m root [i, j] = Some q" and w: "unat w < 2 ^ 27"
  shows "pt_view (store_u64 m (pte_slot q k) e) root w =
         (if w = vpn then (if pte_is_valid e then Some e else None) else pt_view m root w)"
proof -
  let ?m = "store_u64 m (pte_slot q k) e"
  from vpn_idx [of vpn] ix have lp: "idx_path [i, j]" "unat k < 512" by auto
  from vpn_idx [of w] obtain i' j' k' where w': "vpn_indexes w = [i', j', k']" "idx_path [i', j']" "unat k' < 512"
    by blast
  have n: "pt_node ?m root [i', j'] = pt_node m root [i', j']"
    using pt_node_leaf_write [OF t lp(1) _ q lp(2) w'(2)] by simp
  have qok: "frame_ok q" by (rule pt_treeD(2) [OF t lp(1) q])
  show ?thesis
  proof (cases "w = vpn")
    case True
    with w'(1) ix have "i' = i" "j' = j" "k' = k" by simp_all
    with n q True w'(1) show ?thesis by (simp add: pt_view_def leaf_view_def del: pt_node.simps)
  next
    case False
    then have ne: "\<not> (i' = i \<and> j' = j \<and> k' = k)"
      using vpn_indexes_inj [of w vpn] w'(1) ix w by auto
    have "load_u64 ?m (pte_slot q' k') = load_u64 m (pte_slot q' k')" if "pt_node m root [i', j'] = Some q'" for q'
    proof -
      have "frame_ok q'" by (rule pt_treeD(2) [OF t w'(2) that])
      moreover have "q \<noteq> q' \<or> k \<noteq> k'" using pt_tree_inj [OF t lp(1) w'(2) q] that ne by auto
      ultimately show ?thesis using qok lp(2) w'(3) by (auto simp: load_store_slot)
    qed
    with n False w'(1) show ?thesis
      by (auto simp: pt_view_def leaf_view_def simp del: pt_node.simps split: option.splits)
  qed
qed


lemma pt_inv_view_write:
  assumes "pt_inv l r root fs mc" "idx_path [i, j]" "pt_node (mem mc) root [i, j] = Some q" "unat k < 512"
  shows "pt_inv l r root fs (mc\<lparr>mem := store_u64 (mem mc) (pte_slot q k) e\<rparr>)"
proof -
  from assms(1) have t: "pt_tree (mem mc) root (set fs)" by (simp add: pt_inv_def)
  have "pt_node (store_u64 (mem mc) (pte_slot q k) e) root path = pt_node (mem mc) root path" if "idx_path path" for path
    using pt_node_leaf_write [OF t assms(2) _ assms(3,4) that] by simp
  with t have "pt_tree (store_u64 (mem mc) (pte_slot q k) e) root (set fs)" by (simp add: pt_tree_def)
  with assms(1) show ?thesis by (simp add: pt_inv_def)
qed

text \<open>What \<open>map\<close> does to a page table and what it leaves.\<close>

lemma pt_map_ok:
  assumes inv: "pt_inv l r (root_ppn pt) (pt_frames pt) mc" and vpn: "unat vpn < 2 ^ 27"
    and run: "pt_map vpn ppn fl (pt, mc) = Some (pt', mc')"
  shows "root_ppn pt' = root_ppn pt" "pt_inv l r (root_ppn pt) (pt_frames pt') mc'"
    "pt_view (mem mc) (root_ppn pt) vpn = None"
    "unat w < 2 ^ 27 \<Longrightarrow> pt_view (mem mc') (root_ppn pt) w =
       (if w = vpn then Some (pte_new ppn (fl OR PTE_V)) else pt_view (mem mc) (root_ppn pt) w)"
    "frame_ok p \<Longrightarrow> p \<notin> set (pt_frames pt') \<Longrightarrow> same_frame p (mem mc) (mem mc')"
    "\<exists>fs. pt_frames pt' = pt_frames pt @ fs \<and> set fs \<inter> frame_owned l (frame_allocator mc) = {} \<and>
       frame_owned l (frame_allocator mc') = frame_owned l (frame_allocator mc) \<union> set fs"
proof -
  let ?root = "root_ppn pt"
  from vpn_idx [of vpn] obtain i j k where ix: "vpn_indexes vpn = [i, j, k]" "idx_path [i, j]"
    and b: "unat i < 512" "unat j < 512" "unat k < 512" by blast
  from run obtain a fs mc1 where f: "find_pte_create_loop ?root [i, j, k] (pt_frames pt, mc) = Some (a, fs, mc1)"
    and nv: "\<not> pte_is_valid (load_u64 (mem mc1) a)" and pt': "pt' = pt\<lparr>pt_frames := fs\<rparr>"
    and mc': "mc' = mc1\<lparr>mem := store_u64 (mem mc1) a (pte_new ppn (fl OR PTE_V))\<rparr>"
    by (auto simp: pt_map_def find_pte_create_def ix(1) split: bind_splits if_splits)
  from find_pte_create_loop_ok [OF f inv, of "[]"] b obtain q where
    g: "pt_inv l r ?root fs mc1" "pt_grows l ?root (pt_frames pt, mc) (fs, mc1)"
    and q: "pt_node (mem mc1) ?root [i, j] = Some q" and a: "a = pte_slot q k" by auto
  have t: "pt_tree (mem mc1) ?root (set fs)" using g(1) by (simp add: pt_inv_def)
  have v: "pt_view (mem mc1) ?root w = pt_view (mem mc) ?root w" for w using pt_grows_view [OF g(2)] by simp
  show "root_ppn pt' = ?root" by (simp add: pt')
  show "pt_inv l r ?root (pt_frames pt') mc'"
    using pt_inv_view_write [OF g(1) ix(2) q b(3)] by (simp add: pt' mc' a)
  have "pt_view (mem mc1) ?root vpn = None"
    using nv q a by (simp add: pt_view_def ix(1) leaf_view_def del: pt_node.simps)
  then show "pt_view (mem mc) ?root vpn = None" by (simp add: v)
  show "pt_view (mem mc') ?root w = (if w = vpn then Some (pte_new ppn (fl OR PTE_V)) else pt_view (mem mc) ?root w)"
    if "unat w < 2 ^ 27" for w
    using pt_view_leaf_write [OF t ix(1) vpn q that] by (simp add: mc' a pte_valid_new v)
  show "same_frame p (mem mc) (mem mc')" if p: "frame_ok p" "p \<notin> set (pt_frames pt')" for p
  proof -
    have "same_frame p (mem mc) (mem mc1)" using pt_growsD(3) [OF g(2)] p by (simp add: pt')
    moreover have "q \<noteq> p" "frame_ok q" using pt_treeD [OF t ix(2) q] p by (auto simp: pt')
    then have "same_frame p (mem mc1) (mem mc')" using p b(3) by (simp add: mc' a same_frame_store_u64)
    ultimately show ?thesis by (rule same_frame_trans)
  qed
  show "\<exists>fs. pt_frames pt' = pt_frames pt @ fs \<and> set fs \<inter> frame_owned l (frame_allocator mc) = {} \<and>
       frame_owned l (frame_allocator mc') = frame_owned l (frame_allocator mc) \<union> set fs"
    using pt_growsD(4) [OF g(2)] by (simp add: pt' mc')
qed

text \<open>\<open>map\<close> panics only on a page that is mapped or when fewer than two frames are left.\<close>

lemma pt_map_panics:
  assumes inv: "pt_inv l r (root_ppn pt) (pt_frames pt) mc"
    and run: "pt_map vpn ppn fl (pt, mc) = None"
  shows "pt_view (mem mc) (root_ppn pt) vpn \<noteq> None \<or> frames_free (frame_allocator mc) < 2"
proof -
  from vpn_idx [of vpn] obtain i j k where ix: "vpn_indexes vpn = [i, j, k]" "unat i < 512" "unat j < 512" "unat k < 512"
    by blast
  show ?thesis
  proof (cases "find_pte_create_loop (root_ppn pt) [i, j, k] (pt_frames pt, mc)")
    case None
    from find_pte_create_loop_panics [OF this] show ?thesis by simp
  next
    case (Some x)
    obtain a fs mc1 where x: "x = (a, fs, mc1)" by (cases x) auto
    from find_pte_create_loop_ok [OF Some [unfolded x] inv, of "[]"] ix obtain q where
      g: "pt_grows l (root_ppn pt) (pt_frames pt, mc) (fs, mc1)"
      and q: "pt_node (mem mc1) (root_ppn pt) [i, j] = Some q" and a: "a = pte_slot q k" by auto
    have "pte_is_valid (load_u64 (mem mc1) a)"
      using run Some x by (simp add: pt_map_def find_pte_create_def ix(1) split: if_splits)
    then have "pt_view (mem mc1) (root_ppn pt) vpn \<noteq> None"
      using q a by (simp add: pt_view_def ix(1) leaf_view_def del: pt_node.simps)
    then show ?thesis using pt_grows_view [OF g] by simp
  qed
qed


lemma pt_unmap_ok:
  assumes inv: "pt_inv l r (root_ppn pt) (pt_frames pt) mc" and vpn: "unat vpn < 2 ^ 27"
    and run: "pt_unmap vpn (pt, mc) = Some (pt', mc')"
  shows "pt' = pt" "pt_inv l r (root_ppn pt) (pt_frames pt) mc'" "frame_allocator mc' = frame_allocator mc"
    "pt_view (mem mc) (root_ppn pt) vpn \<noteq> None"
    "unat w < 2 ^ 27 \<Longrightarrow> pt_view (mem mc') (root_ppn pt) w =
       (if w = vpn then None else pt_view (mem mc) (root_ppn pt) w)"
    "frame_ok p \<Longrightarrow> p \<notin> set (pt_frames pt) \<Longrightarrow> same_frame p (mem mc) (mem mc')"
proof -
  let ?root = "root_ppn pt"
  from vpn_idx [of vpn] obtain i j k where ix: "vpn_indexes vpn = [i, j, k]" "idx_path [i, j]" "unat k < 512"
    by blast
  from run obtain q where q: "pt_node (mem mc) ?root [i, j] = Some q"
    and v: "pte_is_valid (load_u64 (mem mc) (pte_slot q k))"
    and r: "pt' = pt" "mc' = mc\<lparr>mem := store_u64 (mem mc) (pte_slot q k) 0\<rparr>"
    by (auto simp: pt_unmap_def find_pte_def ix(1) find_pte_node pte_empty_def
        simp del: pt_node.simps find_pte_loop.simps split: bind_splits if_splits)
  have t: "pt_tree (mem mc) ?root (set (pt_frames pt))" using inv by (simp add: pt_inv_def)
  show "pt' = pt" "frame_allocator mc' = frame_allocator mc" using r by simp_all
  show "pt_inv l r ?root (pt_frames pt) mc'" unfolding r(2) by (rule pt_inv_view_write [OF inv ix(2) q ix(3)])
  show "pt_view (mem mc) ?root vpn \<noteq> None"
    using v q by (simp add: pt_view_def ix(1) leaf_view_def del: pt_node.simps)
  show "pt_view (mem mc') ?root w = (if w = vpn then None else pt_view (mem mc) ?root w)" if "unat w < 2 ^ 27" for w
    using pt_view_leaf_write [OF t ix(1) vpn q that, of 0] by (simp add: r(2) pte_invalid_0)
  show "same_frame p (mem mc) (mem mc')" if "frame_ok p" "p \<notin> set (pt_frames pt)" for p
    using that pt_treeD [OF t ix(2) q] ix(3) unfolding r(2) by (auto intro: same_frame_store_u64)
qed

lemma pt_unmap_panics:
  "pt_unmap vpn (pt, mc) = None \<longleftrightarrow> pt_view (mem mc) (root_ppn pt) vpn = None"
  by (auto simp: pt_unmap_def pt_view_translate pt_translate_def split: bind_splits option.splits if_splits)

text \<open>A new page table maps nothing.\<close>

lemma pt_node_new:
  assumes "frame_ok f" "idx_path path"
  shows "pt_node (frame_tracker_new f m) f path = (if path = [] then Some f else None)"
proof (cases path)
  case (Cons i "is")
  with assms have "load_u64 (frame_tracker_new f m) (pte_slot f i) = 0"
    by (simp add: load_zeroed_slot idx_path_def)
  with Cons show ?thesis by (simp add: pt_next_def pte_invalid_0)
qed simp

lemma page_table_new_ok:
  assumes "frame_inv l r (frame_allocator mc)" "page_table_new mc = Some (pt, mc')"
  shows "pt_inv l r (root_ppn pt) (pt_frames pt) mc'" "pt_view (mem mc') (root_ppn pt) vpn = None"
    "pt_frames pt = [root_ppn pt]" "root_ppn pt \<notin> frame_owned l (frame_allocator mc)"
    "frame_owned l (frame_allocator mc') = insert (root_ppn pt) (frame_owned l (frame_allocator mc))"
    "frame_ok p \<Longrightarrow> p \<noteq> root_ppn pt \<Longrightarrow> same_frame p (mem mc) (mem mc')"
proof -
  from assms(2) obtain f where al: "frame_alloc mc = Some (f, mc')" and pt: "pt = \<lparr>root_ppn = f, pt_frames = [f]\<rparr>"
    by (auto simp: page_table_new_def split: bind_splits)
  note al' = frame_alloc_props [OF assms(1) al]
  have "pt_tree (mem mc') f {f}"
    using al'(2) unfolding pt_tree_def al'(5) by (auto simp: pt_node_new split: if_splits)
  with al' show "pt_inv l r (root_ppn pt) (pt_frames pt) mc'" by (simp add: pt_inv_def pt)
  show "pt_view (mem mc') (root_ppn pt) vpn = None"
    using vpn_idx [of vpn] al'(2,5) by (auto simp: pt_view_def leaf_view_def pt pt_node_new simp del: pt_node.simps)
  show "pt_frames pt = [root_ppn pt]" "root_ppn pt \<notin> frame_owned l (frame_allocator mc)"
    "frame_owned l (frame_allocator mc') = insert (root_ppn pt) (frame_owned l (frame_allocator mc))"
    using al' by (simp_all add: pt)
  show "same_frame p (mem mc) (mem mc')" if "frame_ok p" "p \<noteq> root_ppn pt" for p
    using that al' by (auto simp: pt intro: same_frame_cleared)
qed

text \<open>
  C1: a page table behaves as a finite map from SV39 page numbers to entries, stored in
  three levels of table frames.  \<open>PageTable::map\<close> adds exactly the binding of its page
  and panics only when the page is already mapped or fewer than two frames are left;
  \<open>unmap\<close> removes exactly one binding and panics only when there is none; both keep the
  tree of tables well formed, and neither changes a frame outside the tables.
\<close>

theorem page_table_refines_map:
  assumes "pt_inv l r (root_ppn pt) (pt_frames pt) mc" "unat vpn < 2 ^ 27"
  shows "(case pt_map vpn ppn fl (pt, mc) of
            None \<Rightarrow> pt_view (mem mc) (root_ppn pt) vpn \<noteq> None \<or> frames_free (frame_allocator mc) < 2
          | Some (pt', mc') \<Rightarrow>
              root_ppn pt' = root_ppn pt \<and> pt_inv l r (root_ppn pt') (pt_frames pt') mc' \<and>
              pt_view (mem mc) (root_ppn pt) vpn = None \<and>
              (\<forall>w. unat w < 2 ^ 27 \<longrightarrow> pt_view (mem mc') (root_ppn pt') w =
                 ((pt_view (mem mc) (root_ppn pt))(vpn \<mapsto> pte_new ppn (fl OR PTE_V))) w) \<and>
              (\<forall>p. frame_ok p \<and> p \<notin> set (pt_frames pt') \<longrightarrow> same_frame p (mem mc) (mem mc'))) \<and>
         (case pt_unmap vpn (pt, mc) of
            None \<Rightarrow> pt_view (mem mc) (root_ppn pt) vpn = None
          | Some (pt', mc') \<Rightarrow>
              pt' = pt \<and> pt_inv l r (root_ppn pt) (pt_frames pt) mc' \<and>
              (\<forall>w. unat w < 2 ^ 27 \<longrightarrow> pt_view (mem mc') (root_ppn pt) w =
                 ((pt_view (mem mc) (root_ppn pt))(vpn := None)) w) \<and>
              (\<forall>p. frame_ok p \<and> p \<notin> set (pt_frames pt) \<longrightarrow> same_frame p (mem mc) (mem mc')))"
proof (rule conjI, goal_cases)
  case 1
  show ?case
  proof (cases "pt_map vpn ppn fl (pt, mc)")
    case None
    with pt_map_panics [OF assms(1) None] show ?thesis by simp
  next
    case (Some x)
    obtain pt' mc' where x: "x = (pt', mc')" by (cases x)
    note ok = pt_map_ok [OF assms Some [unfolded x]]
    show ?thesis unfolding Some x option.case prod.case
      by (intro conjI allI impI; simp add: ok del: not_None_eq)
  qed
next
  case 2
  show ?case
  proof (cases "pt_unmap vpn (pt, mc)")
    case None
    with pt_unmap_panics [of vpn pt mc] show ?thesis by simp
  next
    case (Some x)
    obtain pt' mc' where x: "x = (pt', mc')" by (cases x)
    note ok = pt_unmap_ok [OF assms Some [unfolded x]]
    show ?thesis unfolding Some x option.case prod.case
      by (intro conjI allI impI; simp add: ok del: not_None_eq)
  qed
qed

definition demo_machine :: machine where
  "demo_machine = \<lparr>mem = (\<lambda>_. 0),
     frame_allocator = frame_allocator_init 0x80400 0x88000 frame_allocator_new\<rparr>"

lemma demo_machine_inv: "frame_inv 0x80400 0x88000 (frame_allocator demo_machine)"
  by (simp add: demo_machine_def frame_inv_init)

theorem page_table_refines_map_witness:
  "\<exists>pt mc. page_table_new demo_machine = Some (pt, mc) \<and>
     (case pt_map 5 0x80500 PTE_R (pt, mc) of None \<Rightarrow> False
      | Some (pt', mc') \<Rightarrow> pt_view (mem mc') (root_ppn pt') 5 = Some (pte_new 0x80500 (PTE_R OR PTE_V)))"
proof -
  have "frames_free (frame_allocator demo_machine) = 0x7C00"
    by (simp add: frames_free_def demo_machine_def frame_allocator_init_def frame_allocator_new_def)
  moreover from this obtain pt mc where n: "page_table_new demo_machine = Some (pt, mc)"
    by (cases "frame_alloc demo_machine") (auto simp: page_table_new_def frame_alloc_free)
  moreover have "frame_alloc demo_machine = Some (root_ppn pt, mc)"
    using n by (auto simp: page_table_new_def split: bind_splits)
  from frame_alloc_free_less [OF this] calculation have free: "\<not> frames_free (frame_allocator mc) < 2" by simp
  have v: "pt_view (mem mc) (root_ppn pt) 5 = None" by (rule page_table_new_ok(2) [OF demo_machine_inv n])
  have "case pt_map 5 0x80500 PTE_R (pt, mc) of None \<Rightarrow> False
      | Some (pt', mc') \<Rightarrow> pt_view (mem mc') (root_ppn pt') 5 = Some (pte_new 0x80500 (PTE_R OR PTE_V))"
    using page_table_refines_map [OF page_table_new_ok(1) [OF demo_machine_inv n], of 5 "0x80500" PTE_R] free v
    by (auto split: option.splits)
  with n show ?thesis by blast
qed

end
