(* ===== verification/Memory_Set.thy ===== *)
theory Memory_Set
  imports Page_Table_Laws
begin

text \<open>
  Address spaces (\<open>os/src/mm/memory_set.rs\<close>): areas of contiguous pages, mapped
  identically or to frames of their own, the address space of the kernel, of a program
  loaded from an ELF image and of a forked process.  Linker symbols and the ELF parser
  (the crate \<open>xmas_elf\<close>) are parameters.  The frames of an area and of the page table are
  owned by the \<open>MemorySet\<close>; dropping it returns them.
\<close>

unbundle bit_operations_syntax

section \<open>Areas\<close>

datatype map_type = Identical | Framed

type_synonym map_permission = u8

definition MAP_R :: map_permission where "MAP_R = push_bit 1 1"
definition MAP_W :: map_permission where "MAP_W = push_bit 2 1"
definition MAP_X :: map_permission where "MAP_X = push_bit 3 1"
definition MAP_U :: map_permission where "MAP_U = push_bit 4 1"

record map_area =
  area_range :: vpn_range
  data_frames :: "(virt_page_num, phys_page_num) btree_map"
  area_type :: map_type
  area_perm :: map_permission

definition map_area_new :: "virt_addr \<Rightarrow> virt_addr \<Rightarrow> map_type \<Rightarrow> map_permission \<Rightarrow> map_area option" where
  "map_area_new start_va end_va ty perm = do {
     rng \<leftarrow> range_new (va_floor start_va) (va_ceil end_va);
     Some \<lparr>area_range = rng, data_frames = [], area_type = ty, area_perm = perm\<rparr>
   }"

definition map_area_from_another :: "map_area \<Rightarrow> map_area option" where
  "map_area_from_another another = do {
     rng \<leftarrow> range_new (range_l (area_range another)) (range_r (area_range another));
     Some \<lparr>area_range = rng, data_frames = [], area_type = area_type another, area_perm = area_perm another\<rparr>
   }"

type_synonym area_state = "map_area \<times> page_table \<times> machine"

definition map_one :: "virt_page_num \<Rightarrow> area_state \<Rightarrow> area_state option" where
  "map_one vpn = (\<lambda>(area, pt, mc). do {
     (ppn, area, mc) \<leftarrow>
       (case area_type area of
          Identical \<Rightarrow> Some (vpn, area, mc)
        | Framed \<Rightarrow> do {
            (f, mc) \<leftarrow> frame_alloc mc;
            Some (f, area\<lparr>data_frames := bt_insert vpn f (data_frames area)\<rparr>, mc)
          });
     (pt, mc) \<leftarrow> pt_map vpn ppn (area_perm area) (pt, mc);
     Some (area, pt, mc)
   })"

text \<open>\<open>BTreeMap::remove\<close> drops the tracker, which returns the frame.\<close>

definition unmap_one :: "virt_page_num \<Rightarrow> area_state \<Rightarrow> area_state option" where
  "unmap_one vpn = (\<lambda>(area, pt, mc). do {
     (area, mc) \<leftarrow>
       (if area_type area = Framed then
          (case bt_get (data_frames area) vpn of
             None \<Rightarrow> Some (area, mc)
           | Some f \<Rightarrow> do {
               mc \<leftarrow> frame_dealloc f mc;
               Some (area\<lparr>data_frames := bt_remove vpn (data_frames area)\<rparr>, mc)
             })
        else Some (area, mc));
     (pt, mc) \<leftarrow> pt_unmap vpn (pt, mc);
     Some (area, pt, mc)
   })"

fun for_each :: "('a \<Rightarrow> 's \<Rightarrow> 's option) \<Rightarrow> 'a list \<Rightarrow> 's \<Rightarrow> 's option" where
  "for_each f [] s = Some s"
| "for_each f (x # xs) s = Option.bind (f x s) (for_each f xs)"

definition map_area_map :: "area_state \<Rightarrow> area_state option" where
  "map_area_map s = for_each map_one (range_list (area_range (fst s))) s"

definition map_area_unmap :: "area_state \<Rightarrow> area_state option" where
  "map_area_unmap s = for_each unmap_one (range_list (area_range (fst s))) s"

text \<open>\<open>copy_data\<close>: page by page from the start of the area; an unmapped page is a panic.
  The loop body runs once even when there is no data.\<close>

function copy_data_loop :: "page_table \<Rightarrow> virt_page_num \<Rightarrow> u8 list \<Rightarrow> memory \<Rightarrow> memory option" where
  "copy_data_loop pt vpn data m = do {
     let src = take 4096 data;
     pte \<leftarrow> pt_translate m pt vpn;
     let m = store_bytes m (pa_from_ppn (pte_ppn pte)) src;
     if length data \<le> 4096 then Some m else copy_data_loop pt (vpn + 1) (drop 4096 data) m
   }"
  by pat_completeness auto
termination
  by (relation "measure (\<lambda>(pt, vpn, data, m). length data)") auto

declare copy_data_loop.simps [simp del]

definition copy_data :: "map_area \<Rightarrow> page_table \<Rightarrow> u8 list \<Rightarrow> memory \<Rightarrow> memory option" where
  "copy_data area pt data m =
     (if area_type area \<noteq> Framed then None
      else copy_data_loop pt (range_l (area_range area)) data m)"

section \<open>Address spaces\<close>

record memory_set =
  ms_page_table :: page_table
  ms_areas :: "map_area list"

type_synonym ms_state = "memory_set \<times> machine"

definition memory_set_new_bare :: "machine \<Rightarrow> ms_state option" where
  "memory_set_new_bare mc = do {
     (pt, mc) \<leftarrow> page_table_new mc;
     Some (\<lparr>ms_page_table = pt, ms_areas = []\<rparr>, mc)
   }"

definition ms_token :: "memory_set \<Rightarrow> usize" where
  "ms_token ms = pt_token (ms_page_table ms)"

definition ms_push :: "map_area \<Rightarrow> u8 list option \<Rightarrow> ms_state \<Rightarrow> ms_state option" where
  "ms_push area data = (\<lambda>(ms, mc). do {
     (area, pt, mc) \<leftarrow> map_area_map (area, ms_page_table ms, mc);
     mc \<leftarrow> (case data of
              None \<Rightarrow> Some mc
            | Some d \<Rightarrow> do { m \<leftarrow> copy_data area pt d (mem mc); Some (mc\<lparr>mem := m\<rparr>) });
     Some (\<lparr>ms_page_table = pt, ms_areas = ms_areas ms @ [area]\<rparr>, mc)
   })"

definition insert_framed_area :: "virt_addr \<Rightarrow> virt_addr \<Rightarrow> map_permission \<Rightarrow> ms_state \<Rightarrow> ms_state option" where
  "insert_framed_area start_va end_va perm s = do {
     area \<leftarrow> map_area_new start_va end_va Framed perm;
     ms_push area None s
   }"

text \<open>Removing an area unmaps its pages and drops what is left of its frames.\<close>

definition remove_area_with_start_vpn :: "virt_page_num \<Rightarrow> ms_state \<Rightarrow> ms_state option" where
  "remove_area_with_start_vpn start_vpn = (\<lambda>(ms, mc).
     (case position (\<lambda>a. range_l (area_range a) = start_vpn) (ms_areas ms) of
        None \<Rightarrow> Some (ms, mc)
      | Some idx \<Rightarrow> do {
          (area, pt, mc) \<leftarrow> map_area_unmap (ms_areas ms ! idx, ms_page_table ms, mc);
          mc \<leftarrow> frames_drop (map snd (data_frames area)) mc;
          Some (\<lparr>ms_page_table = pt, ms_areas = vec_remove idx (ms_areas ms)\<rparr>, mc)
        }))"

definition ms_translate :: "memory \<Rightarrow> memory_set \<Rightarrow> virt_page_num \<Rightarrow> page_table_entry option" where
  "ms_translate m ms vpn = pt_translate m (ms_page_table ms) vpn"

text \<open>\<open>map_trampoline\<close> maps the trampoline page to the linker symbol's frame; the page
  belongs to no area.\<close>

definition map_trampoline :: "usize \<Rightarrow> ms_state \<Rightarrow> ms_state option" where
  "map_trampoline strampoline = (\<lambda>(ms, mc). do {
     vpn \<leftarrow> vpn_from_va (va_from_usize TRAMPOLINE);
     ppn \<leftarrow> ppn_from_pa (pa_from_usize strampoline);
     (pt, mc) \<leftarrow> pt_map vpn ppn (PTE_R OR PTE_X) (ms_page_table ms, mc);
     Some (ms\<lparr>ms_page_table := pt\<rparr>, mc)
   })"

record linker_symbols =
  ld_stext :: usize
  ld_etext :: usize
  ld_srodata :: usize
  ld_erodata :: usize
  ld_sdata :: usize
  ld_edata :: usize
  ld_sbss_with_stack :: usize
  ld_ebss :: usize
  ld_ekernel :: usize
  ld_strampoline :: usize

definition push_identical :: "usize \<Rightarrow> usize \<Rightarrow> map_permission \<Rightarrow> ms_state \<Rightarrow> ms_state option" where
  "push_identical s e perm st = do {
     area \<leftarrow> map_area_new (va_from_usize s) (va_from_usize e) Identical perm;
     ms_push area None st
   }"

definition MMIO :: "(usize \<times> usize) list" where
  "MMIO = [(0x00100000, 0x002000), (0x10001000, 0x00001000)]"

definition memory_set_new_kernel :: "linker_symbols \<Rightarrow> machine \<Rightarrow> ms_state option" where
  "memory_set_new_kernel ld mc = do {
     s \<leftarrow> memory_set_new_bare mc;
     s \<leftarrow> map_trampoline (ld_strampoline ld) s;
     s \<leftarrow> push_identical (ld_stext ld) (ld_etext ld) (MAP_R OR MAP_X) s;
     s \<leftarrow> push_identical (ld_srodata ld) (ld_erodata ld) MAP_R s;
     s \<leftarrow> push_identical (ld_sdata ld) (ld_edata ld) (MAP_R OR MAP_W) s;
     s \<leftarrow> push_identical (ld_sbss_with_stack ld) (ld_ebss ld) (MAP_R OR MAP_W) s;
     s \<leftarrow> push_identical (ld_ekernel ld) MEMORY_END (MAP_R OR MAP_W) s;
     for_each (\<lambda>pair. push_identical (fst pair) (fst pair + snd pair) (MAP_R OR MAP_W)) MMIO s
   }"

section \<open>Programs\<close>

text \<open>What the kernel uses of a parsed ELF file.\<close>

record program_header =
  ph_is_load :: "bool option"
  ph_virtual_addr :: u64
  ph_mem_size :: u64
  ph_offset :: u64
  ph_file_size :: u64
  ph_read :: bool
  ph_write :: bool
  ph_execute :: bool

record elf_file =
  elf_magic :: "u8 list"
  elf_ph_count :: u16
  elf_program_header :: "u16 \<Rightarrow> program_header option"
  elf_entry_point :: u64

definition slice_range :: "u8 list \<Rightarrow> usize \<Rightarrow> usize \<Rightarrow> u8 list option" where
  "slice_range xs s e =
     (if s \<le> e \<and> unat e \<le> length xs then Some (slice_at (unat s) (unat e - unat s) xs) else None)"

definition ph_perm :: "program_header \<Rightarrow> map_permission" where
  "ph_perm ph =
     MAP_U OR (if ph_read ph then MAP_R else 0) OR (if ph_write ph then MAP_W else 0) OR
     (if ph_execute ph then MAP_X else 0)"

definition load_segment :: "elf_file \<Rightarrow> u8 list \<Rightarrow> u16 \<Rightarrow> virt_page_num \<times> ms_state \<Rightarrow> (virt_page_num \<times> ms_state) option" where
  "load_segment elf input i = (\<lambda>(max_end_vpn, st). do {
     ph \<leftarrow> elf_program_header elf i;
     load \<leftarrow> ph_is_load ph;
     if load then do {
       area \<leftarrow> map_area_new (va_from_usize (ph_virtual_addr ph))
                 (va_from_usize (ph_virtual_addr ph + ph_mem_size ph)) Framed (ph_perm ph);
       data \<leftarrow> slice_range input (ph_offset ph) (ph_offset ph + ph_file_size ph);
       st \<leftarrow> ms_push area (Some data) st;
       Some (range_r (area_range area), st)
     } else Some (max_end_vpn, st)
   })"

definition from_elf :: "(u8 list \<Rightarrow> elf_file option) \<Rightarrow> usize \<Rightarrow> u8 list \<Rightarrow> machine \<Rightarrow>
    ((memory_set \<times> usize \<times> usize) \<times> machine) option" where
  "from_elf xmas_elf_new strampoline elf_data mc = do {
     s \<leftarrow> memory_set_new_bare mc;
     s \<leftarrow> map_trampoline strampoline s;
     elf \<leftarrow> xmas_elf_new elf_data;
     if elf_magic elf \<noteq> [0x7f, 0x45, 0x4c, 0x46] then None else do {
       (max_end_vpn, s) \<leftarrow>
         for_each (load_segment elf elf_data) (map word_of_nat [0..<unat (elf_ph_count elf)]) (0, s);
       let user_stack_bottom = usize_from_va (va_from_vpn max_end_vpn) + PAGE_SIZE;
       let user_stack_top = user_stack_bottom + USER_STACK_SIZE;
       s \<leftarrow> insert_framed_area (va_from_usize user_stack_bottom) (va_from_usize user_stack_top)
              (MAP_R OR MAP_W OR MAP_U) s;
       (ms, mc) \<leftarrow> insert_framed_area (va_from_usize TRAP_CONTEXT) (va_from_usize TRAMPOLINE)
              (MAP_R OR MAP_W) s;
       Some ((ms, user_stack_top, elf_entry_point elf), mc)
     }
   }"

section \<open>Forked address spaces\<close>

definition copy_page :: "memory_set \<Rightarrow> virt_page_num \<Rightarrow> ms_state \<Rightarrow> ms_state option" where
  "copy_page user_space vpn = (\<lambda>(ms, mc). do {
     src \<leftarrow> ms_translate (mem mc) user_space vpn;
     dst \<leftarrow> ms_translate (mem mc) ms vpn;
     Some (ms, mc\<lparr>mem := store_bytes (mem mc) (pa_from_ppn (pte_ppn dst))
                          (load_bytes (mem mc) (pa_from_ppn (pte_ppn src)) 4096)\<rparr>)
   })"

definition copy_area :: "memory_set \<Rightarrow> map_area \<Rightarrow> ms_state \<Rightarrow> ms_state option" where
  "copy_area user_space area s = do {
     new_area \<leftarrow> map_area_from_another area;
     s \<leftarrow> ms_push new_area None s;
     for_each (copy_page user_space) (range_list (area_range area)) s
   }"

definition from_existed_user :: "usize \<Rightarrow> memory_set \<Rightarrow> machine \<Rightarrow> ms_state option" where
  "from_existed_user strampoline user_space mc = do {
     s \<leftarrow> memory_set_new_bare mc;
     s \<leftarrow> map_trampoline strampoline s;
     for_each (copy_area user_space) (ms_areas user_space) s
   }"

section \<open>Giving memory back\<close>

definition area_frames :: "map_area \<Rightarrow> phys_page_num list" where
  "area_frames a = map snd (data_frames a)"

definition recycle_data_pages :: "ms_state \<Rightarrow> ms_state option" where
  "recycle_data_pages = (\<lambda>(ms, mc). do {
     mc \<leftarrow> frames_drop (concat (map area_frames (ms_areas ms))) mc;
     Some (ms\<lparr>ms_areas := []\<rparr>, mc)
   })"

text \<open>Dropping a \<open>MemorySet\<close> drops the tables, then the areas.\<close>

definition memory_set_drop :: "ms_state \<Rightarrow> machine option" where
  "memory_set_drop = (\<lambda>(ms, mc). do {
     mc \<leftarrow> frames_drop (pt_frames (ms_page_table ms)) mc;
     frames_drop (concat (map area_frames (ms_areas ms))) mc
   })"

text \<open>\<open>KernelStack::new\<close> and its drop act on the kernel's address space.\<close>

definition kernel_stack_new :: "usize \<Rightarrow> ms_state \<Rightarrow> ms_state option" where
  "kernel_stack_new pid s =
     insert_framed_area (va_from_usize (fst (kernel_stack_position pid)))
       (va_from_usize (snd (kernel_stack_position pid))) (MAP_R OR MAP_W) s"

definition kernel_stack_drop :: "usize \<Rightarrow> ms_state \<Rightarrow> ms_state option" where
  "kernel_stack_drop pid s = do {
     vpn \<leftarrow> vpn_from_va (va_from_usize (fst (kernel_stack_position pid)));
     remove_area_with_start_vpn vpn s
   }"

end
