(* ===== verification/User_Memory.thy ===== *)
theory User_Memory
  imports Page_Table_Laws
begin

text \<open>
  How the kernel reaches the memory of a process: the slices of
  \<open>translated_byte_buffer\<close> are exactly the bytes of the user range, so
  \<open>read_user_bytes\<close> and \<open>write_user_bytes\<close> (\<open>os/src/agent/context_area.rs\<close>) act on a
  mapped user region as on a byte array.  The contract is the locale \<open>byte_area\<close>,
  interpreted on the page-table model.
\<close>

unbundle bit_operations_syntax

section \<open>Slices of a user range\<close>

definition user_pa :: "memory \<Rightarrow> page_table \<Rightarrow> usize \<Rightarrow> phys_addr option" where
  "user_pa m pt va =
     map_option (\<lambda>e. pa_from_ppn (pte_ppn e) + va_page_offset va) (pt_translate m pt (va_floor va))"

definition slice_addrs :: "slices \<Rightarrow> phys_addr list" where
  "slice_addrs sl = concat (map (\<lambda>(a, n). map (\<lambda>i. a + word_of_nat i) [0..<n]) sl)"

lemma slice_addrs_simps [simp]:
  "slice_addrs [] = []"
  "slice_addrs ((a, n) # sl) = map (\<lambda>i. a + word_of_nat i) [0..<n] @ slice_addrs sl"
  by (simp_all add: slice_addrs_def)

text \<open>One round of the loop, in numbers: the slice reaches to the end of the page or to
  the end of the range, whichever comes first.\<close>

lemma translated_step:
  assumes s: "unat s < unat e" "unat e < 2 ^ 38"
    and tr: "pt_translate m pt (va_floor s) = Some pte"
  shows "\<exists>t. unat t = min (unat s div 4096 * 4096 + 4096) (unat e) \<and>
     translated_loop m pt s e =
       Option.bind (translated_loop m pt t e)
         (\<lambda>v. Some ((pa_from_ppn (pte_ppn pte) + va_page_offset s, unat t - unat s) # v))"
proof -
  let ?t = "min (va_from_vpn (va_floor s + 1)) e"
  have vs: "va_from_usize s = s" "va_from_usize e = e" using s by (simp_all add: va_from_usize_id)
  have fl: "unat (va_floor s + 1) = unat s div 4096 + 1"
    using s by (subst unat_add_u64_small) (simp_all add: addr_nat)
  have t: "unat ?t = min (unat s div 4096 * 4096 + 4096) (unat e)"
    using s fl by (simp add: min_def word_le_unat unat_va_from_vpn)
  have ts: "usize_from_va ?t = ?t" using t s by (intro usize_from_va_low) simp
  have off: "unat s = unat s div 4096 * 4096 + unat s mod 4096" by simp
  have sl: "byte_slice (pte_ppn pte) (va_page_offset s) (va_page_offset ?t) =
    Some (pa_from_ppn (pte_ppn pte) + va_page_offset s, unat ?t - unat s)"
  proof (cases "unat s div 4096 * 4096 + 4096 \<le> unat e")
    case True
    with t have u: "unat ?t = unat s div 4096 * 4096 + 4096" by simp
    then have "va_page_offset ?t = 0" by (simp add: word_unat_eq_iff unat_va_page_offset)
    moreover have "unat ?t - unat s = 4096 - unat s mod 4096" using u off by linarith
    ultimately show ?thesis by (simp add: byte_slice_def unat_va_page_offset)
  next
    case False
    with t have u: "unat ?t = unat e" by simp
    have e: "unat e = unat s div 4096 * 4096 + (unat e - unat s div 4096 * 4096)"
      "unat e - unat s div 4096 * 4096 < 4096" "unat s mod 4096 < unat e - unat s div 4096 * 4096"
      using False off s by linarith+
    then have m: "unat e mod 4096 = unat e - unat s div 4096 * 4096"
      by (metis mod_less mod_mult_self3)
    with u e have "va_page_offset ?t \<noteq> 0" "va_page_offset s \<le> va_page_offset ?t"
      by (simp_all add: word_unat_eq_iff unat_va_page_offset word_le_unat)
    moreover have "unat ?t - unat s = unat e mod 4096 - unat s mod 4096" using u m off by linarith
    ultimately show ?thesis using u by (simp add: byte_slice_def unat_va_page_offset)
  qed
  have "s < e" using s by (simp add: word_less_unat)
  then have "translated_loop m pt s e =
       Option.bind (translated_loop m pt ?t e)
         (\<lambda>v. Some ((pa_from_ppn (pte_ppn pte) + va_page_offset s, unat ?t - unat s) # v))"
    by (subst translated_loop.simps) (simp add: Let_def vs tr sl ts)
  with t show ?thesis by blast
qed


text \<open>The addresses behind the bytes of one page.\<close>

lemma user_pa_in_page:
  assumes tr: "pt_translate m pt (va_floor s) = Some pte"
    and i: "unat s mod 4096 + i < 4096" "unat s + i < 2 ^ 64"
  shows "user_pa m pt (s + word_of_nat i) = Some (pa_from_ppn (pte_ppn pte) + va_page_offset s + word_of_nat i)"
proof -
  have si: "unat (s + word_of_nat i) = unat s + i"
    using i(2) by (subst unat_add_u64_small) (simp_all add: unat_of_nat_u64)
  have e: "unat s + i = (unat s mod 4096 + i) + unat s div 4096 * 4096" by simp
  have "(unat s + i) div 4096 = unat s div 4096 + (unat s mod 4096 + i) div 4096"
    unfolding e by (rule div_mult_self1) simp
  moreover have "(unat s + i) mod 4096 = (unat s mod 4096 + i) mod 4096"
    unfolding e by (rule mod_mult_self1)
  ultimately have d: "(unat s + i) div 4096 = unat s div 4096" "(unat s + i) mod 4096 = unat s mod 4096 + i"
    using i(1) by (simp_all only: div_less mod_less add_0_right)
  have "va_floor (s + word_of_nat i) = va_floor s"
    using si d by (simp add: word_unat_eq_iff unat_va_floor)
  moreover have "va_page_offset (s + word_of_nat i) = va_page_offset s + word_of_nat i"
    using si d i by (simp add: word_unat_eq_iff unat_va_page_offset unat_add_u64_small unat_of_nat_u64)
  ultimately show ?thesis by (simp add: user_pa_def tr add.assoc)
qed


lemma translated_loop_exact:
  assumes "unat s \<le> unat e" "unat e < 2 ^ 38"
    and "\<And>i. i < unat e - unat s \<Longrightarrow> user_pa m pt (s + word_of_nat i) \<noteq> None"
  shows "\<exists>sl. translated_loop m pt s e = Some sl \<and>
     map Some (slice_addrs sl) = map (\<lambda>i. user_pa m pt (s + word_of_nat i)) [0..<unat e - unat s]"
  using assms
proof (induction "unat e - unat s" arbitrary: s rule: less_induct)
  case less
  show ?case
  proof (cases "unat s = unat e")
    case True
    then show ?thesis
      by (subst translated_loop.simps) (simp add: word_less_unat)
  next
    case False
    with less.prems have lt: "unat s < unat e" by simp
    with less.prems(3) [of 0] obtain pte where tr: "pt_translate m pt (va_floor s) = Some pte"
      by (auto simp: user_pa_def)
    from translated_step [OF lt less.prems(2) tr] obtain t where
      t: "unat t = min (unat s div 4096 * 4096 + 4096) (unat e)"
      and step: "translated_loop m pt s e = Option.bind (translated_loop m pt t e)
         (\<lambda>v. Some ((pa_from_ppn (pte_ppn pte) + va_page_offset s, unat t - unat s) # v))" by blast
    define n where "n = unat t - unat s"
    have off: "unat s = unat s div 4096 * 4096 + unat s mod 4096" "unat s mod 4096 < 4096" by simp_all
    have st: "unat s < unat t" "unat t \<le> unat e" using t lt off by linarith+
    then have tn: "t = s + word_of_nat n"
      using unat_bound [of t] by (simp add: n_def word_unat_eq_iff unat_add_u64_small unat_of_nat_u64)
    have shift: "t + word_of_nat i = s + word_of_nat (n + i)" for i by (simp add: tn)
    have head: "user_pa m pt (s + word_of_nat i) = Some (pa_from_ppn (pte_ppn pte) + va_page_offset s + word_of_nat i)"
      if "i < n" for i
    proof (rule user_pa_in_page [OF tr])
      show "unat s mod 4096 + i < 4096" using that t off unfolding n_def by linarith
      show "unat s + i < 2 ^ 64" using that st less.prems(2) unfolding n_def by simp
    qed
    have "\<exists>sl. translated_loop m pt t e = Some sl \<and>
       map Some (slice_addrs sl) = map (\<lambda>i. user_pa m pt (t + word_of_nat i)) [0..<unat e - unat t]"
    proof (rule less.hyps)
      show "user_pa m pt (t + word_of_nat i) \<noteq> None" if "i < unat e - unat t" for i
        unfolding shift using that st by (intro less.prems(3)) (simp add: n_def)
    qed (use st less.prems(2) in simp_all)
    then obtain sl where sl: "translated_loop m pt t e = Some sl"
      "map Some (slice_addrs sl) = map (\<lambda>i. user_pa m pt (s + word_of_nat (n + i))) [0..<unat e - unat t]"
      unfolding shift by blast
    have up: "[0..<unat e - unat s] = [0..<n] @ map (\<lambda>i. n + i) [0..<unat e - unat t]"
      using upt_split [of n "unat e - unat t"] st by (simp add: n_def)
    show ?thesis using step sl head by (simp add: up n_def [symmetric] o_def)
  qed
qed

section \<open>Bytes behind slices\<close>

definition write_at :: "phys_addr list \<Rightarrow> u8 list \<Rightarrow> memory \<Rightarrow> memory" where
  "write_at as bs m = (\<lambda>x. case map_of (zip as bs) x of Some b \<Rightarrow> b | None \<Rightarrow> m x)"

lemma load_bytes_map: "load_bytes m a n = map m (map (\<lambda>i. a + word_of_nat i) [0..<n])"
  by (simp add: load_bytes_def)

lemma store_bytes_write_at:
  assumes "length bs < 2 ^ 64"
  shows "store_bytes m a bs = write_at (map (\<lambda>i. a + word_of_nat i) [0..<length bs]) bs m"
proof
  fix x
  let ?as = "map (\<lambda>i. a + word_of_nat i) [0..<length bs]"
  show "store_bytes m a bs x = write_at ?as bs m x"
  proof (cases "unat (x - a) < length bs")
    case True
    have "distinct ?as"
      using assms by (auto simp: distinct_map inj_on_def dest: arg_cong [where f = unat] simp: unat_of_nat_u64)
    moreover have "?as ! unat (x - a) = x" using True by simp
    ultimately have "map_of (zip ?as bs) x = Some (bs ! unat (x - a))"
      using True by (metis (no_types) length_map length_upt diff_zero map_of_zip_nth)
    with True show ?thesis by (simp add: store_bytes_def write_at_def)
  next
    case False
    have "x \<notin> set ?as"
    proof
      assume "x \<in> set ?as"
      then obtain i where "i < length bs" "x = a + word_of_nat i" by auto
      with assms False show False by (simp add: unat_of_nat_u64)
    qed
    then have "map_of (zip ?as bs) x = None" by simp
    with False show ?thesis by (simp add: store_bytes_def write_at_def del: map_of_zip_is_None)
  qed
qed

lemma write_at_append:
  assumes "length as = length bs" "set as \<inter> set as' = {}"
  shows "write_at as' bs' (write_at as bs m) = write_at (as @ as') (bs @ bs') m"
proof
  fix x
  show "write_at as' bs' (write_at as bs m) x = write_at (as @ as') (bs @ bs') m x"
  proof (cases "map_of (zip as bs) x")
    case None
    with assms(1) show ?thesis
      by (simp add: write_at_def map_add_def del: map_of_zip_is_None split: option.splits)
  next
    case (Some b)
    then have "x \<in> set as" by (metis map_of_SomeD set_zip_leftD)
    with assms(2) have "map_of (zip as' bs') x = None"
      by (metis disjoint_iff map_of_SomeD not_None_eq set_zip_leftD)
    with Some assms(1) show ?thesis
      by (simp add: write_at_def map_add_def del: map_of_zip_is_None split: option.splits)
  qed
qed

lemma length_slice_addrs: "length (slice_addrs sl) = sum_list (map snd sl)"
  by (induction sl) (auto simp: slice_addrs_def)

lemma write_slices_exact:
  assumes "distinct (slice_addrs sl)" "length (slice_addrs sl) = length bs" "length bs < 2 ^ 64"
  shows "write_slices sl bs m = write_at (slice_addrs sl) bs m"
  using assms
proof (induction sl bs m rule: write_slices.induct)
  case (1 bs m)
  then show ?case by (simp add: write_at_def)
next
  case (2 a n sl bs m)
  let ?as = "map (\<lambda>i. a + word_of_nat i) [0..<n]"
  let ?m = "store_bytes m a (take n bs)"
  have n: "n \<le> length bs" using "2.prems"(2) by simp
  then have st: "?m = write_at ?as (take n bs) m"
    using "2.prems"(3) by (simp add: store_bytes_write_at min_absorb2)
  show ?case
  proof (cases "length bs \<le> n")
    case True
    with n "2.prems"(2) have "slice_addrs sl = []" "n = length bs" by simp_all
    with st show ?thesis by (simp add: Let_def)
  next
    case False
    have "write_slices sl (drop n bs) ?m = write_at (slice_addrs sl) (drop n bs) ?m"
      using "2.IH" [OF refl refl] "2.prems" False n by (simp add: min_absorb1)
    also have "\<dots> = write_at (?as @ slice_addrs sl) (take n bs @ drop n bs) m"
      unfolding st using "2.prems"(1) n by (intro write_at_append) auto
    finally show ?thesis using False n by (simp add: Let_def min_absorb1)
  qed
qed

lemma read_slices_exact:
  assumes "length (slice_addrs sl) = length buf"
  shows "read_slices sl buf m = map m (slice_addrs sl)"
  using assms
proof (induction sl buf m rule: read_slices.induct)
  case (2 a n sl buf m)
  have n: "n \<le> length buf" using "2.prems" by simp
  show ?case
  proof (cases "length buf \<le> n")
    case True
    with n "2.prems" have "slice_addrs sl = []" "n = length buf" by simp_all
    then show ?thesis by (simp add: Let_def load_bytes_map)
  next
    case False
    then have "read_slices sl (drop n buf) m = map m (slice_addrs sl)"
      using "2.IH" [OF refl] "2.prems" n by (simp add: min_absorb1)
    with False n show ?thesis by (simp add: Let_def min_absorb1 load_bytes_map)
  qed
qed simp

section \<open>The contract of a shared byte area\<close>

text \<open>
  \<open>content\<close> is the area as a byte array of length \<open>size\<close> and \<open>outside\<close> everything else
  the state holds.
\<close>

locale byte_area =
  fixes ok :: "'s \<Rightarrow> bool"
    and content :: "'s \<Rightarrow> u8 list"
    and outside :: "'s \<Rightarrow> 'o"
    and area_size :: nat
    and rd :: "nat \<Rightarrow> u8 list \<Rightarrow> 's \<Rightarrow> u8 list option"
    and wr :: "nat \<Rightarrow> u8 list \<Rightarrow> 's \<Rightarrow> 's option"
  assumes content_length: "length (content s) = area_size"
    and rd_ok: "ok s \<Longrightarrow> off + length buf \<le> area_size \<Longrightarrow>
          rd off buf s = Some (slice_at off (length buf) (content s))"
    and wr_ok: "ok s \<Longrightarrow> off + length bs \<le> area_size \<Longrightarrow>
          \<exists>s'. wr off bs s = Some s' \<and> ok s' \<and> content s' = splice off bs (content s) \<and> outside s' = outside s"
begin

text \<open>A write is read back, and leaves the bytes beside it.\<close>

lemma wr_rd:
  assumes "ok s" "off + length bs \<le> area_size" "wr off bs s = Some s'" "i + length buf \<le> area_size"
  shows "i = off \<Longrightarrow> length buf = length bs \<Longrightarrow> rd i buf s' = Some bs"
    and "i + length buf \<le> off \<or> off + length bs \<le> i \<Longrightarrow> rd i buf s' = rd i buf s"
proof -
  from wr_ok [OF assms(1,2)] assms(3) have s': "ok s'" "content s' = splice off bs (content s)" by auto
  note r = rd_ok [OF s'(1) assms(4)] rd_ok [OF assms(1,4)]
  show "rd i buf s' = Some bs" if "i = off" "length buf = length bs"
    using r that assms(2) by (simp add: s' slice_at_splice_same content_length)
  show "rd i buf s' = rd i buf s" if "i + length buf \<le> off \<or> off + length bs \<le> i"
    using r that assms(2,4) by (simp add: s' slice_at_splice_other content_length)
qed

text \<open>Writing two adjacent pieces is writing their concatenation.\<close>

lemma wr_adjacent:
  assumes "ok s" "off + length bs + length cs \<le> area_size"
  shows "\<exists>s'. Option.bind (wr off bs s) (wr (off + length bs) cs) = Some s' \<and> ok s' \<and>
     content s' = splice off (bs @ cs) (content s) \<and> outside s' = outside s"
proof -
  from wr_ok [OF assms(1), of off bs] assms(2) obtain s1 where
    1: "wr off bs s = Some s1" "ok s1" "content s1 = splice off bs (content s)" "outside s1 = outside s" by auto
  from wr_ok [OF 1(2), of "off + length bs" cs] assms(2) obtain s2 where
    2: "wr (off + length bs) cs s1 = Some s2" "ok s2"
      "content s2 = splice (off + length bs) cs (content s1)" "outside s2 = outside s1" by auto
  have "splice (off + length bs) cs (splice off bs (content s)) = splice off (bs @ cs) (content s)"
    using assms(2) content_length [of s] by (simp add: splice_splice)
  with 1 2 show ?thesis by auto
qed

text \<open>Copying a chunk inside the area through a kernel buffer.\<close>

lemma copy_chunk:
  assumes "ok s" "src + length buf \<le> area_size" "dst + length buf \<le> area_size"
  shows "\<exists>s'. Option.bind (rd src buf s) (\<lambda>d. wr dst d s) = Some s' \<and> ok s' \<and>
     content s' = splice dst (slice_at src (length buf) (content s)) (content s) \<and> outside s' = outside s"
proof -
  have "length (slice_at src (length buf) (content s)) = length buf"
    using assms(2) by (simp add: slice_at_length content_length)
  with wr_ok [OF assms(1), of dst "slice_at src (length buf) (content s)"] rd_ok [OF assms(1,2)] assms(3)
  show ?thesis by simp
qed

end

section \<open>A mapped user region\<close>

text \<open>
  The bytes of the user range that starts at \<open>base\<close> lie at the distinct physical
  addresses \<open>addrs\<close>, and go on doing so whatever is written at those addresses: none of
  them belongs to the tables the translation walks.
\<close>

definition user_region :: "usize \<Rightarrow> usize \<Rightarrow> phys_addr list \<Rightarrow> memory \<Rightarrow> bool" where
  "user_region token base addrs m \<longleftrightarrow>
     unat base + length addrs < 2 ^ 38 \<and> distinct addrs \<and>
     (\<forall>m'. (\<forall>x. x \<notin> set addrs \<longrightarrow> m' x = m x) \<longrightarrow>
        (\<forall>i<length addrs. user_pa m' (page_table_from_token token) (base + word_of_nat i) = Some (addrs ! i)))"

definition region_outside :: "phys_addr list \<Rightarrow> memory \<Rightarrow> memory" where
  "region_outside addrs m = (\<lambda>x. if x \<in> set addrs then 0 else m x)"

lemma user_region_frame:
  "user_region token base addrs m \<Longrightarrow> region_outside addrs m' = region_outside addrs m \<Longrightarrow>
   user_region token base addrs m'"
proof -
  assume r: "user_region token base addrs m" and o: "region_outside addrs m' = region_outside addrs m"
  have "m' x = m x" if "x \<notin> set addrs" for x
    using fun_cong [OF o, of x] that by (simp add: region_outside_def)
  with r show ?thesis unfolding user_region_def by metis
qed

lemma region_slices:
  assumes "user_region token base addrs m" "off + n \<le> length addrs"
  shows "\<exists>sl. translated_byte_buffer m token (base + word_of_nat off) (word_of_nat n) = Some sl \<and>
     slice_addrs sl = slice_at off n addrs"
proof -
  let ?pt = "page_table_from_token token"
  let ?s = "base + word_of_nat off :: usize"
  from assms(1) have b: "unat base + length addrs < 2 ^ 38"
    and pa: "\<And>i. i < length addrs \<Longrightarrow> user_pa m ?pt (base + word_of_nat i) = Some (addrs ! i)"
    unfolding user_region_def by blast+
  have s: "unat ?s = unat base + off"
    using b assms(2) by (subst unat_add_u64_small) (simp_all add: unat_of_nat_u64)
  have e: "unat (?s + word_of_nat n) = unat base + off + n"
    using b assms(2) s by (subst unat_add_u64_small) (simp_all add: unat_of_nat_u64)
  have sh: "?s + word_of_nat i = base + word_of_nat (off + i)" for i by simp
  have pai: "user_pa m ?pt (?s + word_of_nat i) = Some (addrs ! (off + i))" if "i < n" for i
    unfolding sh using that assms(2) by (intro pa) simp
  have "\<exists>sl. translated_loop m ?pt ?s (?s + word_of_nat n) = Some sl \<and>
     map Some (slice_addrs sl) = map (\<lambda>i. user_pa m ?pt (?s + word_of_nat i)) [0..<unat (?s + word_of_nat n) - unat ?s]"
    using pai b assms(2) by (intro translated_loop_exact) (simp_all add: s e)
  then obtain sl where "translated_loop m ?pt ?s (?s + word_of_nat n) = Some sl"
    and "map Some (slice_addrs sl) = map (\<lambda>i. user_pa m ?pt (?s + word_of_nat i)) [0..<n]"
    by (auto simp: s e)
  moreover from this(2) have "map Some (slice_addrs sl) = map Some (slice_at off n addrs)"
    unfolding slice_at_def using pai assms(2) by (intro nth_equalityI) (auto dest: arg_cong [where f = length])
  then have "slice_addrs sl = slice_at off n addrs" by (simp add: inj_map_eq_map)
  ultimately show ?thesis by (auto simp: translated_byte_buffer_def)
qed

lemma write_at_other: "x \<notin> set as \<Longrightarrow> write_at as bs m x = m x"
  by (auto simp: write_at_def dest: map_of_SomeD set_zip_leftD split: option.splits)

lemma write_at_slice:
  assumes "distinct addrs" "off + length bs \<le> length addrs"
  shows "map (write_at (slice_at off (length bs) addrs) bs m) addrs = splice off bs (map m addrs)"
proof (rule nth_equalityI)
  fix i
  assume "i < length (map (write_at (slice_at off (length bs) addrs) bs m) addrs)"
  then have i: "i < length addrs" by simp
  let ?as = "slice_at off (length bs) addrs"
  have len: "length ?as = length bs" using assms(2) by (simp add: slice_at_length)
  have "write_at ?as bs m (addrs ! i) = (if off \<le> i \<and> i < off + length bs then bs ! (i - off) else m (addrs ! i))"
  proof (cases "off \<le> i \<and> i < off + length bs")
    case True
    have "distinct ?as" using assms(1) by (simp add: slice_at_def)
    moreover have "?as ! (i - off) = addrs ! i" using True assms(2) by (auto simp: slice_at_def)
    ultimately have "map_of (zip ?as bs) (addrs ! i) = Some (bs ! (i - off))"
      using True len map_of_zip_nth [of ?as bs "i - off"] by auto
    with True show ?thesis by (simp add: write_at_def)
  next
    case False
    have "addrs ! i \<notin> set ?as"
    proof
      assume "addrs ! i \<in> set ?as"
      then obtain j where j: "j < length bs" "addrs ! i = addrs ! (off + j)"
        unfolding in_set_conv_nth len using assms(2) by (auto simp: slice_at_def)
      then have "i = off + j" using assms i by (simp add: nth_eq_iff_index_eq)
      with j False show False by simp
    qed
    with False show ?thesis by (auto simp: write_at_other)
  qed
  with i assms(2) show "map (write_at ?as bs m) addrs ! i = splice off bs (map m addrs) ! i"
    by (simp add: nth_splice)
qed (use assms(2) in simp)

interpretation um: byte_area "user_region token base addrs" "\<lambda>m. map m addrs" "region_outside addrs"
    "length addrs"
    "\<lambda>off buf m. read_user_bytes token (base + word_of_nat off) buf m"
    "\<lambda>off bs m. write_user_bytes token (base + word_of_nat off) bs m" for token base addrs
proof (unfold_locales, goal_cases)
  case (2 m off buf)
  from region_slices [OF 2] obtain sl where sl:
    "translated_byte_buffer m token (base + word_of_nat off) (word_of_nat (length buf)) = Some sl"
    "slice_addrs sl = slice_at off (length buf) addrs" by blast
  with 2(2) have "read_slices sl buf m = slice_at off (length buf) (map m addrs)"
    by (simp add: read_slices_exact slice_at_length) (simp add: slice_at_def take_map drop_map)
  with sl show ?case by (simp add: read_user_bytes_def)
next
  case (3 m off bs)
  from region_slices [OF 3] obtain sl where sl:
    "translated_byte_buffer m token (base + word_of_nat off) (word_of_nat (length bs)) = Some sl"
    "slice_addrs sl = slice_at off (length bs) addrs" by blast
  let ?m = "write_at (slice_at off (length bs) addrs) bs m"
  from 3(1) have d: "distinct addrs" "unat base + length addrs < 2 ^ 38" unfolding user_region_def by blast+
  have "write_slices sl bs m = ?m"
    using sl 3(2) d by (subst write_slices_exact) (simp_all add: slice_at_length, simp_all add: slice_at_def)
  moreover have out: "region_outside addrs ?m = region_outside addrs m"
    by (rule ext) (auto simp: region_outside_def slice_at_def intro!: write_at_other dest: in_set_takeD in_set_dropD)
  ultimately show ?case
    using sl write_at_slice [OF d(1) 3(2), of m] user_region_frame [OF 3(1) out]
    by (auto simp: write_user_bytes_def)
qed simp

section \<open>Regions made of mapped pages\<close>

definition page_addrs :: "(nat \<Rightarrow> phys_page_num) \<Rightarrow> nat \<Rightarrow> phys_addr list" where
  "page_addrs P n = map (\<lambda>i. pa_from_ppn (P (i div 4096)) + word_of_nat (i mod 4096)) [0..<n * 4096]"

lemma frame_addr_eq:
  assumes "frame_ok p" "frame_ok q" "i < 4096" "j < 4096"
  shows "pa_from_ppn p + word_of_nat i = pa_from_ppn q + word_of_nat j \<longleftrightarrow> p = q \<and> i = j"
proof
  assume "pa_from_ppn p + word_of_nat i = pa_from_ppn q + word_of_nat j"
  then have "unat (pa_from_ppn p + word_of_nat i) = unat (pa_from_ppn q + word_of_nat j)" by simp
  then have "unat p * 4096 + i = unat q * 4096 + j"
    using assms by (simp add: unat_in_frame unat_of_nat_u64)
  moreover have "(unat p * 4096 + i) div 4096 = unat p" "(unat q * 4096 + j) div 4096 = unat q"
    using assms(3,4) by simp_all
  ultimately have "unat p = unat q \<and> i = j" by simp
  then show "p = q \<and> i = j" by (simp add: word_unat_eq_iff)
qed simp

lemma same_frame_bytes:
  assumes "\<And>i. i < 4096 \<Longrightarrow> m' (pa_from_ppn p + word_of_nat i) = m (pa_from_ppn p + word_of_nat i)"
  shows "same_frame p m m'"
  unfolding same_frame_def
proof (intro allI impI nth_equalityI)
  fix off n i
  assume b: "unat (off :: usize) + n \<le> 4096"
    and "i < length (load_bytes m' (pa_from_ppn p + off) n)"
  then have i: "i < n" by simp
  have "pa_from_ppn p + off + word_of_nat i = pa_from_ppn p + word_of_nat (unat off + i)" by (simp add: add.assoc)
  with assms [of "unat off + i"] b i
  show "load_bytes m' (pa_from_ppn p + off) n ! i = load_bytes m (pa_from_ppn p + off) n ! i"
    by (simp add: add.assoc)
qed simp

lemma page_addrs_distinct:
  assumes "\<And>k. k < n \<Longrightarrow> frame_ok (P k)" "inj_on P {..<n}"
  shows "distinct (page_addrs P n)"
  unfolding page_addrs_def distinct_map
proof (intro conjI inj_onI)
  fix i j
  assume "i \<in> set [0..<n * 4096]" "j \<in> set [0..<n * 4096]"
    and e: "pa_from_ppn (P (i div 4096)) + word_of_nat (i mod 4096) =
            pa_from_ppn (P (j div 4096)) + word_of_nat (j mod 4096)"
  then have k: "i div 4096 < n" "j div 4096 < n" by (simp_all add: less_mult_imp_div_less)
  with e assms(1) have "P (i div 4096) = P (j div 4096) \<and> i mod 4096 = j mod 4096"
    by (simp add: frame_addr_eq)
  with k assms(2) have "i div 4096 = j div 4096 \<and> i mod 4096 = j mod 4096" by (auto dest: inj_onD)
  then show "i = j" by (metis div_mult_mod_eq)
qed simp


text \<open>A run of pages that a page table maps to distinct frames outside its tables is a
  user region.\<close>

lemma user_region_pages:
  assumes t: "pt_tree m root F" and tok: "root_ppn (page_table_from_token token) = root"
    and base: "va_page_offset base = 0" "unat base + n * 4096 < 2 ^ 38"
    and view: "\<And>k. k < n \<Longrightarrow> pt_view m root (va_floor base + word_of_nat k) = Some (e k)"
    and fr: "\<And>k. k < n \<Longrightarrow> pte_ppn (e k) \<notin> F" and inj: "inj_on (\<lambda>k. pte_ppn (e k)) {..<n}"
  shows "user_region token base (page_addrs (\<lambda>k. pte_ppn (e k)) n) m"
proof -
  let ?P = "\<lambda>k. pte_ppn (e k)" and ?pt = "page_table_from_token token"
  let ?as = "page_addrs ?P n"
  have ok: "frame_ok (?P k)" for k using pte_ppn_bound [of "e k"] by (simp add: frame_ok_def)
  have len: "length ?as = n * 4096" by (simp add: page_addrs_def)
  have "unat base mod 4096 = 0" using base(1) by (simp add: word_unat_eq_iff unat_va_page_offset)
  then have bq: "unat base = unat base div 4096 * 4096"
    using div_mult_mod_eq [of "unat base" 4096] by linarith
  have "user_pa m' ?pt (base + word_of_nat i) = Some (?as ! i)"
    if agree: "\<And>x. x \<notin> set ?as \<Longrightarrow> m' x = m x" and i: "i < n * 4096" for m' i
  proof -
    have k: "i div 4096 < n" using i by (simp add: less_mult_imp_div_less)
    have si: "unat (base + word_of_nat i) = unat base + i"
      using i base(2) by (subst unat_add_u64_small) (simp_all add: unat_of_nat_u64)
    have "unat base + i = i + unat base div 4096 * 4096" using bq by simp
    then have d: "(unat base + i) div 4096 = unat base div 4096 + i div 4096" "(unat base + i) mod 4096 = i mod 4096"
      by (simp_all only: div_mult_self1 mod_mult_self1)
    have "unat (va_floor base + word_of_nat (i div 4096)) = unat base div 4096 + i div 4096"
      using i base(2) by (subst unat_add_u64_small) (simp_all add: unat_va_floor unat_of_nat_u64)
    with si d have fl: "va_floor (base + word_of_nat i) = va_floor base + word_of_nat (i div 4096)"
      by (simp add: word_unat_eq_iff unat_va_floor)
    have off: "va_page_offset (base + word_of_nat i) = word_of_nat (i mod 4096)"
      using si d by (simp add: word_unat_eq_iff unat_va_page_offset unat_of_nat_u64)
    have "same_frame f m m'" if "f \<in> F" for f
    proof (rule same_frame_bytes, rule agree)
      fix j
      assume j: "j < (4096 :: nat)"
      have "frame_ok f" using t that by (simp add: pt_tree_def)
      have "pa_from_ppn f + word_of_nat j \<noteq> pa_from_ppn (?P (i div 4096)) + word_of_nat (i mod 4096)"
        if "i < n * 4096" for i
        using fr [of "i div 4096"] \<open>f \<in> F\<close> that j \<open>frame_ok f\<close> ok
        by (auto simp: frame_addr_eq less_mult_imp_div_less)
      then show "pa_from_ppn f + word_of_nat j \<notin> set ?as" by (fastforce simp: page_addrs_def)
    qed
    from pt_view_agree [OF t this] view [OF k]
    have "pt_view m' (root_ppn ?pt) (va_floor base + word_of_nat (i div 4096)) = Some (e (i div 4096))"
      by (simp add: tok)
    from pt_translate_view [OF this] show ?thesis
      using i by (simp add: user_pa_def fl off page_addrs_def)
  qed
  then show ?thesis
    using base(2) page_addrs_distinct [OF ok inj] by (simp add: user_region_def len)
qed

end
