(* ===== verification/Memory_Set_Laws.thy ===== *)
theory Memory_Set_Laws
  imports Memory_Set User_Memory
begin

text \<open>
  Correctness of address spaces: mapping an area gives each of its pages a cleared frame
  of its own and leaves every other page and frame alone, the frames of an address space
  are pairwise distinct and owned, and a forked address space holds a copy of every page
  of its parent.
\<close>

unbundle bit_operations_syntax

section \<open>Iteration\<close>

lemma for_each_append:
  "for_each f (xs @ ys) s = Option.bind (for_each f xs s) (for_each f ys)"
  by (induction xs arbitrary: s) (auto split: bind_splits)

text \<open>An invariant indexed by the elements already visited.\<close>

lemma for_each_invariant:
  assumes "for_each f xs s = Some s'" "P [] s"
    and "\<And>ys y zs t t'. xs = ys @ y # zs \<Longrightarrow> P ys t \<Longrightarrow> f y t = Some t' \<Longrightarrow> P (ys @ [y]) t'"
  shows "P xs s'"
proof -
  have "for_each f zs t = Some s' \<Longrightarrow> P ys t \<Longrightarrow> xs = ys @ zs \<Longrightarrow> P xs s'" for ys zs t
  proof (induction zs arbitrary: ys t)
    case (Cons z zs)
    from Cons.prems(1) obtain t' where t': "f z t = Some t'" "for_each f zs t' = Some s'"
      by (auto split: bind_splits)
    from assms(3) [OF Cons.prems(3,2) t'(1)] have "P (ys @ [z]) t'" .
    with Cons.IH [OF t'(2)] Cons.prems(3) show ?case by simp
  qed simp
  from this [of xs s "[]"] assms(1,2) show ?thesis by simp
qed

section \<open>The frames an area owns\<close>

lemma bt_insert_values:
  "k \<notin> set (map fst m) \<Longrightarrow> mset (map snd (bt_insert k v m)) = add_mset v (mset (map snd m))"
  by (induction m) auto

lemma bt_insert_values_set:
  "k \<notin> set (map fst m) \<Longrightarrow> set (map snd (bt_insert k v m)) = insert v (set (map snd m))"
  using bt_insert_values [of k m v] by (metis set_mset_add_mset_insert set_mset_mset)

lemma bt_insert_values_distinct:
  "k \<notin> set (map fst m) \<Longrightarrow> distinct (map snd (bt_insert k v m)) \<longleftrightarrow> v \<notin> set (map snd m) \<and> distinct (map snd m)"
  using bt_insert_values [of k m v] by (metis distinct.simps(2) mset.simps(2) mset_eq_imp_distinct_iff)

lemma bt_get_in_values: "bt_get m k = Some v \<Longrightarrow> v \<in> set (map snd m)"
  by (force simp: bt_get_def dest: map_of_SomeD)

definition zero_frame :: "phys_page_num \<Rightarrow> memory \<Rightarrow> bool" where
  "zero_frame f m \<longleftrightarrow> load_bytes m (pa_from_ppn f) 4096 = replicate 4096 0"

lemma zero_frame_new: "zero_frame f (frame_tracker_new f m)"
  using load_store_same [of "replicate 4096 0" m "pa_from_ppn f"]
  by (simp add: zero_frame_def frame_tracker_new_def)

lemma same_frame_page: "same_frame p m m' \<Longrightarrow> load_bytes m' (pa_from_ppn p) 4096 = load_bytes m (pa_from_ppn p) 4096"
  unfolding same_frame_def by (elim allE [where x = 0] allE [where x = 4096]) simp

lemma same_frame_zero: "same_frame p m m' \<Longrightarrow> zero_frame p m \<Longrightarrow> zero_frame p m'"
  by (simp add: zero_frame_def same_frame_page)

section \<open>Mapping the pages of a framed area\<close>

text \<open>
  After the pages \<open>done\<close> of an area have been mapped in the address space that had the
  tables \<open>pt0\<close> in machine \<open>mc0\<close>.
\<close>

definition mapping :: "usize \<Rightarrow> usize \<Rightarrow> map_area \<Rightarrow> page_table \<Rightarrow> machine \<Rightarrow> virt_page_num list \<Rightarrow> area_state \<Rightarrow> bool" where
  "mapping l r area0 pt0 mc0 done s \<longleftrightarrow>
     (case s of (area, pt, mc) \<Rightarrow>
        area_range area = area_range area0 \<and> area_type area = Framed \<and> area_perm area = area_perm area0 \<and>
        root_ppn pt = root_ppn pt0 \<and> pt_inv l r (root_ppn pt) (pt_frames pt) mc \<and>
        bt_inv (data_frames area) \<and> set (map fst (data_frames area)) = set done \<and>
        (\<forall>vpn f. bt_get (data_frames area) vpn = Some f \<longrightarrow>
           pt_view (mem mc) (root_ppn pt) vpn = Some (pte_new f (area_perm area OR PTE_V)) \<and> zero_frame f (mem mc)) \<and>
        (\<forall>w. unat w < 2 ^ 27 \<longrightarrow> w \<notin> set done \<longrightarrow>
           pt_view (mem mc) (root_ppn pt) w = pt_view (mem mc0) (root_ppn pt0) w) \<and>
        (\<forall>v\<in>set done. pt_view (mem mc0) (root_ppn pt0) v = None) \<and>
        (\<exists>gs. pt_frames pt = pt_frames pt0 @ gs \<and> distinct (gs @ area_frames area) \<and>
           (set gs \<union> set (area_frames area)) \<inter> frame_owned l (frame_allocator mc0) = {} \<and>
           frame_owned l (frame_allocator mc) =
             frame_owned l (frame_allocator mc0) \<union> set gs \<union> set (area_frames area)) \<and>
        (\<forall>p\<in>frame_owned l (frame_allocator mc0). p \<notin> set (pt_frames pt0) \<longrightarrow> same_frame p (mem mc0) (mem mc)))"

lemma frame_owned_ok: "frame_inv l r a \<Longrightarrow> p \<in> frame_owned l a \<Longrightarrow> frame_ok p"
  using fa.owned_pool [of l r a] by (auto simp: frame_ok_def frame_inv_def word_less_unat)

text \<open>Taking a frame keeps a page table as it was.\<close>

lemma pt_inv_frame_alloc:
  assumes inv: "pt_inv l r root fs mc" and al: "frame_alloc mc = Some (f, mc1)"
  shows "pt_inv l r root fs mc1" "pt_view (mem mc1) root v = pt_view (mem mc) root v" "f \<notin> set fs"
    "frame_ok p \<Longrightarrow> p \<noteq> f \<Longrightarrow> same_frame p (mem mc) (mem mc1)"
proof -
  from inv have fi: "frame_inv l r (frame_allocator mc)" and t: "pt_tree (mem mc) root (set fs)"
    and fs: "distinct fs" "set fs \<subseteq> frame_owned l (frame_allocator mc)" by (simp_all add: pt_inv_def)
  note al' = frame_alloc_props [OF fi al]
  show f: "f \<notin> set fs" using al'(3) fs(2) by blast
  show same: "same_frame p (mem mc) (mem mc1)" if "frame_ok p" "p \<noteq> f" for p
    using that al'(2,5) by (auto intro: same_frame_cleared)
  have sf: "same_frame g (mem mc) (mem mc1)" if "g \<in> set fs" for g
    using that t f same by (metis pt_tree_def)
  have "pt_tree (mem mc1) root (set fs)"
    by (rule pt_tree_agree [OF t]) (use sf same_frame_slot in blast)
  with al' fs show "pt_inv l r root fs mc1" by (auto simp: pt_inv_def)
  show "pt_view (mem mc1) root v = pt_view (mem mc) root v" by (rule pt_view_agree [OF t sf])
qed

text \<open>One page of a framed area.\<close>

lemma map_one_framed:
  assumes inv: "pt_inv l r (root_ppn pt) (pt_frames pt) mc" and a: "area_type area = Framed"
    and v27: "unat vpn < 2 ^ 27" and run: "map_one vpn (area, pt, mc) = Some (area', pt', mc')"
  obtains f hs where
    "area' = area\<lparr>data_frames := bt_insert vpn f (data_frames area)\<rparr>"
    "root_ppn pt' = root_ppn pt" "pt_inv l r (root_ppn pt) (pt_frames pt') mc'"
    "f \<notin> frame_owned l (frame_allocator mc)" "pt_frames pt' = pt_frames pt @ hs"
    "set hs \<inter> insert f (frame_owned l (frame_allocator mc)) = {}"
    "frame_owned l (frame_allocator mc') = insert f (frame_owned l (frame_allocator mc)) \<union> set hs"
    "zero_frame f (mem mc')" "pt_view (mem mc) (root_ppn pt) vpn = None"
    "\<And>w. unat w < 2 ^ 27 \<Longrightarrow> pt_view (mem mc') (root_ppn pt) w =
       (if w = vpn then Some (pte_new f (area_perm area OR PTE_V)) else pt_view (mem mc) (root_ppn pt) w)"
    "\<And>p. p \<in> frame_owned l (frame_allocator mc) \<Longrightarrow> p \<notin> set (pt_frames pt) \<Longrightarrow> same_frame p (mem mc) (mem mc')"
proof -
  from run a obtain f mc1 where al: "frame_alloc mc = Some (f, mc1)"
    and area': "area' = area\<lparr>data_frames := bt_insert vpn f (data_frames area)\<rparr>"
    and mp: "pt_map vpn f (area_perm area) (pt, mc1) = Some (pt', mc')"
    by (auto simp: map_one_def split: bind_splits)
  have fi: "frame_inv l r (frame_allocator mc)" using inv by (simp add: pt_inv_def)
  note al' = frame_alloc_props [OF fi al] and pa = pt_inv_frame_alloc [OF inv al]
  note mp' = pt_map_ok [OF pa(1) v27 mp]
  from mp'(6) obtain hs where hs: "pt_frames pt' = pt_frames pt @ hs"
    "set hs \<inter> frame_owned l (frame_allocator mc1) = {}"
    "frame_owned l (frame_allocator mc') = frame_owned l (frame_allocator mc1) \<union> set hs" by blast
  have f_tab: "f \<notin> set (pt_frames pt')" using pa(3) hs(1,2) al'(4) by auto
  have "zero_frame f (mem mc')"
    using mp'(5) [OF al'(2) f_tab] zero_frame_new [of f "mem mc"] al'(5)
    by (simp add: zero_frame_def same_frame_page)
  moreover have "same_frame p (mem mc) (mem mc')"
    if p: "p \<in> frame_owned l (frame_allocator mc)" "p \<notin> set (pt_frames pt)" for p
  proof -
    have "p \<noteq> f" "p \<notin> set (pt_frames pt')" "frame_ok p"
      using p al'(3,4) hs(1,2) frame_owned_ok [OF fi] by auto
    then show ?thesis using pa(4) mp'(5) same_frame_trans by blast
  qed
  ultimately show ?thesis
    using that [of f hs] area' mp'(1-4) al'(3,4) hs pa(2) by simp
qed

lemma map_one_mapping:
  assumes M: "mapping l r area0 pt0 mc0 done (area, pt, mc)"
    and own: "set (pt_frames pt0) \<subseteq> frame_owned l (frame_allocator mc0)"
    and new: "vpn \<notin> set done" and vs: "\<forall>v\<in>set (vpn # done). unat v < 2 ^ 27"
    and run: "map_one vpn (area, pt, mc) = Some (area', pt', mc')"
  shows "mapping l r area0 pt0 mc0 (done @ [vpn]) (area', pt', mc')"
proof -
  from M have a: "area_range area = area_range area0" "area_type area = Framed" "area_perm area = area_perm area0"
    and root: "root_ppn pt = root_ppn pt0" and inv: "pt_inv l r (root_ppn pt) (pt_frames pt) mc"
    and df: "bt_inv (data_frames area)" "set (map fst (data_frames area)) = set done"
    and old: "\<And>v f. bt_get (data_frames area) v = Some f \<Longrightarrow>
       pt_view (mem mc) (root_ppn pt) v = Some (pte_new f (area_perm area OR PTE_V)) \<and> zero_frame f (mem mc)"
    and rest: "\<And>w. unat w < 2 ^ 27 \<Longrightarrow> w \<notin> set done \<Longrightarrow>
       pt_view (mem mc) (root_ppn pt) w = pt_view (mem mc0) (root_ppn pt0) w"
    and none0: "\<forall>v\<in>set done. pt_view (mem mc0) (root_ppn pt0) v = None"
    and same0: "\<And>p. p \<in> frame_owned l (frame_allocator mc0) \<Longrightarrow> p \<notin> set (pt_frames pt0) \<Longrightarrow> same_frame p (mem mc0) (mem mc)"
    unfolding mapping_def by auto
  from M obtain gs where gs: "pt_frames pt = pt_frames pt0 @ gs" "distinct (gs @ area_frames area)"
    "(set gs \<union> set (area_frames area)) \<inter> frame_owned l (frame_allocator mc0) = {}"
    "frame_owned l (frame_allocator mc) = frame_owned l (frame_allocator mc0) \<union> set gs \<union> set (area_frames area)"
    unfolding mapping_def by auto
  from map_one_framed [OF inv a(2) _ run] vs obtain f hs where
    area': "area' = area\<lparr>data_frames := bt_insert vpn f (data_frames area)\<rparr>"
    and r': "root_ppn pt' = root_ppn pt" "pt_inv l r (root_ppn pt) (pt_frames pt') mc'"
    and f: "f \<notin> frame_owned l (frame_allocator mc)" "zero_frame f (mem mc')"
      "pt_view (mem mc) (root_ppn pt) vpn = None"
    and hs: "pt_frames pt' = pt_frames pt @ hs" "set hs \<inter> insert f (frame_owned l (frame_allocator mc)) = {}"
    "frame_owned l (frame_allocator mc') = insert f (frame_owned l (frame_allocator mc)) \<union> set hs"
    and view: "\<And>w. unat w < 2 ^ 27 \<Longrightarrow> pt_view (mem mc') (root_ppn pt) w =
       (if w = vpn then Some (pte_new f (area_perm area OR PTE_V)) else pt_view (mem mc) (root_ppn pt) w)"
    and same: "\<And>p. p \<in> frame_owned l (frame_allocator mc) \<Longrightarrow> p \<notin> set (pt_frames pt) \<Longrightarrow> same_frame p (mem mc) (mem mc')"
    by (metis list.set_intros(1))
  have key: "vpn \<notin> set (map fst (data_frames area))" using df(2) new by blast
  have vals: "set (area_frames area') = insert f (set (area_frames area))"
    "distinct (area_frames area') \<longleftrightarrow> f \<notin> set (area_frames area) \<and> distinct (area_frames area)"
    using bt_insert_values_set [OF key] bt_insert_values_distinct [OF key] by (simp_all add: area_frames_def area')
  have new_frames: "pt_view (mem mc') (root_ppn pt') v = Some (pte_new g (area_perm area' OR PTE_V)) \<and> zero_frame g (mem mc')"
    if g: "bt_get (data_frames area') v = Some g" for v g
  proof (cases "v = vpn")
    case True
    with g view [of vpn] vs f(2) r' show ?thesis by (simp add: area' bt_get_insert)
  next
    case False
    with g have g': "bt_get (data_frames area) v = Some g" by (simp add: area' bt_get_insert)
    then have ga: "g \<in> set (area_frames area)" unfolding area_frames_def by (rule bt_get_in_values)
    have "v \<in> set done" using g' df(2) by (force simp: bt_get_def dest: map_of_SomeD)
    with vs have v: "unat v < 2 ^ 27" by simp
    have "g \<in> frame_owned l (frame_allocator mc)" "g \<notin> set (pt_frames pt)" using ga gs own by auto
    with old [OF g'] same same_frame_zero have "zero_frame g (mem mc')" by blast
    with old [OF g'] view [OF v] False r' show ?thesis by (simp add: area')
  qed
  have frames: "\<exists>gs. pt_frames pt' = pt_frames pt0 @ gs \<and> distinct (gs @ area_frames area') \<and>
       (set gs \<union> set (area_frames area')) \<inter> frame_owned l (frame_allocator mc0) = {} \<and>
       frame_owned l (frame_allocator mc') = frame_owned l (frame_allocator mc0) \<union> set gs \<union> set (area_frames area')"
    using gs hs f(1) vals r'(2) by (intro exI [of _ "gs @ hs"]) (auto simp: pt_inv_def)
  have keep: "same_frame p (mem mc0) (mem mc')"
    if p: "p \<in> frame_owned l (frame_allocator mc0)" "p \<notin> set (pt_frames pt0)" for p
  proof -
    have "p \<in> frame_owned l (frame_allocator mc)" "p \<notin> set (pt_frames pt)" using p gs by auto
    with same same0 [OF p] same_frame_trans show ?thesis by blast
  qed
  have "set (map fst (data_frames area')) = set (done @ [vpn])"
    using bt_insert_keys [of vpn f "data_frames area"] df(2) by (simp add: area')
  moreover have "pt_view (mem mc') (root_ppn pt') w = pt_view (mem mc0) (root_ppn pt0) w"
    if "unat w < 2 ^ 27" "w \<notin> set (done @ [vpn])" for w
    using that view rest r'(1) by simp
  moreover have "\<forall>v\<in>set (done @ [vpn]). pt_view (mem mc0) (root_ppn pt0) v = None"
    using none0 rest [of vpn] f(3) new vs by simp
  moreover have "bt_inv (data_frames area')" using df(1) by (simp add: area' bt_inv_insert)
  moreover have "root_ppn pt' = root_ppn pt0" "pt_inv l r (root_ppn pt') (pt_frames pt') mc'"
    using root r' by simp_all
  moreover have "area_range area' = area_range area0" "area_type area' = Framed" "area_perm area' = area_perm area0"
    using a by (simp_all add: area')
  ultimately show ?thesis
    unfolding mapping_def prod.case using new_frames frames keep by blast
qed


lemma map_area_map_framed:
  assumes inv: "pt_inv l r (root_ppn pt) (pt_frames pt) mc"
    and a: "area_type area = Framed" "data_frames area = []"
    and rng: "range_new (range_l (area_range area)) (range_r (area_range area)) = Some (area_range area)"
      "unat (range_r (area_range area)) \<le> 2 ^ 27"
    and run: "map_area_map (area, pt, mc) = Some s'"
  shows "mapping l r area pt mc (range_list (area_range area)) s'"
proof -
  have own: "set (pt_frames pt) \<subseteq> frame_owned l (frame_allocator mc)" using inv by (simp add: pt_inv_def)
  have start: "mapping l r area pt mc [] (area, pt, mc)"
    using inv a by (simp add: mapping_def bt_inv_def bt_get_def area_frames_def)
  have small: "unat v < 2 ^ 27" if "v \<in> set (range_list (area_range area))" for v
    using that range_list_set [OF rng(1)] rng(2) by simp
  show ?thesis
  proof (rule for_each_invariant [where P = "mapping l r area pt mc", OF _ start])
    show "for_each map_one (range_list (area_range area)) (area, pt, mc) = Some s'"
      using run by (simp add: map_area_map_def)
    fix ys y zs t t'
    assume split: "range_list (area_range area) = ys @ y # zs"
      and M: "mapping l r area pt mc ys t" and step: "map_one y t = Some t'"
    obtain a1 p1 m1 a2 p2 m2 where t: "t = (a1, p1, m1)" "t' = (a2, p2, m2)" by (metis surj_pair)
    have "y \<notin> set ys" using range_list_distinct [OF rng(1)] split by simp
    moreover have "\<forall>v\<in>set (y # ys). unat v < 2 ^ 27" using small split by simp
    ultimately show "mapping l r area pt mc (ys @ [y]) t'"
      using map_one_mapping [OF M [unfolded t] own _ _ step [unfolded t]] t by simp
  qed
qed

section \<open>The invariant of a user address space\<close>

definition area_mapped :: "memory \<Rightarrow> phys_page_num \<Rightarrow> map_area \<Rightarrow> bool" where
  "area_mapped m root a \<longleftrightarrow> area_type a = Framed \<and> bt_inv (data_frames a) \<and>
     range_new (range_l (area_range a)) (range_r (area_range a)) = Some (area_range a) \<and>
     unat (range_r (area_range a)) \<le> 2 ^ 27 \<and>
     set (map fst (data_frames a)) = set (range_list (area_range a)) \<and>
     (\<forall>vpn f. bt_get (data_frames a) vpn = Some f \<longrightarrow>
        pt_view m root vpn = Some (pte_new f (area_perm a OR PTE_V)))"

definition ms_frames :: "memory_set \<Rightarrow> phys_page_num list" where
  "ms_frames ms = pt_frames (ms_page_table ms) @ concat (map area_frames (ms_areas ms))"

definition ms_inv :: "usize \<Rightarrow> usize \<Rightarrow> ms_state \<Rightarrow> bool" where
  "ms_inv l r s \<longleftrightarrow> (case s of (ms, mc) \<Rightarrow>
     pt_inv l r (root_ppn (ms_page_table ms)) (pt_frames (ms_page_table ms)) mc \<and>
     distinct (ms_frames ms) \<and> set (ms_frames ms) \<subseteq> frame_owned l (frame_allocator mc) \<and>
     (\<forall>a\<in>set (ms_areas ms). area_mapped (mem mc) (root_ppn (ms_page_table ms)) a))"

abbreviation ms_root :: "memory_set \<Rightarrow> phys_page_num" where
  "ms_root ms \<equiv> root_ppn (ms_page_table ms)"

lemma area_frame_mem: "bt_get (data_frames a) v = Some f \<Longrightarrow> f \<in> set (area_frames a)"
  unfolding area_frames_def by (rule bt_get_in_values)

lemma area_frame_ms: "a \<in> set (ms_areas ms) \<Longrightarrow> f \<in> set (area_frames a) \<Longrightarrow> f \<in> set (ms_frames ms)"
  by (auto simp: ms_frames_def)

lemma data_frame_not_table:
  "ms_inv l r (ms, mc) \<Longrightarrow> a \<in> set (ms_areas ms) \<Longrightarrow> f \<in> set (area_frames a) \<Longrightarrow>
   f \<notin> set (pt_frames (ms_page_table ms))"
  by (auto simp: ms_inv_def ms_frames_def)

lemma area_mapped_get:
  assumes "area_mapped m root a" "v \<in> set (range_list (area_range a))"
  obtains f where "bt_get (data_frames a) v = Some f" "pt_view m root v = Some (pte_new f (area_perm a OR PTE_V))"
proof -
  from assms have "v \<in> set (map fst (data_frames a))" "bt_inv (data_frames a)" by (simp_all add: area_mapped_def)
  then have "bt_get (data_frames a) v \<noteq> None" using bt.keys_dom by blast
  with assms that show ?thesis by (auto simp: area_mapped_def)
qed

lemma area_mapped_vpn:
  "area_mapped m root a \<Longrightarrow> bt_get (data_frames a) v = Some f \<Longrightarrow>
   v \<in> set (range_list (area_range a)) \<and> unat v < 2 ^ 27"
proof -
  assume m: "area_mapped m root a" and g: "bt_get (data_frames a) v = Some f"
  from g have "v \<in> set (map fst (data_frames a))" by (force simp: bt_get_def dest: map_of_SomeD)
  with m have "v \<in> set (range_list (area_range a))" by (simp add: area_mapped_def)
  with m show ?thesis using range_list_set by (fastforce simp: area_mapped_def)
qed

text \<open>An address space is untouched by whatever leaves its frames alone.\<close>

lemma ms_inv_frame:
  assumes inv: "ms_inv l r (ms, mc)" and fi: "frame_inv l r (frame_allocator mc')"
    and own: "set (ms_frames ms) \<subseteq> frame_owned l (frame_allocator mc')"
    and same: "\<And>p. p \<in> set (pt_frames (ms_page_table ms)) \<Longrightarrow> same_frame p (mem mc) (mem mc')"
  shows "ms_inv l r (ms, mc')" "pt_view (mem mc') (ms_root ms) v = pt_view (mem mc) (ms_root ms) v"
proof -
  let ?F = "set (pt_frames (ms_page_table ms))"
  have t: "pt_tree (mem mc) (ms_root ms) ?F" using inv by (simp add: ms_inv_def pt_inv_def)
  show v: "pt_view (mem mc') (ms_root ms) v = pt_view (mem mc) (ms_root ms) v" for v
    by (rule pt_view_agree [OF t same])
  have "pt_tree (mem mc') (ms_root ms) ?F"
    by (rule pt_tree_agree [OF t]) (use same same_frame_slot in blast)
  with inv fi own v show "ms_inv l r (ms, mc')"
    by (simp add: ms_inv_def pt_inv_def area_mapped_def) (auto simp: ms_frames_def)
qed

section \<open>Adding an area\<close>

text \<open>What adding a framed area does: every page of it gets a cleared frame of its own that
  nobody owned, no page of it was mapped, and nothing else changes.\<close>

definition area_added :: "usize \<Rightarrow> usize \<Rightarrow> map_area \<Rightarrow> ms_state \<Rightarrow> ms_state \<Rightarrow> bool" where
  "area_added l r area s s' \<longleftrightarrow>
     (case (s, s') of ((ms, mc), (ms', mc')) \<Rightarrow>
        ms_inv l r (ms', mc') \<and> ms_root ms' = ms_root ms \<and>
        (\<exists>area'. ms_areas ms' = ms_areas ms @ [area'] \<and> area_range area' = area_range area \<and>
           area_perm area' = area_perm area \<and>
           (\<forall>v f. bt_get (data_frames area') v = Some f \<longrightarrow> zero_frame f (mem mc'))) \<and>
        (\<forall>w. unat w < 2 ^ 27 \<longrightarrow> w \<notin> set (range_list (area_range area)) \<longrightarrow>
           pt_view (mem mc') (ms_root ms) w = pt_view (mem mc) (ms_root ms) w) \<and>
        (\<forall>v\<in>set (range_list (area_range area)). pt_view (mem mc) (ms_root ms) v = None) \<and>
        set (ms_frames ms) \<subseteq> set (ms_frames ms') \<and>
        (set (ms_frames ms') - set (ms_frames ms)) \<inter> frame_owned l (frame_allocator mc) = {} \<and>
        frame_owned l (frame_allocator mc') = frame_owned l (frame_allocator mc) \<union> set (ms_frames ms') \<and>
        (\<forall>p\<in>frame_owned l (frame_allocator mc). p \<notin> set (pt_frames (ms_page_table ms)) \<longrightarrow>
           same_frame p (mem mc) (mem mc')))"

lemma ms_push_framed:
  assumes inv: "ms_inv l r (ms, mc)"
    and a: "area_type area = Framed" "data_frames area = []"
    and rng: "range_new (range_l (area_range area)) (range_r (area_range area)) = Some (area_range area)"
      "unat (range_r (area_range area)) \<le> 2 ^ 27"
    and run: "ms_push area None (ms, mc) = Some (ms', mc')"
  shows "area_added l r area (ms, mc) (ms', mc')"
proof -
  let ?R = "range_list (area_range area)"
  from run obtain area' pt' where mp: "map_area_map (area, ms_page_table ms, mc) = Some (area', pt', mc')"
    and ms': "ms' = \<lparr>ms_page_table = pt', ms_areas = ms_areas ms @ [area']\<rparr>"
    by (auto simp: ms_push_def split: bind_splits)
  have pinv: "pt_inv l r (ms_root ms) (pt_frames (ms_page_table ms)) mc" using inv by (simp add: ms_inv_def)
  have M: "mapping l r area (ms_page_table ms) mc ?R (area', pt', mc')"
    by (rule map_area_map_framed [OF pinv a rng mp])
  then have a': "area_range area' = area_range area" "area_type area' = Framed" "area_perm area' = area_perm area"
    and root: "root_ppn pt' = ms_root ms" and pinv': "pt_inv l r (root_ppn pt') (pt_frames pt') mc'"
    and df: "bt_inv (data_frames area')" "set (map fst (data_frames area')) = set ?R"
    and pages: "\<And>v f. bt_get (data_frames area') v = Some f \<Longrightarrow>
       pt_view (mem mc') (root_ppn pt') v = Some (pte_new f (area_perm area' OR PTE_V)) \<and> zero_frame f (mem mc')"
    and rest: "\<And>w. unat w < 2 ^ 27 \<Longrightarrow> w \<notin> set ?R \<Longrightarrow>
       pt_view (mem mc') (root_ppn pt') w = pt_view (mem mc) (ms_root ms) w"
    and none: "\<forall>v\<in>set ?R. pt_view (mem mc) (ms_root ms) v = None"
    and same: "\<forall>p\<in>frame_owned l (frame_allocator mc). p \<notin> set (pt_frames (ms_page_table ms)) \<longrightarrow>
       same_frame p (mem mc) (mem mc')"
    unfolding mapping_def by auto
  from M obtain gs where gs: "pt_frames pt' = pt_frames (ms_page_table ms) @ gs" "distinct (gs @ area_frames area')"
    "(set gs \<union> set (area_frames area')) \<inter> frame_owned l (frame_allocator mc) = {}"
    "frame_owned l (frame_allocator mc') = frame_owned l (frame_allocator mc) \<union> set gs \<union> set (area_frames area')"
    unfolding mapping_def by auto
  have fr: "set (ms_frames ms') = set (ms_frames ms) \<union> set gs \<union> set (area_frames area')"
    by (auto simp: ms_frames_def ms' gs(1))
  have own: "set (ms_frames ms) \<subseteq> frame_owned l (frame_allocator mc)" "distinct (ms_frames ms)"
    using inv by (simp_all add: ms_inv_def)
  have "distinct (ms_frames ms')"
    using own gs(2,3) by (auto simp: ms_frames_def ms' gs(1))
  moreover have "area_mapped (mem mc') (root_ppn pt') b" if b: "b \<in> set (ms_areas ms)" for b
  proof -
    have bm: "area_mapped (mem mc) (ms_root ms) b" using inv b by (simp add: ms_inv_def)
    have "pt_view (mem mc') (root_ppn pt') v = pt_view (mem mc) (ms_root ms) v"
      if g: "bt_get (data_frames b) v = Some f" for v f
    proof -
      have "pt_view (mem mc) (ms_root ms) v \<noteq> None" using g bm by (simp add: area_mapped_def)
      then have "v \<notin> set ?R" using none by auto
      with rest area_mapped_vpn [OF bm g] show ?thesis by blast
    qed
    with bm show ?thesis by (simp add: area_mapped_def)
  qed
  moreover have "area_mapped (mem mc') (root_ppn pt') area'"
    using a' df pages rng by (simp add: area_mapped_def)
  ultimately have "ms_inv l r (ms', mc')"
    using pinv' own(1) fr gs(4) by (auto simp: ms_inv_def ms')
  moreover have "\<forall>v f. bt_get (data_frames area') v = Some f \<longrightarrow> zero_frame f (mem mc')" using pages by blast
  ultimately show ?thesis
    using a' root rest none fr own gs(3,4) same
    by (simp add: area_added_def ms') blast
qed

lemma insert_framed_area_added:
  assumes "ms_inv l r (ms, mc)" "unat start_va \<le> unat end_va" "unat end_va < 2 ^ 39"
    and "insert_framed_area start_va end_va perm (ms, mc) = Some (ms', mc')"
  shows "\<exists>area. area_range area = \<lparr>range_l = va_floor start_va, range_r = va_ceil end_va\<rparr> \<and> area_perm area = perm \<and>
     range_new (va_floor start_va) (va_ceil end_va) = Some (area_range area) \<and>
     area_added l r area (ms, mc) (ms', mc')"
proof -
  from assms(4) obtain area where area: "map_area_new start_va end_va Framed perm = Some area"
    "ms_push area None (ms, mc) = Some (ms', mc')"
    by (auto simp: insert_framed_area_def split: bind_splits)
  then have a: "area = \<lparr>area_range = \<lparr>range_l = va_floor start_va, range_r = va_ceil end_va\<rparr>,
      data_frames = [], area_type = Framed, area_perm = perm\<rparr>" "va_floor start_va \<le> va_ceil end_va"
    by (auto simp: map_area_new_def range_new_def split: bind_splits if_splits)
  have "unat (va_ceil end_va) \<le> 2 ^ 27" using assms(3) by (simp add: unat_va_ceil_sv39)
  from ms_push_framed [OF assms(1) _ _ _ _ area(2)] a this show ?thesis
    by (intro exI [of _ area]) (simp add: range_new_def)
qed

section \<open>Forking an address space\<close>

lemma same_frame_store_page:
  assumes "frame_ok p" "frame_ok q" "p \<noteq> q" "length bs \<le> 4096"
  shows "same_frame q m (store_bytes m (pa_from_ppn p) bs)"
  unfolding same_frame_def
proof (intro allI impI)
  fix off n
  assume "unat (off :: usize) + n \<le> 4096"
  with assms frames_apart [of p q 0 bs off n m]
  show "load_bytes (store_bytes m (pa_from_ppn p) bs) (pa_from_ppn q + off) n = load_bytes m (pa_from_ppn q + off) n"
    by simp
qed

lemma bt_values_inj:
  assumes "distinct (map snd m)" "bt_get m v = Some g" "bt_get m w = Some g"
  shows "v = w"
proof -
  from assms(2,3) have "(v, g) \<in> set m" "(w, g) \<in> set m" by (auto simp: bt_get_def dest: map_of_SomeD)
  with assms(1) inj_onD [of snd "set m" "(v, g)" "(w, g)"] show ?thesis by (simp add: distinct_map)
qed

lemma view_ppn:
  "pt_view m (ms_root ms) v = Some (pte_new f fl) \<Longrightarrow> frame_ok f \<Longrightarrow>
   \<exists>e. ms_translate m ms v = Some e \<and> pte_ppn e = f"
  using pt_translate_view [of m "ms_page_table ms" v] by (auto simp: ms_translate_def pte_ppn_new frame_ok_def)

lemma ms_frame_ok: "ms_inv l r (ms, mc) \<Longrightarrow> f \<in> set (ms_frames ms) \<Longrightarrow> frame_ok f"
  by (rule frame_owned_ok [of l r "frame_allocator mc"]) (auto simp: ms_inv_def pt_inv_def)

text \<open>The pages \<open>vs\<close> of the area \<open>b\<close> of the child \<open>ms\<close> hold what the pages of the parent's
  area \<open>a\<close> held in \<open>m0\<close>.\<close>

definition pages_copied :: "map_area \<Rightarrow> memory \<Rightarrow> map_area \<Rightarrow> virt_page_num list \<Rightarrow> memory \<Rightarrow> bool" where
  "pages_copied a m0 b vs m \<longleftrightarrow>
     (\<forall>v\<in>set vs. \<exists>f g. bt_get (data_frames a) v = Some f \<and> bt_get (data_frames b) v = Some g \<and>
        load_bytes m (pa_from_ppn g) 4096 = load_bytes m0 (pa_from_ppn f) 4096)"

text \<open>The parent's frames, all owned in \<open>mc0\<close>, stay as they were.\<close>

definition parent_kept :: "usize \<Rightarrow> memory_set \<Rightarrow> machine \<Rightarrow> machine \<Rightarrow> bool" where
  "parent_kept l parent mc0 mc \<longleftrightarrow>
     (\<forall>p\<in>frame_owned l (frame_allocator mc0). same_frame p (mem mc0) (mem mc)) \<and>
     frame_owned l (frame_allocator mc0) \<subseteq> frame_owned l (frame_allocator mc)"

lemma copy_page_eval:
  assumes pinv: "ms_inv l r (parent, mc0)" and a: "a \<in> set (ms_areas parent)"
    and kept: "parent_kept l parent mc0 mc"
    and inv: "ms_inv l r (ms, mc)" and b: "b \<in> set (ms_areas ms)" "area_range b = area_range a"
    and fresh: "set (ms_frames ms) \<inter> frame_owned l (frame_allocator mc0) = {}"
    and v: "v \<in> set (range_list (area_range a))"
  obtains f g where "bt_get (data_frames a) v = Some f" "bt_get (data_frames b) v = Some g" "frame_ok g"
    "load_bytes (mem mc) (pa_from_ppn f) 4096 = load_bytes (mem mc0) (pa_from_ppn f) 4096"
    "copy_page parent v (ms, mc) =
       Some (ms, mc\<lparr>mem := store_bytes (mem mc) (pa_from_ppn g) (load_bytes (mem mc) (pa_from_ppn f) 4096)\<rparr>)"
proof -
  have fi: "frame_inv l r (frame_allocator mc)" using inv by (simp add: ms_inv_def pt_inv_def)
  have am: "area_mapped (mem mc0) (ms_root parent) a" using pinv a by (simp add: ms_inv_def)
  have bm: "area_mapped (mem mc) (ms_root ms) b" using inv b by (simp add: ms_inv_def)
  obtain f where f: "bt_get (data_frames a) v = Some f" "pt_view (mem mc0) (ms_root parent) v = Some (pte_new f (area_perm a OR PTE_V))"
    by (rule area_mapped_get [OF am v])
  obtain g where g: "bt_get (data_frames b) v = Some g" "pt_view (mem mc) (ms_root ms) v = Some (pte_new g (area_perm b OR PTE_V))"
    using area_mapped_get [OF bm] v b(2) by metis
  have ff: "f \<in> set (ms_frames parent)" by (rule area_frame_ms [OF a area_frame_mem [OF f(1)]])
  have gg: "g \<in> set (ms_frames ms)" by (rule area_frame_ms [OF b(1) area_frame_mem [OF g(1)]])
  have own: "set (ms_frames parent) \<subseteq> frame_owned l (frame_allocator mc0)" using pinv by (simp add: ms_inv_def)
  have oks: "frame_ok f" "frame_ok g" using ms_frame_ok [OF pinv ff] ms_frame_ok [OF inv gg] by blast+
  have "pt_view (mem mc) (ms_root parent) v = pt_view (mem mc0) (ms_root parent) v"
  proof (rule ms_inv_frame(2) [OF pinv fi])
    show "set (ms_frames parent) \<subseteq> frame_owned l (frame_allocator mc)" using kept own by (auto simp: parent_kept_def)
    show "same_frame p (mem mc0) (mem mc)" if "p \<in> set (pt_frames (ms_page_table parent))" for p
      using that own kept by (auto simp: parent_kept_def ms_frames_def)
  qed
  with f(2) view_ppn oks(1) obtain e where e: "ms_translate (mem mc) parent v = Some e" "pte_ppn e = f" by metis
  from g(2) view_ppn oks(2) obtain d where d: "ms_translate (mem mc) ms v = Some d" "pte_ppn d = g" by metis
  have "load_bytes (mem mc) (pa_from_ppn f) 4096 = load_bytes (mem mc0) (pa_from_ppn f) 4096"
    using kept ff own by (intro same_frame_page) (auto simp: parent_kept_def)
  then show ?thesis using that f(1) g(1) oks(2) e d by (simp add: copy_page_def)
qed

lemma copy_page_step:
  assumes "ms_inv l r (parent, mc0)" "a \<in> set (ms_areas parent)" "parent_kept l parent mc0 mc"
    "ms_inv l r (ms, mc)" "b \<in> set (ms_areas ms)" "area_range b = area_range a"
    "set (ms_frames ms) \<inter> frame_owned l (frame_allocator mc0) = {}" "v \<in> set (range_list (area_range a))"
    and run: "copy_page parent v (ms, mc) = Some (ms', mc')"
  shows "ms' = ms" "frame_allocator mc' = frame_allocator mc" "pages_copied a (mem mc0) b [v] (mem mc')"
    "\<And>p g. frame_ok p \<Longrightarrow> bt_get (data_frames b) v = Some g \<Longrightarrow> p \<noteq> g \<Longrightarrow> same_frame p (mem mc) (mem mc')"
proof -
  obtain f g where fg: "bt_get (data_frames a) v = Some f" "bt_get (data_frames b) v = Some g" "frame_ok g"
    "load_bytes (mem mc) (pa_from_ppn f) 4096 = load_bytes (mem mc0) (pa_from_ppn f) 4096"
    and ev: "copy_page parent v (ms, mc) =
       Some (ms, mc\<lparr>mem := store_bytes (mem mc) (pa_from_ppn g) (load_bytes (mem mc) (pa_from_ppn f) 4096)\<rparr>)"
    by (rule copy_page_eval [OF assms(1-8)])
  from run ev have mc': "ms' = ms" "mc' = mc\<lparr>mem := store_bytes (mem mc) (pa_from_ppn g) (load_bytes (mem mc) (pa_from_ppn f) 4096)\<rparr>"
    by simp_all
  then show "ms' = ms" "frame_allocator mc' = frame_allocator mc" by simp_all
  have "load_bytes (mem mc') (pa_from_ppn g) 4096 = load_bytes (mem mc) (pa_from_ppn f) 4096"
    using load_store_same [of "load_bytes (mem mc) (pa_from_ppn f) 4096" "mem mc" "pa_from_ppn g"] by (simp add: mc')
  then show "pages_copied a (mem mc0) b [v] (mem mc')" using fg by (simp add: pages_copied_def)
  show "same_frame p (mem mc) (mem mc')" if "frame_ok p" "bt_get (data_frames b) v = Some g'" "p \<noteq> g'" for p g'
    using that fg by (simp add: mc' same_frame_store_page)
qed

lemma area_frames_distinct:
  "ms_inv l r (ms, mc) \<Longrightarrow> b \<in> set (ms_areas ms) \<Longrightarrow> distinct (area_frames b)"
  by (auto simp: ms_inv_def ms_frames_def distinct_concat_iff)

text \<open>Copying all pages of one area; \<open>mc1\<close> is the machine before the first of them.\<close>

definition copying :: "usize \<Rightarrow> usize \<Rightarrow> memory_set \<Rightarrow> machine \<Rightarrow> map_area \<Rightarrow> memory_set \<Rightarrow> machine \<Rightarrow> map_area \<Rightarrow>
    virt_page_num list \<Rightarrow> ms_state \<Rightarrow> bool" where
  "copying l r parent mc0 a ms mc1 b vs s \<longleftrightarrow> (case s of (ms', mc) \<Rightarrow>
     ms' = ms \<and> frame_allocator mc = frame_allocator mc1 \<and> ms_inv l r (ms, mc) \<and>
     parent_kept l parent mc0 mc \<and> pages_copied a (mem mc0) b vs (mem mc) \<and>
     (\<forall>w. pt_view (mem mc) (ms_root ms) w = pt_view (mem mc1) (ms_root ms) w) \<and>
     (\<forall>p. frame_ok p \<longrightarrow> p \<notin> set (area_frames b) \<longrightarrow> same_frame p (mem mc1) (mem mc)))"

lemma copying_step:
  assumes pinv: "ms_inv l r (parent, mc0)" and a: "a \<in> set (ms_areas parent)"
    and b: "b \<in> set (ms_areas ms)" "area_range b = area_range a"
    and fresh: "set (ms_frames ms) \<inter> frame_owned l (frame_allocator mc0) = {}"
    and C: "copying l r parent mc0 a ms mc1 b vs s"
    and v: "v \<in> set (range_list (area_range a))" "v \<notin> set vs"
    and run: "copy_page parent v s = Some s'"
  shows "copying l r parent mc0 a ms mc1 b (vs @ [v]) s'"
proof -
  obtain mc ms' mc' where s: "s = (ms, mc)" "s' = (ms', mc')" using C by (cases s, cases s') (auto simp: copying_def)
  from C have inv: "ms_inv l r (ms, mc)" and kept: "parent_kept l parent mc0 mc"
    and al: "frame_allocator mc = frame_allocator mc1" and cp: "pages_copied a (mem mc0) b vs (mem mc)"
    and vw: "\<And>w. pt_view (mem mc) (ms_root ms) w = pt_view (mem mc1) (ms_root ms) w"
    and same1: "\<And>p. frame_ok p \<Longrightarrow> p \<notin> set (area_frames b) \<Longrightarrow> same_frame p (mem mc1) (mem mc)"
    by (simp_all add: copying_def s)
  note st = copy_page_step [OF pinv a kept inv b fresh v(1) run [unfolded s]]
  obtain g where g: "bt_get (data_frames b) v = Some g" using st(3) by (auto simp: pages_copied_def)
  have gb: "g \<in> set (area_frames b)" by (rule area_frame_mem [OF g])
  have gm: "g \<in> set (ms_frames ms)" by (rule area_frame_ms [OF b(1) gb])
  have pinv': "frame_inv l r (frame_allocator mc)" "frame_inv l r (frame_allocator mc0)"
    using inv pinv by (simp_all add: ms_inv_def pt_inv_def)
  have "same_frame p (mem mc) (mem mc')" if "p \<in> frame_owned l (frame_allocator mc0)" for p
    using st(4) [OF frame_owned_ok [OF pinv'(2) that] g] that gm fresh by blast
  then have kept': "parent_kept l parent mc0 mc'"
    using kept same_frame_trans unfolding parent_kept_def st(2) by blast
  have tab: "same_frame p (mem mc) (mem mc')" if "p \<in> set (pt_frames (ms_page_table ms))" for p
    using st(4) [OF _ g] ms_frame_ok [OF inv] that data_frame_not_table [OF inv b(1) gb] by (auto simp: ms_frames_def)
  have "frame_inv l r (frame_allocator mc')" "set (ms_frames ms) \<subseteq> frame_owned l (frame_allocator mc')"
    using inv pinv' by (simp_all add: st(2) ms_inv_def)
  note inv' = ms_inv_frame [OF inv this tab]
  have "pages_copied a (mem mc0) b vs (mem mc')"
    unfolding pages_copied_def
  proof
    fix w
    assume w: "w \<in> set vs"
    with cp obtain f h where fh: "bt_get (data_frames a) w = Some f" "bt_get (data_frames b) w = Some h"
      "load_bytes (mem mc) (pa_from_ppn h) 4096 = load_bytes (mem mc0) (pa_from_ppn f) 4096"
      by (auto simp: pages_copied_def)
    have "h \<noteq> g"
      using bt_values_inj [of "data_frames b" w g v] area_frames_distinct [OF inv b(1)] fh(2) g w v(2)
      by (auto simp: area_frames_def)
    moreover have "frame_ok h" by (rule ms_frame_ok [OF inv area_frame_ms [OF b(1) area_frame_mem [OF fh(2)]]])
    ultimately have "load_bytes (mem mc') (pa_from_ppn h) 4096 = load_bytes (mem mc) (pa_from_ppn h) 4096"
      using st(4) [OF _ g] by (intro same_frame_page) blast
    with fh show "\<exists>f g. bt_get (data_frames a) w = Some f \<and> bt_get (data_frames b) w = Some g \<and>
      load_bytes (mem mc') (pa_from_ppn g) 4096 = load_bytes (mem mc0) (pa_from_ppn f) 4096" by auto
  qed
  with st(3) have "pages_copied a (mem mc0) b (vs @ [v]) (mem mc')" by (auto simp: pages_copied_def)
  moreover have "same_frame p (mem mc1) (mem mc')" if "frame_ok p" "p \<notin> set (area_frames b)" for p
    using same1 [OF that] st(4) [OF that(1) g] gb that(2) same_frame_trans by blast
  ultimately show ?thesis using inv' kept' st(1,2) al vw by (simp add: copying_def s)
qed


definition area_copied :: "memory \<Rightarrow> memory \<Rightarrow> map_area \<Rightarrow> map_area \<Rightarrow> bool" where
  "area_copied m0 m a b \<longleftrightarrow> area_range b = area_range a \<and> area_perm b = area_perm a \<and>
     pages_copied a m0 b (range_list (area_range a)) m"

definition forking :: "usize \<Rightarrow> usize \<Rightarrow> memory_set \<Rightarrow> machine \<Rightarrow> map_area list \<Rightarrow> ms_state \<Rightarrow> bool" where
  "forking l r parent mc0 done s \<longleftrightarrow> (case s of (ms, mc) \<Rightarrow>
     ms_inv l r (ms, mc) \<and> set (ms_frames ms) \<inter> frame_owned l (frame_allocator mc0) = {} \<and>
     parent_kept l parent mc0 mc \<and> list_all2 (area_copied (mem mc0) (mem mc)) done (ms_areas ms) \<and>
     (\<forall>w. unat w < 2 ^ 27 \<longrightarrow> w \<noteq> 0x7FFFFFF \<longrightarrow> (\<forall>a\<in>set done. w \<notin> set (range_list (area_range a))) \<longrightarrow>
        pt_view (mem mc) (ms_root ms) w = None))"

lemma area_copied_same:
  assumes "area_copied m0 m a b" "\<And>g. g \<in> set (area_frames b) \<Longrightarrow> same_frame g m m'"
  shows "area_copied m0 m' a b"
proof -
  have "load_bytes m' (pa_from_ppn g) 4096 = load_bytes m (pa_from_ppn g) 4096"
    if "bt_get (data_frames b) v = Some g" for v g
    using assms(2) [OF area_frame_mem [OF that]] by (rule same_frame_page)
  with assms(1) show ?thesis by (fastforce simp: area_copied_def pages_copied_def)
qed

definition empty_copy :: "map_area \<Rightarrow> map_area" where
  "empty_copy a = \<lparr>area_range = area_range a, data_frames = [], area_type = Framed, area_perm = area_perm a\<rparr>"

lemma map_area_from_another_framed:
  "area_mapped m root a \<Longrightarrow> map_area_from_another a = Some (empty_copy a)"
  by (simp add: map_area_from_another_def area_mapped_def empty_copy_def)

lemma empty_copy_pushed:
  assumes "ms_inv l r (ms, mc)" "area_mapped m root a" "ms_push (empty_copy a) None (ms, mc) = Some (ms1, mc1)"
  shows "area_added l r (empty_copy a) (ms, mc) (ms1, mc1)"
  by (rule ms_push_framed [OF assms(1) _ _ _ _ assms(3)])
    (use assms(2) in \<open>simp_all add: empty_copy_def area_mapped_def\<close>)

text \<open>The new area of the child, before its pages are copied.\<close>

lemma forking_pushed:
  assumes F: "forking l r parent mc0 done (ms, mc)" and A: "area_added l r (empty_copy a) (ms, mc) (ms1, mc1)"
  obtains b where "ms_areas ms1 = ms_areas ms @ [b]" "area_range b = area_range a" "area_perm b = area_perm a"
    "set (ms_frames ms1) \<inter> frame_owned l (frame_allocator mc0) = {}"
    "copying l r parent mc0 a ms1 mc1 b [] (ms1, mc1)"
proof -
  from F have kept: "parent_kept l parent mc0 mc"
    and fresh: "set (ms_frames ms) \<inter> frame_owned l (frame_allocator mc0) = {}" by (simp_all add: forking_def)
  from A obtain b where b: "ms_areas ms1 = ms_areas ms @ [b]" "area_range b = area_range a" "area_perm b = area_perm a"
    and inv1: "ms_inv l r (ms1, mc1)"
    and fr: "(set (ms_frames ms1) - set (ms_frames ms)) \<inter> frame_owned l (frame_allocator mc) = {}"
      "frame_owned l (frame_allocator mc1) = frame_owned l (frame_allocator mc) \<union> set (ms_frames ms1)"
    and same: "\<And>p. p \<in> frame_owned l (frame_allocator mc) \<Longrightarrow> p \<notin> set (pt_frames (ms_page_table ms)) \<Longrightarrow>
       same_frame p (mem mc) (mem mc1)"
    by (auto simp: area_added_def empty_copy_def)
  have own0: "frame_owned l (frame_allocator mc0) \<subseteq> frame_owned l (frame_allocator mc)"
    using kept by (simp add: parent_kept_def)
  have "same_frame p (mem mc) (mem mc1)" if "p \<in> frame_owned l (frame_allocator mc0)" for p
    using that own0 fresh by (intro same) (auto simp: ms_frames_def)
  then have "parent_kept l parent mc0 mc1"
    using kept fr(2) same_frame_trans unfolding parent_kept_def by blast
  with inv1 have "copying l r parent mc0 a ms1 mc1 b [] (ms1, mc1)" by (simp add: copying_def pages_copied_def)
  moreover have "set (ms_frames ms1) \<inter> frame_owned l (frame_allocator mc0) = {}" using fresh fr(1) own0 by blast
  ultimately show ?thesis using that b by blast
qed

lemma copy_area_step:
  assumes pinv: "ms_inv l r (parent, mc0)" and a: "a \<in> set (ms_areas parent)"
    and F: "forking l r parent mc0 done s" and run: "copy_area parent a s = Some s'"
  shows "forking l r parent mc0 (done @ [a]) s'"
proof -
  obtain ms mc where s: "s = (ms, mc)" by (cases s)
  from F have inv: "ms_inv l r (ms, mc)"
    and cp: "list_all2 (area_copied (mem mc0) (mem mc)) done (ms_areas ms)"
    and free: "\<And>w. unat w < 2 ^ 27 \<Longrightarrow> w \<noteq> 0x7FFFFFF \<Longrightarrow> \<forall>a\<in>set done. w \<notin> set (range_list (area_range a)) \<Longrightarrow>
       pt_view (mem mc) (ms_root ms) w = None" by (simp_all add: forking_def s)
  have am: "area_mapped (mem mc0) (ms_root parent) a" using pinv a by (simp add: ms_inv_def)
  then have rng: "range_new (range_l (area_range a)) (range_r (area_range a)) = Some (area_range a)"
    by (simp add: area_mapped_def)
  from run obtain ms1 mc1 where push: "ms_push (empty_copy a) None (ms, mc) = Some (ms1, mc1)"
    and loop: "for_each (copy_page parent) (range_list (area_range a)) (ms1, mc1) = Some s'"
    by (auto simp: copy_area_def map_area_from_another_framed [OF am] s split: bind_splits)
  have A: "area_added l r (empty_copy a) (ms, mc) (ms1, mc1)" by (rule empty_copy_pushed [OF inv am push])
  then have inv1: "ms_inv l r (ms1, mc1)" "ms_root ms1 = ms_root ms"
    and out: "\<And>w. unat w < 2 ^ 27 \<Longrightarrow> w \<notin> set (range_list (area_range a)) \<Longrightarrow>
       pt_view (mem mc1) (ms_root ms) w = pt_view (mem mc) (ms_root ms) w"
    and same: "\<And>p. p \<in> frame_owned l (frame_allocator mc) \<Longrightarrow> p \<notin> set (pt_frames (ms_page_table ms)) \<Longrightarrow>
       same_frame p (mem mc) (mem mc1)"
    by (auto simp: area_added_def empty_copy_def)
  obtain b where b: "ms_areas ms1 = ms_areas ms @ [b]" "area_range b = area_range a" "area_perm b = area_perm a"
    and fresh1: "set (ms_frames ms1) \<inter> frame_owned l (frame_allocator mc0) = {}"
    and C0: "copying l r parent mc0 a ms1 mc1 b [] (ms1, mc1)"
    by (rule forking_pushed [OF F [unfolded s] A])
  have bm: "b \<in> set (ms_areas ms1)" by (simp add: b(1))
  have "copying l r parent mc0 a ms1 mc1 b (range_list (area_range a)) s'"
  proof (rule for_each_invariant [where P = "copying l r parent mc0 a ms1 mc1 b", OF loop C0])
    fix ys y zs t t'
    assume split: "range_list (area_range a) = ys @ y # zs" and C: "copying l r parent mc0 a ms1 mc1 b ys t"
      and st: "copy_page parent y t = Some t'"
    have "y \<notin> set ys" using range_list_distinct [OF rng(1)] split by simp
    with split show "copying l r parent mc0 a ms1 mc1 b (ys @ [y]) t'"
      by (intro copying_step [OF pinv a bm b(2) fresh1 C _ _ st]) simp_all
  qed
  then obtain mc2 where s': "s' = (ms1, mc2)" and inv2: "ms_inv l r (ms1, mc2)" "parent_kept l parent mc0 mc2"
    and cpa: "pages_copied a (mem mc0) b (range_list (area_range a)) (mem mc2)"
    and view2: "\<And>w. pt_view (mem mc2) (ms_root ms1) w = pt_view (mem mc1) (ms_root ms1) w"
    and same2: "\<And>p. frame_ok p \<Longrightarrow> p \<notin> set (area_frames b) \<Longrightarrow> same_frame p (mem mc1) (mem mc2)"
    by (cases s') (auto simp: copying_def)
  have more: "area_copied (mem mc0) (mem mc2) x y" if xy: "area_copied (mem mc0) (mem mc) x y" "y \<in> set (ms_areas ms)" for x y
  proof (rule area_copied_same [OF xy(1)])
    fix g
    assume g: "g \<in> set (area_frames y)"
    have gm: "g \<in> set (ms_frames ms)" by (rule area_frame_ms [OF xy(2) g])
    have "g \<in> frame_owned l (frame_allocator mc)" using gm inv by (auto simp: ms_inv_def)
    then have "same_frame g (mem mc) (mem mc1)" by (rule same [OF _ data_frame_not_table [OF inv xy(2) g]])
    moreover have "g \<notin> set (area_frames b)"
      using inv1(1) g xy(2) by (auto simp: ms_inv_def ms_frames_def b(1))
    then have "same_frame g (mem mc1) (mem mc2)" using same2 ms_frame_ok [OF inv gm] by blast
    ultimately show "same_frame g (mem mc) (mem mc2)" by (rule same_frame_trans)
  qed
  have "list_all2 (area_copied (mem mc0) (mem mc2)) done (ms_areas ms)"
    by (rule list.rel_mono_strong [OF cp]) (rule more)
  moreover have "pt_view (mem mc2) (ms_root ms1) w = None"
    if "unat w < 2 ^ 27" "w \<noteq> 0x7FFFFFF" "\<forall>x\<in>set (done @ [a]). w \<notin> set (range_list (area_range x))" for w
    using view2 [of w] out [OF that(1)] free [OF that(1,2)] that(3) inv1(2) by simp
  ultimately show ?thesis using inv2 fresh1 cpa b
    by (simp add: forking_def s' area_copied_def list_all2_appendI)
qed

lemma new_bare_ok:
  assumes "frame_inv l r (frame_allocator mc)" "memory_set_new_bare mc = Some (ms, mc')"
  shows "ms_inv l r (ms, mc')" "ms_areas ms = []" "pt_view (mem mc') (ms_root ms) v = None"
    "set (ms_frames ms) \<inter> frame_owned l (frame_allocator mc) = {}"
    "frame_owned l (frame_allocator mc') = frame_owned l (frame_allocator mc) \<union> set (ms_frames ms)"
    "p \<in> frame_owned l (frame_allocator mc) \<Longrightarrow> same_frame p (mem mc) (mem mc')"
proof -
  from assms(2) obtain pt where pt: "page_table_new mc = Some (pt, mc')" and ms: "ms = \<lparr>ms_page_table = pt, ms_areas = []\<rparr>"
    by (auto simp: memory_set_new_bare_def split: bind_splits)
  note n = page_table_new_ok [OF assms(1) pt]
  show "ms_areas ms = []" "pt_view (mem mc') (ms_root ms) v = None" using n(2) by (simp_all add: ms)
  show "set (ms_frames ms) \<inter> frame_owned l (frame_allocator mc) = {}"
    "frame_owned l (frame_allocator mc') = frame_owned l (frame_allocator mc) \<union> set (ms_frames ms)"
    using n(3-5) by (auto simp: ms ms_frames_def)
  show "ms_inv l r (ms, mc')" using n by (simp add: ms ms_inv_def ms_frames_def)
  show "same_frame p (mem mc) (mem mc')" if "p \<in> frame_owned l (frame_allocator mc)"
    using n(4) that by (intro n(6) frame_owned_ok [OF assms(1)]) auto
qed

lemma trampoline_vpn: "vpn_from_va (va_from_usize TRAMPOLINE) = Some 0x7FFFFFF"
proof -
  have u: "unat (va_from_usize TRAMPOLINE) = 0x7FFFFFF000"
    by (simp add: addr_nat TRAMPOLINE_def PAGE_SIZE_def)
  then have "va_page_offset (va_from_usize TRAMPOLINE) = 0" "va_floor (va_from_usize TRAMPOLINE) = 0x7FFFFFF"
    by (simp_all add: word_unat_eq_iff unat_va_page_offset unat_va_floor)
  then show ?thesis by (simp add: vpn_from_va_def)
qed

lemma map_trampoline_ok:
  assumes inv: "ms_inv l r (ms, mc)" and na: "ms_areas ms = []"
    and run: "map_trampoline st (ms, mc) = Some (ms', mc')"
  shows "ms_inv l r (ms', mc')" "ms_areas ms' = []" "ms_root ms' = ms_root ms"
    "unat w < 2 ^ 27 \<Longrightarrow> w \<noteq> 0x7FFFFFF \<Longrightarrow> pt_view (mem mc') (ms_root ms) w = pt_view (mem mc) (ms_root ms) w"
    "set (ms_frames ms) \<subseteq> set (ms_frames ms')"
    "(set (ms_frames ms') - set (ms_frames ms)) \<inter> frame_owned l (frame_allocator mc) = {}"
    "frame_owned l (frame_allocator mc') = frame_owned l (frame_allocator mc) \<union> set (ms_frames ms')"
    "p \<in> frame_owned l (frame_allocator mc) \<Longrightarrow> p \<notin> set (ms_frames ms) \<Longrightarrow> same_frame p (mem mc) (mem mc')"
proof -
  from run obtain ppn pt' where mp: "pt_map 0x7FFFFFF ppn (PTE_R OR PTE_X) (ms_page_table ms, mc) = Some (pt', mc')"
    and ms': "ms' = ms\<lparr>ms_page_table := pt'\<rparr>"
    by (auto simp: map_trampoline_def trampoline_vpn split: bind_splits)
  have pinv: "pt_inv l r (ms_root ms) (pt_frames (ms_page_table ms)) mc" using inv by (simp add: ms_inv_def)
  note m = pt_map_ok [OF pinv _ mp, simplified]
  from m(6) obtain gs where gs: "pt_frames pt' = pt_frames (ms_page_table ms) @ gs"
    "set gs \<inter> frame_owned l (frame_allocator mc) = {}"
    "frame_owned l (frame_allocator mc') = frame_owned l (frame_allocator mc) \<union> set gs" by blast
  have own: "set (ms_frames ms) \<subseteq> frame_owned l (frame_allocator mc)" using inv by (simp add: ms_inv_def)
  have fr: "ms_frames ms = pt_frames (ms_page_table ms)" "ms_frames ms' = pt_frames pt'"
    using na by (simp_all add: ms_frames_def ms')
  show "ms_areas ms' = []" "ms_root ms' = ms_root ms" using na m(1) by (simp_all add: ms')
  show "ms_inv l r (ms', mc')" using m(1,2) na by (simp add: ms_inv_def ms' ms_frames_def pt_inv_def)
  show "pt_view (mem mc') (ms_root ms) w = pt_view (mem mc) (ms_root ms) w" if "unat w < 2 ^ 27" "w \<noteq> 0x7FFFFFF"
    using m(4) [of w] that by simp
  show "set (ms_frames ms) \<subseteq> set (ms_frames ms')"
    "(set (ms_frames ms') - set (ms_frames ms)) \<inter> frame_owned l (frame_allocator mc) = {}"
    "frame_owned l (frame_allocator mc') = frame_owned l (frame_allocator mc) \<union> set (ms_frames ms')"
    using gs own by (auto simp: fr)
  show "same_frame p (mem mc) (mem mc')" if "p \<in> frame_owned l (frame_allocator mc)" "p \<notin> set (ms_frames ms)"
    using that gs frame_owned_ok [of l r "frame_allocator mc" p] pinv
    by (intro m(5)) (auto simp: fr pt_inv_def)
qed

lemma forking_start:
  assumes pinv: "ms_inv l r (parent, mc0)"
    and "memory_set_new_bare mc0 = Some s1" "map_trampoline st s1 = Some s2"
  shows "forking l r parent mc0 [] s2"
proof -
  obtain ms1 mc1 ms2 mc2 where s: "s1 = (ms1, mc1)" "s2 = (ms2, mc2)" by (metis surj_pair)
  have fi: "frame_inv l r (frame_allocator mc0)" using pinv by (simp add: ms_inv_def pt_inv_def)
  note n = new_bare_ok [OF fi assms(2) [unfolded s]]
  note t = map_trampoline_ok [OF n(1,2) assms(3) [unfolded s]]
  have "same_frame p (mem mc0) (mem mc2)" if "p \<in> frame_owned l (frame_allocator mc0)" for p
    using n(4,5) that by (intro same_frame_trans [OF n(6) [OF that] t(8)]) auto
  then have "parent_kept l parent mc0 mc2" using n(5) t(7) by (auto simp: parent_kept_def)
  moreover have "set (ms_frames ms2) \<inter> frame_owned l (frame_allocator mc0) = {}" using n(4,5) t(6) by blast
  ultimately show ?thesis using t(1-4) n(3) by (simp add: forking_def s)
qed

lemma from_existed_user_forking:
  assumes pinv: "ms_inv l r (parent, mc0)" and run: "from_existed_user st parent mc0 = Some s"
  shows "forking l r parent mc0 (ms_areas parent) s"
proof -
  from run obtain s1 s2 where s: "memory_set_new_bare mc0 = Some s1" "map_trampoline st s1 = Some s2"
    "for_each (copy_area parent) (ms_areas parent) s2 = Some s"
    by (auto simp: from_existed_user_def split: bind_splits)
  show ?thesis
  proof (rule for_each_invariant [where P = "forking l r parent mc0", OF s(3) forking_start [OF pinv s(1,2)]])
    fix ys y zs t t'
    assume "ms_areas parent = ys @ y # zs" "forking l r parent mc0 ys t" "copy_area parent y t = Some t'"
    then show "forking l r parent mc0 (ys @ [y]) t'" by (intro copy_area_step [OF pinv]) auto
  qed
qed

section \<open>Forking does not fail while there are frames\<close>

lemma for_each_total:
  assumes "P [] s"
    and "\<And>ys y zs t. xs = ys @ y # zs \<Longrightarrow> P ys t \<Longrightarrow> \<exists>t'. f y t = Some t' \<and> P (ys @ [y]) t'"
  shows "\<exists>s'. for_each f xs s = Some s' \<and> P xs s'"
proof -
  have "P ys t \<Longrightarrow> xs = ys @ zs \<Longrightarrow> \<exists>s'. for_each f zs t = Some s' \<and> P xs s'" for ys zs t
  proof (induction zs arbitrary: ys t)
    case (Cons z zs)
    from assms(2) [OF Cons.prems(2,1)] obtain t' where t': "f z t = Some t'" "P (ys @ [z]) t'" by blast
    with Cons.IH [OF t'(2)] Cons.prems(2) show ?case by simp
  qed simp
  from this [of "[]" s xs] assms(1) show ?thesis by simp
qed

lemma find_pte_create_loop_free:
  assumes "find_pte_create_loop p is (fs, mc) = Some (a, fs', mc')"
  shows "frames_free (frame_allocator mc) \<le> frames_free (frame_allocator mc') + (length is - 1)"
  using assms
proof (induction "is" arbitrary: p fs mc)
  case (Cons idx "is")
  show ?case
  proof (cases "is")
    case Nil
    with Cons.prems show ?thesis by simp
  next
    case (Cons i is')
    note IH = Cons.IH and prems = Cons.prems
    show ?thesis
    proof (cases "pte_is_valid (load_u64 (mem mc) (pte_slot p idx))")
      case True
      with prems Cons have "find_pte_create_loop (pte_ppn (load_u64 (mem mc) (pte_slot p idx))) is (fs, mc) = Some (a, fs', mc')"
        by (simp add: Let_def)
      from IH [OF this] show ?thesis using Cons by simp
    next
      case False
      with prems Cons obtain f mc1 where al: "frame_alloc mc = Some (f, mc1)"
        by (auto simp: Let_def split: bind_splits)
      define mc2 where "mc2 = mc1\<lparr>mem := store_u64 (mem mc1) (pte_slot p idx) (pte_new f PTE_V)\<rparr>"
      have "find_pte_create_loop (pte_ppn (load_u64 (mem mc2) (pte_slot p idx))) is (fs @ [f], mc2) = Some (a, fs', mc')"
        using prems False al Cons by (simp add: Let_def mc2_def [symmetric])
      from IH [OF this] frame_alloc_free_less [OF al] show ?thesis using Cons by (simp add: mc2_def)
    qed
  qed
qed simp

lemma pt_map_free:
  assumes "pt_map vpn ppn fl (pt, mc) = Some (pt', mc')"
  shows "frames_free (frame_allocator mc) \<le> frames_free (frame_allocator mc') + 2"
proof -
  from vpn_idx [of vpn] obtain i j k where ix: "vpn_indexes vpn = [i, j, k]" by blast
  with assms obtain a fs mc1 where "find_pte_create_loop (root_ppn pt) [i, j, k] (pt_frames pt, mc) = Some (a, fs, mc1)"
    "frame_allocator mc' = frame_allocator mc1"
    by (auto simp: pt_map_def find_pte_create_def ix split: bind_splits if_splits)
  from find_pte_create_loop_free [OF this(1)] this(2) show ?thesis by simp
qed

lemma map_one_total:
  assumes inv: "pt_inv l r (root_ppn pt) (pt_frames pt) mc" and a: "area_type area = Framed"
    and v: "pt_view (mem mc) (root_ppn pt) vpn = None" and free: "3 \<le> frames_free (frame_allocator mc)"
  shows "\<exists>area' pt' mc'. map_one vpn (area, pt, mc) = Some (area', pt', mc') \<and>
     frames_free (frame_allocator mc) \<le> frames_free (frame_allocator mc') + 3"
proof -
  obtain f mc1 where al: "frame_alloc mc = Some (f, mc1)"
    using free frame_alloc_free [of mc] by (cases "frame_alloc mc") auto
  note pa = pt_inv_frame_alloc [OF inv al]
  have f1: "frames_free (frame_allocator mc) = Suc (frames_free (frame_allocator mc1))"
    by (rule frame_alloc_free_less [OF al])
  obtain pt' mc' where mp: "pt_map vpn f (area_perm area) (pt, mc1) = Some (pt', mc')"
    using pt_map_panics [OF pa(1), of vpn f "area_perm area"] pa(2) v f1 free
    by (cases "pt_map vpn f (area_perm area) (pt, mc1)") auto
  with pt_map_free [OF mp] f1 a al show ?thesis by (simp add: map_one_def)
qed

lemma ms_push_total:
  assumes inv: "ms_inv l r (ms, mc)"
    and a: "area_type area = Framed" "data_frames area = []"
    and rng: "range_new (range_l (area_range area)) (range_r (area_range area)) = Some (area_range area)"
      "unat (range_r (area_range area)) \<le> 2 ^ 27"
    and v: "\<forall>w\<in>set (range_list (area_range area)). pt_view (mem mc) (ms_root ms) w = None"
    and free: "3 * length (range_list (area_range area)) \<le> frames_free (frame_allocator mc)"
  shows "\<exists>ms' mc'. ms_push area None (ms, mc) = Some (ms', mc') \<and>
     frames_free (frame_allocator mc) \<le> frames_free (frame_allocator mc') + 3 * length (range_list (area_range area))"
proof -
  let ?R = "range_list (area_range area)"
  have pinv: "pt_inv l r (ms_root ms) (pt_frames (ms_page_table ms)) mc" using inv by (simp add: ms_inv_def)
  have own: "set (pt_frames (ms_page_table ms)) \<subseteq> frame_owned l (frame_allocator mc)" using pinv by (simp add: pt_inv_def)
  have small: "unat w < 2 ^ 27" if "w \<in> set ?R" for w
    using that range_list_set [OF rng(1)] rng(2) by simp
  let ?P = "\<lambda>done s. mapping l r area (ms_page_table ms) mc done s \<and>
    frames_free (frame_allocator mc) \<le> frames_free (frame_allocator (snd (snd s))) + 3 * length done"
  have "\<exists>s'. for_each map_one ?R (area, ms_page_table ms, mc) = Some s' \<and> ?P ?R s'"
  proof (rule for_each_total [where P = ?P])
    show "?P [] (area, ms_page_table ms, mc)"
      using pinv a by (simp add: mapping_def bt_inv_def bt_get_def area_frames_def)
    fix ys y zs t
    assume split: "?R = ys @ y # zs" and P: "?P ys t"
    obtain a1 p1 m1 where t: "t = (a1, p1, m1)" by (metis surj_pair)
    from P t have m: "pt_inv l r (root_ppn p1) (pt_frames p1) m1" "area_type a1 = Framed"
      and w: "\<And>w. unat w < 2 ^ 27 \<Longrightarrow> w \<notin> set ys \<Longrightarrow> pt_view (mem m1) (root_ppn p1) w = pt_view (mem mc) (ms_root ms) w"
      and fr: "frames_free (frame_allocator mc) \<le> frames_free (frame_allocator m1) + 3 * length ys"
      by (auto simp: mapping_def)
    have y: "y \<notin> set ys" "y \<in> set ?R" "\<forall>v\<in>set (y # ys). unat v < 2 ^ 27"
      using range_list_distinct [OF rng(1)] split small by auto
    have "3 * Suc (length ys) \<le> frames_free (frame_allocator mc)"
      using free unfolding split by simp
    then have f3: "3 \<le> frames_free (frame_allocator m1)" using fr by simp
    have "pt_view (mem m1) (root_ppn p1) y = None" using w y v small by auto
    from map_one_total [OF m this f3] obtain a2 p2 m2 where st: "map_one y (a1, p1, m1) = Some (a2, p2, m2)"
      "frames_free (frame_allocator m1) \<le> frames_free (frame_allocator m2) + 3" by blast
    from map_one_mapping [OF _ own y(1,3) st(1)] P t fr st(2)
    show "\<exists>t'. map_one y t = Some t' \<and> ?P (ys @ [y]) t'" using st(1) by auto
  qed
  then show ?thesis by (auto simp: ms_push_def map_area_map_def)
qed


text \<open>Areas of one address space do not overlap.\<close>

lemma ms_areas_disjoint:
  assumes inv: "ms_inv l r (ms, mc)" and split: "ms_areas ms = ys @ y # zs" and x: "x \<in> set ys"
    and v: "v \<in> set (range_list (area_range x))" "v \<in> set (range_list (area_range y))"
  shows False
proof -
  have xm: "area_mapped (mem mc) (ms_root ms) x" "area_mapped (mem mc) (ms_root ms) y"
    and xy: "x \<in> set (ms_areas ms)" "y \<in> set (ms_areas ms)"
    using inv x split by (auto simp: ms_inv_def)
  obtain f where f: "bt_get (data_frames x) v = Some f" "pt_view (mem mc) (ms_root ms) v = Some (pte_new f (area_perm x OR PTE_V))"
    by (rule area_mapped_get [OF xm(1) v(1)])
  obtain g where g: "bt_get (data_frames y) v = Some g" "pt_view (mem mc) (ms_root ms) v = Some (pte_new g (area_perm y OR PTE_V))"
    by (rule area_mapped_get [OF xm(2) v(2)])
  have oks: "frame_ok f" "frame_ok g"
    using ms_frame_ok [OF inv area_frame_ms [OF xy(1) area_frame_mem [OF f(1)]]]
      ms_frame_ok [OF inv area_frame_ms [OF xy(2) area_frame_mem [OF g(1)]]] by blast+
  from f(2) g(2) have "pte_ppn (pte_new f (area_perm x OR PTE_V)) = pte_ppn (pte_new g (area_perm y OR PTE_V))" by simp
  with oks have "f = g" by (simp add: pte_ppn_new frame_ok_def)
  moreover have "f \<in> set (area_frames x)" "g \<in> set (area_frames y)"
    using area_frame_mem f(1) g(1) by blast+
  ultimately show False using inv x by (auto simp: ms_inv_def ms_frames_def split)
qed

lemma copy_area_total:
  assumes pinv: "ms_inv l r (parent, mc0)" and split: "ms_areas parent = ys @ a # zs"
    and tramp: "unat (range_r (area_range a)) \<le> 0x7FFFFFF"
    and F: "forking l r parent mc0 ys (ms, mc)"
    and free: "3 * length (range_list (area_range a)) \<le> frames_free (frame_allocator mc)"
  shows "\<exists>ms' mc'. copy_area parent a (ms, mc) = Some (ms', mc') \<and>
     frames_free (frame_allocator mc) \<le> frames_free (frame_allocator mc') + 3 * length (range_list (area_range a))"
proof -
  let ?R = "range_list (area_range a)"
  have a: "a \<in> set (ms_areas parent)" by (simp add: split)
  from F have inv: "ms_inv l r (ms, mc)"
    and none: "\<And>w. unat w < 2 ^ 27 \<Longrightarrow> w \<noteq> 0x7FFFFFF \<Longrightarrow> \<forall>a\<in>set ys. w \<notin> set (range_list (area_range a)) \<Longrightarrow>
       pt_view (mem mc) (ms_root ms) w = None" by (simp_all add: forking_def)
  have am: "area_mapped (mem mc0) (ms_root parent) a" using pinv a by (simp add: ms_inv_def)
  then have rng: "range_new (range_l (area_range a)) (range_r (area_range a)) = Some (area_range a)"
    by (simp add: area_mapped_def)
  have "pt_view (mem mc) (ms_root ms) w = None" if "w \<in> set ?R" for w
  proof (rule none)
    have "unat w < 0x7FFFFFF" using that range_list_set [OF rng(1)] tramp by simp
    then show "unat w < 2 ^ 27" "w \<noteq> 0x7FFFFFF" by (auto simp: word_unat_eq_iff)
    show "\<forall>x\<in>set ys. w \<notin> set (range_list (area_range x))"
      using ms_areas_disjoint [OF pinv split _ _ that] by blast
  qed
  then obtain ms1 mc1 where push: "ms_push (empty_copy a) None (ms, mc) = Some (ms1, mc1)"
    and fr: "frames_free (frame_allocator mc) \<le> frames_free (frame_allocator mc1) + 3 * length ?R"
    using ms_push_total [OF inv, of "empty_copy a"] rng tramp free by (auto simp: empty_copy_def)
  obtain b where b: "b \<in> set (ms_areas ms1)" "area_range b = area_range a"
    and fresh1: "set (ms_frames ms1) \<inter> frame_owned l (frame_allocator mc0) = {}"
    and C0: "copying l r parent mc0 a ms1 mc1 b [] (ms1, mc1)"
    using forking_pushed [OF F empty_copy_pushed [OF inv am push]]
    by (metis in_set_conv_decomp)
  have "\<exists>s'. for_each (copy_page parent) ?R (ms1, mc1) = Some s' \<and> copying l r parent mc0 a ms1 mc1 b ?R s'"
  proof (rule for_each_total [where P = "copying l r parent mc0 a ms1 mc1 b", OF C0])
    fix vs y ws t
    assume vs: "?R = vs @ y # ws" and C: "copying l r parent mc0 a ms1 mc1 b vs t"
    obtain mc2 where t: "t = (ms1, mc2)" "parent_kept l parent mc0 mc2" "ms_inv l r (ms1, mc2)"
      using C by (cases t) (auto simp: copying_def)
    have y: "y \<in> set ?R" "y \<notin> set vs" using vs range_list_distinct [OF rng(1)] by simp_all
    obtain t' where "copy_page parent y t = Some t'"
      using copy_page_eval [OF pinv a t(2,3) b fresh1 y(1)] t(1) by metis
    with copying_step [OF pinv a b fresh1 C y] show "\<exists>t'. copy_page parent y t = Some t' \<and>
      copying l r parent mc0 a ms1 mc1 b (vs @ [y]) t'" by blast
  qed
  then obtain mc' where "for_each (copy_page parent) ?R (ms1, mc1) = Some (ms1, mc')"
    "frame_allocator mc' = frame_allocator mc1" by (auto simp: copying_def)
  with push fr show ?thesis
    by (simp add: copy_area_def map_area_from_another_framed [OF am])
qed


lemma new_bare_total:
  assumes "frames_free (frame_allocator mc) \<noteq> 0"
  obtains ms mc' where "memory_set_new_bare mc = Some (ms, mc')"
    "frames_free (frame_allocator mc) = Suc (frames_free (frame_allocator mc'))"
proof -
  obtain f mc' where al: "frame_alloc mc = Some (f, mc')"
    using assms frame_alloc_free [of mc] by (cases "frame_alloc mc") auto
  with frame_alloc_free_less [OF al] that show ?thesis
    by (simp add: memory_set_new_bare_def page_table_new_def)
qed

lemma map_trampoline_total:
  assumes inv: "ms_inv l r (ms, mc)" and v: "pt_view (mem mc) (ms_root ms) 0x7FFFFFF = None"
    and st: "pa_aligned (pa_from_usize st)" and free: "2 \<le> frames_free (frame_allocator mc)"
  obtains ms' mc' where "map_trampoline st (ms, mc) = Some (ms', mc')"
    "frames_free (frame_allocator mc) \<le> frames_free (frame_allocator mc') + 2"
proof -
  have pinv: "pt_inv l r (ms_root ms) (pt_frames (ms_page_table ms)) mc" using inv by (simp add: ms_inv_def)
  let ?p = "pa_floor (pa_from_usize st)"
  obtain pt mc' where mp: "pt_map 0x7FFFFFF ?p (PTE_R OR PTE_X) (ms_page_table ms, mc) = Some (pt, mc')"
    using pt_map_panics [OF pinv, of "0x7FFFFFF" ?p "PTE_R OR PTE_X"] v free
    by (cases "pt_map 0x7FFFFFF ?p (PTE_R OR PTE_X) (ms_page_table ms, mc)") auto
  with pt_map_free [OF mp] st that show ?thesis
    by (simp add: map_trampoline_def trampoline_vpn ppn_from_pa_def pa_aligned_def)
qed

definition ms_pages :: "memory_set \<Rightarrow> nat" where
  "ms_pages ms = sum_list (map (\<lambda>a. length (range_list (area_range a))) (ms_areas ms))"

lemma from_existed_user_total:
  assumes pinv: "ms_inv l r (parent, mc0)" and st: "pa_aligned (pa_from_usize st)"
    and tramp: "\<forall>a\<in>set (ms_areas parent). unat (range_r (area_range a)) \<le> 0x7FFFFFF"
    and free: "3 + 3 * ms_pages parent \<le> frames_free (frame_allocator mc0)"
  shows "\<exists>s. from_existed_user st parent mc0 = Some s"
proof -
  let ?n = "\<lambda>as. sum_list (map (\<lambda>a. length (range_list (area_range a))) as)"
  have fi: "frame_inv l r (frame_allocator mc0)" using pinv by (simp add: ms_inv_def pt_inv_def)
  have "frames_free (frame_allocator mc0) \<noteq> 0" using free by simp
  then obtain ms1 mc1 where b: "memory_set_new_bare mc0 = Some (ms1, mc1)"
    "frames_free (frame_allocator mc0) = Suc (frames_free (frame_allocator mc1))"
    by (rule new_bare_total)
  note n = new_bare_ok [OF fi b(1)]
  have "2 \<le> frames_free (frame_allocator mc1)" using free b(2) by simp
  from map_trampoline_total [OF n(1) n(3) st this] obtain ms2 mc2
    where t: "map_trampoline st (ms1, mc1) = Some (ms2, mc2)"
      "frames_free (frame_allocator mc1) \<le> frames_free (frame_allocator mc2) + 2" by blast
  have enough: "3 * ?n (ms_areas parent) \<le> frames_free (frame_allocator mc2)"
    using free b(2) t(2) by (simp add: ms_pages_def)
  let ?P = "\<lambda>done s. forking l r parent mc0 done s \<and>
    frames_free (frame_allocator mc2) \<le> frames_free (frame_allocator (snd s)) + 3 * ?n done"
  have "\<exists>s. for_each (copy_area parent) (ms_areas parent) (ms2, mc2) = Some s \<and> ?P (ms_areas parent) s"
  proof (rule for_each_total [where P = ?P])
    show "?P [] (ms2, mc2)" using forking_start [OF pinv b(1) t(1)] by simp
    fix ys y zs s
    assume split: "ms_areas parent = ys @ y # zs" and P: "?P ys s"
    obtain ms mc where s: "s = (ms, mc)" by (cases s)
    have "3 * length (range_list (area_range y)) \<le> frames_free (frame_allocator mc)"
      using P enough s by (simp add: split)
    moreover have "unat (range_r (area_range y)) \<le> 0x7FFFFFF" using tramp split by simp
    ultimately obtain s' where c: "copy_area parent y s = Some s'"
      "frames_free (frame_allocator mc) \<le> frames_free (frame_allocator (snd s')) + 3 * length (range_list (area_range y))"
      using copy_area_total [OF pinv split] P s by fastforce
    with copy_area_step [OF pinv _ _ c(1), of ys] P split s
    show "\<exists>s'. copy_area parent y s = Some s' \<and> ?P (ys @ [y]) s'" by auto
  qed
  with b(1) t(1) show ?thesis by (auto simp: from_existed_user_def)
qed

text \<open>
  C5: \<open>MemorySet::from_existed_user\<close> (the address space of a forked child).  While three
  frames per page and three more are left it returns; the child's tables and pages use
  frames of its own; every page of every area of the parent, its trap context and agent
  context area included, is mapped in the child with the same flags to a different frame
  with the same bytes; and no page of the parent changes.
\<close>

theorem fork_copies_address_space:
  assumes "ms_inv l r (parent, mc)" "pa_aligned (pa_from_usize st)"
    and "\<forall>a\<in>set (ms_areas parent). unat (range_r (area_range a)) \<le> 0x7FFFFFF"
    and "3 + 3 * ms_pages parent \<le> frames_free (frame_allocator mc)"
  shows "\<exists>child mc'. from_existed_user st parent mc = Some (child, mc') \<and>
     ms_inv l r (child, mc') \<and> ms_inv l r (parent, mc') \<and>
     set (ms_frames child) \<inter> set (ms_frames parent) = {} \<and>
     (\<forall>p\<in>set (ms_frames parent). same_frame p (mem mc) (mem mc')) \<and>
     (\<forall>a\<in>set (ms_areas parent). \<forall>v\<in>set (range_list (area_range a)). \<exists>e d.
        ms_translate (mem mc') parent v = Some e \<and> ms_translate (mem mc') child v = Some d \<and>
        pte_get_flags d = pte_get_flags e \<and> pte_ppn d \<noteq> pte_ppn e \<and>
        load_bytes (mem mc') (pa_from_ppn (pte_ppn d)) 4096 = load_bytes (mem mc) (pa_from_ppn (pte_ppn e)) 4096)"
proof -
  from from_existed_user_total [OF assms] obtain child mc' where
    run: "from_existed_user st parent mc = Some (child, mc')" by auto
  from from_existed_user_forking [OF assms(1) run] have inv: "ms_inv l r (child, mc')"
    and fresh: "set (ms_frames child) \<inter> frame_owned l (frame_allocator mc) = {}"
    and kept: "parent_kept l parent mc mc'"
    and cp: "list_all2 (area_copied (mem mc) (mem mc')) (ms_areas parent) (ms_areas child)"
    by (simp_all add: forking_def)
  have own: "set (ms_frames parent) \<subseteq> frame_owned l (frame_allocator mc)" using assms(1) by (simp add: ms_inv_def)
  have same: "same_frame p (mem mc) (mem mc')" if "p \<in> set (ms_frames parent)" for p
    using that kept own by (auto simp: parent_kept_def)
  have fi: "frame_inv l r (frame_allocator mc')" using inv by (simp add: ms_inv_def pt_inv_def)
  have own': "set (ms_frames parent) \<subseteq> frame_owned l (frame_allocator mc')" using kept own by (auto simp: parent_kept_def)
  have "same_frame p (mem mc) (mem mc')" if "p \<in> set (pt_frames (ms_page_table parent))" for p
    using that same by (simp add: ms_frames_def)
  note pinv' = ms_inv_frame [OF assms(1) fi own' this]
  have pages: "\<exists>e d. ms_translate (mem mc') parent v = Some e \<and> ms_translate (mem mc') child v = Some d \<and>
        pte_get_flags d = pte_get_flags e \<and> pte_ppn d \<noteq> pte_ppn e \<and>
        load_bytes (mem mc') (pa_from_ppn (pte_ppn d)) 4096 = load_bytes (mem mc) (pa_from_ppn (pte_ppn e)) 4096"
    if a: "a \<in> set (ms_areas parent)" and v: "v \<in> set (range_list (area_range a))" for a v
  proof -
    from cp a obtain b where b: "b \<in> set (ms_areas child)" "area_copied (mem mc) (mem mc') a b"
      by (metis list_all2_conv_all_nth in_set_conv_nth)
    from b(2) v obtain f g where fg: "bt_get (data_frames a) v = Some f" "bt_get (data_frames b) v = Some g"
      "load_bytes (mem mc') (pa_from_ppn g) 4096 = load_bytes (mem mc) (pa_from_ppn f) 4096"
      and perm: "area_perm b = area_perm a"
      by (auto simp: area_copied_def pages_copied_def)
    have fm: "f \<in> set (ms_frames parent)" "g \<in> set (ms_frames child)"
      using area_frame_ms [OF a area_frame_mem [OF fg(1)]] area_frame_ms [OF b(1) area_frame_mem [OF fg(2)]] by auto
    then have oks: "frame_ok f" "frame_ok g" and ne: "f \<noteq> g"
      using ms_frame_ok [OF assms(1)] ms_frame_ok [OF inv] own fresh by auto
    have "pt_view (mem mc') (ms_root parent) v = Some (pte_new f (area_perm a OR PTE_V))"
      "pt_view (mem mc') (ms_root child) v = Some (pte_new g (area_perm a OR PTE_V))"
      using pinv'(1) inv a b(1) fg(1,2) perm by (auto simp: ms_inv_def area_mapped_def)
    then have "ms_translate (mem mc') parent v = Some (pte_new f (area_perm a OR PTE_V))"
      "ms_translate (mem mc') child v = Some (pte_new g (area_perm a OR PTE_V))"
      by (simp_all add: ms_translate_def pt_translate_view)
    with oks ne fg(3) show ?thesis by (simp add: pte_ppn_new pte_flags_new frame_ok_def)
  qed
  have "set (ms_frames child) \<inter> set (ms_frames parent) = {}" using fresh own by blast
  with run inv pinv'(1) same pages show ?thesis by blast
qed

section \<open>A concrete address space\<close>

lemma insert_framed_area_total:
  assumes inv: "ms_inv l r (ms, mc)" and va: "unat start_va \<le> unat end_va" "unat end_va < 2 ^ 39"
    and R: "range_new (va_floor start_va) (va_ceil end_va) = Some rng"
    and v: "\<forall>w\<in>set (range_list rng). pt_view (mem mc) (ms_root ms) w = None"
    and free: "3 * length (range_list rng) \<le> frames_free (frame_allocator mc)"
  obtains ms' mc' area where "insert_framed_area start_va end_va perm (ms, mc) = Some (ms', mc')"
    "area_added l r area (ms, mc) (ms', mc')" "area_range area = rng" "area_perm area = perm"
    "frames_free (frame_allocator mc) \<le> frames_free (frame_allocator mc') + 3 * length (range_list rng)"
proof -
  define area where "area = \<lparr>area_range = rng, data_frames = [], area_type = Framed, area_perm = perm\<rparr>"
  have rng: "rng = \<lparr>range_l = va_floor start_va, range_r = va_ceil end_va\<rparr>"
    using R by (auto simp: range_new_def split: if_splits)
  have ok: "range_new (range_l (area_range area)) (range_r (area_range area)) = Some (area_range area)"
    "unat (range_r (area_range area)) \<le> 2 ^ 27"
    using R va(2) by (simp_all add: area_def rng unat_va_ceil_sv39)
  have a: "area_type area = Framed" "data_frames area = []" by (simp_all add: area_def)
  obtain ms' mc' where push: "ms_push area None (ms, mc) = Some (ms', mc')"
    and fr: "frames_free (frame_allocator mc) \<le> frames_free (frame_allocator mc') + 3 * length (range_list rng)"
    using ms_push_total [OF inv a ok] v free by (auto simp: area_def)
  then have "insert_framed_area start_va end_va perm (ms, mc) = Some (ms', mc')"
    using R by (simp add: insert_framed_area_def map_area_new_def area_def)
  moreover have "area_added l r area (ms, mc) (ms', mc')" by (rule ms_push_framed [OF inv a ok push])
  ultimately show ?thesis using that fr by (simp add: area_def)
qed

lemma insert_framed_area_returns:
  assumes "ms_inv l r (ms, mc)" "unat start_va \<le> unat end_va" "unat end_va < 2 ^ 39"
    and "range_new (va_floor start_va) (va_ceil end_va) = Some rng"
    and "\<forall>w\<in>set (range_list rng). pt_view (mem mc) (ms_root ms) w = None"
    and "3 * length (range_list rng) \<le> frames_free (frame_allocator mc)"
  shows "\<exists>ms' mc'. insert_framed_area start_va end_va perm (ms, mc) = Some (ms', mc')"
  by (rule insert_framed_area_total [OF assms]) blast

lemma demo_machine_free: "frames_free (frame_allocator demo_machine) = 0x7C00"
  by (simp add: frames_free_def demo_machine_def frame_allocator_init_def frame_allocator_new_def)

text \<open>A fresh address space of the demonstration machine.\<close>

lemma demo_space:
  obtains ms mc where "memory_set_new_bare demo_machine = Some (ms, mc)" "ms_inv 0x80400 0x88000 (ms, mc)"
    "ms_areas ms = []" "\<And>v. pt_view (mem mc) (ms_root ms) v = None" "frames_free (frame_allocator mc) = 0x7BFF"
proof -
  obtain ms mc where n: "memory_set_new_bare demo_machine = Some (ms, mc)"
    "frames_free (frame_allocator demo_machine) = Suc (frames_free (frame_allocator mc))"
    by (rule new_bare_total [of demo_machine]) (simp_all add: demo_machine_free)
  with new_bare_ok [OF demo_machine_inv n(1)] that [of ms mc] show ?thesis by (simp add: demo_machine_free)
qed

lemma length_range_list: "range_new s e = Some rng \<Longrightarrow> length (range_list rng) = unat e - unat s"
  using range_list_upt [of s e rng] by (metis length_map length_upt)

theorem fork_copies_address_space_witness:
  "\<exists>parent mc child mc'.
     Option.bind (memory_set_new_bare demo_machine) (insert_framed_area 0x10000 0x12000 (MAP_R OR MAP_W OR MAP_U)) =
       Some (parent, mc) \<and>
     from_existed_user 0x80200000 parent mc = Some (child, mc') \<and> ms_inv 0x80400 0x88000 (child, mc') \<and>
     set (ms_frames child) \<inter> set (ms_frames parent) = {}"
proof -
  obtain ms mc where s: "memory_set_new_bare demo_machine = Some (ms, mc)" "ms_inv 0x80400 0x88000 (ms, mc)"
    "ms_areas ms = []" "\<And>v. pt_view (mem mc) (ms_root ms) v = None" "frames_free (frame_allocator mc) = 0x7BFF"
    using demo_space by blast
  define rng where "rng = \<lparr>range_l = 0x10, range_r = (0x12 :: usize)\<rparr>"
  have R: "range_new (va_floor 0x10000) (va_ceil 0x12000) = Some rng"
    by (simp add: range_new_def va_floor_def va_ceil_def PAGE_SIZE_def rng_def)
  have len: "length (range_list rng) = 2"
    using length_range_list [of "0x10" "0x12" rng] by (simp add: range_new_def rng_def)
  obtain parent mc1 area where p:
    "insert_framed_area 0x10000 0x12000 (MAP_R OR MAP_W OR MAP_U) (ms, mc) = Some (parent, mc1)"
    and A: "area_added 0x80400 0x88000 area (ms, mc) (parent, mc1)" "area_range area = rng"
    and fr: "frames_free (frame_allocator mc) \<le> frames_free (frame_allocator mc1) + 3 * length (range_list rng)"
    by (rule insert_framed_area_total [OF s(2) _ _ R, where perm = "MAP_R OR MAP_W OR MAP_U"])
      (simp_all add: s(4,5) len)
  from A s(3) obtain b where b: "ms_areas parent = [b]" "area_range b = rng" and inv: "ms_inv 0x80400 0x88000 (parent, mc1)"
    by (auto simp: area_added_def)
  have st: "pa_aligned (pa_from_usize 0x80200000)"
    by (simp add: pa_aligned_def word_unat_eq_iff addr_nat)
  have "\<exists>child mc'. from_existed_user 0x80200000 parent mc1 = Some (child, mc') \<and>
      ms_inv 0x80400 0x88000 (child, mc') \<and> set (ms_frames child) \<inter> set (ms_frames parent) = {}"
    using fork_copies_address_space [OF inv st] b fr s(5) len by (auto simp: ms_pages_def rng_def)
  with s(1) p show ?thesis by auto
qed

end
