(* ===== verification/Pcb_Ext.thy ===== *)
theory Pcb_Ext
  imports Address Rust_Std
begin

text \<open>
  The agent part of a process control block (\<open>os/src/agent/pcb_ext.rs\<close>) and the error
  codes of the agent subsystem (\<open>os/src/agent/error.rs\<close>).
\<close>

section \<open>Errors\<close>

datatype agent_error =
    BadUserPointer | BufferTooSmall | ProtocolMalformed | NotAnAgent
  | QuotaExceeded | NotFound | PermissionDenied | InternalError

fun into_isize :: "agent_error \<Rightarrow> isize" where
  "into_isize BadUserPointer = -1"
| "into_isize BufferTooSmall = -2"
| "into_isize ProtocolMalformed = -3"
| "into_isize NotAnAgent = -4"
| "into_isize QuotaExceeded = -5"
| "into_isize NotFound = -6"
| "into_isize PermissionDenied = -7"
| "into_isize InternalError = -8"

type_synonym 'a agent_result = "agent_error + 'a"

section \<open>The extension record\<close>

datatype agent_kind = Normal | System

datatype loop_state = Idle | Thinking | Calling | Observing | Done

record path_node_meta =
  offset_in_buffer :: u32
  node_len :: u32
  write_time :: u64
  node_seq :: u64

datatype evict_policy = Fifo | Lru

record path_quota =
  max_nodes :: u32
  max_bytes :: u32
  policy :: evict_policy

record agent_ext =
  agent_type :: agent_kind
  heartbeat_interval_ms :: u64
  ext_loop_state :: loop_state
  context_area_base :: virt_addr
  context_area_size :: usize
  path_meta :: "path_node_meta list"
  ext_quota :: path_quota
  path_used_bytes :: u32
  next_seq :: u64
  heartbeat_last_ms :: u64
  heartbeat_pending :: bool
  file_event_pending :: bool
  watched_events :: u32
  mailbox :: "u8 list list"
  mailbox_capacity :: usize

definition agent_ext_new :: "agent_kind \<Rightarrow> virt_addr \<Rightarrow> usize \<Rightarrow> u32 \<Rightarrow> u32 \<Rightarrow> agent_ext" where
  "agent_ext_new ty base sz mn mb =
     \<lparr>agent_type = ty, heartbeat_interval_ms = 0, ext_loop_state = Idle,
      context_area_base = base, context_area_size = sz, path_meta = [],
      ext_quota = \<lparr>max_nodes = mn, max_bytes = mb, policy = Lru\<rparr>,
      path_used_bytes = 0, next_seq = 0, heartbeat_last_ms = 0, heartbeat_pending = False,
      file_event_pending = False, watched_events = 0, mailbox = [], mailbox_capacity = 32\<rparr>"

end
