(* ===== verification/Context_Area.thy ===== *)
theory Context_Area
  imports Memory_Set_Laws Pcb_Ext
begin

text \<open>
  The shared context area of an agent (\<open>os/src/agent/context_area.rs\<close>): allocation at a
  fixed user address, its header, and the tool-result ring.  The bytes of the area are
  reached through the page table of the process with \<open>read_user_bytes\<close> and
  \<open>write_user_bytes\<close>.
\<close>

unbundle bit_operations_syntax

section \<open>Layout\<close>

definition CONTEXT_AREA_BASE :: usize where "CONTEXT_AREA_BASE = 0x80000000"
definition CONTEXT_AREA_DEFAULT_SIZE :: usize where "CONTEXT_AREA_DEFAULT_SIZE = 64 * 1024"

definition TOOL_RESULT_OFF :: usize where "TOOL_RESULT_OFF = 0x0100"
definition TOOL_RESULT_LEN :: usize where "TOOL_RESULT_LEN = 0x4000"
definition PATH_BUFFER_OFF :: usize where "PATH_BUFFER_OFF = 0x4100"
definition PATH_BUFFER_LEN :: usize where "PATH_BUFFER_LEN = 0x8000"
definition HISTORY_OFF :: usize where "HISTORY_OFF = 0xC100"
definition HISTORY_LEN :: usize where "HISTORY_LEN = 0x2000"

lemmas layout_defs = CONTEXT_AREA_BASE_def CONTEXT_AREA_DEFAULT_SIZE_def TOOL_RESULT_OFF_def
  TOOL_RESULT_LEN_def PATH_BUFFER_OFF_def PATH_BUFFER_LEN_def HISTORY_OFF_def HISTORY_LEN_def

record area_header =
  h_magic :: u32
  h_version :: u32
  h_seq_number :: u64
  h_tool_result_off :: u32
  h_tool_result_len :: u32
  h_tool_result_write_pos :: u32
  h_path_buffer_off :: u32
  h_path_buffer_len :: u32
  h_path_used_bytes :: u32
  h_path_node_count :: u32
  h_history_off :: u32
  h_history_len :: u32
  h_reserved :: "u8 list"

definition HEADER_MAGIC :: u32 where "HEADER_MAGIC = 0xA9E45EC0"
definition HEADER_VERSION :: u32 where "HEADER_VERSION = 1"

text \<open>The bytes of the \<open>repr(C)\<close> structure in memory: the fields in order, then the
  padding that brings its size to a multiple of eight, whose contents the language
  leaves open (\<open>pad\<close>).\<close>

definition header_bytes :: "u8 list \<Rightarrow> area_header \<Rightarrow> u8 list" where
  "header_bytes pad h =
     to_le_bytes (h_magic h) @ to_le_bytes (h_version h) @ to_le_bytes (h_seq_number h) @
     to_le_bytes (h_tool_result_off h) @ to_le_bytes (h_tool_result_len h) @
     to_le_bytes (h_tool_result_write_pos h) @ to_le_bytes (h_path_buffer_off h) @
     to_le_bytes (h_path_buffer_len h) @ to_le_bytes (h_path_used_bytes h) @
     to_le_bytes (h_path_node_count h) @ to_le_bytes (h_history_off h) @
     to_le_bytes (h_history_len h) @ h_reserved h @ pad"

section \<open>Allocation\<close>

record agent_context_area =
  area_base :: virt_addr
  area_bytes :: usize

definition align_up :: "usize \<Rightarrow> usize" where
  "align_up sz = max ((sz + 0xFFF) AND NOT 0xFFF) 0x1000"

definition context_area_allocate :: "usize \<Rightarrow> ms_state \<Rightarrow> (agent_context_area \<times> ms_state) option" where
  "context_area_allocate sz s = do {
     let aligned = align_up sz;
     let base = va_from_usize CONTEXT_AREA_BASE;
     let end_va = va_from_usize (CONTEXT_AREA_BASE + aligned);
     s \<leftarrow> insert_framed_area base end_va (MAP_R OR MAP_W OR MAP_U) s;
     Some (\<lparr>area_base = base, area_bytes = aligned\<rparr>, s)
   }"

definition initial_header :: area_header where
  "initial_header =
     \<lparr>h_magic = HEADER_MAGIC, h_version = HEADER_VERSION, h_seq_number = 0,
      h_tool_result_off = ucast TOOL_RESULT_OFF, h_tool_result_len = ucast TOOL_RESULT_LEN,
      h_tool_result_write_pos = 0, h_path_buffer_off = ucast PATH_BUFFER_OFF,
      h_path_buffer_len = ucast PATH_BUFFER_LEN, h_path_used_bytes = 0, h_path_node_count = 0,
      h_history_off = ucast HISTORY_OFF, h_history_len = ucast HISTORY_LEN,
      h_reserved = replicate (256 - 64) 0\<rparr>"

definition init_header :: "u8 list \<Rightarrow> agent_context_area \<Rightarrow> usize \<Rightarrow> memory \<Rightarrow> memory option" where
  "init_header pad area token m = write_user_bytes token (area_base area) (header_bytes pad initial_header) m"

section \<open>The tool-result ring\<close>

text \<open>\<open>write_tool_result\<close>: the outer \<open>option\<close> is a panic, the inner one the method's result.\<close>

definition write_tool_result :: "agent_context_area \<Rightarrow> usize \<Rightarrow> u8 list \<Rightarrow> memory \<Rightarrow>
    ((u32 \<times> u32) option \<times> memory) option" where
  "write_tool_result area token data m =
     (if unat TOOL_RESULT_LEN < length data then Some (None, m)
      else do {
        header_buf \<leftarrow> read_user_bytes token (area_base area) (replicate 256 0) m;
        let cur_pos = (ucast (from_le_bytes (slice_at 20 4 header_buf) :: u32) :: usize);
        let start = (if TOOL_RESULT_LEN < cur_pos + word_of_nat (length data) then 0 else cur_pos);
        let write_addr = area_base area + TOOL_RESULT_OFF + start;
        m \<leftarrow> write_user_bytes token write_addr data m;
        let new_pos = (ucast (start + word_of_nat (length data)) :: u32);
        let sq = (from_le_bytes (slice_at 8 8 header_buf) :: u64) + 2;
        m \<leftarrow> write_user_bytes token (area_base area + 8) (to_le_bytes sq) m;
        m \<leftarrow> write_user_bytes token (area_base area + 20) (to_le_bytes new_pos) m;
        Some (Some (ucast (TOOL_RESULT_OFF + start), word_of_nat (length data)), m)
      })"

section \<open>The allocated area is a byte array\<close>

lemma root_of_token:
  assumes "frame_ok (root_ppn pt)"
  shows "root_ppn (page_table_from_token (pt_token pt)) = root_ppn pt"
proof -
  have high: "push_bit 60 8 = (2 :: usize) ^ 63" by simp
  have "(push_bit 60 8 OR root_ppn pt) AND low_mask 44 = root_ppn pt"
    unfolding high
  proof (rule bit_eqI)
    fix n
    have "bit (root_ppn pt) n \<Longrightarrow> n < 44" using small_bits [of "root_ppn pt" 44 n] assms by (simp add: frame_ok_def)
    then show "bit ((2 ^ 63 OR root_ppn pt) AND low_mask 44) n = bit (root_ppn pt) n"
      by (auto simp: bit_and_iff bit_or_iff bit_exp_iff low_mask_bit simp del: power_numeral)
  qed
  then show ?thesis using assms by (simp add: page_table_from_token_def pt_token_def ppn_from_usize_id frame_ok_def)
qed

lemma ms_root_ok: "ms_inv l r (ms, mc) \<Longrightarrow> frame_ok (ms_root ms)"
proof -
  assume "ms_inv l r (ms, mc)"
  then have "pt_tree (mem mc) (ms_root ms) (set (pt_frames (ms_page_table ms)))" by (simp add: ms_inv_def pt_inv_def)
  from pt_treeD(2) [OF this, of "[]"] show ?thesis by (simp add: idx_path_def)
qed

text \<open>The pages of a framed area whose pages lie below \<open>2^38\<close> form a user region.\<close>

lemma framed_area_region:
  assumes inv: "ms_inv l r (ms, mc)" and a: "a \<in> set (ms_areas ms)"
    and base: "va_page_offset base = 0" "unat base + n * 4096 < 2 ^ 38"
    and rng: "area_range a = \<lparr>range_l = va_floor base, range_r = va_floor base + word_of_nat n\<rparr>"
  obtains P where "user_region (ms_token ms) base (page_addrs P n) (mem mc)"
    "\<And>k. k < n \<Longrightarrow> bt_get (data_frames a) (va_floor base + word_of_nat k) = Some (P k)"
proof -
  have am: "area_mapped (mem mc) (ms_root ms) a" using inv a by (simp add: ms_inv_def)
  have R: "range_new (va_floor base) (va_floor base + word_of_nat n) = Some (area_range a)"
    using am by (simp add: area_mapped_def rng)
  have fl: "unat (va_floor base + word_of_nat k) = unat base div 4096 + k" if "k \<le> n" for k
    using that base(2) by (subst unat_add_u64_small) (simp_all add: unat_va_floor unat_of_nat_u64)
  have "\<exists>f. bt_get (data_frames a) (va_floor base + word_of_nat k) = Some f \<and>
      pt_view (mem mc) (ms_root ms) (va_floor base + word_of_nat k) = Some (pte_new f (area_perm a OR PTE_V))" if "k < n" for k
  proof -
    have "va_floor base + word_of_nat k \<in> set (range_list (area_range a))"
      using that range_list_set [OF R] by (simp add: fl unat_va_floor)
    from area_mapped_get [OF am this] show ?thesis by metis
  qed
  then obtain P where P: "\<And>k. k < n \<Longrightarrow> bt_get (data_frames a) (va_floor base + word_of_nat k) = Some (P k)"
    "\<And>k. k < n \<Longrightarrow> pt_view (mem mc) (ms_root ms) (va_floor base + word_of_nat k) = Some (pte_new (P k) (area_perm a OR PTE_V))"
    by metis
  let ?e = "\<lambda>k. pte_new (P k) (area_perm a OR PTE_V)"
  have Pa: "P k \<in> set (area_frames a)" if "k < n" for k by (rule area_frame_mem [OF P(1) [OF that]])
  have ppn: "pte_ppn (?e k) = P k" if "k < n" for k
    using ms_frame_ok [OF inv area_frame_ms [OF a Pa [OF that]]] by (simp add: pte_ppn_new frame_ok_def)
  have "inj_on P {..<n}"
  proof (rule inj_onI)
    fix i j
    assume ij: "i \<in> {..<n}" "j \<in> {..<n}" "P i = P j"
    have "va_floor base + word_of_nat i = va_floor base + word_of_nat j"
      using bt_values_inj [of "data_frames a"] area_frames_distinct [OF inv a] P(1) ij
      by (metis area_frames_def lessThan_iff)
    then have "unat (va_floor base + word_of_nat i) = unat (va_floor base + word_of_nat j)" by simp
    then show "i = j" using ij by (simp add: fl)
  qed
  then have inj: "inj_on (\<lambda>k. pte_ppn (?e k)) {..<n}" using ppn by (auto simp: inj_on_def)
  have "user_region (ms_token ms) base (page_addrs (\<lambda>k. pte_ppn (?e k)) n) (mem mc)"
  proof (rule user_region_pages [OF _ _ base P(2) _ inj])
    show "pt_tree (mem mc) (ms_root ms) (set (pt_frames (ms_page_table ms)))"
      using inv by (simp add: ms_inv_def pt_inv_def)
    show "root_ppn (page_table_from_token (ms_token ms)) = ms_root ms"
      by (simp add: ms_token_def root_of_token [OF ms_root_ok [OF inv]])
    show "pte_ppn (?e k) \<notin> set (pt_frames (ms_page_table ms))" if "k < n" for k
      using data_frame_not_table [OF inv a Pa [OF that]] ppn [OF that] by simp
  qed
  moreover have "page_addrs (\<lambda>k. pte_ppn (?e k)) n = page_addrs P n"
    using ppn by (auto simp: page_addrs_def less_mult_imp_div_less)
  ultimately show ?thesis using that P(1) by simp
qed


abbreviation area_vpns :: vpn_range where
  "area_vpns \<equiv> \<lparr>range_l = 0x80000, range_r = 0x80010\<rparr>"

lemma area_vpns_new: "range_new 0x80000 0x80010 = Some area_vpns"
  by (simp add: range_new_def)

lemma area_bounds:
  "va_from_usize CONTEXT_AREA_BASE = 0x80000000" "align_up CONTEXT_AREA_DEFAULT_SIZE = 0x10000"
  "va_from_usize (CONTEXT_AREA_BASE + 0x10000) = 0x80010000"
  "va_floor 0x80000000 = 0x80000" "va_ceil 0x80010000 = 0x80010"
proof -
  show "va_from_usize CONTEXT_AREA_BASE = 0x80000000" "va_from_usize (CONTEXT_AREA_BASE + 0x10000) = 0x80010000"
    by (simp_all add: layout_defs va_from_usize_id)
  have "(0x10000 + 0xFFF :: usize) AND NOT 0xFFF = 0x10000"
    by simp
  then show "align_up CONTEXT_AREA_DEFAULT_SIZE = 0x10000" by (simp add: align_up_def layout_defs)
  show "va_floor 0x80000000 = 0x80000" "va_ceil 0x80010000 = 0x80010"
    by (simp_all add: word_unat_eq_iff unat_va_floor unat_va_ceil_sv39)
qed

lemma length_header_bytes:
  "length (h_reserved h) = 192 \<Longrightarrow> length pad = 4 \<Longrightarrow> length (header_bytes pad h) = 248"
  by (simp add: header_bytes_def)

lemma zero_pages_content:
  assumes "\<And>k. k < n \<Longrightarrow> zero_frame (P k) m"
  shows "map m (page_addrs P n) = replicate (n * 4096) 0"
proof (rule nth_equalityI)
  fix i
  assume "i < length (map m (page_addrs P n))"
  then have i: "i < n * 4096" by (simp add: page_addrs_def)
  then have k: "i div 4096 < n" by (simp add: less_mult_imp_div_less)
  have "load_bytes m (pa_from_ppn (P (i div 4096))) 4096 ! (i mod 4096) = 0"
    using assms [OF k] by (simp add: zero_frame_def)
  then show "map m (page_addrs P n) ! i = replicate (n * 4096) 0 ! i"
    using i by (simp add: page_addrs_def)
qed (simp add: page_addrs_def)

text \<open>A successful allocation, whatever the address space held before.\<close>

lemma context_area_allocated:
  assumes inv: "ms_inv l r (ms, mc)"
    and run: "context_area_allocate CONTEXT_AREA_DEFAULT_SIZE (ms, mc) = Some (area, ms', mc')"
  obtains addrs where "area = \<lparr>area_base = 0x80000000, area_bytes = 0x10000\<rparr>" "ms_inv l r (ms', mc')"
    "length addrs = 0x10000" "user_region (ms_token ms') 0x80000000 addrs (mem mc')"
    "map (mem mc') addrs = replicate 0x10000 0"
    "\<forall>v\<in>set (range_list area_vpns). pt_view (mem mc) (ms_root ms) v = None"
proof -
  from run have ins: "insert_framed_area 0x80000000 0x80010000 (MAP_R OR MAP_W OR MAP_U) (ms, mc) = Some (ms', mc')"
    and area: "area = \<lparr>area_base = 0x80000000, area_bytes = 0x10000\<rparr>"
    by (auto simp: context_area_allocate_def area_bounds Let_def split: bind_splits)
  from insert_framed_area_added [OF inv _ _ ins] obtain a0 where
    "area_range a0 = area_vpns" and A: "area_added l r a0 (ms, mc) (ms', mc')"
    by (auto simp: area_bounds)
  then obtain a where a: "a \<in> set (ms_areas ms')" "area_range a = area_vpns"
    and z: "\<And>v f. bt_get (data_frames a) v = Some f \<Longrightarrow> zero_frame f (mem mc')"
    and inv': "ms_inv l r (ms', mc')"
    and none: "\<forall>v\<in>set (range_list area_vpns). pt_view (mem mc) (ms_root ms) v = None"
    by (fastforce simp: area_added_def)
  have "va_page_offset (0x80000000 :: usize) = 0" by (simp add: word_unat_eq_iff unat_va_page_offset)
  then obtain P where P: "user_region (ms_token ms') 0x80000000 (page_addrs P 16) (mem mc')"
    "\<And>k. k < 16 \<Longrightarrow> bt_get (data_frames a) (0x80000 + word_of_nat k) = Some (P k)"
    using framed_area_region [OF inv' a(1), of "0x80000000" 16] a(2) by (auto simp: area_bounds)
  have "map (mem mc') (page_addrs P 16) = replicate (16 * 4096) 0"
    by (rule zero_pages_content) (use z P(2) in blast)
  moreover have "length (page_addrs P 16) = 0x10000" by (simp add: page_addrs_def)
  ultimately show ?thesis using that [of "page_addrs P 16"] area inv' P(1) none by simp
qed

lemma init_header_ok:
  assumes "user_region token 0x80000000 addrs m" "length addrs = 0x10000" "map m addrs = replicate 0x10000 0"
    "length pad = 4" "area_base area = 0x80000000"
  shows "\<exists>m'. init_header pad area token m = Some m' \<and> user_region token 0x80000000 addrs m' \<and>
     map m' addrs = header_bytes pad initial_header @ replicate (0x10000 - 248) 0"
proof -
  have len: "length (header_bytes pad initial_header) = 248"
    using assms(4) by (simp add: length_header_bytes initial_header_def)
  from um.wr_ok [OF assms(1), of 0 "header_bytes pad initial_header"] len assms(2,3,5)
  show ?thesis by (auto simp: init_header_def splice_def drop_replicate)
qed

lemma context_area_init:
  assumes inv: "ms_inv l r (ms, mc)" and pad: "length pad = 4"
    and unmapped: "\<forall>v\<in>set (range_list area_vpns). pt_view (mem mc) (ms_root ms) v = None"
    and free: "48 \<le> frames_free (frame_allocator mc)"
  shows "\<exists>area ms' mc' addrs m.
     context_area_allocate CONTEXT_AREA_DEFAULT_SIZE (ms, mc) = Some (area, ms', mc') \<and>
     area = \<lparr>area_base = 0x80000000, area_bytes = 0x10000\<rparr> \<and> ms_inv l r (ms', mc') \<and>
     length addrs = 0x10000 \<and>
     init_header pad area (ms_token ms') (mem mc') = Some m \<and>
     user_region (ms_token ms') 0x80000000 addrs m \<and>
     map m addrs = header_bytes pad initial_header @ replicate (0x10000 - 248) 0"
proof -
  have "length (range_list area_vpns) = 16" using length_range_list [OF area_vpns_new] by simp
  with free obtain ms' mc' where
    "insert_framed_area 0x80000000 0x80010000 (MAP_R OR MAP_W OR MAP_U) (ms, mc) = Some (ms', mc')"
    using insert_framed_area_returns [OF inv, of "0x80000000" "0x80010000" area_vpns "MAP_R OR MAP_W OR MAP_U"] unmapped
    by (auto simp: area_bounds area_vpns_new)
  then have run: "context_area_allocate CONTEXT_AREA_DEFAULT_SIZE (ms, mc) =
      Some (\<lparr>area_base = 0x80000000, area_bytes = 0x10000\<rparr>, ms', mc')"
    by (simp add: context_area_allocate_def area_bounds Let_def)
  from context_area_allocated [OF inv run] obtain addrs where a: "ms_inv l r (ms', mc')" "length addrs = 0x10000"
    "user_region (ms_token ms') 0x80000000 addrs (mem mc')" "map (mem mc') addrs = replicate 0x10000 0" by blast
  from init_header_ok [OF a(3,2,4) pad] run a(1,2) show ?thesis by fastforce
qed

text \<open>
  C28: creating the context area of an agent.  In an address space whose 16 pages from
  \<open>0x80000000\<close> are free and with 48 frames left, \<open>AgentContextArea::allocate\<close> with the default
  size and \<open>init_header\<close> return; the area is 64 KiB of memory the process can reach through
  its page table, its header carries the fields of \<open>AreaHeader\<close> in their C layout, and every
  other byte of the area is zero.
\<close>

theorem context_area_ready:
  assumes inv: "ms_inv l r (ms, mc)" and pad: "length pad = 4"
    and unmapped: "\<forall>v\<in>set (range_list area_vpns). pt_view (mem mc) (ms_root ms) v = None"
    and free: "48 \<le> frames_free (frame_allocator mc)"
  shows "\<exists>area ms' mc' addrs m.
     context_area_allocate CONTEXT_AREA_DEFAULT_SIZE (ms, mc) = Some (area, ms', mc') \<and>
     area = \<lparr>area_base = 0x80000000, area_bytes = 0x10000\<rparr> \<and> ms_inv l r (ms', mc') \<and>
     length addrs = 0x10000 \<and>
     init_header pad area (ms_token ms') (mem mc') = Some m \<and>
     user_region (ms_token ms') 0x80000000 addrs m \<and>
     map m addrs = header_bytes pad initial_header @ replicate (0x10000 - 248) 0"
  using assms by (rule context_area_init)

theorem context_area_ready_witness:
  "\<exists>ms mc area ms' mc' m. memory_set_new_bare demo_machine = Some (ms, mc) \<and>
     context_area_allocate CONTEXT_AREA_DEFAULT_SIZE (ms, mc) = Some (area, ms', mc') \<and>
     init_header [0, 0, 0, 0] area (ms_token ms') (mem mc') = Some m"
proof -
  obtain ms mc where s: "memory_set_new_bare demo_machine = Some (ms, mc)" "ms_inv 0x80400 0x88000 (ms, mc)"
    "\<And>v. pt_view (mem mc) (ms_root ms) v = None" "frames_free (frame_allocator mc) = 0x7BFF"
    using demo_space by blast
  from context_area_ready [OF s(2), of "[0, 0, 0, 0]"] s(1,3,4) show ?thesis by fastforce
qed

text \<open>
  C29: \<open>read_user_bytes\<close> and \<open>write_user_bytes\<close> see a mapped user region as a byte array,
  although its pages are scattered over physical memory and the ranges they are called with
  cross page boundaries: both return, a write replaces exactly the addressed bytes and
  nothing else in memory, and a read returns the addressed bytes.
\<close>

theorem user_bytes_are_an_array:
  assumes "user_region token base addrs m" "off + length bs \<le> length addrs" "i + length buf \<le> length addrs"
  shows "\<exists>m'. write_user_bytes token (base + word_of_nat off) bs m = Some m' \<and>
     user_region token base addrs m' \<and>
     map m' addrs = splice off bs (map m addrs) \<and>
     (\<forall>x. x \<notin> set addrs \<longrightarrow> m' x = m x) \<and>
     read_user_bytes token (base + word_of_nat i) buf m' =
       Some (slice_at i (length buf) (splice off bs (map m addrs)))"
proof -
  from um.wr_ok [OF assms(1,2)] obtain m' where m':
    "write_user_bytes token (base + word_of_nat off) bs m = Some m'" "user_region token base addrs m'"
    "map m' addrs = splice off bs (map m addrs)" "region_outside addrs m' = region_outside addrs m" by blast
  have "m' x = m x" if "x \<notin> set addrs" for x
    using fun_cong [OF m'(4), of x] that by (simp add: region_outside_def)
  moreover have "read_user_bytes token (base + word_of_nat i) buf m' = Some (slice_at i (length buf) (map m' addrs))"
    using um.rd_ok [OF m'(2) assms(3)] .
  ultimately show ?thesis using m' by auto
qed

text \<open>The demonstration machine with the context area of an agent.\<close>

lemma demo_area:
  obtains token addrs m where "user_region token 0x80000000 addrs m" "length addrs = 0x10000"
    "map m addrs = header_bytes [0, 0, 0, 0] initial_header @ replicate (0x10000 - 248) 0"
proof -
  obtain ms mc where s: "memory_set_new_bare demo_machine = Some (ms, mc)" "ms_inv 0x80400 0x88000 (ms, mc)"
    "\<And>v. pt_view (mem mc) (ms_root ms) v = None" "frames_free (frame_allocator mc) = 0x7BFF"
    using demo_space by blast
  have "\<exists>ms' mc'. insert_framed_area 0x80000000 0x80010000 (MAP_R OR MAP_W OR MAP_U) (ms, mc) = Some (ms', mc')"
    using insert_framed_area_returns [OF s(2), of "0x80000000" "0x80010000" area_vpns "MAP_R OR MAP_W OR MAP_U"] s(3,4)
      length_range_list [OF area_vpns_new]
    by (auto simp: area_bounds area_vpns_new)
  then obtain area ms' mc' where run: "context_area_allocate CONTEXT_AREA_DEFAULT_SIZE (ms, mc) = Some (area, ms', mc')"
    by (auto simp: context_area_allocate_def area_bounds Let_def)
  from context_area_allocated [OF s(2) run] obtain addrs where
    a: "user_region (ms_token ms') 0x80000000 addrs (mem mc')" "length addrs = 0x10000"
      "map (mem mc') addrs = replicate 0x10000 0" "area = \<lparr>area_base = 0x80000000, area_bytes = 0x10000\<rparr>" by blast
  from init_header_ok [OF a(1-3), of "[0, 0, 0, 0]" area] a(2,4) that show ?thesis by auto
qed

theorem user_bytes_are_an_array_witness:
  "\<exists>token addrs m m'. write_user_bytes token (0x80000000 + word_of_nat 4090) [1, 2, 3, 4, 5, 6, 7, 8, 9] m = Some m' \<and>
     length addrs = 0x10000 \<and>
     read_user_bytes token (0x80000000 + word_of_nat 4094) [0, 0, 0] m' =
       Some (slice_at 4094 3 (splice 4090 [1, 2, 3, 4, 5, 6, 7, 8, 9] (map m addrs)))"
proof -
  obtain token addrs m where a: "user_region token 0x80000000 addrs m" "length addrs = 0x10000"
    using demo_area by blast
  have l: "4090 + length [1, 2, 3, 4, 5, 6, 7, 8, 9 :: u8] \<le> length addrs" "4094 + length [0, 0, 0 :: u8] \<le> length addrs"
    and l3: "length [0, 0, 0 :: u8] = 3" using a(2) by simp_all
  from user_bytes_are_an_array [OF a(1) l, unfolded l3] a(2) show ?thesis by blast
qed

section \<open>The ring holds what was written\<close>

text \<open>A numeral offset from the base, as the byte-array laws spell it.\<close>

lemma um_write:
  assumes "user_region token base addrs m" "unat off + length bs \<le> length addrs"
  shows "\<exists>m'. write_user_bytes token (base + off) bs m = Some m' \<and> user_region token base addrs m' \<and>
     map m' addrs = splice (unat off) bs (map m addrs) \<and> region_outside addrs m' = region_outside addrs m"
  using um.wr_ok [OF assms] by simp

lemma um_read:
  assumes "user_region token base addrs m" "unat off + length buf \<le> length addrs"
  shows "read_user_bytes token (base + off) buf m = Some (slice_at (unat off) (length buf) (map m addrs))"
  using um.rd_ok [OF assms] by simp

text \<open>Where the next result goes: the code takes the position from the four bytes at offset 20
  of the header.\<close>

definition ring_start :: "u8 list \<Rightarrow> nat \<Rightarrow> nat" where
  "ring_start c n = (let p = unat (from_le_bytes (slice_at 20 4 c) :: u32) in if 0x4000 < p + n then 0 else p)"

lemma ring_start_bound: "n \<le> 0x4000 \<Longrightarrow> ring_start c n + n \<le> 0x4000"
  by (simp add: ring_start_def Let_def)

lemma write_tool_result_ok:
  assumes reg: "user_region token base addrs m" and len: "0x4100 \<le> length addrs" "length data \<le> 0x4000"
    and b: "area_base area = base"
  shows "\<exists>m'. write_tool_result area token data m =
       Some (Some (word_of_nat (0x100 + ring_start (map m addrs) (length data)), word_of_nat (length data)), m') \<and>
     user_region token base addrs m' \<and> region_outside addrs m' = region_outside addrs m \<and>
     map m' addrs =
       splice 20 (to_le_bytes (word_of_nat (ring_start (map m addrs) (length data) + length data) :: u32))
         (splice 8 (to_le_bytes ((from_le_bytes (slice_at 8 8 (map m addrs)) :: u64) + 2))
           (splice (0x100 + ring_start (map m addrs) (length data)) data (map m addrs)))"
proof -
  let ?c = "map m addrs"
  let ?st = "ring_start ?c (length data)"
  define start :: usize where "start = word_of_nat ?st"
  have st: "?st + length data \<le> 0x4000" using len(2) by (rule ring_start_bound)
  have us: "unat start = ?st" using st by (simp add: start_def unat_of_nat_u64)
  have rd: "read_user_bytes token base (replicate 256 0) m = Some (slice_at 0 256 ?c)"
    using um_read [OF reg, of 0 "replicate 256 0"] len(1) by simp
  have sl: "slice_at 20 4 (slice_at 0 256 ?c) = slice_at 20 4 ?c" "slice_at 8 8 (slice_at 0 256 ?c) = slice_at 8 8 ?c"
    by (simp_all add: slice_at_def drop_take min_def)
  let ?cur = "ucast (from_le_bytes (slice_at 20 4 ?c) :: u32) :: usize"
  have cur: "(if TOOL_RESULT_LEN < ?cur + word_of_nat (length data) then 0 else ?cur) = start"
  proof -
    have "unat (from_le_bytes (slice_at 20 4 ?c) :: u32) < 2 ^ 32"
      using unat_bound [of "from_le_bytes (slice_at 20 4 ?c) :: u32"] by simp
    then have c: "unat ?cur < 2 ^ 32" "unat ?cur = unat (from_le_bytes (slice_at 20 4 ?c) :: u32)"
      by simp_all
    have "unat (?cur + word_of_nat (length data)) = unat ?cur + length data"
      using c(1) len(2) by (subst unat_add_u64_small) (simp_all add: unat_of_nat_u64)
    with c(2) show ?thesis
      by (auto simp: start_def ring_start_def Let_def TOOL_RESULT_LEN_def word_less_unat word_unat_eq_iff unat_of_nat_u64
          split: if_splits)
  qed
  have u1: "unat (0x100 + start) = 0x100 + ?st"
    using st us by (subst unat_add_u64_small) simp_all
  obtain m1 where m1: "write_user_bytes token (base + (0x100 + start)) data m = Some m1" "user_region token base addrs m1"
    "map m1 addrs = splice (0x100 + ?st) data ?c" "region_outside addrs m1 = region_outside addrs m"
    using um_write [OF reg, of "0x100 + start" data] st len(1) by (auto simp: u1)
  obtain m2 where m2: "write_user_bytes token (base + 8) (to_le_bytes ((from_le_bytes (slice_at 8 8 ?c) :: u64) + 2)) m1 = Some m2"
    "user_region token base addrs m2" "region_outside addrs m2 = region_outside addrs m1"
    "map m2 addrs = splice 8 (to_le_bytes ((from_le_bytes (slice_at 8 8 ?c) :: u64) + 2)) (map m1 addrs)"
    using um_write [OF m1(2), of 8 "to_le_bytes ((from_le_bytes (slice_at 8 8 ?c) :: u64) + 2)"] len(1) by auto
  have np: "(ucast (start + word_of_nat (length data)) :: u32) = word_of_nat (?st + length data)"
    unfolding start_def of_nat_add [symmetric] by (rule ucast_of_nat_u32)
  obtain m3 where m3: "write_user_bytes token (base + 20) (to_le_bytes (word_of_nat (?st + length data) :: u32)) m2 = Some m3"
    "user_region token base addrs m3" "region_outside addrs m3 = region_outside addrs m2"
    "map m3 addrs = splice 20 (to_le_bytes (word_of_nat (?st + length data) :: u32)) (map m2 addrs)"
    using um_write [OF m2(2), of 20 "to_le_bytes (word_of_nat (?st + length data) :: u32)"] len(1) by auto
  have ofs: "(ucast (TOOL_RESULT_OFF + start) :: u32) = word_of_nat (0x100 + ?st)"
    using ucast_of_nat_u32 [of "0x100 + ?st"] by (simp add: start_def TOOL_RESULT_OFF_def)
  have "write_tool_result area token data m = Some (Some (word_of_nat (0x100 + ?st), word_of_nat (length data)), m3)"
    unfolding write_tool_result_def b rd Option.bind.simps Let_def sl cur np ofs
    using len(2) m1(1) m2(1) m3(1)
    by (simp add: TOOL_RESULT_LEN_def TOOL_RESULT_OFF_def add.assoc del: of_nat_add)
  with m1 m2 m3 show ?thesis by simp
qed



end
