(* ===== verification/Context_Path.thy ===== *)
theory Context_Path
  imports Context_Area Agent_Proto
begin

text \<open>
  The context path of an agent (\<open>os/src/agent/context_path.rs\<close>): a log of tool calls.  The
  bytes of the nodes lie back to back in the path buffer of the context area, the kernel
  keeps their offsets in \<open>path_meta\<close>.  Appending evicts nodes until the quota holds and
  closes the gap by shifting the rest of the buffer to the left in chunks.

  An operation takes the extension record and the memory, and returns \<open>None\<close> when the kernel
  panics, otherwise its \<open>Result\<close> with the new record and memory.  The clock reading is an
  argument.
\<close>

section \<open>Operations\<close>

type_synonym path_state = "agent_ext \<times> memory"

definition NODE_HEADER_SIZE :: usize where "NODE_HEADER_SIZE = 8 + 8 + 4 + 4"

definition node_total_size :: "usize \<Rightarrow> usize \<Rightarrow> usize" where
  "node_total_size req_len resp_len = NODE_HEADER_SIZE + req_len + resp_len"

definition sync_header :: "agent_ext \<Rightarrow> usize \<Rightarrow> memory \<Rightarrow> memory option" where
  "sync_header ext token m = do {
     let used = path_used_bytes ext;
     let count = (word_of_nat (length (path_meta ext)) :: u32);
     let base = context_area_base ext;
     m \<leftarrow> write_user_bytes token (base + 36) (to_le_bytes used) m;
     write_user_bytes token (base + 40) (to_le_bytes count) m
   }"

definition write_node_at :: "usize \<Rightarrow> usize \<Rightarrow> u32 \<Rightarrow> u64 \<Rightarrow> u64 \<Rightarrow> u8 list \<Rightarrow> u8 list \<Rightarrow> memory \<Rightarrow> memory option" where
  "write_node_at token path_buffer_va off sq ts req resp m = do {
     let header = to_le_bytes sq @ to_le_bytes ts @ to_le_bytes (word_of_nat (length req) :: u32) @
                  to_le_bytes (word_of_nat (length resp) :: u32);
     let abs_va = path_buffer_va + ucast off;
     m \<leftarrow> write_user_bytes token abs_va header m;
     m \<leftarrow> write_user_bytes token (abs_va + NODE_HEADER_SIZE) req m;
     write_user_bytes token (abs_va + NODE_HEADER_SIZE + word_of_nat (length req)) resp m
   }"

definition CHUNK :: usize where "CHUNK = 256"

function shift_loop :: "usize \<Rightarrow> usize \<Rightarrow> u32 \<Rightarrow> u32 \<Rightarrow> u32 \<Rightarrow> u8 list \<Rightarrow> u32 \<Rightarrow> memory \<Rightarrow> memory option" where
  "shift_loop token path_buffer_va from_off n_bytes shift buf copied m =
     (if copied < n_bytes then do {
        let n = min (ucast (n_bytes - copied) :: usize) CHUNK;
        bs \<leftarrow> read_user_bytes token (path_buffer_va + ucast (from_off + copied)) (take (unat n) buf) m;
        m \<leftarrow> write_user_bytes token (path_buffer_va + ucast (from_off + copied - shift)) bs m;
        shift_loop token path_buffer_va from_off n_bytes shift (bs @ drop (unat n) buf) (copied + ucast n) m
      } else Some m)"
  by pat_completeness auto
termination
proof (relation "measure (\<lambda>(_, _, _, n_bytes, _, _, copied, _). unat n_bytes - unat copied)", goal_cases)
  case (2 token va from_off n_bytes shift buf copied m n)
  let ?k = "min (unat n_bytes - unat copied) 256"
  have n: "unat n = ?k"
    using 2(1) by (simp add: 2(2) CHUNK_def min_def word_le_unat unat_sub word_less_unat order_less_imp_le)
  have "unat n_bytes < 2 ^ 32" using unat_bound [of n_bytes] by simp
  then have "unat (copied + ucast n :: u32) = unat copied + ?k"
    using 2(1) n by (subst unat_add_u32_small) (simp_all add: unsigned_ucast_eq take_bit_nat_eq_self word_less_unat)
  with 2(1) show ?case by (simp add: word_less_unat)
qed simp

declare shift_loop.simps [simp del]

definition shift_path_buffer_left :: "usize \<Rightarrow> usize \<Rightarrow> u32 \<Rightarrow> u32 \<Rightarrow> u32 \<Rightarrow> memory \<Rightarrow> memory option" where
  "shift_path_buffer_left token path_buffer_va from_off n_bytes shift m =
     (if n_bytes = 0 \<or> shift = 0 then Some m
      else shift_loop token path_buffer_va from_off n_bytes shift (replicate (unat CHUNK) 0) 0 m)"

text \<open>\<open>Iterator::min_by_key\<close> over \<open>enumerate\<close>: the index of the first minimum.\<close>

fun min_index_by :: "('a \<Rightarrow> 'b::linorder) \<Rightarrow> 'a list \<Rightarrow> nat option" where
  "min_index_by key [] = None"
| "min_index_by key (x # xs) =
     (case min_index_by key xs of
        None \<Rightarrow> Some 0
      | Some j \<Rightarrow> if key x \<le> key (xs ! j) then Some 0 else Some (Suc j))"

definition pick_victim :: "agent_ext \<Rightarrow> nat option" where
  "pick_victim ext =
     (if path_meta ext = [] then None
      else (case policy (ext_quota ext) of
              Fifo \<Rightarrow> Some 0
            | Lru \<Rightarrow> min_index_by write_time (path_meta ext)))"

definition evict_one :: "usize \<Rightarrow> path_state \<Rightarrow> (unit agent_result \<times> path_state) option" where
  "evict_one token = (\<lambda>(ext, m).
     (case pick_victim ext of
        None \<Rightarrow> Some (Inl NotFound, ext, m)
      | Some victim_idx \<Rightarrow> do {
          let victim = path_meta ext ! victim_idx;
          let path_buffer_va = context_area_base ext + PATH_BUFFER_OFF;
          let move_from = offset_in_buffer victim + node_len victim;
          let move_len = saturating_sub (path_used_bytes ext) move_from;
          m \<leftarrow> shift_path_buffer_left token path_buffer_va move_from move_len (node_len victim) m;
          let metas = vec_remove victim_idx (path_meta ext);
          let metas = map (\<lambda>p. if move_from \<le> offset_in_buffer p
                                then p\<lparr>offset_in_buffer := offset_in_buffer p - node_len victim\<rparr> else p) metas;
          Some (Inr (), ext\<lparr>path_meta := metas,
                            path_used_bytes := saturating_sub (path_used_bytes ext) (node_len victim)\<rparr>, m)
        }))"

lemma min_index_by_less: "min_index_by key xs = Some j \<Longrightarrow> j < length xs"
  by (induction xs arbitrary: j) (auto split: option.splits if_splits)

lemma evict_one_shrinks:
  assumes "evict_one token (ext, m) = Some (Inr u, ext', m')"
  shows "length (path_meta ext') < length (path_meta ext)"
proof -
  from assms obtain i where i: "pick_victim ext = Some i" by (auto simp: evict_one_def split: option.splits)
  then have "i < length (path_meta ext)"
    by (auto simp: pick_victim_def min_index_by_less split: if_splits evict_policy.splits)
  with assms i show ?thesis
    by (auto simp: evict_one_def Let_def vec_remove_def split: bind_splits)
qed

text \<open>The loop of \<open>push_node\<close> that evicts until there is room.\<close>

function evict_loop :: "usize \<Rightarrow> u32 \<Rightarrow> path_state \<Rightarrow> (unit agent_result \<times> path_state) option" where
  "evict_loop token sz (ext, m) =
     (if max_bytes (ext_quota ext) < path_used_bytes ext + sz \<or>
         max_nodes (ext_quota ext) \<le> word_of_nat (length (path_meta ext))
      then if path_meta ext = [] then Some (Inl InternalError, ext, m)
           else (case evict_one token (ext, m) of
                   None \<Rightarrow> None
                 | Some (Inl e, s) \<Rightarrow> Some (Inl e, s)
                 | Some (Inr u, s) \<Rightarrow> evict_loop token sz s)
      else Some (Inr (), ext, m))"
  by pat_completeness auto
termination
  by (relation "measure (\<lambda>(_, _, ext, _). length (path_meta ext))") (auto dest: evict_one_shrinks)

declare evict_loop.simps [simp del]

definition push_node :: "u64 \<Rightarrow> usize \<Rightarrow> u8 list \<Rightarrow> u8 list \<Rightarrow> path_state \<Rightarrow> (nat agent_result \<times> path_state) option" where
  "push_node now token req_summary resp_summary = (\<lambda>(ext, m).
     let sz = (ucast (node_total_size (word_of_nat (length req_summary)) (word_of_nat (length resp_summary))) :: u32) in
     if PATH_BUFFER_LEN < ucast sz then Some (Inl QuotaExceeded, ext, m)
     else if max_bytes (ext_quota ext) < sz then Some (Inl QuotaExceeded, ext, m)
     else
       (case evict_loop token sz (ext, m) of
          None \<Rightarrow> None
        | Some (Inl e, s) \<Rightarrow> Some (Inl e, s)
        | Some (Inr u, ext, m) \<Rightarrow> do {
            let offset = path_used_bytes ext;
            let sq = next_seq ext;
            let path_buffer_va = context_area_base ext + PATH_BUFFER_OFF;
            m \<leftarrow> write_node_at token path_buffer_va offset sq now req_summary resp_summary m;
            let meta = \<lparr>offset_in_buffer = offset, node_len = sz, write_time = now, node_seq = sq\<rparr>;
            let ext = ext\<lparr>path_meta := path_meta ext @ [meta],
                          path_used_bytes := path_used_bytes ext + sz,
                          next_seq := next_seq ext + 1\<rparr>;
            m \<leftarrow> sync_header ext token m;
            Some (Inr (length (path_meta ext) - 1), ext, m)
          }))"

definition path_rollback :: "usize \<Rightarrow> nat \<Rightarrow> path_state \<Rightarrow> (unit agent_result \<times> path_state) option" where
  "path_rollback token node_count = (\<lambda>(ext, m).
     if length (path_meta ext) < node_count then Some (Inl NotFound, ext, m)
     else do {
       let ext = (if node_count = 0 then ext\<lparr>path_meta := [], path_used_bytes := 0\<rparr>
                  else let last = path_meta ext ! (node_count - 1);
                           new_used = offset_in_buffer last + node_len last
                       in ext\<lparr>path_meta := take node_count (path_meta ext), path_used_bytes := new_used\<rparr>);
       m \<leftarrow> sync_header ext token m;
       Some (Inr (), ext, m)
     })"

definition path_clear :: "usize \<Rightarrow> path_state \<Rightarrow> path_state option" where
  "path_clear token = (\<lambda>(ext, m). do {
     let ext = ext\<lparr>path_meta := [], path_used_bytes := 0\<rparr>;
     m \<leftarrow> sync_header ext token m;
     Some (ext, m)
   })"

text \<open>\<open>serialize_meta\<close>: the serializer (\<open>postcard::to_allocvec\<close>) is a parameter.\<close>

definition serialize_meta :: "'e postcard \<Rightarrow> agent_ext \<Rightarrow> u8 list agent_result" where
  "serialize_meta pc ext =
     (let items = map (\<lambda>p. (offset_in_buffer p, node_len p, node_seq p, write_time p)) (path_meta ext)
      in case pc_meta_list pc items of Inr bs \<Rightarrow> Inr bs | Inl e \<Rightarrow> Inl InternalError)"

end
