(* ===== verification/Context_Path_Laws.thy ===== *)
theory Context_Path_Laws
  imports Context_Path
begin

text \<open>
  What the context path promises: it is a bounded log.  Abstractly a path is a list of nodes;
  \<open>path_inv\<close> ties it to the metadata of the kernel, to the bytes of the path buffer and to the
  two counters of the shared header.  Appending evicts by policy, rollback truncates, and each
  operation returns, keeps the invariant and touches nothing but the path buffer and the
  counters.
\<close>

section \<open>The abstract path\<close>

record path_node =
  pn_seq :: u64
  pn_ts :: u64
  pn_req :: "u8 list"
  pn_resp :: "u8 list"

definition node_size :: "path_node \<Rightarrow> nat" where
  "node_size nd = 24 + length (pn_req nd) + length (pn_resp nd)"

definition node_bytes :: "path_node \<Rightarrow> u8 list" where
  "node_bytes nd = to_le_bytes (pn_seq nd) @ to_le_bytes (pn_ts nd) @
     to_le_bytes (word_of_nat (length (pn_req nd)) :: u32) @ to_le_bytes (word_of_nat (length (pn_resp nd)) :: u32) @
     pn_req nd @ pn_resp nd"

definition path_total :: "path_node list \<Rightarrow> nat" where
  "path_total ns = sum_list (map node_size ns)"

definition path_bytes :: "path_node list \<Rightarrow> u8 list" where
  "path_bytes ns = concat (map node_bytes ns)"

fun path_metas :: "nat \<Rightarrow> path_node list \<Rightarrow> path_node_meta list" where
  "path_metas off [] = []"
| "path_metas off (nd # ns) =
     \<lparr>offset_in_buffer = word_of_nat off, node_len = word_of_nat (node_size nd), write_time = pn_ts nd,
      node_seq = pn_seq nd\<rparr> # path_metas (off + node_size nd) ns"

definition victim_of :: "evict_policy \<Rightarrow> path_node list \<Rightarrow> nat" where
  "victim_of pol ns = (case pol of Fifo \<Rightarrow> 0 | Lru \<Rightarrow> the (min_index_by pn_ts ns))"

function make_room :: "path_quota \<Rightarrow> nat \<Rightarrow> path_node list \<Rightarrow> path_node list" where
  "make_room q sz ns =
     (if ns \<noteq> [] \<and> (unat (max_bytes q) < path_total ns + sz \<or> unat (max_nodes q) \<le> length ns)
      then make_room q sz (vec_remove (victim_of (policy q) ns) ns) else ns)"
  by pat_completeness auto

lemma length_path_bytes: "length (path_bytes ns) = path_total ns"
  by (induction ns) (auto simp: path_bytes_def path_total_def node_bytes_def node_size_def)

lemma path_total_append [simp]: "path_total (xs @ ys) = path_total xs + path_total ys"
  by (simp add: path_total_def)

lemma path_total_simps [simp]: "path_total [] = 0" "path_total (nd # ns) = node_size nd + path_total ns"
  by (simp_all add: path_total_def)

lemma path_bytes_append [simp]: "path_bytes (xs @ ys) = path_bytes xs @ path_bytes ys"
  by (simp add: path_bytes_def)

lemma path_bytes_simps [simp]: "path_bytes [] = []" "path_bytes (nd # ns) = node_bytes nd @ path_bytes ns"
  by (simp_all add: path_bytes_def)

lemma node_size_pos: "0 < node_size nd"
  by (simp add: node_size_def)

lemma path_metas_append: "path_metas off (xs @ ys) = path_metas off xs @ path_metas (off + path_total xs) ys"
  by (induction xs arbitrary: off) (simp_all add: add.assoc)

lemma length_path_metas [simp]: "length (path_metas off ns) = length ns"
  by (induction ns arbitrary: off) auto

lemma path_metas_Nil [simp]: "path_metas off ns = [] \<longleftrightarrow> ns = []"
  by (cases ns) auto

lemma min_index_by_some: "xs \<noteq> [] \<Longrightarrow> \<exists>j<length xs. min_index_by key xs = Some j"
  by (cases "min_index_by key xs") (auto dest: min_index_by_less, cases xs, auto split: option.splits if_splits)

lemma victim_of_less: "ns \<noteq> [] \<Longrightarrow> victim_of pol ns < length ns"
  using min_index_by_some [of ns pn_ts] by (auto simp: victim_of_def split: evict_policy.splits)

termination make_room
proof (relation "measure (\<lambda>(_, _, ns). length ns)", goal_cases)
  case (2 q sz ns)
  with victim_of_less [of ns "policy q"] show ?case by (auto simp: vec_remove_def)
qed simp

declare make_room.simps [simp del]

lemma nth_path_metas: "j < length ns \<Longrightarrow> path_metas off ns ! j =
   \<lparr>offset_in_buffer = word_of_nat (off + path_total (take j ns)), node_len = word_of_nat (node_size (ns ! j)),
    write_time = pn_ts (ns ! j), node_seq = pn_seq (ns ! j)\<rparr>"
  by (induction ns arbitrary: off j) (auto simp: nth_Cons add.assoc simp del: of_nat_add split: nat.splits)

lemma min_index_by_path_metas: "min_index_by write_time (path_metas off ns) = min_index_by pn_ts ns"
  by (induction ns arbitrary: off) (auto simp: nth_path_metas split: option.splits dest: min_index_by_less)

section \<open>Shifting the buffer\<close>

text \<open>The chunked copy to the left is a \<open>memmove\<close>: each chunk is written below the bytes still
  to be read.\<close>

lemma slice_splice_step:
  assumes "dst \<le> src" "src + k + r \<le> length c"
  shows "splice (dst + k) (slice_at (src + k) r (splice dst (slice_at src k c) c)) (splice dst (slice_at src k c) c) =
     splice dst (slice_at src (k + r) c) c"
proof -
  have l: "length (slice_at src k c) = k" using assms(2) by (simp add: slice_at_length)
  have "slice_at (src + k) r (splice dst (slice_at src k c) c) = slice_at (src + k) r c"
    using assms l by (intro slice_at_splice_other) auto
  moreover have "splice (dst + k) (slice_at (src + k) r c) (splice dst (slice_at src k c) c) =
      splice dst (slice_at src k c @ slice_at (src + k) r c) c"
    using splice_splice [of dst "slice_at src k c" "slice_at (src + k) r c" c] l assms by (simp add: slice_at_length)
  moreover have "slice_at src k c @ slice_at (src + k) r c = slice_at src (k + r) c"
    by (simp add: slice_at_def take_add add.commute)
  ultimately show ?thesis by simp
qed

lemma shift_loop_ok:
  assumes "user_region token base addrs m" "length addrs = 0x10000" "unat shift \<le> unat from_off"
    "unat from_off + unat n \<le> 0x8000" "unat copied \<le> unat n" "length buf = 256"
  shows "\<exists>m'. shift_loop token (base + PATH_BUFFER_OFF) from_off n shift buf copied m = Some m' \<and>
     user_region token base addrs m' \<and> region_outside addrs m' = region_outside addrs m \<and>
     map m' addrs = splice (0x4100 + (unat from_off - unat shift) + unat copied)
       (slice_at (0x4100 + unat from_off + unat copied) (unat n - unat copied) (map m addrs)) (map m addrs)"
  using assms
proof (induction "unat n - unat copied" arbitrary: copied buf m rule: less_induct)
  case less
  show ?case
  proof (cases "copied < n")
    case False
    with less.prems(5) have "unat copied = unat n" by (simp add: word_less_unat)
    with False less.prems show ?thesis by (subst shift_loop.simps) (simp add: slice_at_def splice_def)
  next
    case True
    define k where "k = min (unat n - unat copied) 256"
    define w where "w = min (ucast (n - copied) :: usize) CHUNK"
    have w: "unat w = k"
      using True by (simp add: w_def k_def CHUNK_def min_def word_le_unat unat_sub word_less_unat order_less_imp_le)
    have k: "0 < k" "k \<le> 256" "unat copied + k \<le> unat n" using True by (auto simp: k_def word_less_unat)
    have cop: "unat (copied + ucast w) = unat copied + k"
      using k(3) w less.prems(4)
      by (subst unat_add_u32_small) (simp_all add: unsigned_ucast_eq take_bit_nat_eq_self)
    have src: "unat (PATH_BUFFER_OFF + ucast (from_off + copied)) = 0x4100 + unat from_off + unat copied"
      using less.prems(4,5) by (simp add: PATH_BUFFER_OFF_def unat_add_u64_small unat_add_u32_small)
    have "unat (from_off + copied - shift) = unat from_off + unat copied - unat shift"
      using less.prems(3-5) by (subst unat_sub) (simp_all add: word_le_unat unat_add_u32_small)
    then have dst: "unat (PATH_BUFFER_OFF + ucast (from_off + copied - shift)) = 0x4100 + (unat from_off - unat shift) + unat copied"
      using less.prems(3-5) by (simp add: PATH_BUFFER_OFF_def unat_add_u64_small)
    have tk: "min (length buf) (unat w) = k" using less.prems(6) k(2) w by simp
    let ?bs = "slice_at (0x4100 + unat from_off + unat copied) k (map m addrs)"
    have len: "length ?bs = k" using less.prems(2,4) k(3) by (intro slice_at_length) simp
    have rd: "read_user_bytes token (base + PATH_BUFFER_OFF + ucast (from_off + copied)) (take (unat w) buf) m = Some ?bs"
      using um_read [OF less.prems(1), of "PATH_BUFFER_OFF + ucast (from_off + copied)" "take (unat w) buf"]
        less.prems(2,4) k(3) by (simp add: src tk add.assoc)
    have room: "unat (PATH_BUFFER_OFF + ucast (from_off + copied - shift)) + length ?bs \<le> length addrs"
      unfolding dst len using less.prems(2,4) k(3) by linarith
    obtain m1 where m1: "write_user_bytes token (base + PATH_BUFFER_OFF + ucast (from_off + copied - shift)) ?bs m = Some m1"
      "user_region token base addrs m1" "region_outside addrs m1 = region_outside addrs m"
      "map m1 addrs = splice (0x4100 + (unat from_off - unat shift) + unat copied) ?bs (map m addrs)"
      using um_write [OF less.prems(1) room] unfolding dst by (auto simp: add.assoc)
    have "unat n - unat (copied + ucast w) < unat n - unat copied" using k cop by simp
    from less.hyps [OF this m1(2) less.prems(2-4), of "?bs @ drop (unat w) buf"] k cop len less.prems(6) w
    obtain m2 where m2: "shift_loop token (base + PATH_BUFFER_OFF) from_off n shift (?bs @ drop (unat w) buf) (copied + ucast w) m1 = Some m2"
      "user_region token base addrs m2" "region_outside addrs m2 = region_outside addrs m1"
      "map m2 addrs = splice (0x4100 + (unat from_off - unat shift) + (unat copied + k))
         (slice_at (0x4100 + unat from_off + (unat copied + k)) (unat n - (unat copied + k)) (map m1 addrs)) (map m1 addrs)"
      by auto
    have "map m2 addrs = splice (0x4100 + (unat from_off - unat shift) + unat copied)
       (slice_at (0x4100 + unat from_off + unat copied) (unat n - unat copied) (map m addrs)) (map m addrs)"
      using slice_splice_step [of "0x4100 + (unat from_off - unat shift) + unat copied"
          "0x4100 + unat from_off + unat copied" k "unat n - (unat copied + k)" "map m addrs"] less.prems(2,4) k(3)
      unfolding m2(4) m1(4) by (simp add: add.assoc)
    with True rd m1(1,3) m2 show ?thesis
      by (subst shift_loop.simps) (simp add: w_def [symmetric] Let_def)
  qed
qed

lemma shift_path_buffer_left_ok:
  assumes "user_region token base addrs m" "length addrs = 0x10000" "unat shift \<le> unat from_off" "0 < unat shift"
    "unat from_off + unat n \<le> 0x8000"
  shows "\<exists>m'. shift_path_buffer_left token (base + PATH_BUFFER_OFF) from_off n shift m = Some m' \<and>
     user_region token base addrs m' \<and> region_outside addrs m' = region_outside addrs m \<and>
     map m' addrs = splice (0x4100 + (unat from_off - unat shift))
       (slice_at (0x4100 + unat from_off) (unat n) (map m addrs)) (map m addrs)"
  using shift_loop_ok [OF assms(1-3,5), of 0 "replicate (unat CHUNK) 0"] assms
  by (cases "n = 0") (auto simp: shift_path_buffer_left_def CHUNK_def slice_at_def splice_def)

section \<open>The invariant\<close>

definition path_core :: "usize \<Rightarrow> phys_addr list \<Rightarrow> path_node list \<Rightarrow> path_state \<Rightarrow> bool" where
  "path_core token addrs ns = (\<lambda>(ext, m).
     user_region token (context_area_base ext) addrs m \<and> length addrs = 0x10000 \<and>
     path_meta ext = path_metas 0 ns \<and> path_used_bytes ext = word_of_nat (path_total ns) \<and>
     path_total ns \<le> unat (max_bytes (ext_quota ext)) \<and> unat (max_bytes (ext_quota ext)) \<le> 0x8000 \<and>
     slice_at 0x4100 (path_total ns) (map m addrs) = path_bytes ns)"

text \<open>All of the area but the two counters and the path buffer.\<close>

definition path_frame :: "u8 list \<Rightarrow> u8 list \<Rightarrow> bool" where
  "path_frame c c' \<longleftrightarrow> length c' = length c \<and> take 36 c' = take 36 c \<and>
     slice_at 44 (0x4100 - 44) c' = slice_at 44 (0x4100 - 44) c \<and> drop 0xC100 c' = drop 0xC100 c"

definition ext_frame :: "agent_ext \<Rightarrow> agent_ext" where
  "ext_frame ext = ext\<lparr>path_meta := [], path_used_bytes := 0, next_seq := 0\<rparr>"

definition path_to :: "usize \<Rightarrow> phys_addr list \<Rightarrow> path_node list \<Rightarrow> path_state \<Rightarrow> path_state \<Rightarrow> bool" where
  "path_to token addrs ns = (\<lambda>(ext, m) (ext', m').
     path_core token addrs ns (ext', m') \<and>
     ext_frame ext' = ext_frame ext \<and>
     path_frame (map m addrs) (map m' addrs) \<and> region_outside addrs m' = region_outside addrs m)"

lemma path_frame_refl [simp]: "path_frame c c"
  by (simp add: path_frame_def)

text \<open>The sequence number of the header is among the bytes that stay.\<close>

lemma path_frame_seq_number:
  assumes "path_frame c c'"
  shows "slice_at 8 8 c' = slice_at 8 8 c"
proof -
  have "slice_at 8 8 x = slice_at 8 8 (take 36 x)" for x :: "u8 list" by (simp add: slice_at_def drop_take min_def)
  with assms show ?thesis unfolding path_frame_def by metis
qed

lemma path_frame_trans: "path_frame a b \<Longrightarrow> path_frame b c \<Longrightarrow> path_frame a c"
  by (simp add: path_frame_def)

lemma path_frame_splice:
  assumes "length c = 0x10000" "0x4100 \<le> off \<and> off + length bs \<le> 0xC100 \<or> 36 \<le> off \<and> off + length bs \<le> 44"
  shows "path_frame c (splice off bs c)"
proof -
  have s: "slice_at i n (splice off bs c) = slice_at i n c" if "(i, n) \<in> {(0, 36), (44, 0x4100 - 44), (0xC100, 0x10000 - 0xC100)}" for i n
    using that assms by (intro slice_at_splice_other) auto
  from s [of 0 36] have a: "take 36 (splice off bs c) = take 36 c" by (simp add: slice_at_def)
  from s [of 44 "0x4100 - 44"] have b: "slice_at 44 (0x4100 - 44) (splice off bs c) = slice_at 44 (0x4100 - 44) c" by simp
  have l: "length (splice off bs c) = length c" using assms by auto
  from s [of "0xC100" "0x10000 - 0xC100"] assms(1) l have "drop 0xC100 (splice off bs c) = drop 0xC100 c"
    by (simp add: slice_at_def)
  with a b l show ?thesis unfolding path_frame_def by blast
qed

lemma path_to_refl: "path_core token addrs ns s \<Longrightarrow> path_to token addrs ns s s"
  by (cases s) (simp add: path_to_def)

lemma path_to_trans: "path_to token addrs ns s s' \<Longrightarrow> path_to token addrs ns' s' s'' \<Longrightarrow> path_to token addrs ns' s s''"
  by (cases s; cases s'; cases s'') (auto simp: path_to_def intro: path_frame_trans)

lemma ext_frameD:
  assumes "ext_frame ext' = ext_frame ext"
  shows "context_area_base ext' = context_area_base ext" "ext_quota ext' = ext_quota ext"
  using arg_cong [OF assms, of context_area_base] arg_cong [OF assms, of ext_quota] by (simp_all add: ext_frame_def)

section \<open>Eviction\<close>

lemma path_metas_low:
  "off + path_total xs < 2 ^ 32 \<Longrightarrow> p \<in> set (path_metas off xs) \<Longrightarrow> off \<le> unat (offset_in_buffer p) \<and> unat (offset_in_buffer p) + 24 \<le> off + path_total xs"
proof (induction xs arbitrary: off)
  case (Cons nd xs)
  show ?case
  proof (cases "p \<in> set (path_metas (off + node_size nd) xs)")
    case True
    with Cons.IH [of "off + node_size nd"] Cons.prems(1) show ?thesis by simp
  next
    case False
    with Cons.prems show ?thesis by (auto simp: node_size_def unat_of_nat_u32)
  qed
qed simp

lemma path_metas_shift:
  "k \<le> off \<Longrightarrow> map (\<lambda>p. p\<lparr>offset_in_buffer := offset_in_buffer p - word_of_nat k\<rparr>) (path_metas off ns) = path_metas (off - k) ns"
  by (induction ns arbitrary: off) (auto simp: of_nat_diff)

lemma path_metas_evict:
  assumes "path_total (xs @ nd # ys) < 2 ^ 32" "mf = word_of_nat (path_total xs + node_size nd)"
  shows "map (\<lambda>p. if mf \<le> offset_in_buffer p then p\<lparr>offset_in_buffer := offset_in_buffer p - word_of_nat (node_size nd)\<rparr> else p)
     (path_metas 0 xs @ path_metas (path_total xs + node_size nd) ys) = path_metas 0 (xs @ ys)"
proof -
  have mf: "unat mf = path_total xs + node_size nd" using assms by (simp add: unat_of_nat_u32 del: of_nat_add)
  have lo: "\<not> mf \<le> offset_in_buffer p" if "p \<in> set (path_metas 0 xs)" for p
    using path_metas_low [OF _ that] assms(1) by (auto simp: word_le_unat mf)
  have hi: "mf \<le> offset_in_buffer p" if "p \<in> set (path_metas (path_total xs + node_size nd) ys)" for p
    using path_metas_low [OF _ that] assms(1) by (auto simp: word_le_unat mf)
  show ?thesis
    using path_metas_shift [of "node_size nd" "path_total xs + node_size nd" ys]
    by (simp add: path_metas_append lo hi map_idI cong: map_cong)
qed

lemma slice_at_add: "slice_at p (n + k) c = slice_at p n c @ slice_at (p + n) k c"
  unfolding slice_at_def take_add drop_drop by (simp add: add.commute)

lemma slice_at_add_eq:
  assumes "slice_at p (length xs + length ys) c = xs @ ys" "p + length xs \<le> length c"
  shows "slice_at p (length xs) c = xs" "slice_at (p + length xs) (length ys) c = ys"
  using assms by (simp_all add: slice_at_add slice_at_length)

lemma slice_compact:
  assumes c: "slice_at p (length xs + length vs + length ys) c = xs @ vs @ ys"
    and len: "p + length xs + length vs + length ys \<le> length c"
  shows "slice_at p (length xs + length ys)
     (splice (p + length xs) (slice_at (p + length xs + length vs) (length ys) c) c) = xs @ ys"
proof -
  from slice_at_add_eq [of p xs "vs @ ys" c] c len
  have 1: "slice_at p (length xs) c = xs" "slice_at (p + length xs) (length vs + length ys) c = vs @ ys"
    by (simp_all add: add.assoc)
  from slice_at_add_eq(2) [OF 1(2)] len have 2: "slice_at (p + length xs + length vs) (length ys) c = ys" by simp
  have "slice_at p (length xs) (splice (p + length xs) ys c) = xs"
    using len 1(1) by (subst slice_at_splice_other) auto
  then show ?thesis using len by (simp add: 2 slice_at_add slice_at_splice_same)
qed

lemma evict_one_ok:
  assumes core: "path_core token addrs ns (ext, m)" and ne: "ns \<noteq> []"
  shows "\<exists>s'. evict_one token (ext, m) = Some (Inr (), s') \<and>
     path_to token addrs (vec_remove (victim_of (policy (ext_quota ext)) ns) ns) (ext, m) s'"
proof -
  let ?i = "victim_of (policy (ext_quota ext)) ns"
  from core have meta: "path_meta ext = path_metas 0 ns" and used: "path_used_bytes ext = word_of_nat (path_total ns)"
    and bound: "path_total ns \<le> unat (max_bytes (ext_quota ext))" "unat (max_bytes (ext_quota ext)) \<le> 0x8000"
    and reg: "user_region token (context_area_base ext) addrs m" and len: "length addrs = 0x10000"
    and content: "slice_at 0x4100 (path_total ns) (map m addrs) = path_bytes ns"
    by (simp_all add: path_core_def)
  have i: "?i < length ns" using ne by (rule victim_of_less)
  define xs nd ys where "xs = take ?i ns" and "nd = ns ! ?i" and "ys = drop (Suc ?i) ns"
  have ns: "ns = xs @ nd # ys" unfolding xs_def nd_def ys_def using i by (rule id_take_nth_drop)
  have li: "length xs = ?i" using i by (simp add: xs_def)
  have rem: "vec_remove ?i ns = xs @ ys" by (simp add: vec_remove_def xs_def ys_def)
  have pick: "pick_victim ext = Some ?i"
    using ne min_index_by_some [OF ne, of pn_ts]
    by (auto simp: pick_victim_def meta min_index_by_path_metas victim_of_def split: evict_policy.splits)
  have vic: "path_metas 0 ns ! ?i = \<lparr>offset_in_buffer = word_of_nat (path_total xs), node_len = word_of_nat (node_size nd),
      write_time = pn_ts nd, node_seq = pn_seq nd\<rparr>"
    using i by (simp add: nth_path_metas xs_def nd_def)
  define mf :: u32 where "mf = word_of_nat (path_total xs + node_size nd)"
  let ?v = "word_of_nat (node_size nd) :: u32"
  have small: "path_total xs + node_size nd + path_total ys \<le> 0x8000" using bound by (simp add: ns)
  have u: "unat mf = path_total xs + node_size nd" "unat ?v = node_size nd" "unat (path_used_bytes ext) = path_total ns"
    using small by (simp_all add: mf_def used ns unat_of_nat_u32 del: of_nat_add)
  have ml: "unat (saturating_sub (path_used_bytes ext) mf) = path_total ys"
    by (simp only: unat_saturating_sub u) (simp add: ns)
  from shift_path_buffer_left_ok [OF reg len, of ?v mf "saturating_sub (path_used_bytes ext) mf"] small node_size_pos [of nd]
  obtain m' where m': "shift_path_buffer_left token (context_area_base ext + PATH_BUFFER_OFF) mf
      (saturating_sub (path_used_bytes ext) mf) ?v m = Some m'"
    "user_region token (context_area_base ext) addrs m'" "region_outside addrs m' = region_outside addrs m"
    "map m' addrs = splice (0x4100 + path_total xs) (slice_at (0x4100 + (path_total xs + node_size nd)) (path_total ys) (map m addrs)) (map m addrs)"
    by (auto simp: u ml)
  let ?used = "saturating_sub (path_used_bytes ext) ?v"
  have us: "?used = word_of_nat (path_total (xs @ ys))"
    unfolding word_unat_eq_iff unat_saturating_sub u using small by (simp add: ns unat_of_nat_u32 del: of_nat_add)
  let ?ext = "ext\<lparr>path_meta := path_metas 0 (xs @ ys), path_used_bytes := ?used\<rparr>"
  have mv: "word_of_nat (path_total xs) + ?v = mf" by (simp add: mf_def)
  have vr: "vec_remove ?i (path_metas 0 ns) = path_metas 0 xs @ path_metas (path_total xs + node_size nd) ys"
    using li by (simp add: ns path_metas_append vec_remove_def)
  have run: "evict_one token (ext, m) = Some (Inr (), ?ext, m')"
    using path_metas_evict [of xs nd ys mf] small m'(1)
    by (simp add: evict_one_def pick meta vic Let_def mv vr mf_def [symmetric] cong del: if_weak_cong)
  have lens: "length (path_bytes xs) = path_total xs" "length (node_bytes nd) = node_size nd" "length (path_bytes ys) = path_total ys"
    using length_path_bytes [of "[nd]"] by (simp_all add: length_path_bytes)
  have "slice_at 0x4100 (path_total (xs @ ys)) (map m' addrs) = path_bytes (xs @ ys)"
    using slice_compact [of "0x4100" "path_bytes xs" "node_bytes nd" "path_bytes ys" "map m addrs"] content small len
    by (simp add: ns lens m'(4) add.assoc)
  then have "path_core token addrs (xs @ ys) (?ext, m')"
    using m'(2) len bound us small by (simp add: path_core_def ns)
  moreover have "path_frame (map m addrs) (map m' addrs)"
    unfolding m'(4) by (rule path_frame_splice) (use small len in \<open>auto simp: slice_at_length\<close>)
  ultimately have "path_to token addrs (xs @ ys) (ext, m) (?ext, m')"
    using m'(3) by (simp add: path_to_def ext_frame_def)
  with run show ?thesis unfolding rem by blast
qed

lemma path_total_remove: "path_total (vec_remove i ns) \<le> path_total ns"
proof -
  have "path_total ns = path_total (take i ns @ drop i ns)" by simp
  also have "\<dots> = path_total (take i ns) + path_total (drop i ns)" by (simp only: path_total_append)
  finally show ?thesis by (cases "drop i ns") (auto simp: vec_remove_def drop_Suc drop_tl)
qed

lemma make_room_fits:
  "make_room q sz ns = [] \<or>
   path_total (make_room q sz ns) + sz \<le> unat (max_bytes q) \<and> length (make_room q sz ns) < unat (max_nodes q)"
  by (induction q sz ns rule: make_room.induct) (subst (1 2 3) make_room.simps, auto)

lemma length_bound_path: "path_total ns \<le> n \<Longrightarrow> length ns \<le> n"
  by (induction ns arbitrary: n) (auto simp: node_size_def Suc_le_eq, fastforce)

lemma evict_loop_ok:
  assumes "path_core token addrs ns (ext, m)" "unat sz \<le> unat (max_bytes (ext_quota ext))" "0 < unat (max_nodes (ext_quota ext))"
  shows "\<exists>s'. evict_loop token sz (ext, m) = Some (Inr (), s') \<and>
     path_to token addrs (make_room (ext_quota ext) (unat sz) ns) (ext, m) s' \<and> next_seq (fst s') = next_seq ext"
  using assms
proof (induction "length ns" arbitrary: ns ext m rule: less_induct)
  case less
  from less.prems(1) have meta: "path_meta ext = path_metas 0 ns" and used: "path_used_bytes ext = word_of_nat (path_total ns)"
    and bound: "path_total ns \<le> unat (max_bytes (ext_quota ext))" "unat (max_bytes (ext_quota ext)) \<le> 0x8000"
    by (simp_all add: path_core_def)
  have l: "length ns \<le> 0x8000" using length_bound_path [of ns "0x8000"] bound by simp
  have a: "max_bytes (ext_quota ext) < path_used_bytes ext + sz \<longleftrightarrow> unat (max_bytes (ext_quota ext)) < path_total ns + unat sz"
    using bound less.prems(2) by (simp add: word_less_unat used unat_add_u32_small unat_of_nat_u32)
  have b: "max_nodes (ext_quota ext) \<le> word_of_nat (length (path_meta ext)) \<longleftrightarrow> unat (max_nodes (ext_quota ext)) \<le> length ns"
    using l by (simp add: word_le_unat meta unat_of_nat_u32)
  show ?case
  proof (cases "unat (max_bytes (ext_quota ext)) < path_total ns + unat sz \<or> unat (max_nodes (ext_quota ext)) \<le> length ns")
    case False
    with less.prems(1) show ?thesis
      by (subst evict_loop.simps, subst make_room.simps) (auto simp: a b path_to_refl)
  next
    case True
    then have ne: "ns \<noteq> []" using less.prems(2,3) by auto
    then have ne': "path_meta ext \<noteq> []" by (simp add: meta)
    let ?ns = "vec_remove (victim_of (policy (ext_quota ext)) ns) ns"
    from evict_one_ok [OF less.prems(1) ne] obtain ext1 m1 where
      e: "evict_one token (ext, m) = Some (Inr (), ext1, m1)" and p: "path_to token addrs ?ns (ext, m) (ext1, m1)" by auto
    have sq: "next_seq ext1 = next_seq ext" using e by (auto simp: evict_one_def Let_def split: option.splits bind_splits)
    from p have c1: "path_core token addrs ?ns (ext1, m1)" and q: "ext_quota ext1 = ext_quota ext"
      by (auto simp: path_to_def dest: ext_frameD)
    have "length ?ns < length ns" using victim_of_less [OF ne] by (simp add: length_vec_remove ne)
    from less.hyps [OF this c1] less.prems(2,3) obtain s2 where
      s2: "evict_loop token sz (ext1, m1) = Some (Inr (), s2)" "path_to token addrs (make_room (ext_quota ext) (unat sz) ?ns) (ext1, m1) s2"
        "next_seq (fst s2) = next_seq ext"
      unfolding q sq by auto
    have "make_room (ext_quota ext) (unat sz) ns = make_room (ext_quota ext) (unat sz) ?ns"
      using True ne by (subst make_room.simps) auto
    moreover have "evict_loop token sz (ext, m) = Some (Inr (), s2)"
      using True e s2(1) ne' by (subst evict_loop.simps) (simp add: a b)
    ultimately show ?thesis using path_to_trans [OF p s2(2)] s2(3) by auto
  qed
qed

section \<open>Appending, rollback, clearing\<close>

text \<open>The invariant between operations: the node quota holds too, and the header shows the
  counters of the kernel.\<close>

definition path_inv :: "usize \<Rightarrow> phys_addr list \<Rightarrow> path_node list \<Rightarrow> path_state \<Rightarrow> bool" where
  "path_inv token addrs ns = (\<lambda>(ext, m).
     path_core token addrs ns (ext, m) \<and> length ns \<le> unat (max_nodes (ext_quota ext)) \<and>
     slice_at 36 4 (map m addrs) = to_le_bytes (word_of_nat (path_total ns) :: u32) \<and>
     slice_at 40 4 (map m addrs) = to_le_bytes (word_of_nat (length ns) :: u32))"

lemma sync_header_ok:
  assumes "path_core token addrs ns (ext, m)" "length ns \<le> unat (max_nodes (ext_quota ext))"
  shows "\<exists>m'. sync_header ext token m = Some m' \<and> path_inv token addrs ns (ext, m') \<and> path_to token addrs ns (ext, m) (ext, m')"
proof -
  let ?b = "context_area_base ext" and ?c = "map m addrs"
  let ?u = "to_le_bytes (word_of_nat (path_total ns) :: u32)" and ?k = "to_le_bytes (word_of_nat (length ns) :: u32)"
  from assms have meta: "path_meta ext = path_metas 0 ns" and used: "path_used_bytes ext = word_of_nat (path_total ns)"
    and bound: "path_total ns \<le> unat (max_bytes (ext_quota ext))" "unat (max_bytes (ext_quota ext)) \<le> 0x8000"
    and reg: "user_region token ?b addrs m" and len: "length addrs = 0x10000"
    and content: "slice_at 0x4100 (path_total ns) ?c = path_bytes ns"
    by (simp_all add: path_core_def)
  from um_write [OF reg, of 36 ?u] len obtain m1 where m1: "write_user_bytes token (?b + 36) ?u m = Some m1"
    "user_region token ?b addrs m1" "map m1 addrs = splice 36 ?u ?c" "region_outside addrs m1 = region_outside addrs m" by auto
  from um_write [OF m1(2), of 40 ?k] len obtain m2 where m2: "write_user_bytes token (?b + 40) ?k m1 = Some m2"
    "user_region token ?b addrs m2" "map m2 addrs = splice 40 ?k (map m1 addrs)" "region_outside addrs m2 = region_outside addrs m1" by auto
  have run: "sync_header ext token m = Some m2" using m1(1) m2(1) by (simp add: sync_header_def Let_def meta used)
  have "splice 40 ?k (splice 36 ?u ?c) = splice 36 (?u @ ?k) ?c"
    using splice_splice [of 36 ?u ?k ?c] len by simp
  then have c2: "map m2 addrs = splice 36 (?u @ ?k) ?c" by (simp add: m2(3) m1(3))
  have "slice_at 36 (length (?u @ ?k)) (map m2 addrs) = ?u @ ?k"
    unfolding c2 by (rule slice_at_splice_same) (use len in simp)
  then have "slice_at 36 4 (map m2 addrs) = ?u" "slice_at 40 4 (map m2 addrs) = ?k"
    using slice_at_add_eq [of 36 ?u ?k "map m2 addrs"] len by simp_all
  moreover have "slice_at 0x4100 (path_total ns) (map m2 addrs) = path_bytes ns"
    unfolding c2 using content len bound by (subst slice_at_splice_other) auto
  moreover have "path_frame ?c (map m2 addrs)" unfolding c2 by (rule path_frame_splice) (use len in auto)
  ultimately show ?thesis
    using run m1(4) m2(2,4) assms by (simp add: path_inv_def path_core_def path_to_def)
qed

lemma write_node_at_ok:
  assumes reg: "user_region token base addrs m" and len: "length addrs = 0x10000"
    and sz: "unat off + node_size nd \<le> 0x8000"
  shows "\<exists>m'. write_node_at token (base + PATH_BUFFER_OFF) off (pn_seq nd) (pn_ts nd) (pn_req nd) (pn_resp nd) m = Some m' \<and>
     user_region token base addrs m' \<and> region_outside addrs m' = region_outside addrs m \<and>
     map m' addrs = splice (0x4100 + unat off) (node_bytes nd) (map m addrs)"
proof -
  let ?c = "map m addrs"
  let ?h = "to_le_bytes (pn_seq nd) @ to_le_bytes (pn_ts nd) @
     to_le_bytes (word_of_nat (length (pn_req nd)) :: u32) @ to_le_bytes (word_of_nat (length (pn_resp nd)) :: u32)"
  let ?o = "PATH_BUFFER_OFF + ucast off :: usize"
  have lh: "length ?h = 24" by simp
  have o: "unat ?o = 0x4100 + unat off" using sz by (simp add: PATH_BUFFER_OFF_def unat_add_u64_small)
  have o2: "unat (?o + NODE_HEADER_SIZE) = 0x4100 + unat off + 24"
    using sz by (subst unat_add_u64_small) (simp_all add: o NODE_HEADER_SIZE_def node_size_def)
  have o3: "unat (?o + NODE_HEADER_SIZE + word_of_nat (length (pn_req nd))) = 0x4100 + unat off + 24 + length (pn_req nd)"
    using sz by (subst unat_add_u64_small) (simp_all add: o2 node_size_def unat_of_nat_u64)
  from um_write [OF reg, of ?o ?h] len sz obtain m1 where m1: "write_user_bytes token (base + ?o) ?h m = Some m1"
    "user_region token base addrs m1" "map m1 addrs = splice (0x4100 + unat off) ?h ?c" "region_outside addrs m1 = region_outside addrs m"
    unfolding o by (auto simp: node_size_def)
  from um_write [OF m1(2), of "?o + NODE_HEADER_SIZE" "pn_req nd"] len sz obtain m2 where
    m2: "write_user_bytes token (base + (?o + NODE_HEADER_SIZE)) (pn_req nd) m1 = Some m2"
    "user_region token base addrs m2" "map m2 addrs = splice (0x4100 + unat off + 24) (pn_req nd) (map m1 addrs)"
    "region_outside addrs m2 = region_outside addrs m1"
    unfolding o2 by (auto simp: node_size_def)
  from um_write [OF m2(2), of "?o + NODE_HEADER_SIZE + word_of_nat (length (pn_req nd))" "pn_resp nd"] len sz obtain m3 where
    m3: "write_user_bytes token (base + (?o + NODE_HEADER_SIZE + word_of_nat (length (pn_req nd)))) (pn_resp nd) m2 = Some m3"
    "user_region token base addrs m3" "map m3 addrs = splice (0x4100 + unat off + 24 + length (pn_req nd)) (pn_resp nd) (map m2 addrs)"
    "region_outside addrs m3 = region_outside addrs m2"
    unfolding o3 by (auto simp: node_size_def)
  have "map m2 addrs = splice (0x4100 + unat off) (?h @ pn_req nd) ?c"
    unfolding m2(3) m1(3) using splice_splice [of "0x4100 + unat off" ?h "pn_req nd" ?c] lh len sz by (simp add: node_size_def)
  moreover have "length (?h @ pn_req nd) = 24 + length (pn_req nd)" by simp
  ultimately have "map m3 addrs = splice (0x4100 + unat off) ((?h @ pn_req nd) @ pn_resp nd) ?c"
    unfolding m3(3) using splice_splice [of "0x4100 + unat off" "?h @ pn_req nd" "pn_resp nd" ?c] len sz
    by (simp add: node_size_def add.assoc)
  then have "map m3 addrs = splice (0x4100 + unat off) (node_bytes nd) ?c" by (simp add: node_bytes_def)
  with m1(1,4) m2(1,4) m3(1,2,4) show ?thesis by (simp add: write_node_at_def Let_def add.assoc)
qed

lemma node_size_word:
  "node_size nd < 2 ^ 32 \<Longrightarrow>
   (ucast (node_total_size (word_of_nat (length (pn_req nd))) (word_of_nat (length (pn_resp nd)))) :: u32) = word_of_nat (node_size nd)"
  using ucast_of_nat_u32 [of "node_size nd"] by (simp add: node_total_size_def NODE_HEADER_SIZE_def node_size_def)

lemma push_node_ok:
  assumes core: "path_core token addrs ns (ext, m)" and sq: "pn_seq nd = next_seq ext"
    and sz: "node_size nd \<le> unat (max_bytes (ext_quota ext))" and pos: "0 < unat (max_nodes (ext_quota ext))"
  shows "\<exists>s'. push_node (pn_ts nd) token (pn_req nd) (pn_resp nd) (ext, m) =
       Some (Inr (length (make_room (ext_quota ext) (node_size nd) ns)), s') \<and>
     path_inv token addrs (make_room (ext_quota ext) (node_size nd) ns @ [nd]) s' \<and>
     path_to token addrs (make_room (ext_quota ext) (node_size nd) ns @ [nd]) (ext, m) s' \<and> next_seq (fst s') = next_seq ext + 1"
proof -
  let ?sz = "word_of_nat (node_size nd) :: u32"
  let ?ns = "make_room (ext_quota ext) (node_size nd) ns"
  from core have lim: "unat (max_bytes (ext_quota ext)) \<le> 0x8000" by (simp add: path_core_def)
  have u: "unat ?sz = node_size nd" using sz lim by (simp add: unat_of_nat_u32)
  from evict_loop_ok [OF core, of ?sz] sz pos obtain ext1 m1 where
    e: "evict_loop token ?sz (ext, m) = Some (Inr (), ext1, m1)" "path_to token addrs ?ns (ext, m) (ext1, m1)"
      "next_seq ext1 = next_seq ext" unfolding u by auto
  from e(2) have c1: "path_core token addrs ?ns (ext1, m1)" and fr: "ext_frame ext1 = ext_frame ext"
    by (auto simp: path_to_def)
  note q = ext_frameD [OF fr]
  from c1 have meta: "path_meta ext1 = path_metas 0 ?ns" and used: "path_used_bytes ext1 = word_of_nat (path_total ?ns)"
    and reg: "user_region token (context_area_base ext1) addrs m1" and len: "length addrs = 0x10000"
    and content: "slice_at 0x4100 (path_total ?ns) (map m1 addrs) = path_bytes ?ns"
    by (simp_all add: path_core_def)
  have fits: "path_total ?ns + node_size nd \<le> unat (max_bytes (ext_quota ext))" "length ?ns < unat (max_nodes (ext_quota ext))"
    using make_room_fits [of "ext_quota ext" "node_size nd" ns] sz pos by auto
  have uu: "unat (path_used_bytes ext1) = path_total ?ns" using fits lim by (simp add: used unat_of_nat_u32)
  from write_node_at_ok [OF reg len, of "path_used_bytes ext1" nd] fits lim obtain m2 where
    w: "write_node_at token (context_area_base ext1 + PATH_BUFFER_OFF) (path_used_bytes ext1) (pn_seq nd) (pn_ts nd) (pn_req nd) (pn_resp nd) m1 = Some m2"
      "user_region token (context_area_base ext1) addrs m2" "region_outside addrs m2 = region_outside addrs m1"
      "map m2 addrs = splice (0x4100 + path_total ?ns) (node_bytes nd) (map m1 addrs)" unfolding uu by auto
  let ?ext = "ext1\<lparr>path_meta := path_meta ext1 @ [\<lparr>offset_in_buffer = path_used_bytes ext1, node_len = ?sz, write_time = pn_ts nd, node_seq = next_seq ext\<rparr>],
      path_used_bytes := path_used_bytes ext1 + ?sz, next_seq := next_seq ext + 1\<rparr>"
  have lb: "length (node_bytes nd) = node_size nd" using length_path_bytes [of "[nd]"] by simp
  have "slice_at 0x4100 (path_total ?ns + node_size nd) (map m2 addrs) = path_bytes ?ns @ node_bytes nd"
    unfolding w(4) slice_at_add using fits lim len lb content
    by (simp add: slice_at_splice_other slice_at_splice_same [of _ "node_bytes nd", unfolded lb])
  then have "path_core token addrs (?ns @ [nd]) (?ext, m2)"
    using w(2) len lim fits sq by (simp add: path_core_def meta used path_metas_append q)
  moreover have "path_frame (map m1 addrs) (map m2 addrs)" unfolding w(4)
    by (rule path_frame_splice) (use len fits lim lb in auto)
  ultimately have p2: "path_to token addrs (?ns @ [nd]) (ext, m) (?ext, m2)"
    using e(2) w(3) by (auto simp: path_to_def ext_frame_def intro: path_frame_trans)
  then have "path_core token addrs (?ns @ [nd]) (?ext, m2)" by (simp add: path_to_def)
  from sync_header_ok [OF this] fits(2) obtain m3 where
    s: "sync_header ?ext token m2 = Some m3" "path_inv token addrs (?ns @ [nd]) (?ext, m3)" "path_to token addrs (?ns @ [nd]) (?ext, m2) (?ext, m3)"
    by (auto simp: q)
  have g: "\<not> PATH_BUFFER_LEN < ucast ?sz" "\<not> max_bytes (ext_quota ext) < ?sz"
    using sz lim by (simp_all add: word_less_unat PATH_BUFFER_LEN_def u)
  have "push_node (pn_ts nd) token (pn_req nd) (pn_resp nd) (ext, m) = Some (Inr (length ?ns), ?ext, m3)"
    using w(1) s(1) sz lim sq e(3) g
    by (simp add: push_node_def Let_def node_size_word e(1)) (simp add: meta)
  with s(2) path_to_trans [OF p2 s(3)] show ?thesis by auto
qed

lemma push_node_rejected:
  assumes "unat (max_bytes (ext_quota ext)) < node_size nd" "node_size nd < 2 ^ 32"
  shows "push_node (pn_ts nd) token (pn_req nd) (pn_resp nd) (ext, m) = Some (Inl QuotaExceeded, ext, m)"
  using assms by (simp add: push_node_def Let_def node_size_word word_less_unat unat_of_nat_u32)

lemma path_prefix_core:
  assumes core: "path_core token addrs ns (ext, m)" and k: "k \<le> length ns"
  shows "path_core token addrs (take k ns) (ext\<lparr>path_meta := path_metas 0 (take k ns), path_used_bytes := word_of_nat (path_total (take k ns))\<rparr>, m)"
proof -
  have split: "path_total ns = path_total (take k ns) + path_total (drop k ns)"
    using path_total_append [of "take k ns" "drop k ns"] by simp
  have "path_bytes ns = path_bytes (take k ns) @ path_bytes (drop k ns)"
    using path_bytes_append [of "take k ns" "drop k ns"] by simp
  with core split have "slice_at 0x4100 (path_total (take k ns)) (map m addrs) = path_bytes (take k ns)"
    using slice_at_add_eq(1) [of "0x4100" "path_bytes (take k ns)" "path_bytes (drop k ns)" "map m addrs"]
    by (simp add: path_core_def length_path_bytes)
  with core split show ?thesis by (simp add: path_core_def)
qed

lemma path_metas_take: "path_metas off (take k ns) = take k (path_metas off ns)"
  by (induction ns arbitrary: off k) (simp_all add: take_Cons split: nat.splits)

lemma path_rollback_ok:
  assumes core: "path_core token addrs ns (ext, m)" and len: "length ns \<le> unat (max_nodes (ext_quota ext))" and k: "k \<le> length ns"
  shows "\<exists>s'. path_rollback token k (ext, m) = Some (Inr (), s') \<and> path_inv token addrs (take k ns) s' \<and>
     path_to token addrs (take k ns) (ext, m) s' \<and> next_seq (fst s') = next_seq ext"
proof -
  let ?ext = "ext\<lparr>path_meta := path_metas 0 (take k ns), path_used_bytes := word_of_nat (path_total (take k ns))\<rparr>"
  from core have meta: "path_meta ext = path_metas 0 ns" by (simp add: path_core_def)
  note c = path_prefix_core [OF core k]
  have tk: "path_total (take k ns) = path_total (take (k - 1) ns) + node_size (ns ! (k - 1))" if "0 < k"
    using that k by (cases k) (simp_all add: take_Suc_conv_app_nth)
  have ext: "(if k = 0 then ext\<lparr>path_meta := [], path_used_bytes := 0\<rparr>
              else let last = path_meta ext ! (k - 1); new_used = offset_in_buffer last + node_len last
                   in ext\<lparr>path_meta := take k (path_meta ext), path_used_bytes := new_used\<rparr>) = ?ext"
    using k tk by (simp add: meta nth_path_metas path_metas_take Let_def)
  from sync_header_ok [OF c] len k obtain m' where s: "sync_header ?ext token m = Some m'" "path_inv token addrs (take k ns) (?ext, m')"
    "path_to token addrs (take k ns) (?ext, m) (?ext, m')" by auto
  have "path_rollback token k (ext, m) = Some (Inr (), ?ext, m')"
    unfolding path_rollback_def case_prod_conv ext Let_def [of "if k = 0 then _ else _"] using s(1) k by (simp add: meta)
  moreover have "path_to token addrs (take k ns) (ext, m) (?ext, m')"
    using s(3) by (simp add: path_to_def ext_frame_def)
  ultimately show ?thesis using s(2) by auto
qed

lemma path_clear_ok:
  assumes core: "path_core token addrs ns (ext, m)" and len: "length ns \<le> unat (max_nodes (ext_quota ext))"
  shows "\<exists>s'. path_clear token (ext, m) = Some s' \<and> path_inv token addrs [] s' \<and>
     path_to token addrs [] (ext, m) s' \<and> next_seq (fst s') = next_seq ext"
proof -
  from path_rollback_ok [OF core len, of 0] obtain s' where
    s: "path_rollback token 0 (ext, m) = Some (Inr (), s')" "path_inv token addrs [] s'" "path_to token addrs [] (ext, m) s'"
      "next_seq (fst s') = next_seq ext" by auto
  from s(1) have "path_clear token (ext, m) = Some s'"
    by (auto simp: path_clear_def path_rollback_def Let_def split: bind_splits)
  with s show ?thesis by blast
qed

section \<open>Histories\<close>

text \<open>The states a path goes through while the clock does not run backwards.\<close>

inductive path_reach :: "usize \<Rightarrow> path_state \<Rightarrow> u64 \<Rightarrow> path_state \<Rightarrow> bool" for token s0 where
  start: "path_reach token s0 now s0"
| push: "path_reach token s0 t s \<Longrightarrow> t \<le> now \<Longrightarrow> 24 + length req + length resp < 2 ^ 32 \<Longrightarrow>
    push_node now token req resp s = Some (r, s') \<Longrightarrow> path_reach token s0 now s'"
| rollback: "path_reach token s0 t s \<Longrightarrow> path_rollback token k s = Some (r', s') \<Longrightarrow> path_reach token s0 t s'"
| clear: "path_reach token s0 t s \<Longrightarrow> path_clear token s = Some s' \<Longrightarrow> path_reach token s0 t s'"

lemma set_make_room: "set (make_room q sz ns) \<subseteq> set ns"
proof (induction q sz ns rule: make_room.induct)
  case (1 q sz ns)
  then show ?case using set_vec_remove_subset [of "victim_of (policy q) ns" ns]
    by (subst make_room.simps) (auto dest: subsetD)
qed

lemma min_index_by_sorted: "sorted (map key xs) \<Longrightarrow> xs \<noteq> [] \<Longrightarrow> min_index_by key xs = Some 0"
  by (cases xs) (auto split: option.splits dest: min_index_by_less)

lemma make_room_suffix: "sorted (map pn_ts ns) \<Longrightarrow> \<exists>k. make_room q sz ns = drop k ns"
proof (induction q sz ns rule: make_room.induct)
  case (1 q sz ns)
  show ?case
  proof (cases "ns \<noteq> [] \<and> (unat (max_bytes q) < path_total ns + sz \<or> unat (max_nodes q) \<le> length ns)")
    case True
    have "victim_of (policy q) ns = 0"
      using True min_index_by_sorted [OF "1.prems"] by (auto simp: victim_of_def split: evict_policy.splits)
    then have v: "vec_remove (victim_of (policy q) ns) ns = drop 1 ns" by (simp add: vec_remove_def)
    have "sorted (map pn_ts (drop 1 ns))" using "1.prems" by (metis drop_map sorted_wrt_drop)
    with "1.IH" [OF True] v obtain k where "make_room q sz (drop 1 ns) = drop k (drop 1 ns)" by auto
    with True v show ?thesis by (subst make_room.simps) (auto simp del: One_nat_def)
  next
    case False
    then have "make_room q sz ns = drop 0 ns" by (subst make_room.simps) auto
    then show ?thesis by blast
  qed
qed

text \<open>Where a node lies in the area.\<close>

lemma path_node_slice:
  assumes core: "path_core token addrs ns (ext, m)" and i: "i < length ns"
  shows "slice_at (0x4100 + path_total (take i ns)) (node_size (ns ! i)) (map m addrs) = node_bytes (ns ! i)"
    and "path_total (take i ns) + node_size (ns ! i) \<le> 0x8000"
    and "path_meta ext ! i = \<lparr>offset_in_buffer = word_of_nat (path_total (take i ns)),
           node_len = word_of_nat (node_size (ns ! i)), write_time = pn_ts (ns ! i), node_seq = pn_seq (ns ! i)\<rparr>"
proof -
  let ?xs = "take i ns" and ?ys = "drop (Suc i) ns" and ?nd = "ns ! i"
  have ns: "ns = ?xs @ ?nd # ?ys" using i by (rule id_take_nth_drop)
  from core have meta: "path_meta ext = path_metas 0 ns" and lim: "path_total ns \<le> 0x8000" and len: "length addrs = 0x10000"
    and content: "slice_at 0x4100 (path_total ns) (map m addrs) = path_bytes ns"
    by (auto simp: path_core_def)
  have tot: "path_total ns = path_total ?xs + (node_size ?nd + path_total ?ys)" by (subst ns) (simp only: path_total_append path_total_simps)
  have byt: "path_bytes ns = path_bytes ?xs @ (node_bytes ?nd @ path_bytes ?ys)" by (subst ns) (simp only: path_bytes_append path_bytes_simps)
  have lb: "length (node_bytes ?nd) = node_size ?nd" using length_path_bytes [of "[?nd]"] by simp
  have "slice_at (0x4100 + path_total ?xs) (node_size ?nd + path_total ?ys) (map m addrs) = node_bytes ?nd @ path_bytes ?ys"
    using slice_at_add_eq(2) [of "0x4100" "path_bytes ?xs" "node_bytes ?nd @ path_bytes ?ys" "map m addrs"] content tot byt len lim lb
    by (simp add: length_path_bytes)
  then show "slice_at (0x4100 + path_total ?xs) (node_size ?nd) (map m addrs) = node_bytes ?nd"
    using slice_at_add_eq(1) [of "0x4100 + path_total ?xs" "node_bytes ?nd" "path_bytes ?ys" "map m addrs"] tot len lim lb
    by (simp add: length_path_bytes)
  show "path_total ?xs + node_size ?nd \<le> 0x8000" using tot lim by simp
  show "path_meta ext ! i = \<lparr>offset_in_buffer = word_of_nat (path_total ?xs),
           node_len = word_of_nat (node_size ?nd), write_time = pn_ts ?nd, node_seq = pn_seq ?nd\<rparr>"
    using i by (simp add: meta nth_path_metas)
qed

text \<open>Any part of a node is found at its place, through the translation of user addresses.\<close>

lemma path_node_part:
  assumes core: "path_core token addrs ns (ext, m)" and i: "i < length ns"
    and j: "unat d + length buf \<le> node_size (ns ! i)"
  shows "read_user_bytes token (context_area_base ext + PATH_BUFFER_OFF + ucast (offset_in_buffer (path_meta ext ! i)) + d)
     buf m = Some (slice_at (unat d) (length buf) (node_bytes (ns ! i)))"
proof -
  let ?xs = "take i ns" and ?nd = "ns ! i"
  note s = path_node_slice [OF core i]
  from core have reg: "user_region token (context_area_base ext) addrs m" and len: "length addrs = 0x10000"
    by (auto simp: path_core_def)
  have u: "unat (PATH_BUFFER_OFF + ucast (word_of_nat (path_total ?xs) :: u32) + d) = 0x4100 + path_total ?xs + unat d"
    using s(2) j by (simp add: PATH_BUFFER_OFF_def unat_add_u64_small unat_of_nat_u32)
  have "slice_at (0x4100 + path_total ?xs + unat d) (length buf) (map m addrs) =
      slice_at (unat d) (length buf) (slice_at (0x4100 + path_total ?xs) (node_size ?nd) (map m addrs))"
    using j by (simp add: slice_at_def drop_take add.commute min_def)
  with um_read [OF reg, of "PATH_BUFFER_OFF + ucast (word_of_nat (path_total ?xs) :: u32) + d" buf] u s j len show ?thesis
    by (simp add: add.assoc)
qed

lemma path_node_readable:
  assumes core: "path_core token addrs ns (ext, m)" and i: "i < length ns"
  shows "read_user_bytes token (context_area_base ext + PATH_BUFFER_OFF + ucast (offset_in_buffer (path_meta ext ! i)))
     (replicate (unat (node_len (path_meta ext ! i))) 0) m = Some (node_bytes (ns ! i))"
  using path_node_part [OF core i, of 0 "replicate (node_size (ns ! i)) 0"] path_node_slice [OF core i]
    length_path_bytes [of "[ns ! i]"]
  by (simp add: unat_of_nat_u32 slice_at_def)

definition path_log :: "usize \<Rightarrow> phys_addr list \<Rightarrow> u64 \<Rightarrow> path_node list \<Rightarrow> path_state \<Rightarrow> bool" where
  "path_log token addrs t ns = (\<lambda>(ext, m).
     path_inv token addrs ns (ext, m) \<and> 0 < unat (max_nodes (ext_quota ext)) \<and>
     sorted (map pn_ts ns) \<and> (\<forall>nd\<in>set ns. pn_ts nd \<le> t))"

lemma path_log_push:
  assumes log: "path_log token addrs t ns s" and t: "t \<le> now" and small: "24 + length req + length resp < 2 ^ 32"
    and run: "push_node now token req resp s = Some (r, s')"
  shows "\<exists>ns'. path_log token addrs now ns' s'"
proof -
  obtain ext m where s: "s = (ext, m)" by (cases s)
  define nd where "nd = \<lparr>pn_seq = next_seq ext, pn_ts = now, pn_req = req, pn_resp = resp\<rparr>"
  have nd: "pn_ts nd = now" "pn_req nd = req" "pn_resp nd = resp" "pn_seq nd = next_seq ext" by (simp_all add: nd_def)
  from log s have core: "path_core token addrs ns (ext, m)" and pos: "0 < unat (max_nodes (ext_quota ext))"
    and so: "sorted (map pn_ts ns)" and le: "\<forall>nd\<in>set ns. pn_ts nd \<le> now"
    using t by (auto simp: path_log_def path_inv_def intro: order_trans)
  show ?thesis
  proof (cases "unat (max_bytes (ext_quota ext)) < node_size nd")
    case True
    with push_node_rejected [OF this, of token m] run s small have "s' = s" by (simp add: nd) (simp add: node_size_def nd)
    with log s le have "path_log token addrs now ns s'" by (auto simp: path_log_def)
    then show ?thesis ..
  next
    case False
    let ?ns = "make_room (ext_quota ext) (node_size nd) ns @ [nd]"
    from push_node_ok [OF core nd(4) _ pos] False run s
    have i: "path_inv token addrs ?ns s'" and p: "path_to token addrs ?ns (ext, m) s'" by (auto simp: nd)
    obtain k where "make_room (ext_quota ext) (node_size nd) ns = drop k ns" using make_room_suffix [OF so] by blast
    then have "sorted (map pn_ts ?ns)" using so le
      by (simp add: nd sorted_append drop_map [symmetric] sorted_wrt_drop) (auto dest!: in_set_dropD)
    moreover have "\<forall>n\<in>set ?ns. pn_ts n \<le> now" using le set_make_room [of "ext_quota ext" "node_size nd" ns] by (auto simp: nd)
    ultimately have "path_log token addrs now ?ns s'"
      using i p pos by (cases s') (auto simp: path_log_def path_to_def dest: ext_frameD)
    then show ?thesis ..
  qed
qed

lemma path_log_rollback:
  assumes log: "path_log token addrs t ns s" and run: "path_rollback token k s = Some (r, s')"
  shows "\<exists>ns'. path_log token addrs t ns' s'"
proof -
  obtain ext m where s: "s = (ext, m)" by (cases s)
  from log s have core: "path_core token addrs ns (ext, m)" "length ns \<le> unat (max_nodes (ext_quota ext))"
    by (auto simp: path_log_def path_inv_def)
  show ?thesis
  proof (cases "k \<le> length ns")
    case True
    from path_rollback_ok [OF core True] run s have i: "path_inv token addrs (take k ns) s'" "path_to token addrs (take k ns) (ext, m) s'" by auto
    moreover have "sorted (map pn_ts (take k ns))" using log s by (auto simp: path_log_def take_map [symmetric] sorted_wrt_take)
    ultimately have "path_log token addrs t (take k ns) s'"
      using log s by (cases s') (auto simp: path_log_def path_to_def dest: ext_frameD in_set_takeD)
    then show ?thesis ..
  next
    case False
    with run s core(1) have "s' = s" by (auto simp: path_rollback_def path_core_def)
    with log show ?thesis by blast
  qed
qed

lemma path_log_clear:
  assumes log: "path_log token addrs t ns s" and run: "path_clear token s = Some s'"
  shows "\<exists>ns'. path_log token addrs t ns' s'"
proof -
  obtain ext m where s: "s = (ext, m)" by (cases s)
  from log s have core: "path_core token addrs ns (ext, m)" "length ns \<le> unat (max_nodes (ext_quota ext))"
    by (auto simp: path_log_def path_inv_def)
  from path_clear_ok [OF core] run s log have "path_log token addrs t [] s'"
    by (cases s') (auto simp: path_log_def path_to_def dest: ext_frameD)
  then show ?thesis ..
qed

lemma path_reach_log:
  assumes "path_reach token s0 t s" "path_inv token addrs [] s0" "0 < unat (max_nodes (ext_quota (fst s0)))"
  shows "\<exists>ns. path_log token addrs t ns s"
  using assms
proof (induction rule: path_reach.induct)
  case (start now)
  then have "path_log token addrs now [] s0" by (cases s0) (simp add: path_log_def)
  then show ?case ..
qed (blast intro: path_log_push path_log_rollback path_log_clear)+

section \<open>The properties\<close>

text \<open>An agent right after its creation.\<close>

lemma header_counters:
  "slice_at 36 4 (header_bytes pad h @ z) = to_le_bytes (h_path_used_bytes h)"
  "slice_at 40 4 (header_bytes pad h @ z) = to_le_bytes (h_path_node_count h)"
  by (simp_all add: header_bytes_def slice_at_def)

lemma fresh_path:
  assumes "user_region token base addrs m" "length addrs = 0x10000" "map m addrs = header_bytes pad initial_header @ z"
    "0 < mn" "unat mb \<le> 0x8000"
  shows "path_inv token addrs [] (agent_ext_new ty base sz mn mb, m)"
  using assms by (simp add: path_inv_def path_core_def agent_ext_new_def header_counters slice_at_def [of _ 0] initial_header_def)

text \<open>
  C11: \<open>push_node\<close> implements a bounded log.  A node larger than the byte quota is refused with
  \<open>QuotaExceeded\<close> and nothing changes.  Any other node is appended after as many evictions as
  the two quotas ask for: the call returns (its loop ends and no panic occurs), the new path is
  the surviving nodes and the new one, byte for byte in the buffer, the shared counters agree
  with it, and nothing else of the area or of memory has changed.  In particular the sequence number of
  the header (\<open>seq_number\<close>, offset 8) stays as it was: the code does not keep the protocol of ADR-003,
  which has the kernel increment it before and after every write outside the header, so that a reader
  cannot tell from it that nodes are being moved.
\<close>

theorem push_node_bounded_log:
  assumes "path_inv token addrs ns (ext, m)" "0 < unat (max_nodes (ext_quota ext))"
    "pn_seq nd = next_seq ext" "node_size nd < 2 ^ 32"
  shows "if unat (max_bytes (ext_quota ext)) < node_size nd
     then push_node (pn_ts nd) token (pn_req nd) (pn_resp nd) (ext, m) = Some (Inl QuotaExceeded, ext, m)
     else \<exists>ext' m' kept. kept = make_room (ext_quota ext) (node_size nd) ns \<and>
       push_node (pn_ts nd) token (pn_req nd) (pn_resp nd) (ext, m) = Some (Inr (length kept), ext', m') \<and>
       path_inv token addrs (kept @ [nd]) (ext', m') \<and> next_seq ext' = next_seq ext + 1 \<and>
       ext_frame ext' = ext_frame ext \<and> path_frame (map m addrs) (map m' addrs) \<and>
       slice_at 8 8 (map m' addrs) = slice_at 8 8 (map m addrs) \<and>
       region_outside addrs m' = region_outside addrs m"
proof -
  from assms(1) have "path_core token addrs ns (ext, m)" by (simp add: path_inv_def)
  from push_node_ok [OF this assms(3) _ assms(2)] push_node_rejected [of ext nd token m] assms(4) show ?thesis
    by (fastforce simp: path_to_def dest: path_frame_seq_number)
qed

definition demo_node :: path_node where
  "demo_node = \<lparr>pn_seq = 0, pn_ts = 7, pn_req = [1, 2], pn_resp = [3]\<rparr>"

lemma demo_path:
  obtains token addrs m where "path_inv token addrs [] (agent_ext_new Normal 0x80000000 0x10000 128 16384, m)"
proof -
  obtain token addrs m where "user_region token 0x80000000 addrs m" "length addrs = 0x10000"
    "map m addrs = header_bytes [0, 0, 0, 0] initial_header @ replicate (0x10000 - 248) 0" using demo_area by blast
  from that [OF fresh_path [OF this, of 128 16384]] show ?thesis by simp
qed

theorem push_node_bounded_log_witness:
  "\<exists>token m ext' m' addrs.
     push_node 7 token [1, 2] [3] (agent_ext_new Normal 0x80000000 0x10000 128 16384, m) = Some (Inr 0, ext', m') \<and>
     path_inv token addrs [demo_node] (ext', m')"
proof -
  let ?ext = "agent_ext_new Normal 0x80000000 0x10000 128 16384"
  obtain token addrs m where p: "path_inv token addrs [] (?ext, m)" by (rule demo_path)
  have sz: "node_size demo_node = 27" by (simp add: node_size_def demo_node_def)
  have q: "max_bytes (ext_quota ?ext) = 16384" "max_nodes (ext_quota ?ext) = 128" "next_seq ?ext = 0"
    by (simp_all add: agent_ext_new_def)
  have "make_room (ext_quota ?ext) 27 [] = []" by (subst make_room.simps) simp
  with push_node_bounded_log [OF p, of demo_node] sz q show ?thesis by (fastforce simp: demo_node_def)
qed

text \<open>
  C27: \<open>rollback\<close> keeps exactly the first \<open>node_count\<close> nodes and refuses a count beyond the
  path with \<open>NotFound\<close>; \<open>clear\<close> is the rollback to nothing.  Sequence numbers are not reused.
\<close>

theorem rollback_truncates:
  assumes "path_inv token addrs ns (ext, m)"
  shows "(if length ns < k then path_rollback token k (ext, m) = Some (Inl NotFound, ext, m)
      else \<exists>ext' m'. path_rollback token k (ext, m) = Some (Inr (), ext', m') \<and>
        path_inv token addrs (take k ns) (ext', m') \<and> next_seq ext' = next_seq ext \<and>
        ext_frame ext' = ext_frame ext \<and> path_frame (map m addrs) (map m' addrs) \<and>
        region_outside addrs m' = region_outside addrs m)
     \<and> (\<exists>ext' m'. path_clear token (ext, m) = Some (ext', m') \<and> path_inv token addrs [] (ext', m') \<and>
          next_seq ext' = next_seq ext)"
proof -
  from assms have core: "path_core token addrs ns (ext, m)" "length ns \<le> unat (max_nodes (ext_quota ext))"
    by (simp_all add: path_inv_def)
  from core(1) have "length (path_meta ext) = length ns" by (simp add: path_core_def)
  then have "length ns < k \<Longrightarrow> path_rollback token k (ext, m) = Some (Inl NotFound, ext, m)"
    by (simp add: path_rollback_def)
  with path_rollback_ok [OF core, of k] path_clear_ok [OF core] show ?thesis by (fastforce simp: path_to_def)
qed

theorem rollback_truncates_witness:
  "\<exists>token addrs m ext1 m1 ext2 m2.
     push_node 7 token [1, 2] [3] (agent_ext_new Normal 0x80000000 0x10000 128 16384, m) = Some (Inr 0, ext1, m1) \<and>
     path_rollback token 0 (ext1, m1) = Some (Inr (), ext2, m2) \<and> path_inv token addrs [] (ext2, m2) \<and>
     next_seq ext2 = next_seq ext1 \<and> path_rollback token 3 (ext1, m1) = Some (Inl NotFound, ext1, m1)"
proof -
  let ?ext = "agent_ext_new Normal 0x80000000 0x10000 128 16384"
  obtain token addrs m where p: "path_inv token addrs [] (?ext, m)" by (rule demo_path)
  then have core: "path_core token addrs [] (?ext, m)" by (simp add: path_inv_def)
  have q: "node_size demo_node \<le> unat (max_bytes (ext_quota ?ext))" "0 < unat (max_nodes (ext_quota ?ext))"
    "pn_seq demo_node = next_seq ?ext" by (simp_all add: agent_ext_new_def node_size_def demo_node_def)
  have "make_room (ext_quota ?ext) (node_size demo_node) [] = []" by (subst make_room.simps) simp
  with push_node_ok [OF core q(3,1,2)] obtain ext1 m1 where
    r: "push_node 7 token [1, 2] [3] (?ext, m) = Some (Inr 0, ext1, m1)" "path_inv token addrs [demo_node] (ext1, m1)"
    by (auto simp: demo_node_def)
  from rollback_truncates [OF r(2), of 0] rollback_truncates [OF r(2), of 3] r(1) show ?thesis by fastforce
qed

text \<open>
  C26: in every state an agent's path reaches from its creation, with a clock that never runs
  backwards, the path invariant holds, each node is found with its full contents at the offset
  and length its metadata gives, the quotas are respected, and the victim of the next eviction
  is the oldest node: the \<open>Lru\<close> policy coincides with \<open>Fifo\<close>.
\<close>

theorem path_histories:
  assumes "path_reach token s0 t (ext, m)" "path_inv token addrs [] s0" "0 < unat (max_nodes (ext_quota (fst s0)))"
  shows "\<exists>ns. path_inv token addrs ns (ext, m) \<and> sorted (map pn_ts ns) \<and>
     (\<forall>i<length ns. read_user_bytes token
         (context_area_base ext + PATH_BUFFER_OFF + ucast (offset_in_buffer (path_meta ext ! i)))
         (replicate (unat (node_len (path_meta ext ! i))) 0) m = Some (node_bytes (ns ! i))) \<and>
     path_total ns \<le> unat (max_bytes (ext_quota ext)) \<and> length ns \<le> unat (max_nodes (ext_quota ext)) \<and>
     pick_victim ext = (if ns = [] then None else Some 0)"
proof -
  from path_reach_log [OF assms] obtain ns where log: "path_log token addrs t ns (ext, m)" by blast
  then have inv: "path_inv token addrs ns (ext, m)" and so: "sorted (map pn_ts ns)" by (simp_all add: path_log_def)
  from inv have core: "path_core token addrs ns (ext, m)" by (simp add: path_inv_def)
  have "pick_victim ext = (if ns = [] then None else Some 0)"
    using core min_index_by_sorted [OF so]
    by (auto simp: pick_victim_def path_core_def min_index_by_path_metas split: evict_policy.splits)
  with inv so path_node_readable [OF core] show ?thesis
    by (intro exI [of _ ns]) (auto simp: path_inv_def path_core_def)
qed

theorem path_histories_witness:
  "\<exists>token m ext' m' addrs ns.
     push_node 7 token [1, 2] [3] (agent_ext_new Normal 0x80000000 0x10000 128 16384, m) = Some (Inr 0, ext', m') \<and>
     path_inv token addrs ns (ext', m') \<and> pick_victim ext' = (if ns = [] then None else Some 0)"
proof -
  let ?ext = "agent_ext_new Normal 0x80000000 0x10000 128 16384"
  obtain token addrs m where p: "path_inv token addrs [] (?ext, m)" by (rule demo_path)
  then have core: "path_core token addrs [] (?ext, m)" by (simp add: path_inv_def)
  have q: "node_size demo_node \<le> unat (max_bytes (ext_quota ?ext))" "0 < unat (max_nodes (ext_quota ?ext))"
    "pn_seq demo_node = next_seq ?ext" by (simp_all add: agent_ext_new_def node_size_def demo_node_def)
  have "make_room (ext_quota ?ext) (node_size demo_node) [] = []" by (subst make_room.simps) simp
  with push_node_ok [OF core q(3,1,2)] obtain ext' m' where
    r: "push_node 7 token [1, 2] [3] (?ext, m) = Some (Inr 0, ext', m')" by (auto simp: demo_node_def)
  have "path_reach token (?ext, m) 7 (ext', m')"
    by (rule path_reach.push [OF path_reach.start [of token "(?ext, m)" 0] _ _ r]) simp_all
  from path_histories [OF this p] q(2) r show ?thesis by fastforce
qed

end
