(* ===== verification/Block_Cache.thy ===== *)
theory Block_Cache
  imports Prelude
begin

text \<open>
  The block cache of the file system (\<open>easy-fs/src/block_cache.rs\<close>) over a block device
  (\<open>easy-fs/src/block_dev.rs\<close>).  At most sixteen blocks are in memory; a block that a caller
  still holds is never replaced, and a replaced or synchronised block is written back when it is
  dirty.  Every access to a block runs a closure on its bytes while the cache entry is locked;
  the closure may access further blocks.  \<open>None\<close> stands for a call that does not return: a
  panic, or locking an entry the same thread has locked already.
\<close>

section \<open>The device\<close>

text \<open>The device holds \<open>dev_size\<close> blocks; the driver panics on any other block number.\<close>

record block_device =
  dev_size :: nat
  dev_data :: "usize \<Rightarrow> u8 list"

definition BLOCK_SZ :: nat where "BLOCK_SZ = 512"

definition read_block :: "usize \<Rightarrow> block_device \<Rightarrow> u8 list option" where
  "read_block i d = (if unat i < dev_size d then Some (dev_data d i) else None)"

definition write_block :: "usize \<Rightarrow> u8 list \<Rightarrow> block_device \<Rightarrow> block_device option" where
  "write_block i bs d = (if unat i < dev_size d then Some (d\<lparr>dev_data := (dev_data d)(i := bs)\<rparr>) else None)"

section \<open>The cache\<close>

record block_cache =
  cache :: "u8 list"
  block_id :: usize
  modified :: bool

definition block_cache_new :: "usize \<Rightarrow> block_device \<Rightarrow> block_cache option" where
  "block_cache_new i d = map_option (\<lambda>bs. \<lparr>cache = bs, block_id = i, modified = False\<rparr>) (read_block i d)"

definition block_cache_sync :: "block_cache \<Rightarrow> block_device \<Rightarrow> (block_cache \<times> block_device) option" where
  "block_cache_sync c d =
     (if modified c then map_option (\<lambda>d. (c\<lparr>modified := False\<rparr>, d)) (write_block (block_id c) (cache c) d)
      else Some (c, d))"

text \<open>The manager, with the device behind it.  \<open>held\<close> lists the blocks whose entry is locked by
  a call in progress: for those the strong count of the entry is above one.\<close>

record block_cache_manager =
  queue :: "(usize \<times> block_cache) list"
  device :: block_device
  held :: "usize list"

definition BLOCK_CACHE_SIZE :: nat where "BLOCK_CACHE_SIZE = 16"

definition bcm_new :: "block_device \<Rightarrow> block_cache_manager" where
  "bcm_new d = \<lparr>queue = [], device = d, held = []\<rparr>"

definition evict_block :: "block_cache_manager \<Rightarrow> block_cache_manager option" where
  "evict_block s =
     (case position (\<lambda>p. fst p \<notin> set (held s)) (queue s) of
        None \<Rightarrow> None
      | Some idx \<Rightarrow>
          (case block_cache_sync (snd (queue s ! idx)) (device s) of
             None \<Rightarrow> None
           | Some (c, d) \<Rightarrow> Some (s\<lparr>queue := vec_remove idx (queue s), device := d\<rparr>)))"

definition get_block_cache :: "usize \<Rightarrow> block_cache_manager \<Rightarrow> block_cache_manager option" where
  "get_block_cache i s =
     (if map_of (queue s) i \<noteq> None then Some s
      else Option.bind (if length (queue s) = BLOCK_CACHE_SIZE then evict_block s else Some s) (\<lambda>s.
           Option.bind (block_cache_new i (device s)) (\<lambda>c.
           Some (s\<lparr>queue := queue s @ [(i, c)]\<rparr>))))"

definition set_entry :: "usize \<Rightarrow> block_cache \<Rightarrow> block_cache_manager \<Rightarrow> block_cache_manager" where
  "set_entry i c s = s\<lparr>queue := map (\<lambda>p. if fst p = i then (i, c) else p) (queue s)\<rparr>"

text \<open>\<open>get_block_cache(i, dev).lock()\<close>.\<close>

definition lock_block :: "usize \<Rightarrow> block_cache_manager \<Rightarrow> (block_cache \<times> block_cache_manager) option" where
  "lock_block i s =
     Option.bind (get_block_cache i s) (\<lambda>s.
       if i \<in> set (held s) then None
       else map_option (\<lambda>c. (c, s\<lparr>held := i # held s\<rparr>)) (map_of (queue s) i))"

definition unlock_block :: "usize \<Rightarrow> block_cache_manager \<Rightarrow> block_cache_manager" where
  "unlock_block i s = s\<lparr>held := remove1 i (held s)\<rparr>"

text \<open>\<open>BlockCache::read\<close> and \<open>BlockCache::modify\<close> of an object of \<open>n\<close> bytes at an offset; the
  closure gets the bytes of the object, and \<open>modify\<close> puts back what it left there.\<close>

definition cache_read :: "usize \<Rightarrow> nat \<Rightarrow> nat \<Rightarrow> (u8 list \<Rightarrow> block_cache_manager \<Rightarrow> ('v \<times> block_cache_manager) option) \<Rightarrow>
    block_cache_manager \<Rightarrow> ('v \<times> block_cache_manager) option" where
  "cache_read i off n f s =
     Option.bind (lock_block i s) (\<lambda>(c, s).
       if off + n \<le> BLOCK_SZ
       then map_option (\<lambda>(v, s). (v, unlock_block i s)) (f (slice_at off n (cache c)) s)
       else None)"

definition cache_modify :: "usize \<Rightarrow> nat \<Rightarrow> nat \<Rightarrow>
    (u8 list \<Rightarrow> block_cache_manager \<Rightarrow> ('v \<times> u8 list \<times> block_cache_manager) option) \<Rightarrow>
    block_cache_manager \<Rightarrow> ('v \<times> block_cache_manager) option" where
  "cache_modify i off n f s =
     Option.bind (lock_block i s) (\<lambda>(c, s).
       if off + n \<le> BLOCK_SZ
       then map_option (\<lambda>(v, bs, s). (v, unlock_block i (set_entry i (c\<lparr>cache := splice off bs (cache c), modified := True\<rparr>) s)))
              (f (slice_at off n (cache c)) (set_entry i (c\<lparr>modified := True\<rparr>) s))
       else None)"

fun sync_queue :: "(usize \<times> block_cache) list \<Rightarrow> block_device \<Rightarrow> ((usize \<times> block_cache) list \<times> block_device) option" where
  "sync_queue [] d = Some ([], d)"
| "sync_queue ((i, c) # q) d =
     Option.bind (block_cache_sync c d) (\<lambda>(c, d).
       map_option (\<lambda>(q, d). ((i, c) # q, d)) (sync_queue q d))"

text \<open>\<open>block_cache_sync_all\<close> locks every entry in turn.\<close>

definition block_cache_sync_all :: "block_cache_manager \<Rightarrow> block_cache_manager option" where
  "block_cache_sync_all s =
     (if \<forall>p\<in>set (queue s). fst p \<notin> set (held s) then map_option (\<lambda>(q, d). s\<lparr>queue := q, device := d\<rparr>) (sync_queue (queue s) (device s))
      else None)"

section \<open>The cache is transparent\<close>

text \<open>The contents of the disk as the file system sees them.\<close>

definition disk_at :: "(usize \<times> block_cache) list \<Rightarrow> block_device \<Rightarrow> usize \<Rightarrow> u8 list" where
  "disk_at q d i = (case map_of q i of Some c \<Rightarrow> cache c | None \<Rightarrow> dev_data d i)"

definition view :: "block_cache_manager \<Rightarrow> usize \<Rightarrow> u8 list" where
  "view s = disk_at (queue s) (device s)"

definition entry_ok :: "block_device \<Rightarrow> usize \<times> block_cache \<Rightarrow> bool" where
  "entry_ok d p \<longleftrightarrow> block_id (snd p) = fst p \<and> unat (fst p) < dev_size d \<and> length (cache (snd p)) = BLOCK_SZ \<and>
     (\<not> modified (snd p) \<longrightarrow> cache (snd p) = dev_data d (fst p))"

definition cache_inv :: "block_cache_manager \<Rightarrow> bool" where
  "cache_inv s \<longleftrightarrow> distinct (map fst (queue s)) \<and> length (queue s) \<le> BLOCK_CACHE_SIZE \<and>
     (\<forall>p\<in>set (queue s). entry_ok (device s) p) \<and>
     distinct (held s) \<and> set (held s) \<subseteq> fst ` set (queue s) \<and>
     (\<forall>i. length (dev_data (device s) i) = BLOCK_SZ)"

text \<open>What a call of the cache keeps: everything but which blocks are in memory.\<close>

definition same_disk :: "block_cache_manager \<Rightarrow> block_cache_manager \<Rightarrow> bool" where
  "same_disk s s' \<longleftrightarrow> cache_inv s' \<and> held s' = held s \<and> dev_size (device s') = dev_size (device s)"

lemma same_diskD: "same_disk s s' \<Longrightarrow> cache_inv s'" "same_disk s s' \<Longrightarrow> held s' = held s"
  "same_disk s s' \<Longrightarrow> dev_size (device s') = dev_size (device s)"
  by (simp_all add: same_disk_def)

lemma same_disk_trans: "same_disk s s' \<Longrightarrow> same_disk s' s'' \<Longrightarrow> same_disk s s''"
  by (simp add: same_disk_def)

lemma block_cache_sync_ok:
  assumes "entry_ok d (i, c)"
  shows "\<exists>c' d'. block_cache_sync c d = Some (c', d') \<and> entry_ok d' (i, c') \<and> cache c' = cache c \<and> \<not> modified c' \<and>
     dev_size d' = dev_size d \<and> dev_data d' = (dev_data d)(i := cache c)"
  using assms by (auto simp: block_cache_sync_def write_block_def entry_ok_def fun_upd_idem)

lemma entry_ok_other: "entry_ok d p \<Longrightarrow> fst p \<noteq> i \<Longrightarrow> dev_size d' = dev_size d \<Longrightarrow> dev_data d' = (dev_data d)(i := bs) \<Longrightarrow> entry_ok d' p"
  by (simp add: entry_ok_def)

lemma vec_remove_Cons: "vec_remove 0 (x # xs) = xs" "vec_remove (Suc k) (x # xs) = x # vec_remove k xs"
  by (simp_all add: vec_remove_def)

lemma map_of_vec_remove:
  "distinct (map fst q) \<Longrightarrow> k < length q \<Longrightarrow>
   map_of (vec_remove k q) = (map_of q)(fst (q ! k) := None) \<and> distinct (map fst (vec_remove k q))"
proof (induction q arbitrary: k)
  case (Cons x q)
  obtain a b where x: "x = (a, b)" by fastforce
  have n: "map_of q a = None" using Cons.prems(1) x by (simp add: map_of_eq_None_iff)
  show ?case
  proof (cases k)
    case 0
    with n x Cons.prems(1) show ?thesis by (auto simp: vec_remove_Cons fun_upd_idem)
  next
    case (Suc j)
    with Cons.IH [of j] Cons.prems have m: "map_of (vec_remove j q) = (map_of q)(fst (q ! j) := None)"
      and d: "distinct (map fst (vec_remove j q))" by auto
    have ne: "fst (q ! j) \<noteq> a" using Cons.prems Suc x by (metis distinct.simps(2) fst_conv image_eqI length_Cons list.simps(9) list.set_map nth_mem Suc_less_eq)
    have "a \<notin> fst ` set (vec_remove j q)" using Cons.prems(1) x set_vec_remove_subset [of j q] by auto
    then show ?thesis using m d ne x Suc by (auto simp: vec_remove_Cons fun_upd_twist)
  qed
qed simp

lemma evict_block_ok:
  assumes inv: "cache_inv s" and full: "length (queue s) = BLOCK_CACHE_SIZE" and room: "length (held s) < BLOCK_CACHE_SIZE"
  shows "\<exists>s'. evict_block s = Some s' \<and> same_disk s s' \<and> view s' = view s \<and> length (queue s') < BLOCK_CACHE_SIZE \<and>
     (\<forall>h\<in>set (held s). map_of (queue s') h = map_of (queue s) h)"
proof -
  from inv have d: "distinct (map fst (queue s))" and e: "\<forall>p\<in>set (queue s). entry_ok (device s) p"
    by (auto simp: cache_inv_def)
  have "\<exists>p\<in>set (queue s). fst p \<notin> set (held s)"
  proof (rule ccontr)
    assume "\<not> ?thesis"
    then have "fst ` set (queue s) \<subseteq> set (held s)" by auto
    then have "card (set (map fst (queue s))) \<le> card (set (held s))" using card_mono [of "set (held s)"] by simp
    moreover have "card (set (map fst (queue s))) = length (queue s)" using distinct_card [OF d] by simp
    moreover have "card (set (held s)) \<le> length (held s)" by (rule card_length)
    ultimately show False using full room by linarith
  qed
  then obtain k where k: "position (\<lambda>p. fst p \<notin> set (held s)) (queue s) = Some k"
    using position_None [of "\<lambda>p. fst p \<notin> set (held s)" "queue s"] by (cases "position (\<lambda>p. fst p \<notin> set (held s)) (queue s)") auto
  from position_Some [OF k] have kl: "k < length (queue s)" and kh: "fst (queue s ! k) \<notin> set (held s)" by blast+
  obtain i c where ic: "queue s ! k = (i, c)" by (cases "queue s ! k")
  have icm: "(i, c) \<in> set (queue s)" using nth_mem [OF kl] ic by simp
  with e have eo: "entry_ok (device s) (i, c)" by blast
  from block_cache_sync_ok [OF this] obtain c' d' where
    b: "block_cache_sync c (device s) = Some (c', d')" "dev_size d' = dev_size (device s)"
       "dev_data d' = (dev_data (device s))(i := cache c)" by blast
  let ?s = "s\<lparr>queue := vec_remove k (queue s), device := d'\<rparr>"
  have run: "evict_block s = Some ?s" by (simp add: evict_block_def k ic b(1))
  have mo: "map_of (vec_remove k (queue s)) = (map_of (queue s))(i := None)"
    and dv: "distinct (map fst (vec_remove k (queue s)))" using map_of_vec_remove [OF d kl] ic by simp_all
  have dm: "fst ` set (vec_remove k (queue s)) = fst ` set (queue s) - {i}"
    using arg_cong [OF mo, of dom] by (simp add: dom_map_of_conv_image_fst)
  have mi: "map_of (queue s) i = Some c" using d icm by (rule map_of_is_SomeI)
  have "disk_at (vec_remove k (queue s)) d' x = disk_at (queue s) (device s) x" for x
    by (cases "x = i") (simp_all add: disk_at_def mo b(3) mi split: option.split)
  then have "view ?s = view s" by (simp add: view_def fun_eq_iff)
  moreover have "cache_inv ?s"
  proof -
    have "entry_ok d' p" if p: "p \<in> set (vec_remove k (queue s))" for p
    proof (rule entry_ok_other [OF _ _ b(2,3)])
      show "entry_ok (device s) p" using bspec [OF e subsetD [OF set_vec_remove_subset p]] .
      show "fst p \<noteq> i" using dm p by auto
    qed
    moreover have "set (held s) \<subseteq> fst ` set (vec_remove k (queue s))"
      using inv kh ic unfolding dm by (auto simp: cache_inv_def)
    moreover have "length (dev_data d' x) = BLOCK_SZ" for x
      using inv eo by (simp add: b(3) cache_inv_def entry_ok_def)
    moreover have "length (vec_remove k (queue s)) \<le> BLOCK_CACHE_SIZE" using full length_vec_remove [OF kl] by simp
    ultimately show ?thesis using dv inv by (simp add: cache_inv_def)
  qed
  moreover have "length (vec_remove k (queue s)) < BLOCK_CACHE_SIZE" using full kl length_vec_remove [OF kl] by linarith
  moreover have "map_of (vec_remove k (queue s)) h = map_of (queue s) h" if "h \<in> set (held s)" for h
    using that kh ic unfolding mo by auto
  ultimately show ?thesis using b(2) by (intro exI [of _ ?s]) (simp add: run same_disk_def)
qed

lemma get_block_cache_ok:
  assumes inv: "cache_inv s" and i: "unat i < dev_size (device s)" and room: "length (held s) < BLOCK_CACHE_SIZE"
  shows "\<exists>s' c. get_block_cache i s = Some s' \<and> same_disk s s' \<and> view s' = view s \<and> map_of (queue s') i = Some c \<and>
     (\<forall>h\<in>set (held s). map_of (queue s') h = map_of (queue s) h)"
proof (cases "map_of (queue s) i")
  case (Some c)
  with inv show ?thesis by (auto simp: get_block_cache_def same_disk_def)
next
  case None
  obtain s1 where s1: "(if length (queue s) = BLOCK_CACHE_SIZE then evict_block s else Some s) = Some s1"
    "same_disk s s1" "view s1 = view s" "length (queue s1) < BLOCK_CACHE_SIZE"
    "\<forall>h\<in>set (held s). map_of (queue s1) h = map_of (queue s) h"
    "map_of (queue s1) i = None"
  proof (cases "length (queue s) = BLOCK_CACHE_SIZE")
    case True
    from evict_block_ok [OF inv this room] obtain s1 where s1: "evict_block s = Some s1" "same_disk s s1" "view s1 = view s"
      "length (queue s1) < BLOCK_CACHE_SIZE" "\<forall>h\<in>set (held s). map_of (queue s1) h = map_of (queue s) h" by blast
    moreover have "map_of (queue s1) i = None"
    proof -
      have "set (queue s1) \<subseteq> set (queue s)"
        using s1(1) set_vec_remove_subset by (fastforce simp: evict_block_def split: option.splits)
      with None show ?thesis by (auto simp: map_of_eq_None_iff)
    qed
    ultimately show ?thesis using that True by simp
  next
    case False
    with that [of s] inv None show ?thesis by (auto simp: same_disk_def cache_inv_def)
  qed
  note inv1 = same_diskD(1) [OF s1(2)]
  let ?c = "\<lparr>cache = dev_data (device s1) i, block_id = i, modified = False\<rparr>"
  let ?s = "s1\<lparr>queue := queue s1 @ [(i, ?c)]\<rparr>"
  have i1: "unat i < dev_size (device s1)" using i s1(2) by (simp add: same_disk_def)
  have run: "get_block_cache i s = Some ?s"
    unfolding get_block_cache_def s1(1) using None i1 by (simp add: block_cache_new_def read_block_def)
  have mo: "map_of (queue ?s) = (map_of (queue s1))(i \<mapsto> ?c)"
    by (rule ext) (use s1(6) in \<open>simp add: map_add_def split: option.split\<close>)
  have "disk_at (queue s1 @ [(i, ?c)]) (device s1) x = disk_at (queue s1) (device s1) x" for x
    using s1(6) mo by (cases "x = i") (simp_all add: disk_at_def)
  then have "view ?s = view s" unfolding s1(3) [symmetric] by (simp add: view_def fun_eq_iff)
  moreover have "cache_inv ?s"
    using inv1 s1(4,6) i1 by (auto simp: cache_inv_def entry_ok_def map_of_eq_None_iff)
  moreover have "\<forall>h\<in>set (held s). map_of (queue ?s) h = map_of (queue s) h"
  proof
    fix h assume h: "h \<in> set (held s)"
    then have "h \<in> fst ` set (queue s)" using inv by (auto simp: cache_inv_def)
    with None have "h \<noteq> i" by (auto simp: map_of_eq_None_iff)
    with h s1(5) show "map_of (queue ?s) h = map_of (queue s) h" unfolding mo by simp
  qed
  moreover have "map_of (queue ?s) i = Some ?c" unfolding mo by simp
  ultimately show ?thesis using run s1(2) unfolding same_disk_def by auto
qed

lemma lock_block_ok:
  assumes inv: "cache_inv s" and i: "unat i < dev_size (device s)" "i \<notin> set (held s)" and room: "length (held s) < BLOCK_CACHE_SIZE"
  shows "\<exists>s' c. lock_block i s = Some (c, s') \<and> cache_inv s' \<and> view s' = view s \<and> held s' = i # held s \<and>
     dev_size (device s') = dev_size (device s) \<and> map_of (queue s') i = Some c \<and> cache c = view s i \<and>
     entry_ok (device s') (i, c)"
proof -
  from get_block_cache_ok [OF inv i(1) room] obtain s1 c where s1: "get_block_cache i s = Some s1" "same_disk s s1"
    "view s1 = view s" "map_of (queue s1) i = Some c" by blast
  then have inv1: "cache_inv s1" and h: "held s1 = held s" by (simp_all add: same_disk_def)
  from map_of_SomeD [OF s1(4)] have m: "(i, c) \<in> set (queue s1)" .
  let ?s = "s1\<lparr>held := i # held s1\<rparr>"
  have "lock_block i s = Some (c, ?s)" using s1(1,4) i(2) h by (simp add: lock_block_def)
  moreover have "cache_inv ?s" using inv1 m i(2) h by (force simp: cache_inv_def)
  moreover have "view ?s = view s" using s1(3) by (simp add: view_def)
  moreover have "cache c = view s i" unfolding s1(3) [symmetric] by (simp add: view_def disk_at_def s1(4))
  moreover have "entry_ok (device s1) (i, c)" using inv1 m by (auto simp: cache_inv_def)
  ultimately show ?thesis using s1(2,4) h by (auto simp: same_disk_def)
qed

lemma map_of_set_entry: "map_of (queue (set_entry i c s)) = (\<lambda>x. if x = i \<and> map_of (queue s) i \<noteq> None then Some c else map_of (queue s) x)"
proof -
  have "map_of (map (\<lambda>p. if fst p = i then (i, c) else p) q) x = (if x = i \<and> map_of q i \<noteq> None then Some c else map_of q x)"
    for q :: "(usize \<times> block_cache) list" and x by (induction q) auto
  then show ?thesis by (auto simp: set_entry_def)
qed

lemma set_entry_keys: "map fst (queue (set_entry i c s)) = map fst (queue s)"
  by (simp add: set_entry_def)

lemma set_entry_ok:
  assumes "cache_inv s" "entry_ok (device s) (i, c)" "i \<in> fst ` set (queue s)"
  shows "cache_inv (set_entry i c s)" "view (set_entry i c s) = (view s)(i := cache c)"
    "held (set_entry i c s) = held s" "device (set_entry i c s) = device s"
proof -
  have "entry_ok (device s) p" if "p \<in> set (queue (set_entry i c s))" for p
    using that assms by (auto simp: set_entry_def cache_inv_def split: if_splits)
  moreover have "fst ` set (queue (set_entry i c s)) = fst ` set (queue s)"
    using arg_cong [OF set_entry_keys [of i c s], of set] by simp
  moreover have "length (queue (set_entry i c s)) = length (queue s)" "held (set_entry i c s) = held s"
    "device (set_entry i c s) = device s" by (simp_all add: set_entry_def)
  ultimately show "cache_inv (set_entry i c s)"
    using assms(1) set_entry_keys [of i c s] unfolding cache_inv_def by simp
  have "map_of (queue s) i \<noteq> None" using assms(3) by (auto simp: map_of_eq_None_iff)
  then have "disk_at (queue (set_entry i c s)) (device s) x = ((view s)(i := cache c)) x" for x
    by (simp add: view_def disk_at_def map_of_set_entry)
  then show "view (set_entry i c s) = (view s)(i := cache c)"
    by (simp add: view_def fun_eq_iff) (simp add: set_entry_def)
qed (simp_all add: set_entry_def)

section \<open>The laws of an access\<close>

lemma unlock_ok:
  assumes "cache_inv s" "held s = i # h"
  shows "cache_inv (unlock_block i s)" "held (unlock_block i s) = h" "view (unlock_block i s) = view s"
    "device (unlock_block i s) = device s"
  using assms by (auto simp: unlock_block_def cache_inv_def view_def)

lemma cache_read_ex:
  assumes inv: "cache_inv s" and i: "unat i < dev_size (device s)" "i \<notin> set (held s)" "length (held s) < BLOCK_CACHE_SIZE"
    and off: "off + n \<le> BLOCK_SZ"
    and f: "\<And>s1. cache_inv s1 \<Longrightarrow> view s1 = view s \<Longrightarrow> held s1 = i # held s \<Longrightarrow> dev_size (device s1) = dev_size (device s) \<Longrightarrow>
      \<exists>v s2. f (slice_at off n (view s i)) s1 = Some (v, s2) \<and> same_disk s1 s2 \<and> P v (view s2)"
  shows "\<exists>v s'. cache_read i off n f s = Some (v, s') \<and> same_disk s s' \<and> P v (view s')"
proof -
  from lock_block_ok [OF inv i] obtain s1 c where s1: "lock_block i s = Some (c, s1)" "cache_inv s1" "view s1 = view s"
    "held s1 = i # held s" "dev_size (device s1) = dev_size (device s)" "cache c = view s i" by blast
  from f [OF s1(2-5)] obtain v s2 where s2: "f (slice_at off n (view s i)) s1 = Some (v, s2)" "same_disk s1 s2" "P v (view s2)" by blast
  from unlock_ok [OF same_diskD(1) [OF s2(2)], of i "held s"] same_diskD [OF s2(2)] s1(4,5) s2(3)
  have "same_disk s (unlock_block i s2)" "P v (view (unlock_block i s2))" by (simp_all add: same_disk_def)
  with s1(1,6) s2(1) off show ?thesis by (auto simp: cache_read_def)
qed

lemma cache_read_ok:
  assumes inv: "cache_inv s" and i: "unat i < dev_size (device s)" "i \<notin> set (held s)" "length (held s) < BLOCK_CACHE_SIZE"
    and off: "off + n \<le> BLOCK_SZ"
    and f: "\<And>s1. cache_inv s1 \<Longrightarrow> view s1 = view s \<Longrightarrow> held s1 = i # held s \<Longrightarrow> dev_size (device s1) = dev_size (device s) \<Longrightarrow>
      \<exists>s2. f (slice_at off n (view s i)) s1 = Some (v, s2) \<and> same_disk s1 s2 \<and> view s2 = V"
  shows "\<exists>s'. cache_read i off n f s = Some (v, s') \<and> same_disk s s' \<and> view s' = V"
  using cache_read_ex [OF inv i off, of f "\<lambda>x y. x = v \<and> y = V"] f by blast

lemma cache_modify_ex:
  assumes inv: "cache_inv s" and i: "unat i < dev_size (device s)" "i \<notin> set (held s)" "length (held s) < BLOCK_CACHE_SIZE"
    and off: "off + n \<le> BLOCK_SZ"
    and f: "\<And>s1. cache_inv s1 \<Longrightarrow> view s1 = view s \<Longrightarrow> held s1 = i # held s \<Longrightarrow> dev_size (device s1) = dev_size (device s) \<Longrightarrow>
      \<exists>v bs s2. f (slice_at off n (view s i)) s1 = Some (v, bs, s2) \<and> same_disk s1 s2 \<and> length bs = n \<and> P v bs (view s2)"
  shows "\<exists>v bs V s'. cache_modify i off n f s = Some (v, s') \<and> same_disk s s' \<and> view s' = V(i := splice off bs (view s i)) \<and>
     length bs = n \<and> P v bs V"
proof -
  from lock_block_ok [OF inv i] obtain s1 c where s1: "lock_block i s = Some (c, s1)" "cache_inv s1" "view s1 = view s"
    "held s1 = i # held s" "dev_size (device s1) = dev_size (device s)" "map_of (queue s1) i = Some c" "cache c = view s i"
    "entry_ok (device s1) (i, c)" by blast
  have mem: "i \<in> fst ` set (queue s1)" using map_of_SomeD [OF s1(6)] by force
  let ?s1 = "set_entry i (c\<lparr>modified := True\<rparr>) s1"
  have "entry_ok (device s1) (i, c\<lparr>modified := True\<rparr>)" using s1(8) by (simp add: entry_ok_def)
  note e = set_entry_ok [OF s1(2) this mem]
  have v1: "view ?s1 = view s" using e(2) s1(3,7) by simp
  have "held ?s1 = i # held s" "dev_size (device ?s1) = dev_size (device s)" using e(3,4) s1(4,5) by simp_all
  from f [OF e(1) v1 this] obtain v bs s2 where
    s2: "f (slice_at off n (view s i)) ?s1 = Some (v, bs, s2)" "same_disk ?s1 s2" and bs: "length bs = n" and P: "P v bs (view s2)" by blast
  have h2: "held s2 = i # held s" "dev_size (device s2) = dev_size (device s)" "cache_inv s2"
    using same_diskD [OF s2(2)] e s1(4,5) by simp_all
  let ?c = "c\<lparr>cache := splice off bs (cache c), modified := True\<rparr>"
  let ?s2 = "set_entry i ?c s2"
  have len: "length (cache c) = BLOCK_SZ" "unat i < dev_size (device s)" "block_id c = i" using s1(8) i(1) by (auto simp: entry_ok_def)
  have "entry_ok (device s2) (i, ?c)" using len off bs h2(2) by (simp add: entry_ok_def)
  moreover have "i \<in> fst ` set (queue s2)" using h2(1,3) by (auto simp: cache_inv_def)
  ultimately have e2: "cache_inv ?s2" "view ?s2 = (view s2)(i := splice off bs (view s i))" "held ?s2 = i # held s" "device ?s2 = device s2"
    using set_entry_ok [OF h2(3), of i ?c] s1(7) h2(1) by auto
  from unlock_ok [OF e2(1,3)] e2 h2(2)
  have "same_disk s (unlock_block i ?s2)" "view (unlock_block i ?s2) = (view s2)(i := splice off bs (view s i))"
    by (simp_all add: same_disk_def)
  moreover have "cache_modify i off n f s = Some (v, unlock_block i ?s2)"
    using s1(1,7) s2(1) off by (simp add: cache_modify_def)
  ultimately show ?thesis using bs P by blast
qed

lemma cache_modify_ok:
  assumes inv: "cache_inv s" and i: "unat i < dev_size (device s)" "i \<notin> set (held s)" "length (held s) < BLOCK_CACHE_SIZE"
    and off: "off + n \<le> BLOCK_SZ"
    and f: "\<And>s1. cache_inv s1 \<Longrightarrow> view s1 = view s \<Longrightarrow> held s1 = i # held s \<Longrightarrow> dev_size (device s1) = dev_size (device s) \<Longrightarrow>
      \<exists>s2. f (slice_at off n (view s i)) s1 = Some (v, bs, s2) \<and> same_disk s1 s2 \<and> view s2 = V"
    and bs: "length bs = n"
  shows "\<exists>s'. cache_modify i off n f s = Some (v, s') \<and> same_disk s s' \<and> view s' = V(i := splice off bs (view s i))"
  using cache_modify_ex [OF inv i off, of f "\<lambda>x y z. x = v \<and> y = bs \<and> z = V"] f bs by blast

lemma sync_queue_ok:
  "distinct (map fst q) \<Longrightarrow> (\<forall>p\<in>set q. entry_ok d p) \<Longrightarrow>
   \<exists>q' d'. sync_queue q d = Some (q', d') \<and> map fst q' = map fst q \<and> (\<forall>p\<in>set q'. entry_ok d' p \<and> \<not> modified (snd p)) \<and>
     dev_size d' = dev_size d \<and> dev_data d' = disk_at q d \<and> (\<forall>i. map_option cache (map_of q' i) = map_option cache (map_of q i))"
proof (induction q arbitrary: d)
  case Nil
  then show ?case by (simp add: disk_at_def)
next
  case (Cons p q)
  obtain i c where p: "p = (i, c)" by (cases p)
  from Cons.prems(2) p have "entry_ok d (i, c)" by simp
  from block_cache_sync_ok [OF this] obtain c' d1 where
    b: "block_cache_sync c d = Some (c', d1)" "entry_ok d1 (i, c')" "cache c' = cache c" "\<not> modified c'"
       "dev_size d1 = dev_size d" "dev_data d1 = (dev_data d)(i := cache c)" by blast
  have e1: "\<forall>p\<in>set q. entry_ok d1 p"
    using Cons.prems p entry_ok_other [OF _ _ b(5,6)] by auto
  from Cons.IH [OF _ e1] Cons.prems(1) obtain q' d' where
    s: "sync_queue q d1 = Some (q', d')" "map fst q' = map fst q" "\<forall>p\<in>set q'. entry_ok d' p \<and> \<not> modified (snd p)"
       "dev_size d' = dev_size d1" "dev_data d' = disk_at q d1" "\<forall>i. map_option cache (map_of q' i) = map_option cache (map_of q i)"
    by auto
  have ni: "map_of q i = None" using Cons.prems(1) p by (simp add: map_of_eq_None_iff)
  have dd: "dev_data d' = disk_at ((i, c) # q) d"
    by (rule ext) (use ni in \<open>simp add: s(5) disk_at_def b(6) split: option.split\<close>)
  have "length (cache c') = BLOCK_SZ" "block_id c' = i" "unat i < dev_size d1" using b(2) by (simp_all add: entry_ok_def)
  then have "entry_ok d' (i, c')" using b(3,5) s(4) dd by (simp add: entry_ok_def disk_at_def)
  with b s dd p show ?case by auto
qed

lemma block_cache_sync_all_ok:
  assumes inv: "cache_inv s" and h: "held s = []"
  shows "\<exists>s'. block_cache_sync_all s = Some s' \<and> same_disk s s' \<and> view s' = view s \<and> dev_data (device s') = view s"
proof -
  from inv have "distinct (map fst (queue s))" "\<forall>p\<in>set (queue s). entry_ok (device s) p" by (auto simp: cache_inv_def)
  from sync_queue_ok [OF this] obtain q d where
    s: "sync_queue (queue s) (device s) = Some (q, d)" "map fst q = map fst (queue s)" "\<forall>p\<in>set q. entry_ok d p \<and> \<not> modified (snd p)"
       "dev_size d = dev_size (device s)" "dev_data d = view s" by (auto simp: view_def)
  let ?s = "s\<lparr>queue := q, device := d\<rparr>"
  have l: "length (view s x) = BLOCK_SZ" for x
    using inv by (auto simp: view_def disk_at_def cache_inv_def entry_ok_def split: option.split dest: map_of_SomeD)
  have "cache_inv ?s"
    using inv s h l map_eq_imp_length_eq [OF s(2)] by (simp add: cache_inv_def)
  moreover have "disk_at q d x = view s x" for x
    using s(3,5) by (auto simp: disk_at_def entry_ok_def split: option.split dest!: map_of_SomeD)
  then have "view ?s = view s" by (simp add: view_def [of ?s] fun_eq_iff)
  ultimately show ?thesis using s h by (auto simp: block_cache_sync_all_def same_disk_def)
qed

lemma bcm_new_inv: "(\<forall>i. length (dev_data d i) = BLOCK_SZ) \<Longrightarrow> cache_inv (bcm_new d)"
  "view (bcm_new d) = dev_data d" "held (bcm_new d) = []" "device (bcm_new d) = d"
  by (simp_all add: bcm_new_def cache_inv_def view_def disk_at_def [abs_def])

section \<open>A block store\<close>

text \<open>Plain reads and writes of a range of a block, and their contract.\<close>

definition cache_get :: "usize \<Rightarrow> nat \<Rightarrow> nat \<Rightarrow> block_cache_manager \<Rightarrow> (u8 list \<times> block_cache_manager) option" where
  "cache_get i off n = cache_read i off n (\<lambda>bs s. Some (bs, s))"

definition cache_put :: "usize \<Rightarrow> nat \<Rightarrow> u8 list \<Rightarrow> block_cache_manager \<Rightarrow> block_cache_manager option" where
  "cache_put i off bs s = map_option snd (cache_modify i off (length bs) (\<lambda>_ s. Some ((), bs, s)) s)"

definition usable :: "block_cache_manager \<Rightarrow> usize \<Rightarrow> bool" where
  "usable s i \<longleftrightarrow> cache_inv s \<and> unat i < dev_size (device s) \<and> i \<notin> set (held s) \<and> length (held s) < BLOCK_CACHE_SIZE"

locale block_store =
  fixes usable :: "'s \<Rightarrow> usize \<Rightarrow> bool"
    and view :: "'s \<Rightarrow> usize \<Rightarrow> u8 list"
    and get :: "usize \<Rightarrow> nat \<Rightarrow> nat \<Rightarrow> 's \<Rightarrow> (u8 list \<times> 's) option"
    and put :: "usize \<Rightarrow> nat \<Rightarrow> u8 list \<Rightarrow> 's \<Rightarrow> 's option"
    and sync :: "'s \<Rightarrow> 's option"
    and stable :: "'s \<Rightarrow> usize \<Rightarrow> u8 list"
    and idle :: "'s \<Rightarrow> bool"
  assumes get_ok: "usable s i \<Longrightarrow> off + n \<le> BLOCK_SZ \<Longrightarrow>
        \<exists>s'. get i off n s = Some (slice_at off n (view s i), s') \<and> view s' = view s \<and> usable s' = usable s \<and> idle s' = idle s"
    and put_ok: "usable s i \<Longrightarrow> off + length bs \<le> BLOCK_SZ \<Longrightarrow>
        \<exists>s'. put i off bs s = Some s' \<and> view s' = (view s)(i := splice off bs (view s i)) \<and> usable s' = usable s \<and> idle s' = idle s"
    and sync_ok: "idle s \<Longrightarrow> \<exists>s'. sync s = Some s' \<and> view s' = view s \<and> stable s' = view s \<and> usable s' = usable s \<and> idle s'"

text \<open>A sequence of accesses, through a store and on a plain array of blocks.\<close>

datatype disk_op = DGet usize nat nat | DPut usize nat "u8 list" | DSync

fun op_valid :: "(usize \<Rightarrow> bool) \<Rightarrow> disk_op \<Rightarrow> bool" where
  "op_valid U (DGet i off n) \<longleftrightarrow> U i \<and> off + n \<le> BLOCK_SZ"
| "op_valid U (DPut i off bs) \<longleftrightarrow> U i \<and> off + length bs \<le> BLOCK_SZ"
| "op_valid U DSync \<longleftrightarrow> True"

fun array_run :: "disk_op list \<Rightarrow> (usize \<Rightarrow> u8 list) \<Rightarrow> u8 list list \<times> (usize \<Rightarrow> u8 list)" where
  "array_run [] a = ([], a)"
| "array_run (DGet i off n # ops) a = (let (out, a') = array_run ops a in (slice_at off n (a i) # out, a'))"
| "array_run (DPut i off bs # ops) a = array_run ops (a(i := splice off bs (a i)))"
| "array_run (DSync # ops) a = array_run ops a"

fun store_run :: "(usize \<Rightarrow> nat \<Rightarrow> nat \<Rightarrow> 's \<Rightarrow> (u8 list \<times> 's) option) \<Rightarrow> (usize \<Rightarrow> nat \<Rightarrow> u8 list \<Rightarrow> 's \<Rightarrow> 's option) \<Rightarrow>
    ('s \<Rightarrow> 's option) \<Rightarrow> disk_op list \<Rightarrow> 's \<Rightarrow> (u8 list list \<times> 's) option" where
  "store_run get put sync [] s = Some ([], s)"
| "store_run get put sync (DGet i off n # ops) s =
     Option.bind (get i off n s) (\<lambda>(bs, s). map_option (\<lambda>(out, s). (bs # out, s)) (store_run get put sync ops s))"
| "store_run get put sync (DPut i off bs # ops) s = Option.bind (put i off bs s) (store_run get put sync ops)"
| "store_run get put sync (DSync # ops) s = Option.bind (sync s) (store_run get put sync ops)"

context block_store begin

lemma run_refines:
  assumes "idle s" "\<forall>op\<in>set ops. op_valid (usable s) op"
  shows "\<exists>s'. store_run get put sync ops s = Some (fst (array_run ops (view s)), s') \<and>
     view s' = snd (array_run ops (view s)) \<and> usable s' = usable s \<and> idle s'"
  using assms
proof (induction ops arbitrary: s)
  case (Cons op ops)
  show ?case
  proof (cases op)
    case (DGet i off n)
    with get_ok [of s i off n] Cons.prems obtain s1 where
      1: "get i off n s = Some (slice_at off n (view s i), s1)" "view s1 = view s" "usable s1 = usable s" "idle s1" by auto
    from Cons.IH [of s1] Cons.prems 1 DGet show ?thesis by (auto simp: split_beta)
  next
    case (DPut i off bs)
    with put_ok [of s i off bs] Cons.prems obtain s1 where
      1: "put i off bs s = Some s1" "view s1 = (view s)(i := splice off bs (view s i))" "usable s1 = usable s" "idle s1" by auto
    from Cons.IH [of s1] Cons.prems 1 DPut show ?thesis by (auto simp del: fun_upd_apply)
  next
    case DSync
    with sync_ok [of s] Cons.prems obtain s1 where
      1: "sync s = Some s1" "view s1 = view s" "usable s1 = usable s" "idle s1" by auto
    from Cons.IH [of s1] Cons.prems 1 DSync show ?thesis by auto
  qed
qed simp

end

lemma same_disk_usable: "cache_inv s \<Longrightarrow> same_disk s s' \<Longrightarrow> usable s' = usable s"
  by (rule ext) (auto simp: usable_def same_disk_def)

interpretation bc: block_store usable view cache_get cache_put block_cache_sync_all "\<lambda>s. dev_data (device s)"
    "\<lambda>s. cache_inv s \<and> held s = []"
proof (unfold_locales, goal_cases)
  case (1 s i off n)
  then have s: "cache_inv s" "unat i < dev_size (device s)" "i \<notin> set (held s)" "length (held s) < BLOCK_CACHE_SIZE"
    by (auto simp: usable_def)
  have "\<exists>s'. cache_get i off n s = Some (slice_at off n (view s i), s') \<and> same_disk s s' \<and> view s' = view s"
    unfolding cache_get_def by (rule cache_read_ok [OF s 1(2)]) (simp add: same_disk_def)
  then obtain s' where s': "cache_get i off n s = Some (slice_at off n (view s i), s')" "same_disk s s'" "view s' = view s" by blast
  show ?case
    by (intro exI [of _ s'] conjI s'(1,3) same_disk_usable [OF s(1) s'(2)]) (use s'(2) s(1) in \<open>simp add: same_disk_def\<close>)
next
  case (2 s i off bs)
  then have s: "cache_inv s" "unat i < dev_size (device s)" "i \<notin> set (held s)" "length (held s) < BLOCK_CACHE_SIZE"
    by (auto simp: usable_def)
  have "\<exists>s'. cache_modify i off (length bs) (\<lambda>_ s. Some ((), bs, s)) s = Some ((), s') \<and> same_disk s s' \<and>
      view s' = (view s)(i := splice off bs (view s i))"
    by (rule cache_modify_ok [OF s 2(2)]) (simp_all add: same_disk_def)
  then obtain s' where s': "cache_modify i off (length bs) (\<lambda>_ s. Some ((), bs, s)) s = Some ((), s')" "same_disk s s'"
    "view s' = (view s)(i := splice off bs (view s i))" by blast
  have run: "cache_put i off bs s = Some s'" by (simp add: cache_put_def s'(1))
  show ?case
    by (intro exI [of _ s'] conjI run s'(3) same_disk_usable [OF s(1) s'(2)]) (use s'(2) s(1) in \<open>simp add: same_disk_def\<close>)
next
  case (3 s)
  with block_cache_sync_all_ok [of s] obtain s' where
    s': "block_cache_sync_all s = Some s'" "same_disk s s'" "view s' = view s" "dev_data (device s') = view s" by blast
  have inv: "cache_inv s" using 3 by simp
  show ?case
    by (intro exI [of _ s'] conjI s'(1,3,4) same_disk_usable [OF inv s'(2)]) (use s'(2) 3 in \<open>simp_all add: same_disk_def\<close>)
qed

text \<open>
  C7: the block cache is transparent.  A sequence of block reads, writes and synchronisations
  through the cache, with blocks replaced and written back along the way, returns (it never runs
  out of cache entries) and reads exactly what the same sequence reads on a plain array of
  blocks; afterwards a synchronisation leaves exactly that array on the device.
\<close>

theorem block_cache_transparent:
  assumes "\<forall>i. length (dev_data d i) = BLOCK_SZ" "\<forall>op\<in>set ops. op_valid (\<lambda>i. unat i < dev_size d) op"
  shows "\<exists>out s s'. store_run cache_get cache_put block_cache_sync_all ops (bcm_new d) = Some (out, s) \<and>
     out = fst (array_run ops (dev_data d)) \<and> length (queue s) \<le> BLOCK_CACHE_SIZE \<and>
     block_cache_sync_all s = Some s' \<and> dev_data (device s') = snd (array_run ops (dev_data d))"
proof -
  note n = bcm_new_inv(1) [OF assms(1)] bcm_new_inv(2-4) [of d]
  have "usable (bcm_new d) = (\<lambda>i. unat i < dev_size d)" by (rule ext) (simp add: usable_def n BLOCK_CACHE_SIZE_def)
  with bc.run_refines [of "bcm_new d" ops] n assms(2) obtain s where
    s: "store_run cache_get cache_put block_cache_sync_all ops (bcm_new d) = Some (fst (array_run ops (dev_data d)), s)"
      "view s = snd (array_run ops (dev_data d))" "cache_inv s" "held s = []" by auto
  from bc.sync_ok [of s] s show ?thesis by (fastforce simp: cache_inv_def)
qed

theorem block_cache_transparent_witness:
  "\<exists>s. store_run cache_get cache_put block_cache_sync_all [DPut 1 0 [7, 8], DGet 1 1 1]
     (bcm_new \<lparr>dev_size = 64, dev_data = \<lambda>_. replicate 512 0\<rparr>) = Some ([[8]], s)"
proof -
  let ?d = "\<lparr>dev_size = 64, dev_data = \<lambda>_. replicate 512 0\<rparr>"
  have "\<forall>i. length (dev_data ?d i) = BLOCK_SZ" "\<forall>op\<in>set [DPut 1 0 [7, 8], DGet 1 1 1]. op_valid (\<lambda>i. unat i < dev_size ?d) op"
    by (simp_all add: BLOCK_SZ_def)
  from block_cache_transparent [OF this] show ?thesis by (auto simp: splice_def slice_at_def)
qed

end
