(* ===== verification/Le_Arrays.thy ===== *)
theory Le_Arrays
  imports Prelude
begin

text \<open>
  Arrays of fixed-width little-endian integers as the bytes of a disk block: the cast of a
  block to \<open>[u64; 64]\<close> or \<open>[u32; 128]\<close> that \<open>BlockCache::get_ref\<close> performs, in both
  directions.
\<close>

definition le_concat :: "'a::len word list \<Rightarrow> u8 list" where
  "le_concat ws = concat (map to_le_bytes ws)"

fun le_split :: "nat \<Rightarrow> u8 list \<Rightarrow> 'a::len word list" where
  "le_split 0 bs = []"
| "le_split (Suc k) bs = from_le_bytes (take (LENGTH('a) div 8) bs) # le_split k (drop (LENGTH('a) div 8) bs)"

lemma pow_256: "8 dvd n \<Longrightarrow> (256 :: nat) ^ (n div 8) = 2 ^ n"
proof -
  assume "8 dvd n"
  then obtain k where "n = 8 * k" ..
  then show ?thesis by (simp add: power_mult)
qed

lemma from_to_le:
  "8 dvd LENGTH('a::len) \<Longrightarrow> from_le_bytes (to_le_bytes (w :: 'a word)) = w"
  using unat_bound [of w] by (simp add: from_le_bytes_def to_le_bytes_def nat_from_to_le pow_256)

lemma to_from_le:
  assumes "8 dvd LENGTH('a::len)" "length bs = LENGTH('a) div 8"
  shows "to_le_bytes (from_le_bytes bs :: 'a word) = bs"
proof -
  have "nat_from_le bs < 2 ^ LENGTH('a)" using nat_from_le_bound [of bs] assms by (simp add: pow_256)
  then show ?thesis
    using nat_to_from_le [of bs] assms(2) by (simp add: to_le_bytes_def from_le_bytes_def unat_of_nat)
qed

lemma length_le_concat: "length (le_concat (ws :: 'a::len word list)) = LENGTH('a) div 8 * length ws"
  by (induction ws) (auto simp: le_concat_def)

lemma length_le_split [simp]: "length (le_split k bs) = k"
  by (induction k arbitrary: bs) auto

lemma le_split_concat:
  "8 dvd LENGTH('a::len) \<Longrightarrow> le_split (length ws) (le_concat (ws :: 'a word list)) = ws"
  by (induction ws) (auto simp: le_concat_def from_to_le)

lemma le_concat_split:
  assumes "8 dvd LENGTH('a::len)" "length bs = LENGTH('a) div 8 * k"
  shows "le_concat (le_split k bs :: 'a word list) = bs"
  using assms(2)
proof (induction k arbitrary: bs)
  case (Suc k)
  let ?w = "LENGTH('a) div 8"
  have "length (take ?w bs) = ?w" "length (drop ?w bs) = ?w * k" using Suc.prems by simp_all
  with Suc.IH [of "drop ?w bs"] to_from_le [OF assms(1), of "take ?w bs"] show ?case by (simp add: le_concat_def)
qed (simp add: le_concat_def)

lemma nth_le_split: "i < k \<Longrightarrow> (le_split k bs :: 'a::len word list) ! i = from_le_bytes (slice_at (LENGTH('a) div 8 * i) (LENGTH('a) div 8) bs)"
  by (induction k arbitrary: bs i) (auto simp: nth_Cons slice_at_def add.commute split: nat.splits)

text \<open>\<open>u64::trailing_ones\<close>.\<close>

definition trailing_ones :: "u64 \<Rightarrow> nat" where
  "trailing_ones w = length (takeWhile (bit w) [0..<64])"

lemma trailing_ones_le: "trailing_ones w \<le> 64"
  using length_takeWhile_le [of "bit w" "[0..<64]"] by (simp add: trailing_ones_def)

lemma trailing_ones_below: "n < trailing_ones w \<Longrightarrow> bit w n"
  using takeWhile_nth [of n "bit w" "[0..<64]"] nth_length_takeWhile trailing_ones_le [of w]
    set_takeWhileD [of "takeWhile (bit w) [0..<64] ! n" "bit w" "[0..<64]"] nth_mem [of n "takeWhile (bit w) [0..<64]"]
  by (simp add: trailing_ones_def)

lemma trailing_ones_clear:
  assumes "w \<noteq> - 1"
  shows "trailing_ones w < 64" "\<not> bit w (trailing_ones w)"
proof -
  have "\<exists>n<64. \<not> bit w n"
  proof (rule ccontr)
    assume "\<not> ?thesis"
    then have "w = - 1" by (intro bit_eqI) auto
    with assms show False ..
  qed
  then have l: "trailing_ones w < 64"
    using trailing_ones_below [of _ w] by (meson not_le order_less_le_trans)
  then show "trailing_ones w < 64" .
  show "\<not> bit w (trailing_ones w)"
    using nth_length_takeWhile [of "bit w" "[0..<64]"] l by (simp add: trailing_ones_def)
qed

end
