(* ===== verification/Bitmap.thy ===== *)
theory Bitmap
  imports Block_Cache Le_Arrays Allocators
begin

text \<open>
  The allocation bitmaps of the file system (\<open>easy-fs/src/bitmap.rs\<close>), reached through the
  block cache.  A bitmap is one more allocator of handles: it is interpreted as
  \<open>handle_allocator\<close>, the contract of the frame and pid allocators.
\<close>

unbundle bit_operations_syntax

section \<open>Operations\<close>

definition BLOCK_BITS :: usize where "BLOCK_BITS = word_of_nat BLOCK_SZ * 8"

record bitmap =
  start_block_id :: usize
  bm_blocks :: usize

definition decomposition :: "usize \<Rightarrow> usize \<times> usize \<times> usize" where
  "decomposition b = (b div BLOCK_BITS, (b mod BLOCK_BITS) div 64, (b mod BLOCK_BITS) mod 64)"

text \<open>The closure of \<open>Bitmap::alloc\<close>: the first word that is not full, and its lowest clear
  bit.\<close>

definition alloc_in_block :: "usize \<Rightarrow> u8 list \<Rightarrow> usize option \<times> u8 list" where
  "alloc_in_block k bs =
     (let bitmap_block = (le_split 64 bs :: u64 list) in
      case position (\<lambda>bits64. bits64 \<noteq> - 1) bitmap_block of
        None \<Rightarrow> (None, bs)
      | Some bits64_pos \<Rightarrow>
          let inner_pos = trailing_ones (bitmap_block ! bits64_pos) in
          (Some (k * BLOCK_BITS + word_of_nat bits64_pos * 64 + word_of_nat inner_pos),
           le_concat (bitmap_block[bits64_pos := bitmap_block ! bits64_pos OR push_bit inner_pos 1])))"

fun bitmap_alloc_loop :: "bitmap \<Rightarrow> nat list \<Rightarrow> block_cache_manager \<Rightarrow> (usize option \<times> block_cache_manager) option" where
  "bitmap_alloc_loop bm [] s = Some (None, s)"
| "bitmap_alloc_loop bm (k # ks) s =
     Option.bind (cache_modify (word_of_nat k + start_block_id bm) 0 BLOCK_SZ
                    (\<lambda>bs s. let (pos, bs) = alloc_in_block (word_of_nat k) bs in Some (pos, bs, s)) s)
       (\<lambda>(pos, s). if pos \<noteq> None then Some (pos, s) else bitmap_alloc_loop bm ks s)"

definition bitmap_alloc :: "bitmap \<Rightarrow> block_cache_manager \<Rightarrow> (usize option \<times> block_cache_manager) option" where
  "bitmap_alloc bm s = bitmap_alloc_loop bm [0..<unat (bm_blocks bm)] s"

definition dealloc_in_block :: "usize \<Rightarrow> usize \<Rightarrow> u8 list \<Rightarrow> u8 list option" where
  "dealloc_in_block bits64_pos inner_pos bs =
     (let bitmap_block = (le_split 64 bs :: u64 list); w = bitmap_block ! unat bits64_pos in
      if 0 < w AND push_bit (unat inner_pos) 1
      then Some (le_concat (bitmap_block[unat bits64_pos := w - push_bit (unat inner_pos) 1]))
      else None)"

definition bitmap_dealloc :: "bitmap \<Rightarrow> usize \<Rightarrow> block_cache_manager \<Rightarrow> block_cache_manager option" where
  "bitmap_dealloc bm b s =
     (let (block_pos, bits64_pos, inner_pos) = decomposition b in
      map_option snd (cache_modify (block_pos + start_block_id bm) 0 BLOCK_SZ
        (\<lambda>bs s. map_option (\<lambda>bs. ((), bs, s)) (dealloc_in_block bits64_pos inner_pos bs)) s))"

definition bitmap_maximum :: "bitmap \<Rightarrow> usize" where
  "bitmap_maximum bm = bm_blocks bm * BLOCK_BITS"

section \<open>The bits of one block\<close>

definition block_bit :: "u8 list \<Rightarrow> nat \<Rightarrow> bool" where
  "block_bit bs n \<longleftrightarrow> bit ((le_split 64 bs :: u64 list) ! (n div 64)) (n mod 64)"

lemma le64: "(8 :: nat) dvd LENGTH(64)" by simp

lemma div_mod_64: "j < 64 \<Longrightarrow> i < 64 \<Longrightarrow> (64 * i + j) div 64 = i" "j < 64 \<Longrightarrow> (64 * i + j) mod 64 = (j :: nat)"
  by simp_all

lemma same_quot_rem: "(n :: nat) = p \<longleftrightarrow> n div k = p div k \<and> n mod k = p mod k"
  by (metis div_mult_mod_eq)

lemma mask_bit: "k < 64 \<Longrightarrow> bit (push_bit k (1 :: u64)) j \<longleftrightarrow> j = k"
  by (auto simp: bit_exp_iff)

lemma block_bit_update:
  assumes "length ws = 64" "i < 64" "n < 4096"
  shows "block_bit (le_concat ((ws :: u64 list)[i := w])) n \<longleftrightarrow> (if n div 64 = i then bit w (n mod 64) else bit (ws ! (n div 64)) (n mod 64))"
  using le_split_concat [of "ws[i := w]"] assms by (auto simp: block_bit_def nth_list_update)

lemma alloc_in_block_ok:
  assumes "length bs = 512" "k < 2 ^ 40"
  shows "(\<forall>n<4096. block_bit bs n) \<and> alloc_in_block (word_of_nat k) bs = (None, bs) \<or>
     (\<exists>p<4096. \<not> block_bit bs p \<and> (\<forall>n<p. block_bit bs n) \<and>
        (\<exists>bs'. alloc_in_block (word_of_nat k) bs = (Some (word_of_nat (4096 * k + p)), bs') \<and> length bs' = 512 \<and>
           (\<forall>n<4096. block_bit bs' n \<longleftrightarrow> n = p \<or> block_bit bs n)))"
proof (cases "position (\<lambda>w. w \<noteq> - 1) (le_split 64 bs :: u64 list)")
  case None
  then have all: "\<forall>w\<in>set (le_split 64 bs :: u64 list). w = - 1" by (simp add: position_None)
  have "block_bit bs n" if "n < 4096" for n
  proof -
    have "n div 64 < length (le_split 64 bs :: u64 list)" using that by simp
    from nth_mem [OF this] all have "(le_split 64 bs :: u64 list) ! (n div 64) = - 1" by blast
    then show ?thesis by (simp add: block_bit_def)
  qed
  with None show ?thesis by (simp add: alloc_in_block_def)
next
  case (Some i)
  let ?ws = "le_split 64 bs :: u64 list"
  from position_Some [OF Some] have i: "i < 64" "?ws ! i \<noteq> - 1" "\<forall>j<i. ?ws ! j = - 1" by auto
  let ?t = "trailing_ones (?ws ! i)"
  note t = trailing_ones_clear [OF i(2)]
  let ?p = "64 * i + ?t"
  let ?bs = "le_concat (?ws[i := ?ws ! i OR push_bit ?t 1])"
  have p: "?p div 64 = i" "?p mod 64 = ?t" "?p < 4096" using t(1) i(1) by auto
  have "block_bit bs n" if "n < ?p" for n
  proof (cases "n div 64 = i")
    case True
    then have "n mod 64 < ?t" using that div_mult_mod_eq [of n 64] by simp
    then show ?thesis by (simp add: block_bit_def True trailing_ones_below)
  next
    case False
    then have "n div 64 < i" using that p(1) div_le_mono [of n ?p 64] by simp
    with i(3) have w: "?ws ! (n div 64) = - 1" by blast
    then show ?thesis by (simp add: block_bit_def)
  qed
  moreover have "\<not> block_bit bs ?p" using t(2) unfolding block_bit_def p .
  moreover have "block_bit ?bs n \<longleftrightarrow> n = ?p \<or> block_bit bs n" if "n < 4096" for n
  proof -
    have "n = ?p \<longleftrightarrow> n div 64 = i \<and> n mod 64 = ?t"
      using same_quot_rem [of n ?p 64] unfolding p by simp
    then show ?thesis
      using block_bit_update [of ?ws i n "?ws ! i OR push_bit ?t 1"] i(1) that mask_bit [OF t(1)]
      by (auto simp: block_bit_def bit_or_iff simp del: push_bit_of_1)
  qed
  moreover have "alloc_in_block (word_of_nat k) bs = (Some (word_of_nat (4096 * k + ?p)), ?bs)"
    by (simp add: alloc_in_block_def Some Let_def BLOCK_BITS_def BLOCK_SZ_def ac_simps)
  moreover have "length ?bs = 512" by (simp add: length_le_concat)
  ultimately show ?thesis using p(3) by blast
qed

lemma dealloc_in_block_ok:
  assumes "length bs = 512" "p < 4096"
  shows "dealloc_in_block (word_of_nat (p div 64)) (word_of_nat (p mod 64)) bs =
     (if block_bit bs p then Some (le_concat ((le_split 64 bs :: u64 list)[p div 64 := (le_split 64 bs ! (p div 64)) - push_bit (p mod 64) 1])) else None)"
    and "block_bit bs p \<Longrightarrow> n < 4096 \<Longrightarrow>
      block_bit (le_concat ((le_split 64 bs :: u64 list)[p div 64 := (le_split 64 bs ! (p div 64)) - push_bit (p mod 64) 1])) n \<longleftrightarrow>
      n \<noteq> p \<and> block_bit bs n"
proof -
  let ?w = "(le_split 64 bs :: u64 list) ! (p div 64)" and ?m = "push_bit (p mod 64) 1 :: u64"
  have u: "unat (word_of_nat (p div 64) :: usize) = p div 64" "unat (word_of_nat (p mod 64) :: usize) = p mod 64"
    using assms(2) by (simp_all add: unat_of_nat_u64)
  have mk: "bit ?m j \<longleftrightarrow> j = p mod 64" for j by (rule mask_bit) simp
  have a: "0 < ?w AND ?m \<longleftrightarrow> block_bit bs p"
  proof -
    have "?w AND ?m = (if bit ?w (p mod 64) then ?m else 0)"
      by (intro bit_eqI) (auto simp: bit_and_iff mk simp del: push_bit_of_1)
    moreover have "?m \<noteq> 0" using mk [of "p mod 64"] by (auto simp del: push_bit_of_1)
    ultimately show ?thesis by (simp add: block_bit_def word_gt_0)
  qed
  then show "dealloc_in_block (word_of_nat (p div 64)) (word_of_nat (p mod 64)) bs =
     (if block_bit bs p then Some (le_concat ((le_split 64 bs :: u64 list)[p div 64 := ?w - ?m])) else None)"
    by (simp add: dealloc_in_block_def u Let_def)
  assume b: "block_bit bs p" and n: "n < 4096"
  have sub: "?w - ?m = ?w AND NOT ?m"
  proof -
    have "?w = (?w AND NOT ?m) OR ?m"
      using b by (intro bit_eqI) (auto simp: block_bit_def bit_or_iff bit_and_iff bit_not_iff mk simp del: push_bit_of_1)
    moreover have "(?w AND NOT ?m) AND ?m = 0" by (intro bit_eqI) (auto simp: bit_and_iff bit_not_iff)
    ultimately have "?w = (?w AND NOT ?m) + ?m" using disjunctive_add_eq_or [of "?w AND NOT ?m" ?m] by simp
    then show ?thesis by (simp add: algebra_simps)
  qed
  have "p div 64 < 64" using assms(2) by simp
  then have "block_bit (le_concat ((le_split 64 bs :: u64 list)[p div 64 := ?w - ?m])) n \<longleftrightarrow>
      (if n div 64 = p div 64 then bit (?w - ?m) (n mod 64) else bit ((le_split 64 bs :: u64 list) ! (n div 64)) (n mod 64))"
    using block_bit_update [of "le_split 64 bs" "p div 64" n "?w - ?m"] n by simp
  moreover have "n = p \<longleftrightarrow> n div 64 = p div 64 \<and> n mod 64 = p mod 64" by (rule same_quot_rem)
  ultimately show "block_bit (le_concat ((le_split 64 bs :: u64 list)[p div 64 := ?w - ?m])) n \<longleftrightarrow> n \<noteq> p \<and> block_bit bs n"
    unfolding sub by (auto simp: block_bit_def bit_and_iff bit_not_iff mk simp del: push_bit_of_1)
qed

section \<open>The bits of a bitmap\<close>

definition bm_bit :: "bitmap \<Rightarrow> (usize \<Rightarrow> u8 list) \<Rightarrow> nat \<Rightarrow> bool" where
  "bm_bit bm V n \<longleftrightarrow> block_bit (V (word_of_nat (n div 4096) + start_block_id bm)) (n mod 4096)"

definition bm_inv :: "bitmap \<Rightarrow> block_cache_manager \<Rightarrow> bool" where
  "bm_inv bm s \<longleftrightarrow> cache_inv s \<and> length (held s) < BLOCK_CACHE_SIZE \<and> dev_size (device s) \<le> 2 ^ 40 \<and>
     unat (start_block_id bm) + unat (bm_blocks bm) \<le> dev_size (device s) \<and>
     (\<forall>k<unat (bm_blocks bm). word_of_nat k + start_block_id bm \<notin> set (held s))"

lemma bm_inv_same_disk: "bm_inv bm s \<Longrightarrow> same_disk s s' \<Longrightarrow> bm_inv bm s'"
  by (auto simp: bm_inv_def same_disk_def)

lemma bm_blockD:
  assumes "bm_inv bm s" "k < unat (bm_blocks bm)"
  shows "cache_inv s" "unat (word_of_nat k + start_block_id bm) < dev_size (device s)"
    "word_of_nat k + start_block_id bm \<notin> set (held s)" "length (held s) < BLOCK_CACHE_SIZE"
    "unat (word_of_nat k + start_block_id bm) = k + unat (start_block_id bm)" "k < 2 ^ 40"
proof -
  have "k + unat (start_block_id bm) < dev_size (device s)" "dev_size (device s) \<le> 2 ^ 40" using assms by (auto simp: bm_inv_def)
  then show "unat (word_of_nat k + start_block_id bm) = k + unat (start_block_id bm)" "k < 2 ^ 40"
    by (simp_all add: unat_add_u64_small unat_of_nat_u64)
  with assms show "cache_inv s" "unat (word_of_nat k + start_block_id bm) < dev_size (device s)"
    "word_of_nat k + start_block_id bm \<notin> set (held s)" "length (held s) < BLOCK_CACHE_SIZE" by (auto simp: bm_inv_def)
qed

lemma bm_block_inj:
  assumes "bm_inv bm s" "k < unat (bm_blocks bm)" "j < unat (bm_blocks bm)"
  shows "word_of_nat k + start_block_id bm = word_of_nat j + start_block_id bm \<longleftrightarrow> k = j"
  using bm_blockD(5) [OF assms(1,2)] bm_blockD(5) [OF assms(1,3)] by (auto simp: word_unat_eq_iff)

lemma length_view: "cache_inv s \<Longrightarrow> length (view s i) = BLOCK_SZ"
  by (auto simp: view_def disk_at_def cache_inv_def entry_ok_def split: option.split dest: map_of_SomeD)

text \<open>Updating one block of a bitmap.\<close>

lemma bm_bit_update:
  assumes inv: "bm_inv bm s" and k: "k < unat (bm_blocks bm)" and n: "n < 4096 * unat (bm_blocks bm)"
  shows "bm_bit bm (V(word_of_nat k + start_block_id bm := bs)) n \<longleftrightarrow>
     (if n div 4096 = k then block_bit bs (n mod 4096) else bm_bit bm V n)"
proof -
  have "n div 4096 < unat (bm_blocks bm)" using n by (simp add: less_mult_imp_div_less mult.commute)
  from bm_block_inj [OF inv this k] show ?thesis by (auto simp: bm_bit_def)
qed

definition bm_range :: "bitmap \<Rightarrow> usize set" where
  "bm_range bm = {word_of_nat k + start_block_id bm | k. k < unat (bm_blocks bm)}"

definition bm_allocated :: "bitmap \<Rightarrow> block_cache_manager \<Rightarrow> usize option \<Rightarrow> block_cache_manager \<Rightarrow> bool" where
  "bm_allocated bm s r s' \<longleftrightarrow> same_disk s s' \<and> (\<forall>i. i \<notin> bm_range bm \<longrightarrow> view s' i = view s i) \<and>
     (let N = 4096 * unat (bm_blocks bm) in
      case r of
        None \<Rightarrow> (\<forall>n<N. bm_bit bm (view s) n) \<and> view s' = view s
      | Some w \<Rightarrow> unat w < N \<and> \<not> bm_bit bm (view s) (unat w) \<and> (\<forall>n<unat w. bm_bit bm (view s) n) \<and>
          (\<forall>n<N. bm_bit bm (view s') n \<longleftrightarrow> n = unat w \<or> bm_bit bm (view s) n))"

lemma alloc_block_ok:
  assumes inv: "bm_inv bm s" and k: "k < unat (bm_blocks bm)"
  shows "\<exists>r s'. cache_modify (word_of_nat k + start_block_id bm) 0 BLOCK_SZ
        (\<lambda>bs s. let (pos, bs) = alloc_in_block (word_of_nat k) bs in Some (pos, bs, s)) s = Some (r, s') \<and> same_disk s s' \<and>
     (case r of
        None \<Rightarrow> (\<forall>n<4096. block_bit (view s (word_of_nat k + start_block_id bm)) n) \<and> view s' = view s
      | Some w \<Rightarrow> \<exists>p<4096. w = word_of_nat (4096 * k + p) \<and> \<not> block_bit (view s (word_of_nat k + start_block_id bm)) p \<and>
          (\<forall>n<p. block_bit (view s (word_of_nat k + start_block_id bm)) n) \<and>
          (\<exists>bs'. view s' = (view s)(word_of_nat k + start_block_id bm := bs') \<and>
             (\<forall>n<4096. block_bit bs' n \<longleftrightarrow> n = p \<or> block_bit (view s (word_of_nat k + start_block_id bm)) n)))"
proof -
  let ?i = "word_of_nat k + start_block_id bm"
  note b = bm_blockD [OF inv k]
  have len: "length (view s ?i) = 512" using length_view [OF b(1)] by (simp add: BLOCK_SZ_def)
  obtain r bs' where a: "alloc_in_block (word_of_nat k) (view s ?i) = (r, bs')" by fastforce
  have l': "length bs' = BLOCK_SZ" using alloc_in_block_ok [OF len b(6)] a len by (auto simp: BLOCK_SZ_def)
  have sl: "slice_at 0 BLOCK_SZ (view s ?i) = view s ?i" using len by (simp add: slice_at_def BLOCK_SZ_def)
  have sp: "splice 0 bs' (view s ?i) = bs'" using l' len by (simp add: splice_def BLOCK_SZ_def)
  have "\<exists>s'. cache_modify ?i 0 BLOCK_SZ (\<lambda>bs s. let (pos, bs) = alloc_in_block (word_of_nat k) bs in Some (pos, bs, s)) s = Some (r, s') \<and>
      same_disk s s' \<and> view s' = (view s)(?i := splice 0 bs' (view s ?i))"
    by (rule cache_modify_ok [OF b(1-4)]) (simp_all add: sl a l' same_disk_def)
  then obtain s' where s': "cache_modify ?i 0 BLOCK_SZ (\<lambda>bs s. let (pos, bs) = alloc_in_block (word_of_nat k) bs in Some (pos, bs, s)) s = Some (r, s')"
    "same_disk s s'" "view s' = (view s)(?i := bs')" unfolding sp by blast
  from alloc_in_block_ok [OF len b(6), unfolded a] consider
    (full) "\<forall>n<4096. block_bit (view s ?i) n" "r = None" "bs' = view s ?i" |
    (free) p where "p < 4096" "\<not> block_bit (view s ?i) p" "\<forall>n<p. block_bit (view s ?i) n" "r = Some (word_of_nat (4096 * k + p))"
      "\<forall>n<4096. block_bit bs' n \<longleftrightarrow> n = p \<or> block_bit (view s ?i) n"
    unfolding prod.inject by blast
  then show ?thesis
  proof cases
    case full
    with s' show ?thesis by (intro exI [of _ r] exI [of _ s']) simp
  next
    case free
    with s' show ?thesis unfolding free(4)
      by (intro exI [of _ "Some (word_of_nat (4096 * k + p))"] exI [of _ s'] conjI) (simp_all del: of_nat_add, blast)
  qed
qed

lemma bm_allocated_cong:
  assumes "view s1 = view s" "same_disk s s1" "bm_allocated bm s1 r s'"
  shows "bm_allocated bm s r s'"
  using assms(3) same_disk_trans [OF assms(2)] unfolding bm_allocated_def assms(1) by blast

lemma bitmap_alloc_loop_ok:
  assumes "bm_inv bm s" "k \<le> unat (bm_blocks bm)" "\<forall>n<4096 * k. bm_bit bm (view s) n"
  shows "\<exists>r s'. bitmap_alloc_loop bm [k..<unat (bm_blocks bm)] s = Some (r, s') \<and> bm_allocated bm s r s'"
  using assms
proof (induction "unat (bm_blocks bm) - k" arbitrary: k s)
  case 0
  then show ?case by (auto simp: bm_allocated_def same_disk_def bm_inv_def)
next
  case (Suc d)
  then have k: "k < unat (bm_blocks bm)" by simp
  let ?N = "unat (bm_blocks bm)" and ?i = "word_of_nat k + start_block_id bm"
  note b = bm_blockD [OF Suc.prems(1) k]
  have upt: "[k..<?N] = k # [Suc k..<?N]" using k by (rule upt_conv_Cons)
  from alloc_block_ok [OF Suc.prems(1) k] obtain r s1 where
    s1: "cache_modify ?i 0 BLOCK_SZ (\<lambda>bs s. let (pos, bs) = alloc_in_block (word_of_nat k) bs in Some (pos, bs, s)) s = Some (r, s1)"
      "same_disk s s1" and r: "case r of
        None \<Rightarrow> (\<forall>n<4096. block_bit (view s ?i) n) \<and> view s1 = view s
      | Some w \<Rightarrow> \<exists>p<4096. w = word_of_nat (4096 * k + p) \<and> \<not> block_bit (view s ?i) p \<and> (\<forall>n<p. block_bit (view s ?i) n) \<and>
          (\<exists>bs'. view s1 = (view s)(?i := bs') \<and> (\<forall>n<4096. block_bit bs' n \<longleftrightarrow> n = p \<or> block_bit (view s ?i) n))" by blast
  have here: "bm_bit bm (view s) (4096 * k + p) \<longleftrightarrow> block_bit (view s ?i) p" if "p < 4096" for p
    using that by (simp add: bm_bit_def)
  show ?case
  proof (cases r)
    case None
    with r have full: "\<forall>n<4096. block_bit (view s ?i) n" and v: "view s1 = view s" by simp_all
    have all: "bm_bit bm (view s) n" if "n < 4096 * Suc k" for n
    proof (cases "n < 4096 * k")
      case False
      then have "n = 4096 * k + (n - 4096 * k)" "n - 4096 * k < 4096" using that by simp_all
      with here [of "n - 4096 * k"] full show ?thesis by simp
    qed (use Suc.prems(3) in blast)
    have "\<exists>r' s'. bitmap_alloc_loop bm [Suc k..<?N] s1 = Some (r', s') \<and> bm_allocated bm s1 r' s'"
      by (rule Suc.hyps(1)) (use Suc.hyps(2) k all v bm_inv_same_disk [OF Suc.prems(1) s1(2)] in auto)
    then obtain r' s' where "bitmap_alloc_loop bm [Suc k..<?N] s1 = Some (r', s')" "bm_allocated bm s1 r' s'" by blast
    with s1 None upt bm_allocated_cong [OF v s1(2)] show ?thesis by auto
  next
    case (Some w)
    with r obtain p bs' where p: "p < 4096" "w = word_of_nat (4096 * k + p)" "\<not> block_bit (view s ?i) p"
      "\<forall>n<p. block_bit (view s ?i) n" "view s1 = (view s)(?i := bs')"
      "\<forall>n<4096. block_bit bs' n \<longleftrightarrow> n = p \<or> block_bit (view s ?i) n" by auto
    have w: "unat w = 4096 * k + p" using b(6) p(1) unfolding p(2) by (intro unat_of_nat_u64) simp
    have lt: "4096 * k + p < 4096 * ?N" using k p(1) by simp
    have below: "bm_bit bm (view s) n" if "n < 4096 * k + p" for n
    proof (cases "n < 4096 * k")
      case False
      then have "n = 4096 * k + (n - 4096 * k)" "n - 4096 * k < p" using that by simp_all
      with here [of "n - 4096 * k"] p(1,4) show ?thesis by simp
    qed (use Suc.prems(3) in blast)
    have upd: "bm_bit bm (view s1) n \<longleftrightarrow> n = 4096 * k + p \<or> bm_bit bm (view s) n" if "n < 4096 * ?N" for n
    proof (cases "n div 4096 = k")
      case True
      then have n: "n = 4096 * k + n mod 4096" using mult_div_mod_eq [of 4096 n] by simp
      have "n mod 4096 < 4096" by simp
      with p(6) bm_bit_update [OF Suc.prems(1) k that, of "view s" bs'] here [of "n mod 4096"] True n show ?thesis
        unfolding p(5) by (metis add_left_cancel)
    next
      case False
      then have "n \<noteq> 4096 * k + p" using p(1) by auto
      with bm_bit_update [OF Suc.prems(1) k that, of "view s" bs'] False show ?thesis unfolding p(5) by simp
    qed
    have "\<not> bm_bit bm (view s) (4096 * k + p)" using here p(1,3) by simp
    moreover have "view s1 i = view s i" if "i \<notin> bm_range bm" for i
      using that k unfolding p(5) by (auto simp: bm_range_def)
    ultimately have "bm_allocated bm s (Some w) s1"
      using s1(2) w lt below upd by (simp add: bm_allocated_def Let_def)
    with s1(1) Some upt show ?thesis by auto
  qed
qed

lemma bitmap_alloc_ok:
  "bm_inv bm s \<Longrightarrow> \<exists>r s'. bitmap_alloc bm s = Some (r, s') \<and> bm_allocated bm s r s'"
  using bitmap_alloc_loop_ok [of bm s 0] by (simp add: bitmap_alloc_def)

lemma bitmap_dealloc_ok:
  assumes inv: "bm_inv bm s" and p: "unat w < 4096 * unat (bm_blocks bm)"
  shows "\<not> bm_bit bm (view s) (unat w) \<Longrightarrow> bitmap_dealloc bm w s = None"
    and "bm_bit bm (view s) (unat w) \<Longrightarrow> \<exists>s'. bitmap_dealloc bm w s = Some s' \<and> same_disk s s' \<and>
      (\<forall>i. i \<notin> bm_range bm \<longrightarrow> view s' i = view s i) \<and>
      (\<forall>n<4096 * unat (bm_blocks bm). bm_bit bm (view s') n \<longleftrightarrow> n \<noteq> unat w \<and> bm_bit bm (view s) n)"
proof -
  let ?k = "unat w div 4096" and ?q = "unat w mod 4096"
  let ?i = "word_of_nat ?k + start_block_id bm"
  have k: "?k < unat (bm_blocks bm)" using p by (simp add: less_mult_imp_div_less mult.commute)
  note b = bm_blockD [OF inv k]
  have len: "length (view s ?i) = 512" using length_view [OF b(1)] by (simp add: BLOCK_SZ_def)
  have dec: "decomposition w = (word_of_nat ?k, word_of_nat (?q div 64), word_of_nat (?q mod 64))"
    using b(6) by (simp add: decomposition_def BLOCK_BITS_def BLOCK_SZ_def word_unat_eq_iff unat_div unat_mod unat_of_nat_u64)
  have q: "?q < 4096" by simp
  note d = dealloc_in_block_ok [OF len q]
  have sl: "slice_at 0 BLOCK_SZ (view s ?i) = view s ?i" using len by (simp add: slice_at_def BLOCK_SZ_def)
  let ?f = "\<lambda>bs s. map_option (\<lambda>bs. ((), bs, s)) (dealloc_in_block (word_of_nat (?q div 64)) (word_of_nat (?q mod 64)) bs)"
  show "bitmap_dealloc bm w s = None" if "\<not> bm_bit bm (view s) (unat w)"
  proof -
    have n: "\<not> block_bit (view s ?i) ?q" using that by (simp add: bm_bit_def)
    from lock_block_ok [OF b(1-4)] obtain c s1 where "lock_block ?i s = Some (c, s1)" "cache c = view s ?i" by blast
    then have "cache_modify ?i 0 BLOCK_SZ ?f s = None" using n sl by (simp add: cache_modify_def d(1))
    then show ?thesis by (simp add: bitmap_dealloc_def dec)
  qed
  assume "bm_bit bm (view s) (unat w)"
  then have set: "block_bit (view s ?i) ?q" by (simp add: bm_bit_def)
  define bs' where "bs' = le_concat ((le_split 64 (view s ?i) :: u64 list)[?q div 64 := (le_split 64 (view s ?i) ! (?q div 64)) - push_bit (?q mod 64) 1])"
  have di: "dealloc_in_block (word_of_nat (?q div 64)) (word_of_nat (?q mod 64)) (view s ?i) = Some bs'"
    using d(1) set by (simp add: bs'_def)
  have l': "length bs' = BLOCK_SZ" by (simp add: bs'_def length_le_concat BLOCK_SZ_def)
  have sp: "splice 0 bs' (view s ?i) = bs'" using l' len by (simp add: splice_def BLOCK_SZ_def)
  have "\<exists>s'. cache_modify ?i 0 BLOCK_SZ ?f s = Some ((), s') \<and> same_disk s s' \<and> view s' = (view s)(?i := splice 0 bs' (view s ?i))"
    by (rule cache_modify_ok [OF b(1-4)]) (simp_all add: sl di l' same_disk_def)
  then obtain s' where s': "cache_modify ?i 0 BLOCK_SZ ?f s = Some ((), s')" "same_disk s s'" "view s' = (view s)(?i := bs')"
    unfolding sp by blast
  have upd: "bm_bit bm (view s') n \<longleftrightarrow> n \<noteq> unat w \<and> bm_bit bm (view s) n" if "n < 4096 * unat (bm_blocks bm)" for n
  proof -
    have "n mod 4096 < 4096" by simp
    from d(2) [OF set this] bm_bit_update [OF inv k that, of "view s" bs'] same_quot_rem [of n "unat w" 4096]
    show ?thesis unfolding s'(3) by (auto simp: bs'_def bm_bit_def)
  qed
  moreover have "view s' i = view s i" if "i \<notin> bm_range bm" for i
    using that k unfolding s'(3) by (auto simp: bm_range_def)
  moreover have "bitmap_dealloc bm w s = Some s'" using s'(1) by (simp add: bitmap_dealloc_def dec)
  ultimately show "\<exists>s'. bitmap_dealloc bm w s = Some s' \<and> same_disk s s' \<and> (\<forall>i. i \<notin> bm_range bm \<longrightarrow> view s' i = view s i) \<and>
      (\<forall>n<4096 * unat (bm_blocks bm). bm_bit bm (view s') n \<longleftrightarrow> n \<noteq> unat w \<and> bm_bit bm (view s) n)"
    using s'(2) by blast
qed

section \<open>A bitmap is a handle allocator\<close>

definition bm_owned :: "bitmap \<Rightarrow> block_cache_manager \<Rightarrow> usize set" where
  "bm_owned bm s = {w. unat w < 4096 * unat (bm_blocks bm) \<and> bm_bit bm (view s) (unat w)}"

definition bm_take :: "bitmap \<Rightarrow> block_cache_manager \<Rightarrow> (usize \<times> block_cache_manager) option" where
  "bm_take bm s = (case bitmap_alloc bm s of Some (Some w, s') \<Rightarrow> Some (w, s') | _ \<Rightarrow> None)"

interpretation bm: handle_allocator "bm_inv bm" "bm_owned bm" "{w. unat w < 4096 * unat (bm_blocks bm)}"
    "bm_take bm" "bitmap_dealloc bm" for bm
proof (unfold_locales, goal_cases)
  case (1 s)
  then show ?case by (auto simp: bm_owned_def)
next
  case (2 s w s')
  then have "bm_allocated bm s (Some w) s'" using bitmap_alloc_ok [of bm s] by (auto simp: bm_take_def split: option.splits)
  then have a: "unat w < 4096 * unat (bm_blocks bm)" "\<not> bm_bit bm (view s) (unat w)" "same_disk s s'"
    "\<forall>n<4096 * unat (bm_blocks bm). bm_bit bm (view s') n \<longleftrightarrow> n = unat w \<or> bm_bit bm (view s) n"
    by (auto simp: bm_allocated_def Let_def)
  then have "bm_owned bm s' = insert w (bm_owned bm s)" by (auto simp: bm_owned_def word_unat_eq_iff)
  with a bm_inv_same_disk [OF 2(1)] show ?case by (simp add: bm_owned_def)
next
  case (3 s)
  then have "\<forall>n<4096 * unat (bm_blocks bm). bm_bit bm (view s) n"
    using bitmap_alloc_ok [of bm s] by (auto simp: bm_take_def bm_allocated_def split: option.splits)
  then show ?case by (auto simp: bm_owned_def)
next
  case (4 s w)
  then have w: "unat w < 4096 * unat (bm_blocks bm)" "bm_bit bm (view s) (unat w)" by (auto simp: bm_owned_def)
  from bitmap_dealloc_ok(2) [OF 4(1) w] obtain s' where
    s': "bitmap_dealloc bm w s = Some s'" "same_disk s s'"
      "\<forall>n<4096 * unat (bm_blocks bm). bm_bit bm (view s') n \<longleftrightarrow> n \<noteq> unat w \<and> bm_bit bm (view s) n" by blast
  have "bm_owned bm s' = bm_owned bm s - {w}" using s'(3) by (auto simp: bm_owned_def word_unat_eq_iff)
  with s' bm_inv_same_disk [OF 4(1)] show ?case by blast
next
  case (5 s w)
  then show ?case using bitmap_dealloc_ok(1) [of bm s w] by (simp add: bm_owned_def)
qed

text \<open>
  C31: an allocation bitmap on disk behaves as a set of numbers.  \<open>Bitmap::alloc\<close> always returns:
  either the smallest number not in the set, which it adds, or \<open>None\<close> when all numbers are taken;
  freeing the number gives the old set back and freeing it twice panics; no block outside the
  bitmap changes.
\<close>

theorem bitmap_is_a_set:
  assumes inv: "bm_inv bm s"
  shows "(\<exists>s'. bitmap_alloc bm s = Some (None, s') \<and> bm_owned bm s = {w. unat w < 4096 * unat (bm_blocks bm)} \<and> view s' = view s)
     \<or> (\<exists>w s' s''. bitmap_alloc bm s = Some (Some w, s') \<and> w \<notin> bm_owned bm s \<and> (\<forall>v<w. v \<in> bm_owned bm s) \<and>
          bm_owned bm s' = insert w (bm_owned bm s) \<and> (\<forall>i. i \<notin> bm_range bm \<longrightarrow> view s' i = view s i) \<and>
          bitmap_dealloc bm w s' = Some s'' \<and> bm_owned bm s'' = bm_owned bm s \<and> bitmap_dealloc bm w s'' = None)"
proof -
  from bitmap_alloc_ok [OF inv] obtain r s' where r: "bitmap_alloc bm s = Some (r, s')" "bm_allocated bm s r s'" by blast
  show ?thesis
  proof (cases r)
    case None
    with r show ?thesis by (auto simp: bm_allocated_def Let_def bm_owned_def)
  next
    case (Some w)
    with r(1) have t: "bm_take bm s = Some (w, s')" by (simp add: bm_take_def)
    from bm.al_fresh [OF inv t] have f: "bm_inv bm s'" "w \<notin> bm_owned bm s" "bm_owned bm s' = insert w (bm_owned bm s)" by auto
    from bm.de_owned [OF f(1), of w] f(3) obtain s'' where
      d: "bitmap_dealloc bm w s' = Some s''" "bm_owned bm s'' = insert w (bm_owned bm s) - {w}" by auto
    from r(2) Some have "unat w < 4096 * unat (bm_blocks bm)" "\<forall>n<unat w. bm_bit bm (view s) n"
      "\<forall>i. i \<notin> bm_range bm \<longrightarrow> view s' i = view s i" by (auto simp: bm_allocated_def Let_def)
    then have "\<forall>v<w. v \<in> bm_owned bm s" by (auto simp: bm_owned_def word_less_unat)
    with f d r(1) Some bm.double_free_panics [OF f(1) _ d(1)] \<open>\<forall>i. i \<notin> bm_range bm \<longrightarrow> view s' i = view s i\<close>
    show ?thesis by auto
  qed
qed

theorem bitmap_is_a_set_witness:
  "let bm = \<lparr>start_block_id = 1, bm_blocks = 1\<rparr>; s = bcm_new \<lparr>dev_size = 64, dev_data = \<lambda>_. replicate 512 0\<rparr> in
   (\<exists>r s'. bitmap_alloc bm s = Some (r, s'))"
proof -
  let ?s = "bcm_new \<lparr>dev_size = 64, dev_data = \<lambda>_. replicate 512 0\<rparr>"
  have "cache_inv ?s" by (rule bcm_new_inv) (simp add: BLOCK_SZ_def)
  then have "bm_inv \<lparr>start_block_id = 1, bm_blocks = 1\<rparr> ?s" by (simp add: bm_inv_def bcm_new_inv BLOCK_CACHE_SIZE_def)
  from bitmap_is_a_set [OF this] show ?thesis by (auto simp: Let_def)
qed

end
