(* ===== verification/Layout.thy ===== *)
theory Layout
  imports Bitmap Rust_Std
begin

text \<open>
  The on-disk structures of the file system (\<open>easy-fs/src/layout.rs\<close>): super block, disk
  inodes with direct and indirect blocks, directory entries.  A structure is read from and
  written to the bytes of its block in its C layout; padding bytes are left as they are.  Block
  counters and byte offsets that stay far below their type's bound are natural numbers; sizes and
  block numbers keep their 32 bits.
\<close>

section \<open>Constants\<close>

definition EFS_MAGIC :: u32 where "EFS_MAGIC = 0x3b800001"
definition INODE_DIRECT_COUNT :: nat where "INODE_DIRECT_COUNT = 28"
definition NAME_LENGTH_LIMIT :: nat where "NAME_LENGTH_LIMIT = 27"
definition INODE_INDIRECT1_COUNT :: nat where "INODE_INDIRECT1_COUNT = BLOCK_SZ div 4"
definition INODE_INDIRECT2_COUNT :: nat where "INODE_INDIRECT2_COUNT = INODE_INDIRECT1_COUNT * INODE_INDIRECT1_COUNT"
definition DIRECT_BOUND :: nat where "DIRECT_BOUND = INODE_DIRECT_COUNT"
definition INDIRECT1_BOUND :: nat where "INDIRECT1_BOUND = DIRECT_BOUND + INODE_INDIRECT1_COUNT"
definition DIRENT_SZ :: nat where "DIRENT_SZ = 32"

lemmas layout_consts = BLOCK_SZ_def INODE_DIRECT_COUNT_def NAME_LENGTH_LIMIT_def INODE_INDIRECT1_COUNT_def
  INODE_INDIRECT2_COUNT_def DIRECT_BOUND_def INDIRECT1_BOUND_def DIRENT_SZ_def

section \<open>Super block\<close>

record super_block =
  sb_magic :: u32
  sb_total_blocks :: u32
  sb_inode_bitmap_blocks :: u32
  sb_inode_area_blocks :: u32
  sb_data_bitmap_blocks :: u32
  sb_data_area_blocks :: u32

definition super_block_initialize :: "u32 \<Rightarrow> u32 \<Rightarrow> u32 \<Rightarrow> u32 \<Rightarrow> u32 \<Rightarrow> super_block" where
  "super_block_initialize blocks inode_bitmap inode_area data_bitmap data_area =
     \<lparr>sb_magic = EFS_MAGIC, sb_total_blocks = blocks, sb_inode_bitmap_blocks = inode_bitmap,
      sb_inode_area_blocks = inode_area, sb_data_bitmap_blocks = data_bitmap, sb_data_area_blocks = data_area\<rparr>"

definition super_block_is_valid :: "super_block \<Rightarrow> bool" where
  "super_block_is_valid sb \<longleftrightarrow> sb_magic sb = EFS_MAGIC"

definition super_block_bytes :: "super_block \<Rightarrow> u8 list" where
  "super_block_bytes sb = le_concat [sb_magic sb, sb_total_blocks sb, sb_inode_bitmap_blocks sb, sb_inode_area_blocks sb,
     sb_data_bitmap_blocks sb, sb_data_area_blocks sb]"

definition super_block_of_bytes :: "u8 list \<Rightarrow> super_block" where
  "super_block_of_bytes bs =
     (let w = (le_split 6 bs :: u32 list) in
      \<lparr>sb_magic = w ! 0, sb_total_blocks = w ! 1, sb_inode_bitmap_blocks = w ! 2, sb_inode_area_blocks = w ! 3,
       sb_data_bitmap_blocks = w ! 4, sb_data_area_blocks = w ! 5\<rparr>)"

section \<open>Disk inodes\<close>

datatype disk_inode_type = File_Inode | Directory_Inode

record disk_inode =
  di_size :: u32
  direct :: "u32 list"
  indirect1 :: u32
  indirect2 :: u32
  di_type :: disk_inode_type

definition INODE_SIZE :: nat where "INODE_SIZE = 128"

fun type_byte :: "disk_inode_type \<Rightarrow> u8" where
  "type_byte File_Inode = 0"
| "type_byte Directory_Inode = 1"

definition inode_bytes :: "disk_inode \<Rightarrow> u8 list" where
  "inode_bytes di = le_concat ([di_size di] @ direct di @ [indirect1 di, indirect2 di]) @ [type_byte (di_type di)]"

text \<open>A type byte other than the two values of the enumeration is undefined behaviour: \<open>None\<close>.\<close>

definition inode_of_bytes :: "u8 list \<Rightarrow> disk_inode option" where
  "inode_of_bytes bs =
     (let w = (le_split 31 bs :: u32 list) in
      map_option (\<lambda>ty. \<lparr>di_size = w ! 0, direct = slice_at 1 28 w, indirect1 = w ! 29, indirect2 = w ! 30, di_type = ty\<rparr>)
        (if bs ! 124 = 0 then Some File_Inode else if bs ! 124 = 1 then Some Directory_Inode else None))"

definition inode_initialize :: "disk_inode_type \<Rightarrow> disk_inode" where
  "inode_initialize ty = \<lparr>di_size = 0, direct = replicate INODE_DIRECT_COUNT 0, indirect1 = 0, indirect2 = 0, di_type = ty\<rparr>"

definition is_dir :: "disk_inode \<Rightarrow> bool" where "is_dir di \<longleftrightarrow> di_type di = Directory_Inode"
definition is_file :: "disk_inode \<Rightarrow> bool" where "is_file di \<longleftrightarrow> di_type di = File_Inode"

definition data_blocks_of :: "u32 \<Rightarrow> u32" where
  "data_blocks_of sz = (sz + word_of_nat BLOCK_SZ - 1) div word_of_nat BLOCK_SZ"

definition data_blocks :: "disk_inode \<Rightarrow> u32" where
  "data_blocks di = data_blocks_of (di_size di)"

definition total_blocks :: "u32 \<Rightarrow> u32" where
  "total_blocks sz =
     (let db = unat (data_blocks_of sz);
          total = db + (if INODE_DIRECT_COUNT < db then 1 else 0);
          total = total + (if INDIRECT1_BOUND < db
                           then 1 + (db - INDIRECT1_BOUND + INODE_INDIRECT1_COUNT - 1) div INODE_INDIRECT1_COUNT else 0)
      in word_of_nat total)"

definition blocks_num_needed :: "disk_inode \<Rightarrow> u32 \<Rightarrow> u32 option" where
  "blocks_num_needed di new_size =
     (if di_size di \<le> new_size then Some (total_blocks new_size - total_blocks (di_size di)) else None)"

text \<open>\<open>[u32; 128]\<close> at the start of a block; an index past its end panics.\<close>

definition read_indirect :: "u32 \<Rightarrow> nat \<Rightarrow> block_cache_manager \<Rightarrow> (u32 \<times> block_cache_manager) option" where
  "read_indirect b k = cache_read (ucast b) 0 BLOCK_SZ
     (\<lambda>bs s. if k < INODE_INDIRECT1_COUNT then Some ((le_split INODE_INDIRECT1_COUNT bs :: u32 list) ! k, s) else None)"

definition get_block_id :: "disk_inode \<Rightarrow> u32 \<Rightarrow> block_cache_manager \<Rightarrow> (u32 \<times> block_cache_manager) option" where
  "get_block_id di inner s =
     (let inner_id = unat inner in
      if inner_id < INODE_DIRECT_COUNT then Some (direct di ! inner_id, s)
      else if inner_id < INDIRECT1_BOUND then read_indirect (indirect1 di) (inner_id - INODE_DIRECT_COUNT) s
      else let last = inner_id - INDIRECT1_BOUND in
           Option.bind (read_indirect (indirect2 di) (last div INODE_INDIRECT1_COUNT) s) (\<lambda>(ind1, s).
             read_indirect ind1 (last mod INODE_INDIRECT1_COUNT) s))"

section \<open>Growing\<close>

text \<open>\<open>while cur < lim { arr[cur] = new_blocks.next().unwrap(); cur += 1 }\<close>\<close>

function fill_array :: "nat \<Rightarrow> nat \<Rightarrow> u32 list \<Rightarrow> u32 list \<Rightarrow> (nat \<times> u32 list \<times> u32 list) option" where
  "fill_array cur lim arr nb =
     (if cur < lim
      then (case nb of
              [] \<Rightarrow> None
            | b # nb \<Rightarrow> if cur < length arr then fill_array (Suc cur) lim (arr[cur := b]) nb else None)
      else Some (cur, arr, nb))"
  by pat_completeness auto
termination
  by (relation "measure (\<lambda>(cur, lim, _). lim - cur)") auto

declare fill_array.simps [simp del]

fun take_block :: "u32 list \<Rightarrow> (u32 \<times> u32 list) option" where
  "take_block [] = None"
| "take_block (b # nb) = Some (b, nb)"

text \<open>The loop over the doubly indirect blocks; \<open>t\<close> is \<open>a0 * 128 + b0\<close>, which each round
  raises by one up to \<open>a1 * 128 + b1\<close>.\<close>

function fill_indirect2 :: "nat \<Rightarrow> nat \<Rightarrow> u32 list \<Rightarrow> u32 list \<Rightarrow> block_cache_manager \<Rightarrow>
    (u32 list \<times> u32 list \<times> block_cache_manager) option" where
  "fill_indirect2 t lim arr nb s =
     (if t < lim then
        (let a0 = t div INODE_INDIRECT1_COUNT; b0 = t mod INODE_INDIRECT1_COUNT in
         if length arr \<le> a0 then None
         else Option.bind (if b0 = 0 then map_option (\<lambda>(b, nb). (arr[a0 := b], nb)) (take_block nb) else Some (arr, nb))
           (\<lambda>(arr, nb).
              Option.bind (cache_modify (ucast (arr ! a0)) 0 BLOCK_SZ
                  (\<lambda>bs s. map_option (\<lambda>(b, nb). (nb, le_concat ((le_split INODE_INDIRECT1_COUNT bs :: u32 list)[b0 := b]), s))
                             (take_block nb)) s)
                (\<lambda>(nb, s). fill_indirect2 (Suc t) lim arr nb s)))
      else Some (arr, nb, s))"
  by pat_completeness auto
termination
  by (relation "measure (\<lambda>(t, lim, _). lim - t)") auto

declare fill_indirect2.simps [simp del]

definition increase_size :: "u32 \<Rightarrow> u32 list \<Rightarrow> disk_inode \<Rightarrow> block_cache_manager \<Rightarrow> (disk_inode \<times> block_cache_manager) option" where
  "increase_size new_size new_blocks di s =
     (let current = unat (data_blocks di); di = di\<lparr>di_size := new_size\<rparr>; total = unat (data_blocks di) in
      Option.bind (fill_array current (min total INODE_DIRECT_COUNT) (direct di) new_blocks) (\<lambda>(current, dir, nb).
      let di = di\<lparr>direct := dir\<rparr> in
      if \<not> INODE_DIRECT_COUNT < total then Some (di, s)
      else Option.bind (if current = INODE_DIRECT_COUNT then take_block nb else Some (indirect1 di, nb)) (\<lambda>(ind1, nb).
      let di = di\<lparr>indirect1 := ind1\<rparr>; current = current - INODE_DIRECT_COUNT; total = total - INODE_DIRECT_COUNT in
      Option.bind (cache_modify (ucast ind1) 0 BLOCK_SZ
          (\<lambda>bs s. map_option (\<lambda>(current, arr, nb). ((current, nb), le_concat arr, s))
                     (fill_array current (min total INODE_INDIRECT1_COUNT) (le_split INODE_INDIRECT1_COUNT bs) nb)) s)
        (\<lambda>((current, nb), s).
      if \<not> INODE_INDIRECT1_COUNT < total then Some (di, s)
      else Option.bind (if current = INODE_INDIRECT1_COUNT then take_block nb else Some (indirect2 di, nb)) (\<lambda>(ind2, nb).
      let di = di\<lparr>indirect2 := ind2\<rparr>; current = current - INODE_INDIRECT1_COUNT; total = total - INODE_INDIRECT1_COUNT in
      map_option (\<lambda>(_, s). (di, s))
        (cache_modify (ucast ind2) 0 BLOCK_SZ
          (\<lambda>bs s. map_option (\<lambda>(arr, nb, s). ((), le_concat arr, s))
                     (fill_indirect2 current total (le_split INODE_INDIRECT1_COUNT bs) nb s)) s))))))"

section \<open>Clearing\<close>

text \<open>The entries of one indirect block, read through \<open>modify\<close> (which marks it dirty).\<close>

definition list_indirect :: "u32 \<Rightarrow> nat \<Rightarrow> block_cache_manager \<Rightarrow> (u32 list \<times> block_cache_manager) option" where
  "list_indirect b n s = cache_modify (ucast b) 0 BLOCK_SZ
     (\<lambda>bs s. Some (take n (le_split INODE_INDIRECT1_COUNT bs :: u32 list), bs, s)) s"

fun list_full_indirects :: "u32 list \<Rightarrow> block_cache_manager \<Rightarrow> (u32 list \<times> block_cache_manager) option" where
  "list_full_indirects [] s = Some ([], s)"
| "list_full_indirects (e # es) s =
     Option.bind (list_indirect e INODE_INDIRECT1_COUNT s) (\<lambda>(vs, s).
       map_option (\<lambda>(v, s). (e # vs @ v, s)) (list_full_indirects es s))"

definition list_indirect2 :: "nat \<Rightarrow> u32 list \<Rightarrow> block_cache_manager \<Rightarrow> (u32 list \<times> block_cache_manager) option" where
  "list_indirect2 db arr s =
     (let a1 = db div INODE_INDIRECT1_COUNT; b1 = db mod INODE_INDIRECT1_COUNT in
      Option.bind (list_full_indirects (take a1 arr) s) (\<lambda>(v, s).
      if 0 < b1
      then (if a1 < length arr
            then map_option (\<lambda>(vs, s). (v @ arr ! a1 # vs, s)) (list_indirect (arr ! a1) b1 s) else None)
      else Some (v, s)))"

definition clear_size :: "disk_inode \<Rightarrow> block_cache_manager \<Rightarrow> (u32 list \<times> disk_inode \<times> block_cache_manager) option" where
  "clear_size di s =
     (let db = unat (data_blocks di); di = di\<lparr>di_size := 0\<rparr>; k = min db INODE_DIRECT_COUNT;
          v = take k (direct di); di = di\<lparr>direct := replicate k 0 @ drop k (direct di)\<rparr> in
      if \<not> INODE_DIRECT_COUNT < db then Some (v, di, s)
      else let v = v @ [indirect1 di]; db = db - INODE_DIRECT_COUNT in
      Option.bind (list_indirect (indirect1 di) (min db INODE_INDIRECT1_COUNT) s) (\<lambda>(vs, s).
      let v = v @ vs; di = di\<lparr>indirect1 := 0\<rparr> in
      if \<not> INODE_INDIRECT1_COUNT < db then Some (v, di, s)
      else let v = v @ [indirect2 di]; db = db - INODE_INDIRECT1_COUNT in
      if \<not> db \<le> INODE_INDIRECT2_COUNT then None
      else map_option (\<lambda>(vs, s). (v @ vs, di\<lparr>indirect2 := 0\<rparr>, s))
        (cache_modify (ucast (indirect2 di)) 0 BLOCK_SZ
          (\<lambda>bs s. map_option (\<lambda>(vs, s). (vs, bs, s)) (list_indirect2 db (le_split INODE_INDIRECT1_COUNT bs) s)) s)))"

section \<open>Reading and writing data\<close>

lemma next_block_after: "start < BLOCK_SZ + start div BLOCK_SZ * BLOCK_SZ"
  using dividend_less_div_times [of BLOCK_SZ start] by (simp add: BLOCK_SZ_def)

text \<open>One round of \<open>read_at\<close> copies up to the end of a block; \<open>buf\<close> is the caller's buffer.\<close>

function inode_read_loop :: "disk_inode \<Rightarrow> nat \<Rightarrow> nat \<Rightarrow> nat \<Rightarrow> nat \<Rightarrow> u8 list \<Rightarrow> block_cache_manager \<Rightarrow>
    ((nat \<times> u8 list) \<times> block_cache_manager) option" where
  "inode_read_loop di start end_off start_block read_size buf s =
     (let end_current_block = min ((start div BLOCK_SZ + 1) * BLOCK_SZ) end_off;
          block_read_size = end_current_block - start in
      Option.bind (get_block_id di (word_of_nat start_block) s) (\<lambda>(b, s).
      Option.bind (cache_read (ucast b) 0 BLOCK_SZ
          (\<lambda>data_block s. Some (slice_at (start mod BLOCK_SZ) block_read_size data_block, s)) s) (\<lambda>(src, s).
      let buf = splice read_size src buf; read_size = read_size + block_read_size in
      if end_current_block = end_off then Some ((read_size, buf), s)
      else inode_read_loop di end_current_block end_off (start_block + 1) read_size buf s)))"
  by pat_completeness auto
termination
  by (relation "measure (\<lambda>(_, start, end_off, _). end_off - start)") 
    (auto simp: next_block_after min_def intro!: diff_less_mono2 intro: less_le_trans [OF next_block_after] split: if_splits)

declare inode_read_loop.simps [simp del]

definition inode_read_at :: "disk_inode \<Rightarrow> nat \<Rightarrow> u8 list \<Rightarrow> block_cache_manager \<Rightarrow> ((nat \<times> u8 list) \<times> block_cache_manager) option" where
  "inode_read_at di off buf s =
     (let end_off = min (off + length buf) (unat (di_size di)) in
      if end_off \<le> off then Some ((0, buf), s)
      else inode_read_loop di off end_off (off div BLOCK_SZ) 0 buf s)"

function inode_write_loop :: "disk_inode \<Rightarrow> nat \<Rightarrow> nat \<Rightarrow> nat \<Rightarrow> nat \<Rightarrow> u8 list \<Rightarrow> block_cache_manager \<Rightarrow>
    (nat \<times> block_cache_manager) option" where
  "inode_write_loop di start end_off start_block write_size buf s =
     (let end_current_block = min ((start div BLOCK_SZ + 1) * BLOCK_SZ) end_off;
          block_write_size = end_current_block - start in
      Option.bind (get_block_id di (word_of_nat start_block) s) (\<lambda>(b, s).
      Option.bind (cache_modify (ucast b) 0 BLOCK_SZ
          (\<lambda>data_block s. Some ((), splice (start mod BLOCK_SZ) (slice_at write_size block_write_size buf) data_block, s)) s) (\<lambda>(_, s).
      let write_size = write_size + block_write_size in
      if end_current_block = end_off then Some (write_size, s)
      else inode_write_loop di end_current_block end_off (start_block + 1) write_size buf s)))"
  by pat_completeness auto
termination
  by (relation "measure (\<lambda>(_, start, end_off, _). end_off - start)")
    (auto simp: next_block_after min_def intro!: diff_less_mono2 intro: less_le_trans [OF next_block_after] split: if_splits)

declare inode_write_loop.simps [simp del]

definition inode_write_at :: "disk_inode \<Rightarrow> nat \<Rightarrow> u8 list \<Rightarrow> block_cache_manager \<Rightarrow> (nat \<times> block_cache_manager) option" where
  "inode_write_at di off buf s =
     (let end_off = min (off + length buf) (unat (di_size di)) in
      if off \<le> end_off then inode_write_loop di off end_off (off div BLOCK_SZ) 0 buf s else None)"

section \<open>Directory entries\<close>

record dir_entry =
  de_name :: "u8 list"
  de_inode_number :: u32

definition dirent_empty :: dir_entry where
  "dirent_empty = \<lparr>de_name = replicate (NAME_LENGTH_LIMIT + 1) 0, de_inode_number = 0\<rparr>"

definition dirent_new :: "rstring \<Rightarrow> u32 \<Rightarrow> dir_entry option" where
  "dirent_new name inode_number =
     (if length name \<le> NAME_LENGTH_LIMIT + 1
      then Some \<lparr>de_name = splice 0 name (replicate (NAME_LENGTH_LIMIT + 1) 0), de_inode_number = inode_number\<rparr>
      else None)"

definition dirent_bytes :: "dir_entry \<Rightarrow> u8 list" where
  "dirent_bytes de = de_name de @ to_le_bytes (de_inode_number de)"

definition dirent_of_bytes :: "u8 list \<Rightarrow> dir_entry" where
  "dirent_of_bytes bs = \<lparr>de_name = take 28 bs, de_inode_number = from_le_bytes (slice_at 28 4 bs)\<rparr>"

text \<open>\<open>DirEntry::name\<close> runs off the array when it holds no zero byte.\<close>

definition dirent_name :: "dir_entry \<Rightarrow> rstring option" where
  "dirent_name de =
     (case position (\<lambda>b. b = 0) (de_name de) of
        None \<Rightarrow> None
      | Some n \<Rightarrow> from_utf8 (take n (de_name de)))"

lemma position_padded:
  "0 \<notin> set xs \<Longrightarrow> position (\<lambda>b. b = 0) (xs @ replicate k (0 :: u8)) = (if k = 0 then None else Some (length xs))"
proof (induction xs)
  case Nil
  then show ?case by (cases k) auto
qed auto

lemma dirent_read_back:
  assumes "utf8_valid name" "0 \<notin> set name" "length name \<le> NAME_LENGTH_LIMIT"
  shows "\<exists>de. dirent_new name ino = Some de \<and> length (dirent_bytes de) = DIRENT_SZ \<and>
     dirent_of_bytes (dirent_bytes de) = de \<and> dirent_name de = Some name \<and> de_inode_number de = ino"
proof -
  have "slice_at 28 4 (name @ replicate (28 - length name) 0 @ to_le_bytes ino) = to_le_bytes ino"
    using assms(3) by (simp add: slice_at_def NAME_LENGTH_LIMIT_def)
  then show ?thesis
    using assms position_padded [OF assms(2), of "28 - length name"]
    by (auto simp: dirent_new_def dirent_bytes_def dirent_of_bytes_def dirent_name_def layout_consts splice_def from_utf8_def from_to_le)
qed

text \<open>
  C32: a directory entry written to disk is read back with the same name and inode number, for
  every name of at most 27 bytes without a zero byte; a name of 28 bytes makes \<open>name\<close> panic when
  it is read back, and a longer one panics when the entry is made.
\<close>

theorem dirent_roundtrip:
  assumes "utf8_valid name" "0 \<notin> set name"
  shows "if length name \<le> NAME_LENGTH_LIMIT
     then \<exists>de. dirent_new name ino = Some de \<and> length (dirent_bytes de) = DIRENT_SZ \<and>
            dirent_of_bytes (dirent_bytes de) = de \<and> dirent_name de = Some name \<and> de_inode_number de = ino
     else if length name = NAME_LENGTH_LIMIT + 1
     then \<exists>de. dirent_new name ino = Some de \<and> dirent_name de = None
     else dirent_new name ino = None"
  using dirent_read_back [OF assms] position_padded [OF assms(2), of 0]
  by (auto simp: dirent_new_def dirent_name_def layout_consts splice_def)

theorem dirent_roundtrip_witness:
  "\<exists>de. dirent_new [105, 110, 105, 116] 7 = Some de \<and> dirent_name de = Some [105, 110, 105, 116] \<and> de_inode_number de = 7"
proof -
  have "utf8_valid [105, 110, 105, 116]" by code_simp
  from dirent_roundtrip [OF this, of 7] show ?thesis by (auto simp: layout_consts)
qed

end
