(* ===== verification/Easy_Fs.thy ===== *)
theory Easy_Fs
  imports Layout
begin

text \<open>
  The file system over a block device (\<open>easy-fs/src/efs.rs\<close>) and its inode layer
  (\<open>easy-fs/src/vfs.rs\<close>).  The state is the block cache with its device; an \<open>EasyFileSystem\<close>
  and an \<open>Inode\<close> only hold positions, which never change.  The lock around the file system is
  taken for one operation at a time.
\<close>

section \<open>EasyFileSystem\<close>

record easy_fs =
  inode_bitmap :: bitmap
  data_bitmap :: bitmap
  inode_area_start_block :: u32
  data_area_start_block :: u32

definition get_disk_inode_pos :: "easy_fs \<Rightarrow> u32 \<Rightarrow> u32 \<times> nat" where
  "get_disk_inode_pos fs inode_id =
     (let inodes_per_block = word_of_nat (BLOCK_SZ div INODE_SIZE) in
      (inode_area_start_block fs + inode_id div inodes_per_block, unat (inode_id mod inodes_per_block) * INODE_SIZE))"

definition get_data_block_id :: "easy_fs \<Rightarrow> u32 \<Rightarrow> u32" where
  "get_data_block_id fs data_block_id = data_area_start_block fs + data_block_id"

definition alloc_inode :: "easy_fs \<Rightarrow> block_cache_manager \<Rightarrow> (u32 \<times> block_cache_manager) option" where
  "alloc_inode fs s =
     Option.bind (bitmap_alloc (inode_bitmap fs) s) (\<lambda>(r, s). map_option (\<lambda>w. (ucast w, s)) r)"

definition alloc_data :: "easy_fs \<Rightarrow> block_cache_manager \<Rightarrow> (u32 \<times> block_cache_manager) option" where
  "alloc_data fs s =
     Option.bind (bitmap_alloc (data_bitmap fs) s) (\<lambda>(r, s). map_option (\<lambda>w. (ucast w + data_area_start_block fs, s)) r)"

definition zero_block :: "usize \<Rightarrow> block_cache_manager \<Rightarrow> block_cache_manager option" where
  "zero_block b s = map_option snd (cache_modify b 0 BLOCK_SZ (\<lambda>bs s. Some ((), map (\<lambda>_. 0) bs, s)) s)"

definition dealloc_data :: "easy_fs \<Rightarrow> u32 \<Rightarrow> block_cache_manager \<Rightarrow> block_cache_manager option" where
  "dealloc_data fs b s =
     Option.bind (zero_block (ucast b) s) (bitmap_dealloc (data_bitmap fs) (ucast (b - data_area_start_block fs)))"

fun zero_blocks :: "nat list \<Rightarrow> block_cache_manager \<Rightarrow> block_cache_manager option" where
  "zero_blocks [] s = Some s"
| "zero_blocks (i # is) s = Option.bind (zero_block (word_of_nat i) s) (zero_blocks is)"

text \<open>A disk inode in place: \<open>initialize\<close> sets every field and leaves the padding.\<close>

definition initialize_inode_at :: "usize \<Rightarrow> nat \<Rightarrow> disk_inode_type \<Rightarrow> block_cache_manager \<Rightarrow> block_cache_manager option" where
  "initialize_inode_at b off ty s =
     map_option snd (cache_modify b off INODE_SIZE (\<lambda>bs s. Some ((), inode_bytes (inode_initialize ty) @ drop 125 bs, s)) s)"

definition efs_layout :: "u32 \<Rightarrow> u32 \<Rightarrow> super_block \<times> easy_fs" where
  "efs_layout n_blocks inode_bitmap_blocks =
     (let ibm = \<lparr>start_block_id = 1, bm_blocks = ucast inode_bitmap_blocks\<rparr>;
          inode_num = bitmap_maximum ibm;
          inode_area_blocks = (ucast ((inode_num * word_of_nat INODE_SIZE + word_of_nat BLOCK_SZ - 1) div word_of_nat BLOCK_SZ) :: u32);
          inode_total_blocks = inode_bitmap_blocks + inode_area_blocks;
          data_total_blocks = n_blocks - 1 - inode_total_blocks;
          data_bitmap_blocks = (data_total_blocks + 4096) div 4097;
          data_area_blocks = data_total_blocks - data_bitmap_blocks;
          dbm = \<lparr>start_block_id = ucast (1 + inode_total_blocks), bm_blocks = ucast data_bitmap_blocks\<rparr>
      in (super_block_initialize n_blocks inode_bitmap_blocks inode_area_blocks data_bitmap_blocks data_area_blocks,
          \<lparr>inode_bitmap = ibm, data_bitmap = dbm, inode_area_start_block = 1 + inode_bitmap_blocks,
           data_area_start_block = 1 + inode_total_blocks + data_bitmap_blocks\<rparr>))"

definition efs_create :: "u32 \<Rightarrow> u32 \<Rightarrow> block_cache_manager \<Rightarrow> (easy_fs \<times> block_cache_manager) option" where
  "efs_create n_blocks inode_bitmap_blocks s =
     (let (sb, fs) = efs_layout n_blocks inode_bitmap_blocks in
      Option.bind (zero_blocks [0..<unat n_blocks] s) (\<lambda>s.
      Option.bind (cache_modify 0 0 24 (\<lambda>bs s. Some ((), super_block_bytes sb, s)) s) (\<lambda>(_, s).
      Option.bind (alloc_inode fs s) (\<lambda>(root, s).
      if root \<noteq> 0 then None
      else let (root_block, root_off) = get_disk_inode_pos fs 0 in
      Option.bind (initialize_inode_at (ucast root_block) root_off Directory_Inode s) (\<lambda>s.
      Option.bind (block_cache_sync_all s) (\<lambda>s. Some (fs, s)))))))"

definition efs_open :: "block_cache_manager \<Rightarrow> (easy_fs \<times> block_cache_manager) option" where
  "efs_open s =
     cache_read 0 0 24 (\<lambda>bs s.
       let super_block = super_block_of_bytes bs in
       if \<not> super_block_is_valid super_block then None
       else let inode_total_blocks = sb_inode_bitmap_blocks super_block + sb_inode_area_blocks super_block in
            Some (\<lparr>inode_bitmap = \<lparr>start_block_id = 1, bm_blocks = ucast (sb_inode_bitmap_blocks super_block)\<rparr>,
                   data_bitmap = \<lparr>start_block_id = ucast (1 + inode_total_blocks), bm_blocks = ucast (sb_data_bitmap_blocks super_block)\<rparr>,
                   inode_area_start_block = 1 + sb_inode_bitmap_blocks super_block,
                   data_area_start_block = 1 + inode_total_blocks + sb_data_bitmap_blocks super_block\<rparr>, s)) s"

section \<open>Inodes\<close>

record inode =
  i_block_id :: usize
  i_block_offset :: nat

definition inode_new :: "u32 \<times> nat \<Rightarrow> inode" where
  "inode_new p = \<lparr>i_block_id = ucast (fst p), i_block_offset = snd p\<rparr>"

definition root_inode :: "easy_fs \<Rightarrow> inode" where
  "root_inode fs = inode_new (get_disk_inode_pos fs 0)"

definition read_disk_inode :: "inode \<Rightarrow> (disk_inode \<Rightarrow> block_cache_manager \<Rightarrow> ('v \<times> block_cache_manager) option) \<Rightarrow>
    block_cache_manager \<Rightarrow> ('v \<times> block_cache_manager) option" where
  "read_disk_inode ino f =
     cache_read (i_block_id ino) (i_block_offset ino) INODE_SIZE (\<lambda>bs s. Option.bind (inode_of_bytes bs) (\<lambda>di. f di s))"

definition modify_disk_inode :: "inode \<Rightarrow> (disk_inode \<Rightarrow> block_cache_manager \<Rightarrow> ('v \<times> disk_inode \<times> block_cache_manager) option) \<Rightarrow>
    block_cache_manager \<Rightarrow> ('v \<times> block_cache_manager) option" where
  "modify_disk_inode ino f =
     cache_modify (i_block_id ino) (i_block_offset ino) INODE_SIZE
       (\<lambda>bs s. Option.bind (inode_of_bytes bs) (\<lambda>di. map_option (\<lambda>(v, di, s). (v, inode_bytes di @ drop 125 bs, s)) (f di s)))"

text \<open>One directory entry, through a \<open>DirEntry\<close> buffer of 32 bytes.\<close>

definition read_dirent :: "disk_inode \<Rightarrow> nat \<Rightarrow> block_cache_manager \<Rightarrow> (dir_entry \<times> block_cache_manager) option" where
  "read_dirent di i s =
     Option.bind (inode_read_at di (DIRENT_SZ * i) (replicate DIRENT_SZ 0) s) (\<lambda>((n, buf), s).
       if n = DIRENT_SZ then Some (dirent_of_bytes buf, s) else None)"

fun find_loop :: "rstring \<Rightarrow> disk_inode \<Rightarrow> nat list \<Rightarrow> block_cache_manager \<Rightarrow> (u32 option \<times> block_cache_manager) option" where
  "find_loop name di [] s = Some (None, s)"
| "find_loop name di (i # is) s =
     Option.bind (read_dirent di i s) (\<lambda>(de, s).
     Option.bind (dirent_name de) (\<lambda>nm.
       if nm = name then Some (Some (de_inode_number de), s) else find_loop name di is s))"

definition find_inode_id :: "rstring \<Rightarrow> disk_inode \<Rightarrow> block_cache_manager \<Rightarrow> (u32 option \<times> block_cache_manager) option" where
  "find_inode_id name di s =
     (if is_dir di then find_loop name di [0..<unat (di_size di) div DIRENT_SZ] s else None)"

definition inode_find :: "easy_fs \<Rightarrow> inode \<Rightarrow> rstring \<Rightarrow> block_cache_manager \<Rightarrow> (inode option \<times> block_cache_manager) option" where
  "inode_find fs ino name =
     read_disk_inode ino (\<lambda>di s.
       map_option (\<lambda>(r, s). (map_option (\<lambda>inode_id. inode_new (get_disk_inode_pos fs inode_id)) r, s)) (find_inode_id name di s))"

fun alloc_data_blocks :: "easy_fs \<Rightarrow> nat \<Rightarrow> block_cache_manager \<Rightarrow> (u32 list \<times> block_cache_manager) option" where
  "alloc_data_blocks fs 0 s = Some ([], s)"
| "alloc_data_blocks fs (Suc n) s =
     Option.bind (alloc_data fs s) (\<lambda>(b, s). map_option (\<lambda>(bs, s). (b # bs, s)) (alloc_data_blocks fs n s))"

definition inode_increase_size :: "easy_fs \<Rightarrow> u32 \<Rightarrow> disk_inode \<Rightarrow> block_cache_manager \<Rightarrow> (disk_inode \<times> block_cache_manager) option" where
  "inode_increase_size fs new_size di s =
     (if new_size < di_size di then Some (di, s)
      else Option.bind (blocks_num_needed di new_size) (\<lambda>n.
           Option.bind (alloc_data_blocks fs (unat n) s) (\<lambda>(v, s).
           increase_size new_size v di s)))"

text \<open>The closure of \<open>create\<close> that appends the directory entry.\<close>

definition append_dirent :: "easy_fs \<Rightarrow> rstring \<Rightarrow> u32 \<Rightarrow> disk_inode \<Rightarrow> block_cache_manager \<Rightarrow>
    (unit \<times> disk_inode \<times> block_cache_manager) option" where
  "append_dirent fs name new_inode_id di s =
     (let file_count = unat (di_size di) div DIRENT_SZ; new_size = (file_count + 1) * DIRENT_SZ in
      Option.bind (inode_increase_size fs (word_of_nat new_size) di s) (\<lambda>(di, s).
      Option.bind (dirent_new name new_inode_id) (\<lambda>de.
      map_option (\<lambda>(_, s). ((), di, s)) (inode_write_at di (file_count * DIRENT_SZ) (dirent_bytes de) s))))"

definition inode_create :: "easy_fs \<Rightarrow> inode \<Rightarrow> rstring \<Rightarrow> block_cache_manager \<Rightarrow> (inode option \<times> block_cache_manager) option" where
  "inode_create fs ino name s =
     Option.bind (read_disk_inode ino (\<lambda>di s. if is_dir di then find_inode_id name di s else None) s) (\<lambda>(r, s).
     if r \<noteq> None then Some (None, s)
     else
     Option.bind (alloc_inode fs s) (\<lambda>(new_inode_id, s).
     let pos = get_disk_inode_pos fs new_inode_id in
     Option.bind (initialize_inode_at (ucast (fst pos)) (snd pos) File_Inode s) (\<lambda>s.
     Option.bind (modify_disk_inode ino (append_dirent fs name new_inode_id) s) (\<lambda>(_, s).
     Option.bind (block_cache_sync_all s) (\<lambda>s.
     Some (Some (inode_new (get_disk_inode_pos fs new_inode_id)), s))))))"

fun ls_loop :: "disk_inode \<Rightarrow> nat list \<Rightarrow> block_cache_manager \<Rightarrow> (rstring list \<times> block_cache_manager) option" where
  "ls_loop di [] s = Some ([], s)"
| "ls_loop di (i # is) s =
     Option.bind (read_dirent di i s) (\<lambda>(de, s).
     Option.bind (dirent_name de) (\<lambda>nm. map_option (\<lambda>(v, s). (nm # v, s)) (ls_loop di is s)))"

definition inode_ls :: "inode \<Rightarrow> block_cache_manager \<Rightarrow> (rstring list \<times> block_cache_manager) option" where
  "inode_ls ino = read_disk_inode ino (\<lambda>di s. ls_loop di [0..<unat (di_size di) div DIRENT_SZ] s)"

definition vfs_read_at :: "inode \<Rightarrow> nat \<Rightarrow> u8 list \<Rightarrow> block_cache_manager \<Rightarrow> ((nat \<times> u8 list) \<times> block_cache_manager) option" where
  "vfs_read_at ino off buf = read_disk_inode ino (\<lambda>di s. inode_read_at di off buf s)"

definition vfs_write_at :: "easy_fs \<Rightarrow> inode \<Rightarrow> nat \<Rightarrow> u8 list \<Rightarrow> block_cache_manager \<Rightarrow> (nat \<times> block_cache_manager) option" where
  "vfs_write_at fs ino off buf s =
     Option.bind (modify_disk_inode ino (\<lambda>di s.
         Option.bind (inode_increase_size fs (word_of_nat (off + length buf)) di s) (\<lambda>(di, s).
         map_option (\<lambda>(n, s). (n, di, s)) (inode_write_at di off buf s))) s) (\<lambda>(n, s).
     map_option (\<lambda>s. (n, s)) (block_cache_sync_all s))"

fun dealloc_all :: "easy_fs \<Rightarrow> u32 list \<Rightarrow> block_cache_manager \<Rightarrow> block_cache_manager option" where
  "dealloc_all fs [] s = Some s"
| "dealloc_all fs (b # bs) s = Option.bind (dealloc_data fs b s) (dealloc_all fs bs)"

definition vfs_clear :: "easy_fs \<Rightarrow> inode \<Rightarrow> block_cache_manager \<Rightarrow> block_cache_manager option" where
  "vfs_clear fs ino s =
     Option.bind (modify_disk_inode ino (\<lambda>di s.
         let sz = di_size di in
         Option.bind (clear_size di s) (\<lambda>(v, di, s).
         if length v = unat (total_blocks sz) then map_option (\<lambda>s. ((), di, s)) (dealloc_all fs v s) else None)) s) (\<lambda>(_, s).
     block_cache_sync_all s)"

end
