(* ===== verification/Os_Fs.thy ===== *)
theory Os_Fs
  imports Easy_Fs Page_Table
begin

text \<open>
  Files of the kernel (\<open>os/src/fs/inode.rs\<close>, \<open>os/src/fs/stdio.rs\<close>): open files over inodes of
  the file system, and the console.  An \<open>OSInode\<close> is shared by the descriptor tables that hold
  it, so open files live in a table and a descriptor holds an index into it; an entry is never
  reused, as nothing observes when the last reference goes.
\<close>

unbundle bit_operations_syntax

section \<open>Open files\<close>

record os_inode =
  os_readable :: bool
  os_writable :: bool
  os_offset :: nat
  os_ino :: inode

datatype file_ref = Stdin | Stdout | OSInode nat

record fs_state =
  root_fs :: easy_fs
  fs_cache :: block_cache_manager
  open_files :: "os_inode list"

definition os_inode_new :: "bool \<Rightarrow> bool \<Rightarrow> inode \<Rightarrow> os_inode" where
  "os_inode_new r w ino = \<lparr>os_readable = r, os_writable = w, os_offset = 0, os_ino = ino\<rparr>"

section \<open>Opening\<close>

type_synonym open_flags = u32

definition O_RDONLY :: open_flags where "O_RDONLY = 0"
definition O_WRONLY :: open_flags where "O_WRONLY = push_bit 0 1"
definition O_RDWR :: open_flags where "O_RDWR = push_bit 1 1"
definition O_CREATE :: open_flags where "O_CREATE = push_bit 9 1"
definition O_TRUNC :: open_flags where "O_TRUNC = push_bit 10 1"

text \<open>\<open>OpenFlags::from_bits\<close> refuses unknown bits.\<close>

definition flags_from_bits :: "u32 \<Rightarrow> open_flags option" where
  "flags_from_bits b =
     (if b AND NOT (O_WRONLY OR O_RDWR OR O_CREATE OR O_TRUNC) = 0 then Some b else None)"

definition flags_contains :: "open_flags \<Rightarrow> open_flags \<Rightarrow> bool" where
  "flags_contains fl x \<longleftrightarrow> fl AND x = x"

definition flags_read_write :: "open_flags \<Rightarrow> bool \<times> bool" where
  "flags_read_write fl =
     (if fl = 0 then (True, False) else if flags_contains fl O_WRONLY then (False, True) else (True, True))"

definition new_open_file :: "os_inode \<Rightarrow> fs_state \<Rightarrow> nat \<times> fs_state" where
  "new_open_file f st = (length (open_files st), st\<lparr>open_files := open_files st @ [f]\<rparr>)"

definition root_find :: "rstring \<Rightarrow> fs_state \<Rightarrow> (inode option \<times> fs_state) option" where
  "root_find name st =
     map_option (\<lambda>(r, c). (r, st\<lparr>fs_cache := c\<rparr>))
       (inode_find (root_fs st) (root_inode (root_fs st)) name (fs_cache st))"

definition inode_clear :: "inode \<Rightarrow> fs_state \<Rightarrow> fs_state option" where
  "inode_clear ino st = map_option (\<lambda>c. st\<lparr>fs_cache := c\<rparr>) (vfs_clear (root_fs st) ino (fs_cache st))"

definition add_inode_file :: "bool \<times> bool \<Rightarrow> inode \<Rightarrow> fs_state \<Rightarrow> nat option \<times> fs_state" where
  "add_inode_file rw ino st =
     (let (i, st) = new_open_file (os_inode_new (fst rw) (snd rw) ino) st in (Some i, st))"

definition root_create :: "rstring \<Rightarrow> fs_state \<Rightarrow> (inode option \<times> fs_state) option" where
  "root_create name st =
     map_option (\<lambda>(r, c). (r, st\<lparr>fs_cache := c\<rparr>))
       (inode_create (root_fs st) (root_inode (root_fs st)) name (fs_cache st))"

definition open_file :: "rstring \<Rightarrow> open_flags \<Rightarrow> fs_state \<Rightarrow> (nat option \<times> fs_state) option" where
  "open_file name fl st =
     (let rw = flags_read_write fl in
      if flags_contains fl O_CREATE
      then Option.bind (root_find name st) (\<lambda>(r, st).
           case r of
             Some ino \<Rightarrow> map_option (add_inode_file rw ino) (inode_clear ino st)
           | None \<Rightarrow>
               map_option (\<lambda>(r, st). case r of Some ino \<Rightarrow> add_inode_file rw ino st | None \<Rightarrow> (None, st))
                 (root_create name st))
      else Option.bind (root_find name st) (\<lambda>(r, st).
           case r of
             Some ino \<Rightarrow>
               map_option (add_inode_file rw ino) (if flags_contains fl O_TRUNC then inode_clear ino st else Some st)
           | None \<Rightarrow> Some (None, st)))"

text \<open>What \<open>list_apps\<close> prints.\<close>

definition println :: "rstring \<Rightarrow> rstring" where
  "println s = s @ [10]"

definition list_apps :: "fs_state \<Rightarrow> (rstring \<times> fs_state) option" where
  "list_apps st =
     map_option (\<lambda>(apps, c).
       (println (str ''/**** APPS ****'') @ concat (map println apps) @ println (str ''**************/''), st\<lparr>fs_cache := c\<rparr>))
       (inode_ls (root_inode (root_fs st)) (fs_cache st))"

section \<open>Reading and writing\<close>

text \<open>\<open>OSInode::read_all\<close>: from an offset, in pieces of 512 bytes, until a read gives nothing.\<close>

partial_function (option) read_all_loop :: "inode \<Rightarrow> nat \<Rightarrow> u8 list \<Rightarrow> block_cache_manager \<Rightarrow>
    (u8 list \<times> nat \<times> block_cache_manager) option" where
  "read_all_loop ino off v c =
     Option.bind (vfs_read_at ino off (replicate 512 0) c) (\<lambda>r.
       (case r of ((len, buffer), c) \<Rightarrow>
          if len = 0 then Some (v, off, c)
          else read_all_loop ino (off + len) (v @ take len buffer) c))"

definition os_inode_read_all :: "nat \<Rightarrow> fs_state \<Rightarrow> (u8 list \<times> fs_state) option" where
  "os_inode_read_all i st =
     (let f = open_files st ! i in
      map_option (\<lambda>(v, off, c). (v, st\<lparr>fs_cache := c, open_files := (open_files st)[i := f\<lparr>os_offset := off\<rparr>]\<rparr>))
        (read_all_loop (os_ino f) (os_offset f) [] (fs_cache st)))"

text \<open>\<open>File::read\<close> and \<open>File::write\<close> of an inode: one access per slice of the user buffer.  The
  slices are ranges of physical memory.\<close>

fun read_buffers :: "inode \<Rightarrow> slices \<Rightarrow> nat \<Rightarrow> nat \<Rightarrow> block_cache_manager \<times> memory \<Rightarrow>
    (nat \<times> nat \<times> block_cache_manager \<times> memory) option" where
  "read_buffers ino [] off n (c, m) = Some (n, off, c, m)"
| "read_buffers ino ((a, len) # sl) off n (c, m) =
     Option.bind (vfs_read_at ino off (load_bytes m a len) c) (\<lambda>((k, buf), c).
       let m = store_bytes m a buf in
       if k = 0 then Some (n, off, c, m) else read_buffers ino sl (off + k) (n + k) (c, m))"

fun write_buffers :: "easy_fs \<Rightarrow> inode \<Rightarrow> slices \<Rightarrow> nat \<Rightarrow> nat \<Rightarrow> block_cache_manager \<times> memory \<Rightarrow>
    (nat \<times> nat \<times> block_cache_manager) option" where
  "write_buffers fs ino [] off n (c, m) = Some (n, off, c)"
| "write_buffers fs ino ((a, len) # sl) off n (c, m) =
     Option.bind (vfs_write_at fs ino off (load_bytes m a len) c) (\<lambda>(k, c).
       if k = len then write_buffers fs ino sl (off + k) (n + k) (c, m) else None)"

definition os_inode_read :: "nat \<Rightarrow> slices \<Rightarrow> fs_state \<times> memory \<Rightarrow> (nat \<times> fs_state \<times> memory) option" where
  "os_inode_read i sl = (\<lambda>(st, m).
     let f = open_files st ! i in
     map_option (\<lambda>(n, off, c, m). (n, st\<lparr>fs_cache := c, open_files := (open_files st)[i := f\<lparr>os_offset := off\<rparr>]\<rparr>, m))
       (read_buffers (os_ino f) sl (os_offset f) 0 (fs_cache st, m)))"

definition os_inode_write :: "nat \<Rightarrow> slices \<Rightarrow> fs_state \<times> memory \<Rightarrow> (nat \<times> fs_state) option" where
  "os_inode_write i sl = (\<lambda>(st, m).
     let f = open_files st ! i in
     map_option (\<lambda>(n, off, c). (n, st\<lparr>fs_cache := c, open_files := (open_files st)[i := f\<lparr>os_offset := off\<rparr>]\<rparr>))
       (write_buffers (root_fs st) (os_ino f) sl (os_offset f) 0 (fs_cache st, m)))"

section \<open>The console\<close>

text \<open>\<open>Stdout::write\<close> prints each slice, which must be valid UTF-8 by itself.  \<open>Stdin::read\<close>
  takes a buffer of one byte; it polls the console until a character is there, here one poll.\<close>

fun stdout_print :: "slices \<Rightarrow> memory \<Rightarrow> rstring option" where
  "stdout_print [] m = Some []"
| "stdout_print ((a, len) # sl) m =
     Option.bind (from_utf8 (load_bytes m a len)) (\<lambda>s. map_option (\<lambda>t. s @ t) (stdout_print sl m))"

definition stdout_write :: "slices \<Rightarrow> memory \<Rightarrow> (nat \<times> rstring) option" where
  "stdout_write sl m = map_option (\<lambda>out. (user_buffer_len sl, out)) (stdout_print sl m)"

definition stdin_start :: "slices \<Rightarrow> phys_addr option" where
  "stdin_start sl = (if user_buffer_len sl = 1 then Some (fst (hd sl)) else None)"

definition stdin_poll :: "usize \<Rightarrow> phys_addr \<Rightarrow> memory \<Rightarrow> (nat \<times> memory) option" where
  "stdin_poll c a m = (if c = 0 then None else Some (1, store_bytes m a [ucast c]))"

text \<open>\<open>File::readable\<close> and \<open>File::writable\<close>.\<close>

fun file_readable :: "fs_state \<Rightarrow> file_ref \<Rightarrow> bool" where
  "file_readable st Stdin = True"
| "file_readable st Stdout = False"
| "file_readable st (OSInode i) = os_readable (open_files st ! i)"

fun file_writable :: "fs_state \<Rightarrow> file_ref \<Rightarrow> bool" where
  "file_writable st Stdin = False"
| "file_writable st Stdout = True"
| "file_writable st (OSInode i) = os_writable (open_files st ! i)"

end
