(* ===== verification/Task.thy ===== *)
theory Task
  imports File_Attr Context_Path Os_Fs
begin

text \<open>
  Tasks (\<open>os/src/task/task.rs\<close>, \<open>os/src/task/context.rs\<close>, \<open>os/src/trap/context.rs\<close>) and the
  state of the kernel.  A control block is reached by its pid: the pid handle lives as long as
  the block.  \<open>None\<close> is a panic.  What a suspended task does when it runs again is on its kernel
  stack in the program; here it is the field \<open>resume\<close>.
\<close>

section \<open>Contexts\<close>

record task_context =
  cx_ra :: usize
  cx_sp :: usize
  cx_s :: "usize list"

definition task_context_zero_init :: task_context where
  "task_context_zero_init = \<lparr>cx_ra = 0, cx_sp = 0, cx_s = replicate 12 0\<rparr>"

definition goto_trap_return :: "usize \<Rightarrow> usize \<Rightarrow> task_context" where
  "goto_trap_return trap_return kstack_ptr = \<lparr>cx_ra = trap_return, cx_sp = kstack_ptr, cx_s = replicate 12 0\<rparr>"

text \<open>A trap context lies at the start of its frame: 32 registers, \<open>sstatus\<close>, \<open>sepc\<close>, and three
  kernel words.\<close>

record trap_context =
  x_regs :: "usize list"
  sstatus :: usize
  sepc :: usize
  kernel_satp :: usize
  kernel_sp :: usize
  trap_handler_addr :: usize

definition app_init_context :: "usize \<Rightarrow> usize \<Rightarrow> usize \<Rightarrow> usize \<Rightarrow> usize \<Rightarrow> usize \<Rightarrow> trap_context" where
  "app_init_context user_sstatus entry sp satp ksp handler =
     \<lparr>x_regs = (replicate 32 0)[2 := sp], sstatus = user_sstatus, sepc = entry, kernel_satp = satp,
      kernel_sp = ksp, trap_handler_addr = handler\<rparr>"

definition trap_cx_bytes :: "trap_context \<Rightarrow> u8 list" where
  "trap_cx_bytes cx = le_concat (x_regs cx @ [sstatus cx, sepc cx, kernel_satp cx, kernel_sp cx, trap_handler_addr cx])"

definition trap_cx_word :: "phys_page_num \<Rightarrow> nat \<Rightarrow> phys_addr" where
  "trap_cx_word ppn k = pa_from_ppn ppn + 8 * word_of_nat k"

section \<open>Control blocks\<close>

datatype task_status = Ready | Running | Zombie | Blocked

text \<open>Where a task continues: in user mode; in \<open>sys_yield\<close>, about to return 0; in the loop of
  \<open>sys_agent_wait\<close>; in the polling loop of \<open>Stdin::read\<close>.\<close>

datatype resume_point =
    To_User
  | In_Yield
  | In_Wait int int "u64 option"
  | In_Getchar phys_addr

record task_control_block =
  trap_cx_ppn :: phys_page_num
  base_size :: usize
  task_cx :: task_context
  task_status :: task_status
  memory_set_of :: memory_set
  parent :: "usize option"
  children :: "usize list"
  exit_code :: u32
  fd_table :: "file_ref option list"
  agent_ext_of :: "agent_ext option"
  priority :: usize
  resume :: resume_point

definition DEFAULT_PRIORITY :: usize where "DEFAULT_PRIORITY = 16"
definition MAX_PRIORITY :: usize where "MAX_PRIORITY = 255"

definition is_zombie :: "task_control_block \<Rightarrow> bool" where
  "is_zombie t \<longleftrightarrow> task_status t = Zombie"

definition get_user_token :: "task_control_block \<Rightarrow> usize" where
  "get_user_token t = ms_token (memory_set_of t)"

definition alloc_fd :: "task_control_block \<Rightarrow> nat \<times> task_control_block" where
  "alloc_fd t =
     (case position (\<lambda>fd. fd = None) (fd_table t) of
        Some fd \<Rightarrow> (fd, t)
      | None \<Rightarrow> let t = t\<lparr>fd_table := fd_table t @ [None]\<rparr> in (length (fd_table t) - 1, t))"

section \<open>The kernel\<close>

record kernel =
  k_machine :: machine
  kernel_space :: memory_set
  pids :: pid_allocator
  tcbs :: "usize \<Rightarrow> task_control_block option"
  initproc :: usize
  ready_queue :: "usize list"
  current :: "usize option"
  blocked_agents :: "(usize \<times> u64 option) list"
  attr_store :: file_attr_store
  k_fs :: fs_state
  console_out :: rstring

text \<open>What the kernel finds in its environment: linker symbols, the user value of \<open>sstatus\<close>, and
  the ELF parser of the \<open>xmas_elf\<close> crate.\<close>

record kernel_env =
  env_trap_return :: usize
  env_trap_handler :: usize
  env_strampoline :: usize
  env_user_sstatus :: usize
  env_xmas_elf_new :: "u8 list \<Rightarrow> elf_file option"

definition update_tcb :: "usize \<Rightarrow> (task_control_block \<Rightarrow> task_control_block) \<Rightarrow> kernel \<Rightarrow> kernel" where
  "update_tcb p f k = k\<lparr>tcbs := (tcbs k)(p := map_option f (tcbs k p))\<rparr>"

definition user_mem :: "kernel \<Rightarrow> memory" where
  "user_mem k = mem (k_machine k)"

definition set_mem :: "memory \<Rightarrow> kernel \<Rightarrow> kernel" where
  "set_mem m k = k\<lparr>k_machine := (k_machine k)\<lparr>mem := m\<rparr>\<rparr>"

text \<open>\<open>pid_alloc\<close> with \<open>KernelStack::new\<close>.\<close>

definition alloc_pid_and_stack :: "kernel \<Rightarrow> (usize \<times> kernel) option" where
  "alloc_pid_and_stack k =
     (let (p, a) = pid_allocator_alloc (pids k) in
      map_option (\<lambda>(ks, mc). (p, k\<lparr>pids := a, kernel_space := ks, k_machine := mc\<rparr>))
        (kernel_stack_new p (kernel_space k, k_machine k)))"

definition trap_cx_ppn_of :: "memory \<Rightarrow> memory_set \<Rightarrow> phys_page_num option" where
  "trap_cx_ppn_of m ms =
     Option.bind (vpn_from_va (va_from_usize TRAP_CONTEXT)) (\<lambda>vpn. map_option pte_ppn (ms_translate m ms vpn))"

definition write_trap_cx :: "phys_page_num \<Rightarrow> trap_context \<Rightarrow> kernel \<Rightarrow> kernel" where
  "write_trap_cx ppn cx k = set_mem (store_bytes (user_mem k) (pa_from_ppn ppn) (trap_cx_bytes cx)) k"

definition tcb_new :: "kernel_env \<Rightarrow> u8 list \<Rightarrow> kernel \<Rightarrow> (usize \<times> kernel) option" where
  "tcb_new env elf_data k =
     Option.bind (from_elf (env_xmas_elf_new env) (env_strampoline env) elf_data (k_machine k)) (\<lambda>((ms, user_sp, entry), mc).
     Option.bind (trap_cx_ppn_of (mem mc) ms) (\<lambda>ppn.
     Option.bind (alloc_pid_and_stack (k\<lparr>k_machine := mc\<rparr>)) (\<lambda>(p, k).
     let kernel_stack_top = kernel_stack_get_top p;
         t = \<lparr>trap_cx_ppn = ppn, base_size = user_sp,
              task_cx = goto_trap_return (env_trap_return env) kernel_stack_top, task_status = Ready,
              memory_set_of = ms, parent = None, children = [], exit_code = 0,
              fd_table = [Some Stdin, Some Stdout, Some Stdout], agent_ext_of = None,
              priority = DEFAULT_PRIORITY, resume = To_User\<rparr>;
         k = k\<lparr>tcbs := (tcbs k)(p \<mapsto> t)\<rparr> in
     Some (p, write_trap_cx ppn
                (app_init_context (env_user_sstatus env) entry user_sp (ms_token (kernel_space k)) kernel_stack_top
                   (env_trap_handler env)) k))))"

text \<open>\<open>TaskControlBlock::exec\<close>: the old address space is dropped when the new one replaces it.\<close>

definition tcb_exec :: "kernel_env \<Rightarrow> usize \<Rightarrow> u8 list \<Rightarrow> kernel \<Rightarrow> kernel option" where
  "tcb_exec env p elf_data k =
     Option.bind (from_elf (env_xmas_elf_new env) (env_strampoline env) elf_data (k_machine k)) (\<lambda>((ms, user_sp, entry), mc).
     Option.bind (trap_cx_ppn_of (mem mc) ms) (\<lambda>ppn.
     Option.bind (tcbs k p) (\<lambda>t.
     Option.bind (memory_set_drop (memory_set_of t, mc)) (\<lambda>mc.
     let k = k\<lparr>k_machine := mc, tcbs := (tcbs k)(p \<mapsto> t\<lparr>memory_set_of := ms, trap_cx_ppn := ppn\<rparr>)\<rparr> in
     Some (write_trap_cx ppn
             (app_init_context (env_user_sstatus env) entry user_sp (ms_token (kernel_space k)) (kernel_stack_get_top p)
                (env_trap_handler env)) k)))))"

definition tcb_fork :: "kernel_env \<Rightarrow> usize \<Rightarrow> kernel \<Rightarrow> (usize \<times> kernel) option" where
  "tcb_fork env pp k =
     Option.bind (tcbs k pp) (\<lambda>parent_inner.
     Option.bind (from_existed_user (env_strampoline env) (memory_set_of parent_inner) (k_machine k)) (\<lambda>(ms, mc).
     Option.bind (trap_cx_ppn_of (mem mc) ms) (\<lambda>ppn.
     Option.bind (alloc_pid_and_stack (k\<lparr>k_machine := mc\<rparr>)) (\<lambda>(p, k).
     let kernel_stack_top = kernel_stack_get_top p;
         t = \<lparr>trap_cx_ppn = ppn, base_size = base_size parent_inner,
              task_cx = goto_trap_return (env_trap_return env) kernel_stack_top, task_status = Ready,
              memory_set_of = ms, parent = Some pp, children = [], exit_code = 0,
              fd_table = fd_table parent_inner, agent_ext_of = None,
              priority = priority parent_inner, resume = To_User\<rparr>;
         k = k\<lparr>tcbs := (tcbs k)(p \<mapsto> t)\<rparr>;
         k = update_tcb pp (\<lambda>u. u\<lparr>children := children u @ [p]\<rparr>) k in
     Some (p, set_mem (store_u64 (user_mem k) (trap_cx_word ppn 35) kernel_stack_top) k)))))"

text \<open>Dropping the last reference to a control block: the pid, the kernel stack, then the address
  space.\<close>

definition tcb_drop :: "usize \<Rightarrow> kernel \<Rightarrow> kernel option" where
  "tcb_drop p k =
     Option.bind (tcbs k p) (\<lambda>t.
     Option.bind (pid_allocator_dealloc p (pids k)) (\<lambda>a.
     Option.bind (kernel_stack_drop p (kernel_space k, k_machine k)) (\<lambda>(ks, mc).
     Option.bind (memory_set_drop (memory_set_of t, mc)) (\<lambda>mc.
     Some (k\<lparr>pids := a, kernel_space := ks, k_machine := mc, tcbs := (tcbs k)(p := None)\<rparr>)))))"

end
