(* ===== verification/Scheduler.thy ===== *)
theory Scheduler
  imports Task
begin

text \<open>
  The task manager, the processor and the life cycle of tasks (\<open>os/src/task/manager.rs\<close>,
  \<open>processor.rs\<close>, \<open>mod.rs\<close>), blocked agents (\<open>os/src/agent/blocking.rs\<close>), heartbeats, mailboxes
  and file events (\<open>os/src/agent/event_bus.rs\<close>).  Control leaves a task through \<open>schedule\<close>: an
  operation that ends there leaves \<open>current\<close> empty, and the idle loop picks the next task.
\<close>

unbundle bit_operations_syntax

section \<open>Ready queue\<close>

definition task_priority :: "kernel \<Rightarrow> usize \<Rightarrow> usize" where
  "task_priority k p = (case tcbs k p of Some t \<Rightarrow> priority t | None \<Rightarrow> 0)"

definition add_task :: "usize \<Rightarrow> kernel \<Rightarrow> kernel" where
  "add_task p k = k\<lparr>ready_queue := ready_queue k @ [p]\<rparr>"

fun fetch_loop :: "(usize \<Rightarrow> usize) \<Rightarrow> usize list \<Rightarrow> nat list \<Rightarrow> nat \<Rightarrow> usize \<Rightarrow> nat" where
  "fetch_loop prio q [] best_idx best_prio = best_idx"
| "fetch_loop prio q (i # is) best_idx best_prio =
     (let p = prio (q ! i) in
      if best_prio < p then fetch_loop prio q is i p else fetch_loop prio q is best_idx best_prio)"

definition fetch_task :: "kernel \<Rightarrow> usize option \<times> kernel" where
  "fetch_task k =
     (let q = ready_queue k in
      if q = [] then (None, k)
      else let best_idx = fetch_loop (task_priority k) q [1..<length q] 0 (task_priority k (q ! 0)) in
           (Some (q ! best_idx), k\<lparr>ready_queue := vec_remove best_idx q\<rparr>))"

section \<open>Processor\<close>

text \<open>One round of \<open>run_tasks\<close>; with no ready task nothing happens and the loop goes on.\<close>

definition run_tasks_round :: "kernel \<Rightarrow> kernel" where
  "run_tasks_round k =
     (case fetch_task k of
        (None, k) \<Rightarrow> k
      | (Some p, k) \<Rightarrow> (update_tcb p (\<lambda>t. t\<lparr>task_status := Running\<rparr>) k)\<lparr>current := Some p\<rparr>)"

definition take_current_task :: "kernel \<Rightarrow> (usize \<times> kernel) option" where
  "take_current_task k = map_option (\<lambda>p. (p, k\<lparr>current := None\<rparr>)) (current k)"

definition current_tcb :: "kernel \<Rightarrow> (usize \<times> task_control_block) option" where
  "current_tcb k = Option.bind (current k) (\<lambda>p. map_option (\<lambda>t. (p, t)) (tcbs k p))"

definition current_user_token :: "kernel \<Rightarrow> usize option" where
  "current_user_token k = map_option (\<lambda>(p, t). get_user_token t) (current_tcb k)"

section \<open>Suspending and exiting\<close>

text \<open>The last argument is where the task continues.\<close>

definition suspend_current :: "resume_point \<Rightarrow> kernel \<Rightarrow> kernel option" where
  "suspend_current r k =
     map_option (\<lambda>(p, k). add_task p (update_tcb p (\<lambda>t. t\<lparr>task_status := Ready, resume := r\<rparr>) k)) (take_current_task k)"

definition IDLE_PID :: usize where "IDLE_PID = 0"

datatype exit_outcome = Shutdown bool | Exited kernel

text \<open>The loop over the children of an exiting task.\<close>

fun reparent :: "usize list \<Rightarrow> kernel \<Rightarrow> kernel" where
  "reparent [] k = k"
| "reparent (c # cs) k =
     reparent cs (update_tcb (initproc k) (\<lambda>t. t\<lparr>children := children t @ [c]\<rparr>)
                   (update_tcb c (\<lambda>t. t\<lparr>parent := Some (initproc k)\<rparr>) k))"

definition exit_current :: "u32 \<Rightarrow> kernel \<Rightarrow> exit_outcome option" where
  "exit_current code k =
     Option.bind (take_current_task k) (\<lambda>(p, k).
     if p = IDLE_PID then Some (Shutdown (code \<noteq> 0))
     else Option.bind (tcbs k p) (\<lambda>inner.
       let k = update_tcb p (\<lambda>t. t\<lparr>task_status := Zombie, exit_code := code\<rparr>) k;
           k = reparent (children inner) k;
           k = update_tcb p (\<lambda>t. t\<lparr>children := []\<rparr>) k in
       Option.bind (recycle_data_pages (memory_set_of inner, k_machine k)) (\<lambda>(ms, mc).
       Some (Exited (update_tcb p (\<lambda>t. t\<lparr>memory_set_of := ms\<rparr>) (k\<lparr>k_machine := mc\<rparr>))))))"

definition add_initproc :: "kernel_env \<Rightarrow> kernel \<Rightarrow> kernel option" where
  "add_initproc env k =
     Option.bind (open_file (str ''initproc'') O_RDONLY (k_fs k)) (\<lambda>(r, st).
     Option.bind r (\<lambda>i.
     Option.bind (os_inode_read_all i st) (\<lambda>(v, st).
     map_option (\<lambda>(p, k). add_task p (k\<lparr>initproc := p\<rparr>)) (tcb_new env v (k\<lparr>k_fs := st\<rparr>)))))"

section \<open>All processes\<close>

text \<open>\<open>snapshot_all_processes\<close>: breadth first from the initial process.\<close>

partial_function (option) snapshot_loop :: "kernel \<Rightarrow> usize list \<Rightarrow> usize list \<Rightarrow> usize list option" where
  "snapshot_loop k q out =
     (case q of
        [] \<Rightarrow> Some out
      | p # q \<Rightarrow> Option.bind (tcbs k p) (\<lambda>t. snapshot_loop k (q @ children t) (out @ [p])))"

definition snapshot_all_processes :: "kernel \<Rightarrow> usize list option" where
  "snapshot_all_processes k = snapshot_loop k [initproc k] []"

section \<open>Blocking\<close>

definition block_current_agent :: "u64 option \<Rightarrow> resume_point \<Rightarrow> kernel \<Rightarrow> kernel option" where
  "block_current_agent wake_deadline_ms r k =
     map_option (\<lambda>(p, k). (update_tcb p (\<lambda>t. t\<lparr>task_status := Blocked, resume := r\<rparr>) k)
                            \<lparr>blocked_agents := blocked_agents k @ [(p, wake_deadline_ms)]\<rparr>) (take_current_task k)"

definition wake_one :: "usize \<Rightarrow> kernel \<Rightarrow> kernel" where
  "wake_one p k = add_task p (update_tcb p (\<lambda>t. t\<lparr>task_status := Ready\<rparr>) k)"

definition wake_agent_by_pid :: "usize \<Rightarrow> kernel \<Rightarrow> bool \<times> kernel" where
  "wake_agent_by_pid p k =
     (case position (\<lambda>e. fst e = p) (blocked_agents k) of
        Some idx \<Rightarrow> (True, wake_one (fst (blocked_agents k ! idx)) (k\<lparr>blocked_agents := swap_remove idx (blocked_agents k)\<rparr>))
      | None \<Rightarrow> (False, k))"

text \<open>The scan of \<open>tick_wake_timeouts\<close>: due entries are swapped out of the list, in place.\<close>

definition due :: "u64 \<Rightarrow> u64 option \<Rightarrow> bool" where
  "due now_ms d = (case d of Some d \<Rightarrow> d \<le> now_ms | None \<Rightarrow> False)"

function timeouts_loop :: "u64 \<Rightarrow> nat \<Rightarrow> (usize \<times> u64 option) list \<Rightarrow> usize list \<Rightarrow> (usize \<times> u64 option) list \<times> usize list" where
  "timeouts_loop now_ms i blocked to_wake =
     (if i < length blocked
      then if due now_ms (snd (blocked ! i))
           then timeouts_loop now_ms i (swap_remove i blocked) (to_wake @ [fst (blocked ! i)])
           else timeouts_loop now_ms (Suc i) blocked to_wake
      else (blocked, to_wake))"
  by pat_completeness auto
termination
  by (relation "measure (\<lambda>(_, i, blocked, _). 2 * length blocked - i)") (auto simp: swap_remove_def)

declare timeouts_loop.simps [simp del]

fun wake_all :: "usize list \<Rightarrow> kernel \<Rightarrow> kernel" where
  "wake_all [] k = k"
| "wake_all (p # ps) k = wake_all ps (wake_one p k)"

definition tick_wake_timeouts :: "u64 \<Rightarrow> kernel \<Rightarrow> kernel" where
  "tick_wake_timeouts now_ms k =
     (let (blocked, to_wake) = timeouts_loop now_ms 0 (blocked_agents k) [] in
      wake_all to_wake (k\<lparr>blocked_agents := blocked\<rparr>))"

section \<open>Events\<close>

definition EVENT_HEARTBEAT :: u32 where "EVENT_HEARTBEAT = push_bit 0 1"
definition EVENT_MESSAGE :: u32 where "EVENT_MESSAGE = push_bit 1 1"
definition EVENT_FILE_MODIFIED :: u32 where "EVENT_FILE_MODIFIED = push_bit 2 1"

definition update_ext :: "usize \<Rightarrow> (agent_ext \<Rightarrow> agent_ext) \<Rightarrow> kernel \<Rightarrow> kernel" where
  "update_ext p f k = update_tcb p (\<lambda>t. t\<lparr>agent_ext_of := map_option f (agent_ext_of t)\<rparr>) k"

definition ext_of :: "kernel \<Rightarrow> usize \<Rightarrow> agent_ext option" where
  "ext_of k p = Option.bind (tcbs k p) agent_ext_of"

definition heartbeat_due :: "u64 \<Rightarrow> agent_ext \<Rightarrow> bool" where
  "heartbeat_due now_ms ext \<longleftrightarrow> 0 < heartbeat_interval_ms ext \<and>
     heartbeat_interval_ms ext \<le> saturating_sub now_ms (heartbeat_last_ms ext)"

fun tick_loop :: "u64 \<Rightarrow> usize list \<Rightarrow> usize list \<Rightarrow> kernel \<Rightarrow> usize list \<times> kernel" where
  "tick_loop now_ms [] to_wake k = (to_wake, k)"
| "tick_loop now_ms (p # ps) to_wake k =
     (case ext_of k p of
        Some ext \<Rightarrow>
          if heartbeat_due now_ms ext
          then tick_loop now_ms ps (to_wake @ [p])
                 (update_ext p (\<lambda>e. e\<lparr>heartbeat_pending := True, heartbeat_last_ms := now_ms\<rparr>) k)
          else tick_loop now_ms ps to_wake k
      | None \<Rightarrow> tick_loop now_ms ps to_wake k)"

fun wake_pids :: "usize list \<Rightarrow> kernel \<Rightarrow> kernel" where
  "wake_pids [] k = k"
| "wake_pids (p # ps) k = wake_pids ps (snd (wake_agent_by_pid p k))"

definition tick_all_agents :: "u64 \<Rightarrow> kernel \<Rightarrow> kernel option" where
  "tick_all_agents now_ms k =
     map_option (\<lambda>tasks. let (to_wake, k) = tick_loop now_ms tasks [] k in wake_pids to_wake k) (snapshot_all_processes k)"

text \<open>A full mailbox loses its oldest message; the capacity is 32 from creation on, so a full
  mailbox is never empty.\<close>

definition push_message :: "u8 list \<Rightarrow> agent_ext \<Rightarrow> agent_ext" where
  "push_message msg ext =
     (let mb = (if unat (mailbox_capacity ext) \<le> length (mailbox ext) then vec_remove 0 (mailbox ext) else mailbox ext)
      in ext\<lparr>mailbox := mb @ [msg]\<rparr>)"

definition deliver_message :: "usize \<Rightarrow> u8 list \<Rightarrow> kernel \<Rightarrow> (bool \<times> kernel) option" where
  "deliver_message target msg k =
     map_option (\<lambda>tasks.
       if target \<in> set tasks \<and> ext_of k target \<noteq> None
       then (True, snd (wake_agent_by_pid target (update_ext target (push_message msg) k)))
       else (False, k)) (snapshot_all_processes k)"

fun file_event_loop :: "usize list \<Rightarrow> usize list \<Rightarrow> kernel \<Rightarrow> usize list \<times> kernel" where
  "file_event_loop [] to_wake k = (to_wake, k)"
| "file_event_loop (p # ps) to_wake k =
     (case ext_of k p of
        Some ext \<Rightarrow>
          if watched_events ext AND EVENT_FILE_MODIFIED \<noteq> 0
          then file_event_loop ps (to_wake @ [p]) (update_ext p (\<lambda>e. e\<lparr>file_event_pending := True\<rparr>) k)
          else file_event_loop ps to_wake k
      | None \<Rightarrow> file_event_loop ps to_wake k)"

definition broadcast_file_event :: "kernel \<Rightarrow> kernel option" where
  "broadcast_file_event k =
     map_option (\<lambda>tasks. let (to_wake, k) = file_event_loop tasks [] k in wake_pids to_wake k) (snapshot_all_processes k)"

end
