(* ===== verification/Tools.thy ===== *)
theory Tools
  imports Scheduler
begin

text \<open>
  The kernel tools and their dispatcher (\<open>os/src/agent/tool/handlers.rs\<close>,
  \<open>os/src/agent/tool/registry.rs\<close>).  A handler returns its \<open>Result\<close> with the kernel state;
  \<open>None\<close> is a call that does not return.
\<close>

section \<open>Handlers\<close>

record dispatch_result =
  dr_status :: tool_status
  dr_body :: "u8 list"

fun map_status :: "task_status \<Rightarrow> proc_status" where
  "map_status Ready = PReady"
| "map_status Running = PRunning"
| "map_status Zombie = PZombie"
| "map_status Blocked = PBlocked"

definition process_info_of :: "usize \<Rightarrow> task_control_block \<Rightarrow> process_info" where
  "process_info_of p t =
     \<lparr>pi_pid = ucast p, pi_name = str ''proc-'' @ decimal (unat (ucast p :: u32)),
      pi_status = map_status (task_status t), pi_is_agent = agent_ext_of t \<noteq> None\<rparr>"

fun collect_infos :: "kernel \<Rightarrow> usize list \<Rightarrow> process_info list option" where
  "collect_infos k [] = Some []"
| "collect_infos k (p # ps) =
     Option.bind (tcbs k p) (\<lambda>t. map_option ((#) (process_info_of p t)) (collect_infos k ps))"

definition collect_processes :: "kernel \<Rightarrow> process_info list option" where
  "collect_processes k = Option.bind (snapshot_all_processes k) (collect_infos k)"

text \<open>\<open>postcard::to_allocvec(..).map_err(|_| InternalError)?\<close> and the two usual results.\<close>

definition ok_body :: "'e + u8 list \<Rightarrow> dispatch_result agent_result" where
  "ok_body r = (case r of Inl e \<Rightarrow> Inl InternalError | Inr body \<Rightarrow> Inr \<lparr>dr_status = StOk, dr_body = body\<rparr>)"

definition empty_body :: "tool_status \<Rightarrow> dispatch_result agent_result" where
  "empty_body st = Inr \<lparr>dr_status = st, dr_body = []\<rparr>"

definition system_status :: "'e postcard \<Rightarrow> usize \<Rightarrow> tool_request \<Rightarrow> kernel \<Rightarrow> dispatch_result agent_result option" where
  "system_status pc now req k =
     map_option (\<lambda>procs.
       ok_body (pc_status_info pc
         \<lparr>total_procs = word_of_nat (length procs),
          agent_procs = word_of_nat (length (filter pi_is_agent procs)),
          running_procs = word_of_nat (length (filter (\<lambda>p. pi_status p = PRunning) procs)),
          memory_used_bytes = 0, uptime_ticks = now\<rparr>)) (collect_processes k)"

definition process_matches :: "proc_status option \<Rightarrow> agent_type_filter \<Rightarrow> process_info \<Rightarrow> bool" where
  "process_matches st ty p \<longleftrightarrow>
     (case st of None \<Rightarrow> True | Some s \<Rightarrow> pi_status p = s) \<and>
     (case ty of AnyType \<Rightarrow> True | AgentType \<Rightarrow> pi_is_agent p | NormalType \<Rightarrow> \<not> pi_is_agent p)"

definition query_process :: "'e postcard \<Rightarrow> tool_request \<Rightarrow> kernel \<Rightarrow> dispatch_result agent_result option" where
  "query_process pc req k =
     (case params req of
        PQueryProcess st ty \<Rightarrow>
          map_option (\<lambda>procs. ok_body (pc_process_list pc (filter (process_matches st ty) procs))) (collect_processes k)
      | _ \<Rightarrow> Some (empty_body StBadParams))"

definition read_context :: "'e postcard \<Rightarrow> tool_request \<Rightarrow> kernel \<Rightarrow> dispatch_result agent_result option" where
  "read_context pc req k =
     (case params req of
        PReadContext ty i \<Rightarrow>
          (case ty of
             TFile \<Rightarrow> Some (empty_body StNotImplemented)
           | _ \<Rightarrow>
             map_option (\<lambda>procs.
               (case find (\<lambda>p. (ucast (pi_pid p) :: u64) = i) procs of
                  None \<Rightarrow> empty_body StToolNotFound
                | Some p \<Rightarrow> if ty = TAgent \<and> \<not> pi_is_agent p then empty_body StPermissionDenied
                            else ok_body (pc_process pc p))) (collect_processes k))
      | _ \<Rightarrow> Some (empty_body StBadParams))"

definition send_message :: "tool_request \<Rightarrow> kernel \<Rightarrow> (dispatch_result agent_result \<times> kernel) option" where
  "send_message req k =
     (case params req of
        PSendMessage target msg \<Rightarrow>
          map_option (\<lambda>(ok, k). (empty_body (if ok then StOk else StPermissionDenied), k)) (deliver_message target msg k)
      | _ \<Rightarrow> Some (empty_body StBadParams, k))"

definition file_info_of :: "file_attr_store \<Rightarrow> rstring \<Rightarrow> file_info" where
  "file_info_of store n =
     (case bt_get (by_name store) n of
        Some a \<Rightarrow> \<lparr>fi_inode_id = 0, fi_name = n, fi_size = 0, fi_tags = tags a,
                   fi_owner = bt_get (kv a) (str ''owner''),
                   fi_digest_preview = from_utf8_lossy (take (min (length (digest a)) 48) (digest a))\<rparr>
      | None \<Rightarrow> \<lparr>fi_inode_id = 0, fi_name = n, fi_size = 0, fi_tags = [], fi_owner = None, fi_digest_preview = []\<rparr>)"

definition query_file :: "'e postcard \<Rightarrow> tool_request \<Rightarrow> kernel \<Rightarrow> dispatch_result agent_result" where
  "query_file pc req k =
     (case params req of
        PQueryFile tag owner keyword idx \<Rightarrow>
          (let store = attr_store k;
               names = (if idx then query_indexed store tag owner keyword else query_full_scan store tag owner keyword)
           in ok_body (pc_file_list pc (map (file_info_of store) names)))
      | _ \<Rightarrow> empty_body StBadParams)"

section \<open>Dispatch\<close>

definition dispatch :: "'e postcard \<Rightarrow> usize \<Rightarrow> tool_request \<Rightarrow> kernel \<Rightarrow> (dispatch_result agent_result \<times> kernel) option" where
  "dispatch pc now req k =
     (case tool req of
        SystemStatus \<Rightarrow> map_option (\<lambda>r. (r, k)) (system_status pc now req k)
      | QueryProcess \<Rightarrow> map_option (\<lambda>r. (r, k)) (query_process pc req k)
      | ReadContext \<Rightarrow> map_option (\<lambda>r. (r, k)) (read_context pc req k)
      | SendMessage \<Rightarrow> send_message req k
      | QueryFile \<Rightarrow> Some (query_file pc req k, k))"

fun tool_doc :: "tool_name \<Rightarrow> rstring" where
  "tool_doc SystemStatus = str ''Returns overall system status (proc count, memory, uptime).''"
| "tool_doc QueryProcess = str ''Filter processes by status / agent type.''"
| "tool_doc ReadContext = str ''Read structured info about a process / file / agent by id.''"
| "tool_doc SendMessage = str ''Send an opaque byte payload to another process (task-5).''"
| "tool_doc QueryFile = str ''Query files by tag / owner / keyword (task-4).''"

definition tool_list :: "'e postcard \<Rightarrow> u8 list" where
  "tool_list pc =
     (case pc_tool_list pc (map (\<lambda>t. \<lparr>td_name = tool_as_str t, td_doc = tool_doc t\<rparr>) ToolName_ALL) of
        Inr bs \<Rightarrow> bs | Inl e \<Rightarrow> [])"

end
