(* ===== verification/Syscall_Agent.thy ===== *)
theory Syscall_Agent
  imports Tools
begin

text \<open>
  The agent system calls (\<open>os/src/syscall/agent.rs\<close>).  A call returns its value and the new
  kernel state, or leaves the processor; \<open>None\<close> is a call that does not return (a panic, or a
  byte-buffer translation that loops).  Clock readings are arguments, in the order the code takes
  them.
\<close>

unbundle bit_operations_syntax

datatype sys_result = Ret isize kernel | Switch kernel | Halt bool

section \<open>Creation and information\<close>

definition put_user :: "usize \<Rightarrow> usize \<Rightarrow> u8 list \<Rightarrow> kernel \<Rightarrow> kernel option" where
  "put_user token va bs k = map_option (\<lambda>m. set_mem m k) (write_user_bytes token va bs (user_mem k))"

definition get_user :: "usize \<Rightarrow> usize \<Rightarrow> usize \<Rightarrow> kernel \<Rightarrow> u8 list option" where
  "get_user token va n k = read_user_bytes token va (replicate (unat n) 0) (user_mem k)"

text \<open>\<open>pad\<close>: the padding bytes of the header structure.\<close>

definition sys_agent_create :: "u8 list \<Rightarrow> usize \<Rightarrow> kernel \<Rightarrow> (isize \<times> kernel) option" where
  "sys_agent_create pad cfg_ptr k =
     Option.bind (current_tcb k) (\<lambda>(p, t).
     if agent_ext_of t \<noteq> None then Some (0, k)
     else Option.bind (context_area_allocate CONTEXT_AREA_DEFAULT_SIZE (memory_set_of t, k_machine k)) (\<lambda>(area, ms, mc).
     Option.bind (init_header pad area (ms_token ms) (mem mc)) (\<lambda>m.
     Some (0, update_tcb p (\<lambda>t. t\<lparr>memory_set_of := ms,
               agent_ext_of := Some (agent_ext_new Normal (area_base area) (area_bytes area) 128 (16 * 1024))\<rparr>)
               (k\<lparr>k_machine := mc\<lparr>mem := m\<rparr>\<rparr>)))))"

fun type_code :: "agent_kind \<Rightarrow> u32" where
  "type_code Normal = 1"
| "type_code System = 2"

fun loop_code :: "loop_state \<Rightarrow> u32" where
  "loop_code Idle = 0"
| "loop_code Thinking = 1"
| "loop_code Calling = 2"
| "loop_code Observing = 3"
| "loop_code Done = 4"

definition info_bytes :: "agent_ext \<Rightarrow> u8 list" where
  "info_bytes ext =
     to_le_bytes (type_code (agent_type ext)) @ to_le_bytes (ucast (context_area_size ext) :: u32) @
     to_le_bytes (word_of_nat (length (path_meta ext)) :: u32) @ to_le_bytes (loop_code (ext_loop_state ext))"

definition sys_agent_info :: "usize \<Rightarrow> usize \<Rightarrow> usize \<Rightarrow> kernel \<Rightarrow> (isize \<times> kernel) option" where
  "sys_agent_info pid info_ptr info_len k =
     Option.bind (current_tcb k) (\<lambda>(p, t).
     case agent_ext_of t of
       None \<Rightarrow> Some (-4, k)
     | Some ext \<Rightarrow>
         Option.bind (translated_byte_buffer (user_mem k) (get_user_token t) info_ptr (min info_len 16)) (\<lambda>chunks.
         Some (int (min (user_buffer_len chunks) 16), set_mem (write_slices chunks (info_bytes ext) (user_mem k)) k)))"

section \<open>Tool calls\<close>

fun status_code :: "tool_status \<Rightarrow> isize" where
  "status_code StOk = 0"
| "status_code StToolNotFound = 100"
| "status_code StBadParams = 101"
| "status_code StPermissionDenied = 102"
| "status_code StQuotaExceeded = 103"
| "status_code StInternalError = 104"
| "status_code StNotImplemented = 105"

definition set_loop_state :: "usize \<Rightarrow> loop_state \<Rightarrow> kernel \<Rightarrow> kernel" where
  "set_loop_state p st k = update_ext p (\<lambda>e. e\<lparr>ext_loop_state := st\<rparr>) k"

definition put_out :: "usize \<Rightarrow> usize \<Rightarrow> u32 \<Rightarrow> kernel \<Rightarrow> kernel option" where
  "put_out token ptr v k = (if ptr \<noteq> 0 then put_user token ptr (to_le_bytes v) k else Some k)"

text \<open>Steps 5 and 6: the result bytes, the two output words, and the state machine.\<close>

definition tool_call_finish :: "usize \<Rightarrow> usize \<Rightarrow> usize \<Rightarrow> usize \<Rightarrow> usize \<Rightarrow> dispatch_result \<Rightarrow> kernel \<Rightarrow> (isize \<times> kernel) option" where
  "tool_call_finish p token area_addr out_offset_ptr out_len_ptr dr k =
     (if dr_status dr = StOk \<and> dr_body dr \<noteq> [] \<and> unat TOOL_RESULT_LEN < length (dr_body dr) then Some (-5, k)
      else
      Option.bind (if dr_status dr = StOk \<and> dr_body dr \<noteq> []
                   then map_option (\<lambda>k. (ucast TOOL_RESULT_OFF :: u32, word_of_nat (length (dr_body dr)) :: u32, k))
                          (put_user token (area_addr + TOOL_RESULT_OFF) (dr_body dr) k)
                   else Some (0, 0, k)) (\<lambda>(off, len, k).
      Option.bind (put_out token out_offset_ptr off k) (\<lambda>k.
      Option.bind (put_out token out_len_ptr len k) (\<lambda>k.
      Some (status_code (dr_status dr), set_loop_state p Observing k)))))"

definition sys_tool_call :: "'e postcard \<Rightarrow> usize \<Rightarrow> usize \<Rightarrow> usize \<Rightarrow> usize \<Rightarrow> usize \<Rightarrow> kernel \<Rightarrow> (isize \<times> kernel) option" where
  "sys_tool_call pc now req_ptr req_len out_offset_ptr out_len_ptr k =
     (if req_ptr = 0 \<or> req_len = 0 \<or> 64 * 1024 < req_len then Some (-1, k)
      else Option.bind (current_tcb k) (\<lambda>(p, t).
      case agent_ext_of t of
        None \<Rightarrow> Some (-4, k)
      | Some ext \<Rightarrow>
          let token = get_user_token t; k = set_loop_state p Calling k in
          Option.bind (get_user token req_ptr req_len k) (\<lambda>req_buf.
          case decode_request pc req_buf of
            Inl e \<Rightarrow> Some (-3, k)
          | Inr req \<Rightarrow>
              Option.bind (dispatch pc now req k) (\<lambda>(r, k).
              case r of
                Inl e \<Rightarrow> Some (into_isize e, k)
              | Inr dr \<Rightarrow> tool_call_finish p token (context_area_base ext) out_offset_ptr out_len_ptr dr k))))"

definition sys_tool_list :: "'e postcard \<Rightarrow> usize \<Rightarrow> usize \<Rightarrow> kernel \<Rightarrow> (isize \<times> kernel) option" where
  "sys_tool_list pc buf_ptr buf_len k =
     (if buf_ptr = 0 then Some (-1, k)
      else let body = tool_list pc in
      if unat buf_len < length body then Some (-2, k)
      else Option.bind (current_tcb k) (\<lambda>(p, t).
           map_option (\<lambda>k. (int (length body), k)) (put_user (get_user_token t) buf_ptr body k)))"

section \<open>Context path\<close>

text \<open>\<open>copy_from_user\<close> of an optional buffer: a null pointer leaves zeros.\<close>

definition get_summary :: "usize \<Rightarrow> usize \<Rightarrow> usize \<Rightarrow> kernel \<Rightarrow> u8 list option" where
  "get_summary token ptr n k =
     (if 0 < n \<and> ptr \<noteq> 0 then get_user token ptr n k else Some (replicate (unat n) 0))"

definition set_path_state :: "usize \<Rightarrow> path_state \<Rightarrow> kernel \<Rightarrow> kernel" where
  "set_path_state p s k = set_mem (snd s) (update_tcb p (\<lambda>t. t\<lparr>agent_ext_of := Some (fst s)\<rparr>) k)"

definition sys_context_push :: "u64 \<Rightarrow> usize \<Rightarrow> usize \<Rightarrow> usize \<Rightarrow> usize \<Rightarrow> kernel \<Rightarrow> (isize \<times> kernel) option" where
  "sys_context_push now req_ptr req_len resp_ptr resp_len k =
     (if 4096 < req_len \<or> 4096 < resp_len then Some (-2, k)
      else Option.bind (current_tcb k) (\<lambda>(p, t).
      let token = get_user_token t in
      Option.bind (get_summary token req_ptr req_len k) (\<lambda>req_buf.
      Option.bind (get_summary token resp_ptr resp_len k) (\<lambda>resp_buf.
      case agent_ext_of t of
        None \<Rightarrow> Some (-4, k)
      | Some ext \<Rightarrow>
          map_option (\<lambda>(r, s). (case r of Inr idx \<Rightarrow> int idx | Inl e \<Rightarrow> into_isize e, set_path_state p s k))
            (push_node now token req_buf resp_buf (ext, user_mem k))))))"

definition sys_context_query :: "'e postcard \<Rightarrow> usize \<Rightarrow> usize \<Rightarrow> usize \<Rightarrow> usize \<Rightarrow> kernel \<Rightarrow> (isize \<times> kernel) option" where
  "sys_context_query pc start cnt out_offset_ptr out_len_ptr k =
     Option.bind (current_tcb k) (\<lambda>(p, t).
     let token = get_user_token t in
     case agent_ext_of t of
       None \<Rightarrow> Some (-4, k)
     | Some ext \<Rightarrow>
         (case serialize_meta pc ext of
            Inl e \<Rightarrow> Some (into_isize e, k)
          | Inr body \<Rightarrow>
              if unat TOOL_RESULT_LEN < length body then Some (-5, k)
              else Option.bind (put_user token (context_area_base ext + TOOL_RESULT_OFF) body k) (\<lambda>k.
              Option.bind (put_out token out_offset_ptr (ucast TOOL_RESULT_OFF) k) (\<lambda>k.
              map_option (\<lambda>k. (0, k)) (put_out token out_len_ptr (word_of_nat (length body)) k)))))"

definition sys_context_rollback :: "usize \<Rightarrow> kernel \<Rightarrow> (isize \<times> kernel) option" where
  "sys_context_rollback node_count k =
     Option.bind (current_tcb k) (\<lambda>(p, t).
     case agent_ext_of t of
       None \<Rightarrow> Some (-4, k)
     | Some ext \<Rightarrow>
         map_option (\<lambda>(r, s). (case r of Inr _ \<Rightarrow> 0 | Inl e \<Rightarrow> into_isize e, set_path_state p s k))
           (path_rollback (get_user_token t) (unat node_count) (ext, user_mem k)))"

definition sys_context_clear :: "kernel \<Rightarrow> (isize \<times> kernel) option" where
  "sys_context_clear k =
     Option.bind (current_tcb k) (\<lambda>(p, t).
     case agent_ext_of t of
       None \<Rightarrow> Some (-4, k)
     | Some ext \<Rightarrow> map_option (\<lambda>s. (0, set_path_state p s k)) (path_clear (get_user_token t) (ext, user_mem k)))"

section \<open>Loop state, priority, heartbeat, watches\<close>

text \<open>The calls that only change the extension record of the caller.\<close>

definition with_ext :: "(agent_ext \<Rightarrow> agent_ext) \<Rightarrow> kernel \<Rightarrow> (isize \<times> kernel) option" where
  "with_ext f k =
     Option.bind (current_tcb k) (\<lambda>(p, t).
     case agent_ext_of t of None \<Rightarrow> Some (-4, k) | Some ext \<Rightarrow> Some (0, update_ext p f k))"

definition decode_loop_state :: "u32 \<Rightarrow> loop_state option" where
  "decode_loop_state c =
     (if c = 0 then Some Idle else if c = 1 then Some Thinking else if c = 2 then Some Calling
      else if c = 3 then Some Observing else if c = 4 then Some Done else None)"

definition sys_agent_set_loop_state :: "u32 \<Rightarrow> kernel \<Rightarrow> (isize \<times> kernel) option" where
  "sys_agent_set_loop_state state_code k =
     (case decode_loop_state state_code of
        None \<Rightarrow> Some (-1, k)
      | Some st \<Rightarrow> with_ext (\<lambda>e. e\<lparr>ext_loop_state := st\<rparr>) k)"

definition sys_agent_set_priority :: "usize \<Rightarrow> kernel \<Rightarrow> (isize \<times> kernel) option" where
  "sys_agent_set_priority prio k =
     (let p = min prio MAX_PRIORITY in
      Option.bind (current_tcb k) (\<lambda>(pid, t). Some (sint p, update_tcb pid (\<lambda>t. t\<lparr>priority := p\<rparr>) k)))"

definition sys_agent_heartbeat_set :: "u64 \<Rightarrow> usize \<Rightarrow> kernel \<Rightarrow> (isize \<times> kernel) option" where
  "sys_agent_heartbeat_set now_ms interval_ms =
     with_ext (\<lambda>e. e\<lparr>heartbeat_interval_ms := interval_ms, heartbeat_last_ms := now_ms, heartbeat_pending := False\<rparr>)"

definition sys_agent_heartbeat_stop :: "kernel \<Rightarrow> (isize \<times> kernel) option" where
  "sys_agent_heartbeat_stop = with_ext (\<lambda>e. e\<lparr>heartbeat_interval_ms := 0, heartbeat_pending := False\<rparr>)"

definition sys_agent_watch :: "u32 \<Rightarrow> usize \<Rightarrow> usize \<Rightarrow> kernel \<Rightarrow> (isize \<times> kernel) option" where
  "sys_agent_watch event_mask filter_ptr filter_len =
     with_ext (\<lambda>e. e\<lparr>watched_events := watched_events e OR event_mask\<rparr>)"

definition sys_agent_unwatch :: "usize \<Rightarrow> kernel \<Rightarrow> (isize \<times> kernel) option" where
  "sys_agent_unwatch event_mask =
     with_ext (\<lambda>e. e\<lparr>watched_events := watched_events e AND NOT (ucast event_mask)\<rparr>)"

section \<open>Waiting\<close>

definition pending_events :: "agent_ext \<Rightarrow> u32" where
  "pending_events ext =
     (if heartbeat_pending ext then EVENT_HEARTBEAT else 0) OR
     (if mailbox ext \<noteq> [] then EVENT_MESSAGE else 0) OR
     (if file_event_pending ext then EVENT_FILE_MODIFIED else 0)"

definition event_mask_of :: "agent_ext \<Rightarrow> u32" where
  "event_mask_of ext = (if watched_events ext = 0 then EVENT_HEARTBEAT OR EVENT_MESSAGE else watched_events ext)"

definition consume_events :: "u32 \<Rightarrow> agent_ext \<Rightarrow> agent_ext" where
  "consume_events triggered ext =
     ext\<lparr>heartbeat_pending := heartbeat_pending ext \<and> triggered AND EVENT_HEARTBEAT = 0,
         file_event_pending := file_event_pending ext \<and> triggered AND EVENT_FILE_MODIFIED = 0\<rparr>"

text \<open>One round of the loop; \<open>now\<close> is the reading of the timeout check.\<close>

definition wait_round :: "int \<Rightarrow> int \<Rightarrow> u64 option \<Rightarrow> int \<Rightarrow> kernel \<Rightarrow> sys_result option" where
  "wait_round timeout_ms start_ms deadline now k =
     Option.bind (current_tcb k) (\<lambda>(p, t).
     case agent_ext_of t of
       None \<Rightarrow> Some (Ret (-4) k)
     | Some ext \<Rightarrow>
         let triggered = pending_events ext AND event_mask_of ext;
             k = update_ext p (consume_events triggered) k in
         if triggered \<noteq> 0 then Some (Ret (uint triggered) (set_loop_state p Idle k))
         else if 0 \<le> timeout_ms \<and> timeout_ms \<le> now - start_ms then Some (Ret 0 (set_loop_state p Idle k))
         else map_option Switch (block_current_agent deadline (In_Wait timeout_ms start_ms deadline) k))"

text \<open>The entry: \<open>start_ms\<close>, the deadline and the first round each read the clock.  The sum of the
  second reading and the timeout is an \<open>i64\<close>.\<close>

definition sys_agent_wait :: "int \<Rightarrow> int \<Rightarrow> int \<Rightarrow> int \<Rightarrow> kernel \<Rightarrow> sys_result option" where
  "sys_agent_wait timeout_ms start_ms t2 now k =
     Option.bind (current_tcb k) (\<lambda>(p, t).
     let k = set_loop_state p Thinking k;
         deadline = (if timeout_ms < 0 then None else Some (word_of_int (max (sint (word_of_int (t2 + timeout_ms) :: u64)) 0)))
     in wait_round timeout_ms start_ms deadline now k)"

section \<open>File attributes and mailbox\<close>

definition sys_file_attr_set :: "usize \<Rightarrow> usize \<Rightarrow> usize \<Rightarrow> usize \<Rightarrow> kernel \<Rightarrow> (isize \<times> kernel) option" where
  "sys_file_attr_set name_ptr name_len tag_ptr tag_len k =
     (if name_ptr = 0 \<or> name_len = 0 \<or> 256 < name_len \<or> 256 < tag_len then Some (-1, k)
      else Option.bind (current_user_token k) (\<lambda>token.
      Option.bind (get_user token name_ptr name_len k) (\<lambda>name_buf.
      Option.bind (get_summary token tag_ptr tag_len k) (\<lambda>tag_buf.
      case from_utf8 name_buf of
        None \<Rightarrow> Some (-7, k)
      | Some name \<Rightarrow>
          (case from_utf8 tag_buf of
             None \<Rightarrow> Some (-7, k)
           | Some tag \<Rightarrow>
               map_option (\<lambda>k. (0, k)) (broadcast_file_event (k\<lparr>attr_store := add_tag (attr_store k) name tag\<rparr>)))))))"

definition attr_del_finish :: "file_attr_store \<times> bool \<Rightarrow> kernel \<Rightarrow> (isize \<times> kernel) option" where
  "attr_del_finish r k =
     (let k = k\<lparr>attr_store := fst r\<rparr> in
      if snd r then map_option (\<lambda>k. (1, k)) (broadcast_file_event k) else Some (0, k))"

definition sys_file_attr_del :: "usize \<Rightarrow> usize \<Rightarrow> usize \<Rightarrow> usize \<Rightarrow> kernel \<Rightarrow> (isize \<times> kernel) option" where
  "sys_file_attr_del name_ptr name_len tag_ptr tag_len k =
     (if name_ptr = 0 \<or> name_len = 0 \<or> 256 < name_len \<or> 256 < tag_len then Some (-1, k)
      else Option.bind (current_user_token k) (\<lambda>token.
      Option.bind (get_user token name_ptr name_len k) (\<lambda>name_buf.
      case from_utf8 name_buf of
        None \<Rightarrow> Some (-7, k)
      | Some name \<Rightarrow>
          if tag_len = 0 then attr_del_finish (remove_file (attr_store k) name) k
          else Option.bind (get_user token tag_ptr tag_len k) (\<lambda>tag_buf.
               case from_utf8 tag_buf of
                 None \<Rightarrow> Some (-7, k)
               | Some tag \<Rightarrow> attr_del_finish (remove_tag (attr_store k) name tag) k))))"

definition sys_file_attr_bench :: "usize \<Rightarrow> usize \<Rightarrow> usize \<Rightarrow> usize \<Rightarrow> usize \<Rightarrow> isize" where
  "sys_file_attr_bench start stop n iters use_idx = sint (fst (run_benchmark start stop (unat n) (unat iters) (use_idx \<noteq> 0)))"

definition sys_mailbox_recv :: "usize \<Rightarrow> usize \<Rightarrow> kernel \<Rightarrow> (isize \<times> kernel) option" where
  "sys_mailbox_recv buf_ptr buf_len k =
     (if buf_ptr = 0 then Some (-1, k)
      else Option.bind (current_tcb k) (\<lambda>(p, t).
      case agent_ext_of t of
        None \<Rightarrow> Some (-4, k)
      | Some ext \<Rightarrow>
          (case mailbox ext of
             [] \<Rightarrow> Some (-6, k)
           | msg # rest \<Rightarrow>
               let n = min (unat buf_len) (length msg) in
               map_option (\<lambda>k. (int n, k))
                 (put_user (get_user_token t) buf_ptr (take n msg) (update_ext p (\<lambda>e. e\<lparr>mailbox := rest\<rparr>) k)))))"

end
