(* ===== verification/Syscall.thy ===== *)
theory Syscall
  imports Syscall_Agent
begin

text \<open>
  Process and file system calls (\<open>os/src/syscall/process.rs\<close>, \<open>os/src/syscall/fs.rs\<close>), the
  timer (\<open>os/src/timer.rs\<close>) and the dispatcher (\<open>os/src/syscall/mod.rs\<close>).  The \<open>time\<close> register
  is read several times in a call: reading \<open>i\<close> is \<open>in_time inp i\<close>.
\<close>

section \<open>Timer\<close>

definition TICKS_PER_SEC :: usize where "TICKS_PER_SEC = 100"
definition MSEC_PER_SEC :: usize where "MSEC_PER_SEC = 1000"

definition get_time_ms :: "usize \<Rightarrow> usize" where
  "get_time_ms time = time div (CLOCK_FREQ div MSEC_PER_SEC)"

definition next_trigger :: "usize \<Rightarrow> usize" where
  "next_trigger time = time + CLOCK_FREQ div TICKS_PER_SEC"

text \<open>What a call finds outside the kernel: the \<open>time\<close> register, the console, and the value of the
  padding bytes of a header structure.\<close>

record inputs =
  in_time :: "nat \<Rightarrow> usize"
  in_getchar :: usize
  in_pad :: "u8 list"

definition time_ms :: "inputs \<Rightarrow> nat \<Rightarrow> usize" where
  "time_ms inp i = get_time_ms (in_time inp i)"

section \<open>Processes\<close>

definition sys_exit :: "u32 \<Rightarrow> kernel \<Rightarrow> sys_result option" where
  "sys_exit code k =
     map_option (\<lambda>r. case r of Shutdown failure \<Rightarrow> Halt failure | Exited k \<Rightarrow> Switch k) (exit_current code k)"

definition sys_yield :: "kernel \<Rightarrow> sys_result option" where
  "sys_yield k = map_option Switch (suspend_current In_Yield k)"

definition sys_get_time :: "usize \<Rightarrow> kernel \<Rightarrow> isize \<times> kernel" where
  "sys_get_time ms k = (sint ms, k)"

definition sys_getpid :: "kernel \<Rightarrow> (isize \<times> kernel) option" where
  "sys_getpid k = map_option (\<lambda>p. (sint p, k)) (current k)"

definition sys_fork :: "kernel_env \<Rightarrow> kernel \<Rightarrow> (isize \<times> kernel) option" where
  "sys_fork env k =
     Option.bind (current k) (\<lambda>cur.
     Option.bind (tcb_fork env cur k) (\<lambda>(new_pid, k).
     Option.bind (tcbs k new_pid) (\<lambda>new_task.
     let k = set_mem (store_u64 (user_mem k) (trap_cx_word (trap_cx_ppn new_task) 10) 0) k in
     Some (sint new_pid, add_task new_pid k))))"

definition sys_exec :: "kernel_env \<Rightarrow> usize \<Rightarrow> kernel \<Rightarrow> (isize \<times> kernel) option" where
  "sys_exec env path k =
     Option.bind (current_user_token k) (\<lambda>token.
     Option.bind (translated_str (user_mem k) token path) (\<lambda>path.
     Option.bind (open_file path O_RDONLY (k_fs k)) (\<lambda>(app_inode, st).
     let k = k\<lparr>k_fs := st\<rparr> in
     case app_inode of
       Some i \<Rightarrow>
         Option.bind (os_inode_read_all i (k_fs k)) (\<lambda>(all_data, st).
         Option.bind (current k) (\<lambda>task.
         map_option (\<lambda>k. (0, k)) (tcb_exec env task all_data (k\<lparr>k_fs := st\<rparr>))))
     | None \<Rightarrow> Some (-1, k))))"

text \<open>The references that other parts of the kernel hold to a control block.  Pids in use are
  below the next fresh one.\<close>

definition child_refs :: "usize \<Rightarrow> kernel \<Rightarrow> nat" where
  "child_refs p k =
     sum_list (map (\<lambda>q. case tcbs k (word_of_nat q) of Some t \<Rightarrow> count_list (children t) p | None \<Rightarrow> 0)
                 [0..<unat (pa_current (pids k))])"

definition strong_refs :: "usize \<Rightarrow> kernel \<Rightarrow> nat" where
  "strong_refs p k =
     count_list (ready_queue k) p + count_list (map fst (blocked_agents k)) p +
     (if current k = Some p then 1 else 0) + (if initproc k = p then 1 else 0) + child_refs p k"

definition waits_for :: "isize \<Rightarrow> usize \<Rightarrow> bool" where
  "waits_for pid p \<longleftrightarrow> pid = -1 \<or> word_of_int pid = p"

definition zombie_pid :: "kernel \<Rightarrow> usize \<Rightarrow> bool" where
  "zombie_pid k p = (case tcbs k p of Some t \<Rightarrow> is_zombie t | None \<Rightarrow> False)"

text \<open>The local variable \<open>child\<close> holds the one reference that the assertion allows.\<close>

definition reap_child :: "usize \<Rightarrow> nat \<Rightarrow> usize \<Rightarrow> kernel \<Rightarrow> (isize \<times> kernel) option" where
  "reap_child p idx exit_code_ptr k =
     Option.bind (tcbs k p) (\<lambda>t.
     let child = children t ! idx;
         k = update_tcb p (\<lambda>t. t\<lparr>children := vec_remove idx (children t)\<rparr>) k in
     if 1 + strong_refs child k \<noteq> 1 then None
     else Option.bind (tcbs k child) (\<lambda>c.
          Option.bind (translated_refmut (user_mem k) (get_user_token t) exit_code_ptr) (\<lambda>pa.
          let k = set_mem (store_bytes (user_mem k) pa (to_le_bytes (exit_code c))) k in
          map_option (\<lambda>k. (sint child, k)) (tcb_drop child k))))"

definition sys_waitpid :: "isize \<Rightarrow> usize \<Rightarrow> kernel \<Rightarrow> (isize \<times> kernel) option" where
  "sys_waitpid pid exit_code_ptr k =
     Option.bind (current_tcb k) (\<lambda>(p, t).
     if \<not> list_ex (waits_for pid) (children t) then Some (-1, k)
     else (case position (\<lambda>c. zombie_pid k c \<and> waits_for pid c) (children t) of
             Some idx \<Rightarrow> reap_child p idx exit_code_ptr k
           | None \<Rightarrow> Some (-2, k)))"

section \<open>Files\<close>

definition fd_file :: "task_control_block \<Rightarrow> usize \<Rightarrow> file_ref option" where
  "fd_file t fd = (if unat fd < length (fd_table t) then fd_table t ! unat fd else None)"

fun file_write :: "file_ref \<Rightarrow> slices \<Rightarrow> kernel \<Rightarrow> (isize \<times> kernel) option" where
  "file_write Stdin sl k = None"
| "file_write Stdout sl k =
     map_option (\<lambda>(n, out). (int n, k\<lparr>console_out := console_out k @ out\<rparr>)) (stdout_write sl (user_mem k))"
| "file_write (OSInode i) sl k =
     map_option (\<lambda>(n, st). (int n, k\<lparr>k_fs := st\<rparr>)) (os_inode_write i sl (k_fs k, user_mem k))"

definition sys_write :: "usize \<Rightarrow> usize \<Rightarrow> usize \<Rightarrow> kernel \<Rightarrow> (isize \<times> kernel) option" where
  "sys_write fd buf len k =
     Option.bind (current_tcb k) (\<lambda>(p, t).
     case fd_file t fd of
       None \<Rightarrow> Some (-1, k)
     | Some file \<Rightarrow>
         if \<not> file_writable (k_fs k) file then Some (-1, k)
         else Option.bind (translated_byte_buffer (user_mem k) (get_user_token t) buf len) (\<lambda>sl. file_write file sl k))"

text \<open>One turn of the loop in \<open>Stdin::read\<close>: with no character the task gives up the processor and
  polls again when it next runs.\<close>

definition getchar_round :: "usize \<Rightarrow> phys_addr \<Rightarrow> kernel \<Rightarrow> sys_result option" where
  "getchar_round c a k =
     (case stdin_poll c a (user_mem k) of
        None \<Rightarrow> map_option Switch (suspend_current (In_Getchar a) k)
      | Some (n, m) \<Rightarrow> Some (Ret (int n) (set_mem m k)))"

fun file_read :: "usize \<Rightarrow> file_ref \<Rightarrow> slices \<Rightarrow> kernel \<Rightarrow> sys_result option" where
  "file_read c Stdin sl k = Option.bind (stdin_start sl) (\<lambda>a. getchar_round c a k)"
| "file_read c Stdout sl k = None"
| "file_read c (OSInode i) sl k =
     map_option (\<lambda>(n, st, m). Ret (int n) (set_mem m (k\<lparr>k_fs := st\<rparr>))) (os_inode_read i sl (k_fs k, user_mem k))"

definition sys_read :: "usize \<Rightarrow> usize \<Rightarrow> usize \<Rightarrow> usize \<Rightarrow> kernel \<Rightarrow> sys_result option" where
  "sys_read c fd buf len k =
     Option.bind (current_tcb k) (\<lambda>(p, t).
     case fd_file t fd of
       None \<Rightarrow> Some (Ret (-1) k)
     | Some file \<Rightarrow>
         if \<not> file_readable (k_fs k) file then Some (Ret (-1) k)
         else Option.bind (translated_byte_buffer (user_mem k) (get_user_token t) buf len) (\<lambda>sl. file_read c file sl k))"

definition sys_open :: "usize \<Rightarrow> u32 \<Rightarrow> kernel \<Rightarrow> (isize \<times> kernel) option" where
  "sys_open path fl k =
     Option.bind (current_tcb k) (\<lambda>(p, t).
     Option.bind (translated_str (user_mem k) (get_user_token t) path) (\<lambda>path.
     Option.bind (flags_from_bits fl) (\<lambda>fl.
     Option.bind (open_file path fl (k_fs k)) (\<lambda>(r, st).
     let k = k\<lparr>k_fs := st\<rparr> in
     case r of
       Some i \<Rightarrow>
         let (fd, t) = alloc_fd t; files = (fd_table t)[fd := Some (OSInode i)] in
         Some (int fd, update_tcb p (\<lambda>t. t\<lparr>fd_table := files\<rparr>) k)
     | None \<Rightarrow> Some (-1, k)))))"

definition sys_close :: "usize \<Rightarrow> kernel \<Rightarrow> (isize \<times> kernel) option" where
  "sys_close fd k =
     Option.bind (current_tcb k) (\<lambda>(p, t).
     if \<not> unat fd < length (fd_table t) then Some (-1, k)
     else if fd_table t ! unat fd = None then Some (-1, k)
     else Some (0, update_tcb p (\<lambda>t. t\<lparr>fd_table := (fd_table t)[unat fd := None]\<rparr>) k))"

section \<open>Dispatch\<close>

definition ret :: "(isize \<times> kernel) option \<Rightarrow> sys_result option" where
  "ret r = map_option (\<lambda>(v, k). Ret v k) r"

definition SYSCALL_OPEN :: usize where "SYSCALL_OPEN = 56"
definition SYSCALL_CLOSE :: usize where "SYSCALL_CLOSE = 57"
definition SYSCALL_READ :: usize where "SYSCALL_READ = 63"
definition SYSCALL_WRITE :: usize where "SYSCALL_WRITE = 64"
definition SYSCALL_EXIT :: usize where "SYSCALL_EXIT = 93"
definition SYSCALL_YIELD :: usize where "SYSCALL_YIELD = 124"
definition SYSCALL_GET_TIME :: usize where "SYSCALL_GET_TIME = 169"
definition SYSCALL_GETPID :: usize where "SYSCALL_GETPID = 172"
definition SYSCALL_FORK :: usize where "SYSCALL_FORK = 220"
definition SYSCALL_EXEC :: usize where "SYSCALL_EXEC = 221"
definition SYSCALL_WAITPID :: usize where "SYSCALL_WAITPID = 260"
definition SYSCALL_AGENT_CREATE :: usize where "SYSCALL_AGENT_CREATE = 500"
definition SYSCALL_AGENT_INFO :: usize where "SYSCALL_AGENT_INFO = 501"
definition SYSCALL_TOOL_CALL :: usize where "SYSCALL_TOOL_CALL = 510"
definition SYSCALL_TOOL_LIST :: usize where "SYSCALL_TOOL_LIST = 511"
definition SYSCALL_CONTEXT_PUSH :: usize where "SYSCALL_CONTEXT_PUSH = 520"
definition SYSCALL_CONTEXT_QUERY :: usize where "SYSCALL_CONTEXT_QUERY = 521"
definition SYSCALL_CONTEXT_ROLLBACK :: usize where "SYSCALL_CONTEXT_ROLLBACK = 522"
definition SYSCALL_CONTEXT_CLEAR :: usize where "SYSCALL_CONTEXT_CLEAR = 523"
definition SYSCALL_AGENT_HEARTBEAT_SET :: usize where "SYSCALL_AGENT_HEARTBEAT_SET = 530"
definition SYSCALL_AGENT_HEARTBEAT_STOP :: usize where "SYSCALL_AGENT_HEARTBEAT_STOP = 531"
definition SYSCALL_AGENT_WATCH :: usize where "SYSCALL_AGENT_WATCH = 532"
definition SYSCALL_AGENT_WAIT :: usize where "SYSCALL_AGENT_WAIT = 533"
definition SYSCALL_AGENT_UNWATCH :: usize where "SYSCALL_AGENT_UNWATCH = 534"
definition SYSCALL_MAILBOX_RECV :: usize where "SYSCALL_MAILBOX_RECV = 535"
definition SYSCALL_AGENT_SET_LOOP_STATE :: usize where "SYSCALL_AGENT_SET_LOOP_STATE = 536"
definition SYSCALL_FILE_ATTR_DEL :: usize where "SYSCALL_FILE_ATTR_DEL = 537"
definition SYSCALL_FILE_ATTR_SET :: usize where "SYSCALL_FILE_ATTR_SET = 538"
definition SYSCALL_AGENT_SET_PRIORITY :: usize where "SYSCALL_AGENT_SET_PRIORITY = 539"
definition SYSCALL_FILE_ATTR_BENCH :: usize where "SYSCALL_FILE_ATTR_BENCH = 540"

lemmas syscall_numbers =
  SYSCALL_OPEN_def SYSCALL_CLOSE_def SYSCALL_READ_def SYSCALL_WRITE_def SYSCALL_EXIT_def SYSCALL_YIELD_def
  SYSCALL_GET_TIME_def SYSCALL_GETPID_def SYSCALL_FORK_def SYSCALL_EXEC_def SYSCALL_WAITPID_def
  SYSCALL_AGENT_CREATE_def SYSCALL_AGENT_INFO_def SYSCALL_TOOL_CALL_def SYSCALL_TOOL_LIST_def
  SYSCALL_CONTEXT_PUSH_def SYSCALL_CONTEXT_QUERY_def SYSCALL_CONTEXT_ROLLBACK_def SYSCALL_CONTEXT_CLEAR_def
  SYSCALL_AGENT_HEARTBEAT_SET_def SYSCALL_AGENT_HEARTBEAT_STOP_def SYSCALL_AGENT_WATCH_def
  SYSCALL_AGENT_WAIT_def SYSCALL_AGENT_UNWATCH_def SYSCALL_MAILBOX_RECV_def SYSCALL_AGENT_SET_LOOP_STATE_def
  SYSCALL_FILE_ATTR_DEL_def SYSCALL_FILE_ATTR_SET_def SYSCALL_AGENT_SET_PRIORITY_def SYSCALL_FILE_ATTR_BENCH_def

text \<open>The calls of \<open>syscall/agent.rs\<close>, and before them the others; an unknown number panics.\<close>

definition syscall_agent :: "'e postcard \<Rightarrow> inputs \<Rightarrow> usize \<Rightarrow> usize list \<Rightarrow> kernel \<Rightarrow> sys_result option" where
  "syscall_agent pc inp i args k =
     (let a0 = args ! 0; a1 = args ! 1; a2 = args ! 2; a3 = args ! 3 in
      if i = SYSCALL_AGENT_CREATE then ret (sys_agent_create (in_pad inp) a0 k)
      else if i = SYSCALL_AGENT_INFO then ret (sys_agent_info a0 a1 a2 k)
      else if i = SYSCALL_TOOL_CALL then ret (sys_tool_call pc (in_time inp 0) a0 a1 a2 a3 k)
      else if i = SYSCALL_TOOL_LIST then ret (sys_tool_list pc a0 a1 k)
      else if i = SYSCALL_CONTEXT_PUSH then ret (sys_context_push (in_time inp 0) a0 a1 a2 a3 k)
      else if i = SYSCALL_CONTEXT_QUERY then ret (sys_context_query pc a0 a1 a2 a3 k)
      else if i = SYSCALL_CONTEXT_ROLLBACK then ret (sys_context_rollback a0 k)
      else if i = SYSCALL_CONTEXT_CLEAR then ret (sys_context_clear k)
      else if i = SYSCALL_AGENT_HEARTBEAT_SET then ret (sys_agent_heartbeat_set (time_ms inp 0) a0 k)
      else if i = SYSCALL_AGENT_HEARTBEAT_STOP then ret (sys_agent_heartbeat_stop k)
      else if i = SYSCALL_AGENT_WATCH then ret (sys_agent_watch (ucast a0) a1 a2 k)
      else if i = SYSCALL_AGENT_WAIT
           then sys_agent_wait (sint a0) (sint (time_ms inp 0)) (sint (time_ms inp 1)) (sint (time_ms inp 2)) k
      else if i = SYSCALL_AGENT_UNWATCH then ret (sys_agent_unwatch a0 k)
      else if i = SYSCALL_MAILBOX_RECV then ret (sys_mailbox_recv a0 a1 k)
      else if i = SYSCALL_AGENT_SET_LOOP_STATE then ret (sys_agent_set_loop_state (ucast a0) k)
      else if i = SYSCALL_FILE_ATTR_DEL then ret (sys_file_attr_del a0 a1 a2 a3 k)
      else if i = SYSCALL_FILE_ATTR_SET then ret (sys_file_attr_set a0 a1 a2 a3 k)
      else if i = SYSCALL_AGENT_SET_PRIORITY then ret (sys_agent_set_priority a0 k)
      else if i = SYSCALL_FILE_ATTR_BENCH
           then Some (Ret (sys_file_attr_bench (in_time inp 0) (in_time inp 1) a0 a1 a2) k)
      else None)"

definition syscall :: "kernel_env \<Rightarrow> 'e postcard \<Rightarrow> inputs \<Rightarrow> usize \<Rightarrow> usize list \<Rightarrow> kernel \<Rightarrow> sys_result option" where
  "syscall env pc inp i args k =
     (let a0 = args ! 0; a1 = args ! 1; a2 = args ! 2 in
      if i = SYSCALL_OPEN then ret (sys_open a0 (ucast a1) k)
      else if i = SYSCALL_CLOSE then ret (sys_close a0 k)
      else if i = SYSCALL_READ then sys_read (in_getchar inp) a0 a1 a2 k
      else if i = SYSCALL_WRITE then ret (sys_write a0 a1 a2 k)
      else if i = SYSCALL_EXIT then sys_exit (ucast a0) k
      else if i = SYSCALL_YIELD then sys_yield k
      else if i = SYSCALL_GET_TIME then ret (Some (sys_get_time (time_ms inp 0) k))
      else if i = SYSCALL_GETPID then ret (sys_getpid k)
      else if i = SYSCALL_FORK then ret (sys_fork env k)
      else if i = SYSCALL_EXEC then ret (sys_exec env a0 k)
      else if i = SYSCALL_WAITPID then ret (sys_waitpid (sint a0) a1 k)
      else syscall_agent pc inp i args k)"

end
