(* ===== verification/Trap.thy ===== *)
theory Trap
  imports Syscall
begin

text \<open>
  Traps from user mode (\<open>os/src/trap/mod.rs\<close>) and the two ways the kernel is entered: a trap of
  the running task, and a round of the idle loop that picks a task and continues it where it left
  the processor.
\<close>

section \<open>Trap context of the running task\<close>

definition current_trap_cx :: "kernel \<Rightarrow> phys_page_num option" where
  "current_trap_cx k = map_option (\<lambda>(p, t). trap_cx_ppn t) (current_tcb k)"

definition get_x :: "phys_page_num \<Rightarrow> nat \<Rightarrow> kernel \<Rightarrow> usize" where
  "get_x cx i k = load_u64 (user_mem k) (trap_cx_word cx i)"

definition set_x :: "phys_page_num \<Rightarrow> nat \<Rightarrow> usize \<Rightarrow> kernel \<Rightarrow> kernel" where
  "set_x cx i v k = set_mem (store_u64 (user_mem k) (trap_cx_word cx i) v) k"

section \<open>Traps\<close>

datatype trap_cause =
    UserEnvCall
  | StoreFault | StorePageFault | InstructionFault | InstructionPageFault | LoadFault | LoadPageFault
  | IllegalInstruction
  | SupervisorTimer
  | OtherTrap

text \<open>The end of a system call: its value goes to \<open>a0\<close> of the trap context the task has now.\<close>

definition finish_syscall :: "sys_result \<Rightarrow> sys_result option" where
  "finish_syscall r =
     (case r of
        Ret v k \<Rightarrow> map_option (\<lambda>cx. Ret v (set_x cx 10 (word_of_int v) k)) (current_trap_cx k)
      | _ \<Rightarrow> Some r)"

definition handle_env_call :: "kernel_env \<Rightarrow> 'e postcard \<Rightarrow> inputs \<Rightarrow> kernel \<Rightarrow> sys_result option" where
  "handle_env_call env pc inp k =
     Option.bind (current_trap_cx k) (\<lambda>cx.
     let k = set_x cx 33 (get_x cx 33 k + 4) k in
     Option.bind (syscall env pc inp (get_x cx 17 k) (map (\<lambda>i. get_x cx i k) [10, 11, 12, 13, 14, 15]) k)
       finish_syscall)"

definition handle_timer :: "inputs \<Rightarrow> kernel \<Rightarrow> sys_result option" where
  "handle_timer inp k =
     Option.bind (tick_all_agents (time_ms inp 1) k) (\<lambda>k.
     map_option Switch (suspend_current To_User (tick_wake_timeouts (time_ms inp 2) k)))"

definition trap_handler :: "kernel_env \<Rightarrow> 'e postcard \<Rightarrow> inputs \<Rightarrow> trap_cause \<Rightarrow> kernel \<Rightarrow> sys_result option" where
  "trap_handler env pc inp cause k =
     (case cause of
        UserEnvCall \<Rightarrow> handle_env_call env pc inp k
      | IllegalInstruction \<Rightarrow> sys_exit (- 3) k
      | SupervisorTimer \<Rightarrow> handle_timer inp k
      | OtherTrap \<Rightarrow> None
      | _ \<Rightarrow> sys_exit (- 2) k)"

section \<open>Continuing a task\<close>

definition continue_task :: "inputs \<Rightarrow> kernel \<Rightarrow> sys_result option" where
  "continue_task inp k =
     Option.bind (current_tcb k) (\<lambda>(p, t).
     case resume t of
       To_User \<Rightarrow> Some (Ret 0 k)
     | In_Yield \<Rightarrow> finish_syscall (Ret 0 k)
     | In_Wait timeout_ms start_ms deadline \<Rightarrow>
         Option.bind (wait_round timeout_ms start_ms deadline (sint (time_ms inp 0)) k) finish_syscall
     | In_Getchar a \<Rightarrow> Option.bind (getchar_round (in_getchar inp) a k) finish_syscall)"

text \<open>A round of the idle loop; \<open>Switch\<close> is a round after which no task runs.\<close>

definition idle_round :: "inputs \<Rightarrow> kernel \<Rightarrow> sys_result option" where
  "idle_round inp k =
     (let k = run_tasks_round k in if current k = None then Some (Switch k) else continue_task inp k)"

end
