(* ===== verification/User_Lib.thy ===== *)
theory User_Lib
  imports Trap
begin

text \<open>
  The user library (\<open>user/src/syscall.rs\<close>, \<open>user/src/lib.rs\<close>, \<open>user/src/console.rs\<close>).  A wrapper
  of \<open>syscall.rs\<close> is the request it leaves in the registers at \<open>ecall\<close>; the functions of \<open>lib.rs\<close> run
  on a user machine: \<open>ecall\<close>, and loads and stores of the memory of the process.  Values of type
  \<open>isize\<close> and \<open>i64\<close> that go into a register are words, and addresses of variables on the stack, which
  the compiler chooses, are arguments.
\<close>

unbundle bit_operations_syntax

section \<open>Requests\<close>

type_synonym ecall = "usize \<times> usize list"
type_synonym user_slice = "usize \<times> usize"

definition U_SYSCALL_OPEN :: usize where "U_SYSCALL_OPEN = 56"
definition U_SYSCALL_CLOSE :: usize where "U_SYSCALL_CLOSE = 57"
definition U_SYSCALL_READ :: usize where "U_SYSCALL_READ = 63"
definition U_SYSCALL_WRITE :: usize where "U_SYSCALL_WRITE = 64"
definition U_SYSCALL_EXIT :: usize where "U_SYSCALL_EXIT = 93"
definition U_SYSCALL_YIELD :: usize where "U_SYSCALL_YIELD = 124"
definition U_SYSCALL_GET_TIME :: usize where "U_SYSCALL_GET_TIME = 169"
definition U_SYSCALL_GETPID :: usize where "U_SYSCALL_GETPID = 172"
definition U_SYSCALL_FORK :: usize where "U_SYSCALL_FORK = 220"
definition U_SYSCALL_EXEC :: usize where "U_SYSCALL_EXEC = 221"
definition U_SYSCALL_WAITPID :: usize where "U_SYSCALL_WAITPID = 260"
definition U_SYSCALL_AGENT_CREATE :: usize where "U_SYSCALL_AGENT_CREATE = 500"
definition U_SYSCALL_AGENT_INFO :: usize where "U_SYSCALL_AGENT_INFO = 501"
definition U_SYSCALL_TOOL_CALL :: usize where "U_SYSCALL_TOOL_CALL = 510"
definition U_SYSCALL_TOOL_LIST :: usize where "U_SYSCALL_TOOL_LIST = 511"
definition U_SYSCALL_CONTEXT_PUSH :: usize where "U_SYSCALL_CONTEXT_PUSH = 520"
definition U_SYSCALL_CONTEXT_QUERY :: usize where "U_SYSCALL_CONTEXT_QUERY = 521"
definition U_SYSCALL_CONTEXT_ROLLBACK :: usize where "U_SYSCALL_CONTEXT_ROLLBACK = 522"
definition U_SYSCALL_CONTEXT_CLEAR :: usize where "U_SYSCALL_CONTEXT_CLEAR = 523"
definition U_SYSCALL_AGENT_HEARTBEAT_SET :: usize where "U_SYSCALL_AGENT_HEARTBEAT_SET = 530"
definition U_SYSCALL_AGENT_HEARTBEAT_STOP :: usize where "U_SYSCALL_AGENT_HEARTBEAT_STOP = 531"
definition U_SYSCALL_AGENT_WATCH :: usize where "U_SYSCALL_AGENT_WATCH = 532"
definition U_SYSCALL_AGENT_WAIT :: usize where "U_SYSCALL_AGENT_WAIT = 533"
definition U_SYSCALL_AGENT_UNWATCH :: usize where "U_SYSCALL_AGENT_UNWATCH = 534"
definition U_SYSCALL_MAILBOX_RECV :: usize where "U_SYSCALL_MAILBOX_RECV = 535"
definition U_SYSCALL_AGENT_SET_LOOP_STATE :: usize where "U_SYSCALL_AGENT_SET_LOOP_STATE = 536"
definition U_SYSCALL_FILE_ATTR_DEL :: usize where "U_SYSCALL_FILE_ATTR_DEL = 537"
definition U_SYSCALL_FILE_ATTR_SET :: usize where "U_SYSCALL_FILE_ATTR_SET = 538"
definition U_SYSCALL_AGENT_SET_PRIORITY :: usize where "U_SYSCALL_AGENT_SET_PRIORITY = 539"
definition U_SYSCALL_FILE_ATTR_BENCH :: usize where "U_SYSCALL_FILE_ATTR_BENCH = 540"

lemmas user_syscall_numbers =
  U_SYSCALL_OPEN_def  U_SYSCALL_CLOSE_def  U_SYSCALL_READ_def
  U_SYSCALL_WRITE_def  U_SYSCALL_EXIT_def  U_SYSCALL_YIELD_def
  U_SYSCALL_GET_TIME_def  U_SYSCALL_GETPID_def  U_SYSCALL_FORK_def
  U_SYSCALL_EXEC_def  U_SYSCALL_WAITPID_def  U_SYSCALL_AGENT_CREATE_def
  U_SYSCALL_AGENT_INFO_def  U_SYSCALL_TOOL_CALL_def  U_SYSCALL_TOOL_LIST_def
  U_SYSCALL_CONTEXT_PUSH_def  U_SYSCALL_CONTEXT_QUERY_def  U_SYSCALL_CONTEXT_ROLLBACK_def
  U_SYSCALL_CONTEXT_CLEAR_def  U_SYSCALL_AGENT_HEARTBEAT_SET_def  U_SYSCALL_AGENT_HEARTBEAT_STOP_def
  U_SYSCALL_AGENT_WATCH_def  U_SYSCALL_AGENT_WAIT_def  U_SYSCALL_AGENT_UNWATCH_def
  U_SYSCALL_MAILBOX_RECV_def  U_SYSCALL_AGENT_SET_LOOP_STATE_def  U_SYSCALL_FILE_ATTR_DEL_def
  U_SYSCALL_FILE_ATTR_SET_def  U_SYSCALL_AGENT_SET_PRIORITY_def  U_SYSCALL_FILE_ATTR_BENCH_def


text \<open>Three or four arguments; the other argument registers keep what they hold.\<close>

definition u_syscall :: "usize \<Rightarrow> usize list \<Rightarrow> ecall" where
  "u_syscall i args = (i, [args ! 0, args ! 1, args ! 2])"

definition u_syscall4 :: "usize \<Rightarrow> usize list \<Rightarrow> ecall" where
  "u_syscall4 i args = (i, [args ! 0, args ! 1, args ! 2, args ! 3])"

definition u_sys_open :: "user_slice \<Rightarrow> u32 \<Rightarrow> ecall" where
  "u_sys_open path flags = u_syscall U_SYSCALL_OPEN [fst path, ucast flags, 0]"

definition u_sys_close :: "usize \<Rightarrow> ecall" where
  "u_sys_close fd = u_syscall U_SYSCALL_CLOSE [fd, 0, 0]"

definition u_sys_read :: "usize \<Rightarrow> user_slice \<Rightarrow> ecall" where
  "u_sys_read fd buffer = u_syscall U_SYSCALL_READ [fd, fst buffer, snd buffer]"

definition u_sys_write :: "usize \<Rightarrow> user_slice \<Rightarrow> ecall" where
  "u_sys_write fd buffer = u_syscall U_SYSCALL_WRITE [fd, fst buffer, snd buffer]"

definition u_sys_exit :: "u32 \<Rightarrow> ecall" where
  "u_sys_exit code = u_syscall U_SYSCALL_EXIT [scast code, 0, 0]"

definition u_sys_yield :: "ecall" where
  "u_sys_yield = u_syscall U_SYSCALL_YIELD [0, 0, 0]"

definition u_sys_get_time :: "ecall" where
  "u_sys_get_time = u_syscall U_SYSCALL_GET_TIME [0, 0, 0]"

definition u_sys_getpid :: "ecall" where
  "u_sys_getpid = u_syscall U_SYSCALL_GETPID [0, 0, 0]"

definition u_sys_fork :: "ecall" where
  "u_sys_fork = u_syscall U_SYSCALL_FORK [0, 0, 0]"

definition u_sys_exec :: "user_slice \<Rightarrow> ecall" where
  "u_sys_exec path = u_syscall U_SYSCALL_EXEC [fst path, 0, 0]"

definition u_sys_waitpid :: "usize \<Rightarrow> usize \<Rightarrow> ecall" where
  "u_sys_waitpid pid exit_ptr = u_syscall U_SYSCALL_WAITPID [pid, exit_ptr, 0]"

definition u_sys_agent_create :: "usize \<Rightarrow> ecall" where
  "u_sys_agent_create cfg_ptr = u_syscall U_SYSCALL_AGENT_CREATE [cfg_ptr, 0, 0]"

definition u_sys_agent_info :: "usize \<Rightarrow> usize \<Rightarrow> usize \<Rightarrow> ecall" where
  "u_sys_agent_info pid info_ptr info_len = u_syscall U_SYSCALL_AGENT_INFO [pid, info_ptr, info_len]"

definition u_sys_tool_call :: "usize \<Rightarrow> usize \<Rightarrow> usize \<Rightarrow> usize \<Rightarrow> ecall" where
  "u_sys_tool_call req_ptr req_len out_offset out_len = u_syscall4 U_SYSCALL_TOOL_CALL [req_ptr, req_len, out_offset, out_len]"

definition u_sys_tool_list :: "usize \<Rightarrow> usize \<Rightarrow> ecall" where
  "u_sys_tool_list buf_ptr buf_len = u_syscall U_SYSCALL_TOOL_LIST [buf_ptr, buf_len, 0]"

definition u_sys_context_push :: "usize \<Rightarrow> usize \<Rightarrow> usize \<Rightarrow> usize \<Rightarrow> ecall" where
  "u_sys_context_push req_ptr req_len resp_ptr resp_len = u_syscall4 U_SYSCALL_CONTEXT_PUSH [req_ptr, req_len, resp_ptr, resp_len]"

definition u_sys_context_query :: "usize \<Rightarrow> usize \<Rightarrow> usize \<Rightarrow> usize \<Rightarrow> ecall" where
  "u_sys_context_query start cnt out_offset out_len = u_syscall4 U_SYSCALL_CONTEXT_QUERY [start, cnt, out_offset, out_len]"

definition u_sys_context_rollback :: "usize \<Rightarrow> ecall" where
  "u_sys_context_rollback node_idx = u_syscall U_SYSCALL_CONTEXT_ROLLBACK [node_idx, 0, 0]"

definition u_sys_context_clear :: "ecall" where
  "u_sys_context_clear = u_syscall U_SYSCALL_CONTEXT_CLEAR [0, 0, 0]"

definition u_sys_agent_heartbeat_set :: "usize \<Rightarrow> ecall" where
  "u_sys_agent_heartbeat_set interval_ms = u_syscall U_SYSCALL_AGENT_HEARTBEAT_SET [interval_ms, 0, 0]"

definition u_sys_agent_heartbeat_stop :: "ecall" where
  "u_sys_agent_heartbeat_stop = u_syscall U_SYSCALL_AGENT_HEARTBEAT_STOP [0, 0, 0]"

definition u_sys_agent_watch :: "u32 \<Rightarrow> ecall" where
  "u_sys_agent_watch event_mask = u_syscall U_SYSCALL_AGENT_WATCH [ucast event_mask, 0, 0]"

definition u_sys_agent_unwatch :: "u32 \<Rightarrow> ecall" where
  "u_sys_agent_unwatch event_mask = u_syscall U_SYSCALL_AGENT_UNWATCH [ucast event_mask, 0, 0]"

definition u_sys_agent_wait :: "u64 \<Rightarrow> ecall" where
  "u_sys_agent_wait timeout_ms = u_syscall U_SYSCALL_AGENT_WAIT [timeout_ms, 0, 0]"

definition u_sys_mailbox_recv :: "usize \<Rightarrow> usize \<Rightarrow> ecall" where
  "u_sys_mailbox_recv buf_ptr buf_len = u_syscall U_SYSCALL_MAILBOX_RECV [buf_ptr, buf_len, 0]"

definition u_sys_agent_set_loop_state :: "u32 \<Rightarrow> ecall" where
  "u_sys_agent_set_loop_state state_code = u_syscall U_SYSCALL_AGENT_SET_LOOP_STATE [ucast state_code, 0, 0]"

definition u_sys_file_attr_set :: "usize \<Rightarrow> usize \<Rightarrow> usize \<Rightarrow> usize \<Rightarrow> ecall" where
  "u_sys_file_attr_set name_ptr name_len tag_ptr tag_len = u_syscall4 U_SYSCALL_FILE_ATTR_SET [name_ptr, name_len, tag_ptr, tag_len]"

definition u_sys_file_attr_del :: "usize \<Rightarrow> usize \<Rightarrow> usize \<Rightarrow> usize \<Rightarrow> ecall" where
  "u_sys_file_attr_del name_ptr name_len tag_ptr tag_len = u_syscall4 U_SYSCALL_FILE_ATTR_DEL [name_ptr, name_len, tag_ptr, tag_len]"

definition u_sys_agent_set_priority :: "usize \<Rightarrow> ecall" where
  "u_sys_agent_set_priority prio = u_syscall U_SYSCALL_AGENT_SET_PRIORITY [prio, 0, 0]"

definition u_sys_file_attr_bench :: "usize \<Rightarrow> usize \<Rightarrow> usize \<Rightarrow> ecall" where
  "u_sys_file_attr_bench n iters use_idx = u_syscall U_SYSCALL_FILE_ATTR_BENCH [n, iters, use_idx]"

lemmas user_wrappers = u_syscall_def u_syscall4_def
  u_sys_open_def  u_sys_close_def  u_sys_read_def
  u_sys_write_def  u_sys_exit_def  u_sys_yield_def
  u_sys_get_time_def  u_sys_getpid_def  u_sys_fork_def
  u_sys_exec_def  u_sys_waitpid_def  u_sys_agent_create_def
  u_sys_agent_info_def  u_sys_tool_call_def  u_sys_tool_list_def
  u_sys_context_push_def  u_sys_context_query_def  u_sys_context_rollback_def
  u_sys_context_clear_def  u_sys_agent_heartbeat_set_def  u_sys_agent_heartbeat_stop_def
  u_sys_agent_watch_def  u_sys_agent_unwatch_def  u_sys_agent_wait_def
  u_sys_mailbox_recv_def  u_sys_agent_set_loop_state_def  u_sys_file_attr_set_def
  u_sys_file_attr_del_def  u_sys_agent_set_priority_def  u_sys_file_attr_bench_def


section \<open>The machine a user program runs on\<close>

text \<open>\<open>None\<close>: the program does not go on (it exits, or faults).\<close>

record 's user_machine =
  u_ecall :: "ecall \<Rightarrow> 's \<Rightarrow> (isize \<times> 's) option"
  u_load :: "usize \<Rightarrow> nat \<Rightarrow> 's \<Rightarrow> u8 list option"
  u_store :: "usize \<Rightarrow> u8 list \<Rightarrow> 's \<Rightarrow> 's option"

section \<open>Files, time and processes\<close>

definition u_open :: "'s user_machine \<Rightarrow> user_slice \<Rightarrow> u32 \<Rightarrow> 's \<Rightarrow> (isize \<times> 's) option" where
  "u_open M path flags = u_ecall M (u_sys_open path flags)"

definition u_close :: "'s user_machine \<Rightarrow> usize \<Rightarrow> 's \<Rightarrow> (isize \<times> 's) option" where
  "u_close M fd = u_ecall M (u_sys_close fd)"

definition u_read :: "'s user_machine \<Rightarrow> usize \<Rightarrow> user_slice \<Rightarrow> 's \<Rightarrow> (isize \<times> 's) option" where
  "u_read M fd buf = u_ecall M (u_sys_read fd buf)"

definition u_write :: "'s user_machine \<Rightarrow> usize \<Rightarrow> user_slice \<Rightarrow> 's \<Rightarrow> (isize \<times> 's) option" where
  "u_write M fd buf = u_ecall M (u_sys_write fd buf)"

text \<open>\<open>sys_exit\<close> panics should the call return.\<close>

definition u_exit :: "'s user_machine \<Rightarrow> u32 \<Rightarrow> 's \<Rightarrow> (isize \<times> 's) option" where
  "u_exit M code s = Option.bind (u_ecall M (u_sys_exit code) s) (\<lambda>_. None)"

definition u_yield :: "'s user_machine \<Rightarrow> 's \<Rightarrow> (isize \<times> 's) option" where
  "u_yield M = u_ecall M u_sys_yield"

definition u_get_time :: "'s user_machine \<Rightarrow> 's \<Rightarrow> (isize \<times> 's) option" where
  "u_get_time M = u_ecall M u_sys_get_time"

definition u_getpid :: "'s user_machine \<Rightarrow> 's \<Rightarrow> (isize \<times> 's) option" where
  "u_getpid M = u_ecall M u_sys_getpid"

definition u_fork :: "'s user_machine \<Rightarrow> 's \<Rightarrow> (isize \<times> 's) option" where
  "u_fork M = u_ecall M u_sys_fork"

definition u_exec :: "'s user_machine \<Rightarrow> user_slice \<Rightarrow> 's \<Rightarrow> (isize \<times> 's) option" where
  "u_exec M path = u_ecall M (u_sys_exec path)"

partial_function (option) u_waitpid :: "'s user_machine \<Rightarrow> usize \<Rightarrow> usize \<Rightarrow> 's \<Rightarrow> (isize \<times> 's) option" where
  "u_waitpid M pid exit_ptr s =
     Option.bind (u_ecall M (u_sys_waitpid pid exit_ptr) s) (\<lambda>(r, s).
     if r = -2 then Option.bind (u_yield M s) (\<lambda>(_, s). u_waitpid M pid exit_ptr s) else Some (r, s))"

definition u_wait :: "'s user_machine \<Rightarrow> usize \<Rightarrow> 's \<Rightarrow> (isize \<times> 's) option" where
  "u_wait M = u_waitpid M (- 1)"

partial_function (option) u_sleep_loop :: "'s user_machine \<Rightarrow> isize \<Rightarrow> 's \<Rightarrow> 's option" where
  "u_sleep_loop M until s =
     Option.bind (u_get_time M s) (\<lambda>(now, s).
     if now < until then Option.bind (u_yield M s) (\<lambda>(_, s). u_sleep_loop M until s) else Some s)"

definition u_sleep :: "'s user_machine \<Rightarrow> usize \<Rightarrow> 's \<Rightarrow> 's option" where
  "u_sleep M period_ms s =
     Option.bind (u_get_time M s) (\<lambda>(start, s).
     u_sleep_loop M (sint (word_of_int (start + sint period_ms) :: usize)) s)"

section \<open>Console\<close>

definition STDIN :: usize where "STDIN = 0"
definition STDOUT :: usize where "STDOUT = 1"

definition u_write_str :: "'s user_machine \<Rightarrow> user_slice \<Rightarrow> 's \<Rightarrow> 's option" where
  "u_write_str M text s = map_option snd (u_write M STDOUT text s)"

definition u_getchar :: "'s user_machine \<Rightarrow> usize \<Rightarrow> 's \<Rightarrow> (u8 \<times> 's) option" where
  "u_getchar M c_ptr s =
     Option.bind (u_store M c_ptr [0] s) (\<lambda>s.
     Option.bind (u_read M STDIN (c_ptr, 1) s) (\<lambda>(_, s).
     map_option (\<lambda>c. (c ! 0, s)) (u_load M c_ptr 1 s)))"

section \<open>Agents\<close>

definition AGENT_CONTEXT_BASE :: usize where "AGENT_CONTEXT_BASE = 0x80000000"

definition u_agent_create :: "'s user_machine \<Rightarrow> 's \<Rightarrow> (isize \<times> 's) option" where
  "u_agent_create M = u_ecall M (u_sys_agent_create 0)"

record agent_info =
  info_agent_type :: u32
  info_context_area_size :: u32
  info_path_node_count :: u32
  info_loop_state :: u32

definition LOOP_STATE_IDLE :: u32 where "LOOP_STATE_IDLE = 0"
definition LOOP_STATE_THINKING :: u32 where "LOOP_STATE_THINKING = 1"
definition LOOP_STATE_CALLING :: u32 where "LOOP_STATE_CALLING = 2"
definition LOOP_STATE_OBSERVING :: u32 where "LOOP_STATE_OBSERVING = 3"
definition LOOP_STATE_DONE :: u32 where "LOOP_STATE_DONE = 4"

definition loop_state_name :: "u32 \<Rightarrow> rstring" where
  "loop_state_name s =
     (if s = 0 then str ''Idle'' else if s = 1 then str ''Thinking'' else if s = 2 then str ''Calling''
      else if s = 3 then str ''Observing'' else if s = 4 then str ''Done'' else str ''?'')"

definition agent_info_of_bytes :: "u8 list \<Rightarrow> agent_info" where
  "agent_info_of_bytes bs =
     \<lparr>info_agent_type = from_le_bytes (slice_at 0 4 bs), info_context_area_size = from_le_bytes (slice_at 4 4 bs),
      info_path_node_count = from_le_bytes (slice_at 8 4 bs), info_loop_state = from_le_bytes (slice_at 12 4 bs)\<rparr>"

definition u_agent_info :: "'s user_machine \<Rightarrow> usize \<Rightarrow> 's \<Rightarrow> ((isize + agent_info) \<times> 's) option" where
  "u_agent_info M info_ptr s =
     Option.bind (u_store M info_ptr (replicate 16 0) s) (\<lambda>s.
     Option.bind (u_ecall M (u_sys_agent_info 0 info_ptr 16) s) (\<lambda>(r, s).
     if r < 0 then Some (Inl r, s)
     else map_option (\<lambda>bs. (Inr (agent_info_of_bytes bs), s)) (u_load M info_ptr 16 s)))"

definition agent_context_area :: "'s user_machine \<Rightarrow> nat \<Rightarrow> 's \<Rightarrow> u8 list option" where
  "agent_context_area M len = u_load M AGENT_CONTEXT_BASE len"

section \<open>Tool calls\<close>

record tool_call_outcome =
  tc_status_code :: isize
  tc_result_offset :: u32
  tc_result_len :: u32

definition outcome_is_ok :: "tool_call_outcome \<Rightarrow> bool" where
  "outcome_is_ok oc \<longleftrightarrow> tc_status_code oc = 0"

definition result_bytes :: "'s user_machine \<Rightarrow> tool_call_outcome \<Rightarrow> 's \<Rightarrow> u8 list option" where
  "result_bytes M oc s =
     (if tc_result_len oc = 0 then Some []
      else u_load M (AGENT_CONTEXT_BASE + ucast (tc_result_offset oc)) (unat (tc_result_len oc)) s)"

definition u_load_u32 :: "'s user_machine \<Rightarrow> usize \<Rightarrow> 's \<Rightarrow> u32 option" where
  "u_load_u32 M a s = map_option from_le_bytes (u_load M a 4 s)"

definition u_tool_call ::
  "'s user_machine \<Rightarrow> 'e postcard \<Rightarrow> usize \<Rightarrow> usize \<Rightarrow> usize \<Rightarrow> tool_request \<Rightarrow> 's \<Rightarrow>
     ((isize + tool_call_outcome) \<times> 's) option" where
  "u_tool_call M pc buf_ptr out_offset out_len req s =
     Option.bind (encode_request pc req (replicate 1024 0)) (\<lambda>r.
     case r of
       Inl e \<Rightarrow> Some (Inl (- 100), s)
     | Inr (n, buf) \<Rightarrow>
         Option.bind (u_store M buf_ptr buf s) (\<lambda>s.
         Option.bind (u_store M out_offset (to_le_bytes (0 :: u32)) s) (\<lambda>s.
         Option.bind (u_store M out_len (to_le_bytes (0 :: u32)) s) (\<lambda>s.
         Option.bind (u_ecall M (u_sys_tool_call buf_ptr (word_of_nat n) out_offset out_len) s) (\<lambda>(r, s).
         if r < 0 then Some (Inl r, s)
         else Option.bind (u_load_u32 M out_offset s) (\<lambda>off.
              Option.bind (u_load_u32 M out_len s) (\<lambda>len.
              Some (Inr \<lparr>tc_status_code = r, tc_result_offset = off, tc_result_len = len\<rparr>, s))))))))"

text \<open>The result of the calls that return a length or an error.\<close>

definition count_or_error :: "isize \<times> 's \<Rightarrow> (isize + nat) \<times> 's" where
  "count_or_error = (\<lambda>(r, s). (if r < 0 then Inl r else Inr (nat r), s))"

definition u_tool_list :: "'s user_machine \<Rightarrow> user_slice \<Rightarrow> 's \<Rightarrow> ((isize + nat) \<times> 's) option" where
  "u_tool_list M buf s = map_option count_or_error (u_ecall M (u_sys_tool_list (fst buf) (snd buf)) s)"

section \<open>Context path\<close>

record user_node_meta =
  um_offset :: u32
  um_len :: u32
  um_seq :: u64
  um_write_time :: u64

definition u_context_push :: "'s user_machine \<Rightarrow> user_slice \<Rightarrow> user_slice \<Rightarrow> 's \<Rightarrow> ((isize + nat) \<times> 's) option" where
  "u_context_push M req resp s =
     map_option count_or_error (u_ecall M (u_sys_context_push (fst req) (snd req) (fst resp) (snd resp)) s)"

text \<open>\<open>from_bytes\<close> is the deserializer of the metadata list, of the \<open>postcard\<close> crate.\<close>

definition u_context_query_meta ::
  "'s user_machine \<Rightarrow> (u8 list \<Rightarrow> 'e + user_node_meta list) \<Rightarrow> usize \<Rightarrow> usize \<Rightarrow> 's \<Rightarrow>
     ((isize + user_node_meta list) \<times> 's) option" where
  "u_context_query_meta M from_bytes out_offset out_len s =
     Option.bind (u_store M out_offset (to_le_bytes (0 :: u32)) s) (\<lambda>s.
     Option.bind (u_store M out_len (to_le_bytes (0 :: u32)) s) (\<lambda>s.
     Option.bind (u_ecall M (u_sys_context_query 0 (- 1) out_offset out_len) s) (\<lambda>(r, s).
     if r < 0 then Some (Inl r, s)
     else Option.bind (u_load_u32 M out_offset s) (\<lambda>off.
          Option.bind (u_load_u32 M out_len s) (\<lambda>len.
          Option.bind (u_load M (AGENT_CONTEXT_BASE + ucast off) (unat len) s) (\<lambda>bytes.
          Some (case from_bytes bytes of Inl e \<Rightarrow> Inl (- 100) | Inr ms \<Rightarrow> Inr ms, s)))))))"

definition u_context_rollback :: "'s user_machine \<Rightarrow> usize \<Rightarrow> 's \<Rightarrow> (isize \<times> 's) option" where
  "u_context_rollback M keep_count = u_ecall M (u_sys_context_rollback keep_count)"

definition u_context_clear :: "'s user_machine \<Rightarrow> 's \<Rightarrow> (isize \<times> 's) option" where
  "u_context_clear M = u_ecall M u_sys_context_clear"

definition read_path_node_zero_copy ::
  "'s user_machine \<Rightarrow> user_node_meta \<Rightarrow> 's \<Rightarrow> (u8 list \<times> u8 list) option option" where
  "read_path_node_zero_copy M meta s =
     (if um_len meta < 24 then Some None
      else let base = AGENT_CONTEXT_BASE + 0x4100 + ucast (um_offset meta) in
           Option.bind (u_load M base 24 s) (\<lambda>header.
           let req_len = ucast (from_le_bytes [header ! 16, header ! 17, header ! 18, header ! 19] :: u32) :: usize;
               resp_len = ucast (from_le_bytes [header ! 20, header ! 21, header ! 22, header ! 23] :: u32) :: usize in
           Option.bind (u_load M (base + 24) (unat req_len) s) (\<lambda>req.
           Option.bind (u_load M (base + 24 + req_len) (unat resp_len) s) (\<lambda>resp.
           Some (Some (req, resp))))))"

section \<open>Agent loop, attributes and priority\<close>

definition U_EVENT_HEARTBEAT :: u32 where "U_EVENT_HEARTBEAT = push_bit 0 1"
definition U_EVENT_MESSAGE :: u32 where "U_EVENT_MESSAGE = push_bit 1 1"
definition U_EVENT_FILE_MODIFIED :: u32 where "U_EVENT_FILE_MODIFIED = push_bit 2 1"

definition u_agent_heartbeat_set :: "'s user_machine \<Rightarrow> usize \<Rightarrow> 's \<Rightarrow> (isize \<times> 's) option" where
  "u_agent_heartbeat_set M interval_ms = u_ecall M (u_sys_agent_heartbeat_set interval_ms)"

definition u_agent_heartbeat_stop :: "'s user_machine \<Rightarrow> 's \<Rightarrow> (isize \<times> 's) option" where
  "u_agent_heartbeat_stop M = u_ecall M u_sys_agent_heartbeat_stop"

definition u_agent_watch :: "'s user_machine \<Rightarrow> u32 \<Rightarrow> 's \<Rightarrow> (isize \<times> 's) option" where
  "u_agent_watch M event_mask = u_ecall M (u_sys_agent_watch event_mask)"

definition u_agent_unwatch :: "'s user_machine \<Rightarrow> u32 \<Rightarrow> 's \<Rightarrow> (isize \<times> 's) option" where
  "u_agent_unwatch M event_mask = u_ecall M (u_sys_agent_unwatch event_mask)"

definition u_agent_wait :: "'s user_machine \<Rightarrow> u64 \<Rightarrow> 's \<Rightarrow> (u32 \<times> 's) option" where
  "u_agent_wait M timeout_ms s =
     map_option (\<lambda>(r, s). (if r < 0 then 0 else word_of_int r, s)) (u_ecall M (u_sys_agent_wait timeout_ms) s)"

definition u_mailbox_recv :: "'s user_machine \<Rightarrow> user_slice \<Rightarrow> 's \<Rightarrow> (isize \<times> 's) option" where
  "u_mailbox_recv M buf = u_ecall M (u_sys_mailbox_recv (fst buf) (snd buf))"

definition u_agent_set_loop_state :: "'s user_machine \<Rightarrow> u32 \<Rightarrow> 's \<Rightarrow> (isize \<times> 's) option" where
  "u_agent_set_loop_state M st = u_ecall M (u_sys_agent_set_loop_state st)"

definition u_file_attr_set_tag :: "'s user_machine \<Rightarrow> user_slice \<Rightarrow> user_slice \<Rightarrow> 's \<Rightarrow> (isize \<times> 's) option" where
  "u_file_attr_set_tag M name tag = u_ecall M (u_sys_file_attr_set (fst name) (snd name) (fst tag) (snd tag))"

definition u_file_attr_del_tag :: "'s user_machine \<Rightarrow> user_slice \<Rightarrow> user_slice \<Rightarrow> 's \<Rightarrow> (isize \<times> 's) option" where
  "u_file_attr_del_tag M name tag = u_ecall M (u_sys_file_attr_del (fst name) (snd name) (fst tag) (snd tag))"

definition u_file_attr_del_all :: "'s user_machine \<Rightarrow> user_slice \<Rightarrow> 's \<Rightarrow> (isize \<times> 's) option" where
  "u_file_attr_del_all M name = u_ecall M (u_sys_file_attr_del (fst name) (snd name) 0 0)"

definition u_agent_set_priority :: "'s user_machine \<Rightarrow> usize \<Rightarrow> 's \<Rightarrow> (isize \<times> 's) option" where
  "u_agent_set_priority M prio = u_ecall M (u_sys_agent_set_priority prio)"

definition u_file_attr_bench :: "'s user_machine \<Rightarrow> usize \<Rightarrow> usize \<Rightarrow> bool \<Rightarrow> 's \<Rightarrow> (isize \<times> 's) option" where
  "u_file_attr_bench M n iters use_idx = u_ecall M (u_sys_file_attr_bench n iters (if use_idx then 1 else 0))"

section \<open>The kernel as the machine of its running task\<close>

text \<open>\<open>junk\<close>: the argument registers that a wrapper does not set.  A call that gives up the
  processor does not return here; what it returns later is the matter of \<open>continue_task\<close>.\<close>

definition do_ecall :: "kernel_env \<Rightarrow> 'e postcard \<Rightarrow> inputs \<Rightarrow> usize list \<Rightarrow> ecall \<Rightarrow> kernel \<Rightarrow> sys_result option" where
  "do_ecall env pc inp junk c k = syscall env pc inp (fst c) (snd c @ junk) k"

definition kernel_machine :: "kernel_env \<Rightarrow> 'e postcard \<Rightarrow> inputs \<Rightarrow> usize list \<Rightarrow> kernel user_machine" where
  "kernel_machine env pc inp junk =
     \<lparr>u_ecall = (\<lambda>c k. case do_ecall env pc inp junk c k of
                         Some (Ret v k) \<Rightarrow> Some (sint (word_of_int v :: usize), k)
                       | _ \<Rightarrow> None),
      u_load = (\<lambda>a n k. Option.bind (current_user_token k) (\<lambda>token. get_user token a (word_of_nat n) k)),
      u_store = (\<lambda>a bs k. Option.bind (current_user_token k) (\<lambda>token. put_user token a bs k))\<rparr>"

end
