(* ===== verification/Kernel_Inv.thy ===== *)
theory Kernel_Inv
  imports Trap
begin

text \<open>
  The invariant of the kernel's process state: every task is in exactly the queue its status names,
  the control blocks form a tree below the initial process, pids in use are the pids of control
  blocks, and each control block respects its bounds.  \<open>frame\<close> relates two states that differ only
  in what the invariant does not see.
\<close>

section \<open>Definitions\<close>

definition status_of :: "kernel \<Rightarrow> usize \<Rightarrow> task_status option" where
  "status_of k p = map_option task_status (tcbs k p)"

definition parent_of :: "kernel \<Rightarrow> usize \<Rightarrow> usize option option" where
  "parent_of k p = map_option parent (tcbs k p)"

definition children_of :: "kernel \<Rightarrow> usize \<Rightarrow> usize list" where
  "children_of k p = (case tcbs k p of Some t \<Rightarrow> children t | None \<Rightarrow> [])"

definition child_rel :: "kernel \<Rightarrow> (usize \<times> usize) set" where
  "child_rel k = {(p, c). c \<in> set (children_of k p)}"

definition sched_inv :: "kernel \<Rightarrow> bool" where
  "sched_inv k \<longleftrightarrow>
     distinct (ready_queue k) \<and> distinct (map fst (blocked_agents k)) \<and>
     (\<forall>p. p \<in> set (ready_queue k) \<longleftrightarrow> status_of k p = Some Ready) \<and>
     (\<forall>p. current k = Some p \<longleftrightarrow> status_of k p = Some Running) \<and>
     (\<forall>p. p \<in> set (map fst (blocked_agents k)) \<longleftrightarrow> status_of k p = Some Blocked) \<and>
     status_of k (initproc k) \<noteq> Some Zombie"

definition tree_inv :: "kernel \<Rightarrow> bool" where
  "tree_inv k \<longleftrightarrow>
     parent_of k (initproc k) = Some None \<and>
     (\<forall>p. distinct (children_of k p)) \<and>
     (\<forall>p c. c \<in> set (children_of k p) \<longrightarrow> parent_of k c = Some (Some p)) \<and>
     (\<forall>p\<in>dom (tcbs k). (initproc k, p) \<in> (child_rel k)\<^sup>*)"

definition ext_ok :: "agent_ext \<Rightarrow> bool" where
  "ext_ok e \<longleftrightarrow> mailbox_capacity e = 32 \<and> length (mailbox e) \<le> 32"

definition task_ok :: "task_control_block \<Rightarrow> bool" where
  "task_ok t \<longleftrightarrow>
     priority t \<le> MAX_PRIORITY \<and> (\<forall>e. agent_ext_of t = Some e \<longrightarrow> ext_ok e) \<and>
     (task_status t = Blocked \<longrightarrow> agent_ext_of t \<noteq> None) \<and> (task_status t = Zombie \<longrightarrow> children t = [])"

definition pids_inv :: "nat \<Rightarrow> kernel \<Rightarrow> bool" where
  "pids_inv n k \<longleftrightarrow>
     pid_inv (pids k) \<and> pid_owned (pids k) = dom (tcbs k) \<and> unat (pa_current (pids k)) \<le> n \<and> initproc k = IDLE_PID"

definition tasks_ok :: "kernel \<Rightarrow> bool" where
  "tasks_ok k \<longleftrightarrow> (\<forall>p t. tcbs k p = Some t \<longrightarrow> task_ok t)"

definition kernel_inv :: "nat \<Rightarrow> kernel \<Rightarrow> bool" where
  "kernel_inv n k \<longleftrightarrow> sched_inv k \<and> tree_inv k \<and> tasks_ok k \<and> pids_inv n k"

section \<open>Frames\<close>

definition task_frame :: "task_control_block \<Rightarrow> task_control_block \<Rightarrow> bool" where
  "task_frame t t' \<longleftrightarrow>
     task_status t' = task_status t \<and> parent t' = parent t \<and> children t' = children t \<and> (task_ok t \<longrightarrow> task_ok t')"

definition frame :: "kernel \<Rightarrow> kernel \<Rightarrow> bool" where
  "frame k k' \<longleftrightarrow>
     ready_queue k' = ready_queue k \<and> current k' = current k \<and> blocked_agents k' = blocked_agents k \<and>
     initproc k' = initproc k \<and> pids k' = pids k \<and> (\<forall>p. rel_option task_frame (tcbs k p) (tcbs k' p))"

lemma task_frame_refl [simp, intro]: "task_frame t t"
  by (simp add: task_frame_def)

lemma frame_refl [simp, intro]: "frame k k"
  by (simp add: frame_def option.rel_refl)

lemma task_frame_trans: "task_frame s t \<Longrightarrow> task_frame t u \<Longrightarrow> task_frame s u"
  by (simp add: task_frame_def)

lemma frame_trans [trans]:
  assumes "frame k1 k2" "frame k2 k3"
  shows "frame k1 k3"
proof -
  have "rel_option task_frame (tcbs k1 p) (tcbs k3 p)" for p
  proof -
    from assms have "rel_option task_frame (tcbs k1 p) (tcbs k2 p)" "rel_option task_frame (tcbs k2 p) (tcbs k3 p)"
      by (simp_all add: frame_def)
    then show ?thesis
      by (cases "tcbs k1 p"; cases "tcbs k2 p"; cases "tcbs k3 p") (auto intro: task_frame_trans)
  qed
  with assms show ?thesis by (simp add: frame_def)
qed

text \<open>Updates of fields the invariant does not read.\<close>

lemma frame_fields [simp]:
  "frame k (k\<lparr>k_machine := mc\<rparr>)" "frame k (k\<lparr>kernel_space := ks\<rparr>)" "frame k (k\<lparr>attr_store := st\<rparr>)"
  "frame k (k\<lparr>k_fs := fs\<rparr>)" "frame k (k\<lparr>console_out := out\<rparr>)" "frame k (set_mem m k)"
  by (simp_all add: frame_def option.rel_refl set_mem_def)

lemma update_tcb_sel [simp]:
  "ready_queue (update_tcb p f k) = ready_queue k" "current (update_tcb p f k) = current k"
  "blocked_agents (update_tcb p f k) = blocked_agents k" "initproc (update_tcb p f k) = initproc k"
  "pids (update_tcb p f k) = pids k" "k_machine (update_tcb p f k) = k_machine k"
  "kernel_space (update_tcb p f k) = kernel_space k" "k_fs (update_tcb p f k) = k_fs k"
  "attr_store (update_tcb p f k) = attr_store k" "user_mem (update_tcb p f k) = user_mem k"
  "tcbs (update_tcb p f k) q = (if q = p then map_option f (tcbs k p) else tcbs k q)"
  "dom (tcbs (update_tcb p f k)) = dom (tcbs k)"
  by (auto simp: update_tcb_def user_mem_def dom_def)

lemma set_mem_sel [simp]:
  "ready_queue (set_mem m k) = ready_queue k" "current (set_mem m k) = current k"
  "blocked_agents (set_mem m k) = blocked_agents k" "initproc (set_mem m k) = initproc k"
  "pids (set_mem m k) = pids k" "kernel_space (set_mem m k) = kernel_space k" "k_fs (set_mem m k) = k_fs k"
  "attr_store (set_mem m k) = attr_store k" "user_mem (set_mem m k) = m" "tcbs (set_mem m k) = tcbs k"
  by (simp_all add: set_mem_def user_mem_def)

lemma frame_update_tcb:
  assumes "\<And>t. tcbs k p = Some t \<Longrightarrow> task_frame t (f t)"
  shows "frame k (update_tcb p f k)"
  using assms by (cases "tcbs k p") (auto simp: frame_def option.rel_refl)

lemma frame_update_ext:
  assumes "\<And>e. ext_ok e \<Longrightarrow> ext_ok (f e)"
  shows "frame k (update_ext p f k)"
  unfolding update_ext_def
  by (rule frame_update_tcb) (auto simp: task_frame_def task_ok_def assms)

lemma frame_views:
  assumes "frame k k'"
  shows "status_of k' = status_of k" "parent_of k' = parent_of k" "children_of k' = children_of k"
    "child_rel k' = child_rel k" "dom (tcbs k') = dom (tcbs k)" "tasks_ok k \<Longrightarrow> tasks_ok k'"
proof -
  have r: "rel_option task_frame (tcbs k p) (tcbs k' p)" for p using assms by (simp add: frame_def)
  then have "status_of k' p = status_of k p \<and> parent_of k' p = parent_of k p \<and> children_of k' p = children_of k p \<and>
      (tcbs k' p = None \<longleftrightarrow> tcbs k p = None)" for p
    using r [of p] by (cases "tcbs k p"; cases "tcbs k' p")
      (auto simp: status_of_def parent_of_def children_of_def task_frame_def)
  then show "status_of k' = status_of k" "parent_of k' = parent_of k" "children_of k' = children_of k"
    "dom (tcbs k') = dom (tcbs k)" by (auto simp: dom_def)
  then show "child_rel k' = child_rel k" by (simp add: child_rel_def)
  show "tasks_ok k'" if "tasks_ok k"
    unfolding tasks_ok_def
  proof (intro allI impI)
    fix p t' assume "tcbs k' p = Some t'"
    with r [of p] obtain t where "tcbs k p = Some t" "task_frame t t'" by (auto simp: option_rel_Some2)
    with that show "task_ok t'" by (auto simp: tasks_ok_def task_frame_def)
  qed
qed

lemma frame_inv:
  assumes fr: "frame k k'" and inv: "kernel_inv n k"
  shows "kernel_inv n k'"
proof -
  note v = frame_views [OF fr]
  from fr have f: "ready_queue k' = ready_queue k" "current k' = current k" "blocked_agents k' = blocked_agents k"
    "initproc k' = initproc k" "pids k' = pids k" by (simp_all add: frame_def)
  from inv show ?thesis
    unfolding kernel_inv_def sched_inv_def tree_inv_def pids_inv_def v(1-5) f by (blast intro: v(6))
qed

lemma frame_current: "frame k k' \<Longrightarrow> current k' = current k"
  by (simp add: frame_def)

end
