(* ===== verification/Kernel_Sched.thy ===== *)
theory Kernel_Sched
  imports Kernel_Inv
begin

text \<open>
  The scheduler keeps the kernel invariant: picking, suspending, blocking and waking a task.  The
  choice of \<open>fetch\<close> is the first task of highest priority.
\<close>

section \<open>Choosing a task\<close>

definition first_max :: "('a \<Rightarrow> usize) \<Rightarrow> 'a list \<Rightarrow> nat \<Rightarrow> bool" where
  "first_max prio q i \<longleftrightarrow>
     i < length q \<and> (\<forall>j<length q. prio (q ! j) \<le> prio (q ! i)) \<and> (\<forall>j<i. prio (q ! j) < prio (q ! i))"

lemma first_max_snoc:
  assumes "first_max prio q i"
  shows "first_max prio (q @ [x]) (if prio (q ! i) < prio x then length q else i)"
  using assms by (auto simp: first_max_def nth_append less_Suc_eq intro: le_less_trans less_imp_le)

lemma fetch_loop_first_max:
  assumes "first_max prio (take m q) b" "m \<le> length q"
  shows "first_max prio q (fetch_loop prio q [m..<length q] b (prio (q ! b)))"
  using assms
proof (induction "length q - m" arbitrary: m b)
  case 0
  then show ?case by simp
next
  case (Suc d)
  then have m: "m < length q" and b: "b < m" by (auto simp: first_max_def)
  have tk: "take (Suc m) q = take m q @ [q ! m]" by (simp add: m take_Suc_conv_app_nth)
  have "first_max prio (take (Suc m) q) (if prio (q ! b) < prio (q ! m) then m else b)"
    using first_max_snoc [OF Suc.prems(1), of "q ! m"] b m unfolding tk by (simp split: if_splits)
  with Suc.hyps(1) [of "Suc m"] Suc.hyps(2) m show ?case
    by (simp add: upt_conv_Cons Let_def split: if_splits)
qed

lemma fetch_task_cases:
  obtains (empty) "ready_queue k = []" "fetch_task k = (None, k)"
    | (task) i where "first_max (task_priority k) (ready_queue k) i"
        "fetch_task k = (Some (ready_queue k ! i), k\<lparr>ready_queue := vec_remove i (ready_queue k)\<rparr>)"
proof (cases "ready_queue k = []")
  case True
  with that(1) show ?thesis by (simp add: fetch_task_def)
next
  case False
  then have "first_max (task_priority k) (take 1 (ready_queue k)) 0" by (cases "ready_queue k") (auto simp: first_max_def)
  from fetch_loop_first_max [OF this] False
  have "first_max (task_priority k) (ready_queue k)
      (fetch_loop (task_priority k) (ready_queue k) [1..<length (ready_queue k)] 0 (task_priority k (ready_queue k ! 0)))"
    by (simp add: Suc_leI)
  with False that(2) show ?thesis by (simp add: fetch_task_def Let_def)
qed

section \<open>Moving a task between queues\<close>

lemma kernel_invD:
  assumes "kernel_inv n k"
  shows "distinct (ready_queue k)" "distinct (map fst (blocked_agents k))"
    "p \<in> set (ready_queue k) \<longleftrightarrow> status_of k p = Some Ready"
    "current k = Some p \<longleftrightarrow> status_of k p = Some Running"
    "p \<in> set (map fst (blocked_agents k)) \<longleftrightarrow> status_of k p = Some Blocked"
    "tcbs k p = Some t \<Longrightarrow> task_ok t" "status_of k (initproc k) \<noteq> Some Zombie"
  using assms by (auto simp: kernel_inv_def sched_inv_def tasks_ok_def)

lemma status_Some: "status_of k p = Some s \<longleftrightarrow> (\<exists>t. tcbs k p = Some t \<and> task_status t = s)"
  by (auto simp: status_of_def)

text \<open>A change of one control block that keeps its place in the tree.\<close>

lemma kernel_inv_move:
  assumes inv: "kernel_inv n k" and t: "tcbs k p = Some t"
    and k': "tcbs k' = (tcbs k)(p \<mapsto> t')" "initproc k' = initproc k" "pids k' = pids k"
    and t': "parent t' = parent t" "children t' = children t" "task_ok t'" "task_status t' \<noteq> Zombie"
    and q: "distinct (ready_queue k')" "distinct (map fst (blocked_agents k'))"
      "\<And>q. q \<in> set (ready_queue k') \<longleftrightarrow> (if q = p then task_status t' = Ready else q \<in> set (ready_queue k))"
      "\<And>q. current k' = Some q \<longleftrightarrow> (if q = p then task_status t' = Running else current k = Some q)"
      "\<And>q. q \<in> set (map fst (blocked_agents k')) \<longleftrightarrow>
            (if q = p then task_status t' = Blocked else q \<in> set (map fst (blocked_agents k)))"
  shows "kernel_inv n k'"
proof -
  have st: "status_of k' q = (if q = p then Some (task_status t') else status_of k q)" for q
    by (simp add: status_of_def k')
  have v: "parent_of k' = parent_of k" "children_of k' = children_of k" "dom (tcbs k') = dom (tcbs k)"
    using t t' by (auto simp: parent_of_def children_of_def k' fun_eq_iff)
  then have "tree_inv k \<longleftrightarrow> tree_inv k'" by (simp add: tree_inv_def child_rel_def k')
  moreover have "tasks_ok k \<Longrightarrow> tasks_ok k'" using t' by (simp add: tasks_ok_def k')
  moreover have "sched_inv k'"
    unfolding sched_inv_def st q(3-5) using q(1,2) t'(4) kernel_invD(3-5,7) [OF inv] by (auto simp: k')
  ultimately show ?thesis using inv v by (simp add: kernel_inv_def pids_inv_def k')
qed

lemma run_tasks_round_inv:
  assumes inv: "kernel_inv n k" and idle: "current k = None"
  shows "kernel_inv n (run_tasks_round k)"
proof (cases k rule: fetch_task_cases)
  case empty
  with inv show ?thesis by (simp add: run_tasks_round_def)
next
  case (task i)
  let ?q = "ready_queue k" and ?p = "ready_queue k ! i"
  from task(1) have i: "i < length ?q" by (simp add: first_max_def)
  then have "?p \<in> set ?q" by simp
  with kernel_invD(3) [OF inv] obtain t where t: "tcbs k ?p = Some t" "task_status t = Ready" by (auto simp: status_Some)
  note r = vec_remove_distinct [OF i kernel_invD(1) [OF inv]]
  have "?p \<notin> set (map fst (blocked_agents k))" using kernel_invD(5) [OF inv, of ?p] t by (simp add: status_Some)
  with inv t idle r show ?thesis
    by (intro kernel_inv_move [OF inv t(1), where t' = "t\<lparr>task_status := Running\<rparr>"])
      (auto simp: run_tasks_round_def task update_tcb_def task_ok_def kernel_invD(2) dest: kernel_invD(6))
qed

lemma current_task_status:
  assumes "kernel_inv n k" "current k = Some p"
  obtains t where "tcbs k p = Some t" "task_status t = Running" "p \<notin> set (ready_queue k)"
    "p \<notin> set (map fst (blocked_agents k))"
proof -
  from assms(2) kernel_invD(4) [OF assms(1), of p] have "status_of k p = Some Running" by blast
  moreover from this have "p \<notin> set (ready_queue k)" "p \<notin> set (map fst (blocked_agents k))"
    by (simp_all only: kernel_invD(3,5) [OF assms(1)]) simp_all
  ultimately show thesis using that by (auto simp: status_Some)
qed

lemma suspend_current_inv:
  assumes inv: "kernel_inv n k" and s: "suspend_current r k = Some k'"
  shows "kernel_inv n k' \<and> current k' = None"
proof -
  from s obtain p where p: "current k = Some p"
    and k': "k' = add_task p (update_tcb p (\<lambda>t. t\<lparr>task_status := Ready, resume := r\<rparr>) (k\<lparr>current := None\<rparr>))"
    by (auto simp: suspend_current_def take_current_task_def)
  obtain t where t: "tcbs k p = Some t" "task_status t = Running" "p \<notin> set (ready_queue k)"
    "p \<notin> set (map fst (blocked_agents k))" by (rule current_task_status [OF inv p])
  have "kernel_inv n k'"
    using t p kernel_invD(1,2) [OF inv] kernel_invD(6) [OF inv t(1)]
    by (intro kernel_inv_move [OF inv t(1), where t' = "t\<lparr>task_status := Ready, resume := r\<rparr>"])
      (auto simp: k' add_task_def update_tcb_def task_ok_def)
  then show ?thesis by (simp add: k' add_task_def)
qed

lemma block_current_agent_inv:
  assumes inv: "kernel_inv n k" and s: "block_current_agent d r k = Some k'"
    and ag: "\<And>p. current k = Some p \<Longrightarrow> ext_of k p \<noteq> None"
  shows "kernel_inv n k' \<and> current k' = None"
proof -
  from s obtain p where p: "current k = Some p"
    and k': "k' = (update_tcb p (\<lambda>t. t\<lparr>task_status := Blocked, resume := r\<rparr>) (k\<lparr>current := None\<rparr>))
                    \<lparr>blocked_agents := blocked_agents k @ [(p, d)]\<rparr>"
    by (auto simp: block_current_agent_def take_current_task_def)
  obtain t where t: "tcbs k p = Some t" "task_status t = Running" "p \<notin> set (ready_queue k)"
    "p \<notin> set (map fst (blocked_agents k))" by (rule current_task_status [OF inv p])
  have "kernel_inv n k'"
    using t p ag [OF p] kernel_invD(1,2) [OF inv] kernel_invD(6) [OF inv t(1)]
    by (intro kernel_inv_move [OF inv t(1), where t' = "t\<lparr>task_status := Blocked, resume := r\<rparr>"])
      (auto simp: k' update_tcb_def task_ok_def ext_of_def)
  then show ?thesis by (simp add: k')
qed

section \<open>Waking\<close>

lemma keys_swap_remove:
  assumes "i < length xs" "distinct (map fst xs)"
  shows "set (map fst (swap_remove i xs)) = set (map fst xs) - {fst (xs ! i)}"
    "distinct (map fst (swap_remove i xs))"
proof -
  have "mset xs = mset (xs ! i # swap_remove i xs)"
    using assms(1) by (simp add: mset_swap_remove)
  then have m: "mset (map fst xs) = mset (fst (xs ! i) # map fst (swap_remove i xs))"
    by (metis list.simps(9) mset_map)
  from mset_eq_imp_distinct_iff [OF m] assms(2) mset_eq_setD [OF m]
  show "set (map fst (swap_remove i xs)) = set (map fst xs) - {fst (xs ! i)}"
    "distinct (map fst (swap_remove i xs))" by auto
qed

text \<open>Waking the tasks of some entries of the blocked list, in any order.\<close>

lemma wake_one_inv:
  assumes inv: "kernel_inv n k" and p: "p \<in> set (map fst (blocked_agents k))"
    and bs: "distinct (map fst bs)" "set (map fst bs) = set (map fst (blocked_agents k)) - {p}"
  shows "kernel_inv n (wake_one p (k\<lparr>blocked_agents := bs\<rparr>))"
proof -
  from p kernel_invD(5) [OF inv] obtain t where t: "tcbs k p = Some t" "task_status t = Blocked"
    by (auto simp: status_Some)
  with kernel_invD(3,4) [OF inv, of p] have nq: "p \<notin> set (ready_queue k)" "current k \<noteq> Some p"
    by (auto simp: status_Some)
  show ?thesis
    using t nq bs kernel_invD(1) [OF inv] kernel_invD(6) [OF inv t(1)]
    by (intro kernel_inv_move [OF inv t(1), where t' = "t\<lparr>task_status := Ready\<rparr>"])
      (auto simp: wake_one_def add_task_def update_tcb_def task_ok_def)
qed

lemma wake_agent_by_pid_inv:
  assumes "kernel_inv n k"
  shows "kernel_inv n (snd (wake_agent_by_pid p k))"
proof (cases "position (\<lambda>e. fst e = p) (blocked_agents k)")
  case None
  with assms show ?thesis by (simp add: wake_agent_by_pid_def)
next
  case (Some i)
  then have i: "i < length (blocked_agents k)" "fst (blocked_agents k ! i) = p" by (auto dest: position_Some)
  have p: "p \<in> set (map fst (blocked_agents k))" using i by (metis length_map nth_map nth_mem)
  note sr = keys_swap_remove [OF i(1) kernel_invD(2) [OF assms], unfolded i(2)]
  from wake_one_inv [OF assms p sr(2) sr(1)] Some i(2) show ?thesis by (simp add: wake_agent_by_pid_def)
qed

lemma ext_of_keep:
  "(\<And>t. agent_ext_of (f t) = agent_ext_of t) \<Longrightarrow> ext_of (update_tcb p f k) q = ext_of k q"
  by (cases "tcbs k p") (auto simp: ext_of_def)

lemma wake_one_sel [simp]:
  "current (wake_one p k) = current k" "blocked_agents (wake_one p k) = blocked_agents k"
  "dom (tcbs (wake_one p k)) = dom (tcbs k)" "initproc (wake_one p k) = initproc k"
  "ext_of (wake_one p k) q = ext_of k q"
proof -
  show "ext_of (wake_one p k) q = ext_of k q"
    using ext_of_keep [of "\<lambda>t. t\<lparr>task_status := Ready\<rparr>" p k q] by (simp add: wake_one_def add_task_def ext_of_def)
qed (simp_all add: wake_one_def add_task_def)

lemma wake_agent_by_pid_sel [simp]:
  "current (snd (wake_agent_by_pid p k)) = current k"
  "ext_of (snd (wake_agent_by_pid p k)) q = ext_of k q"
proof -
  have "ext_of (k\<lparr>blocked_agents := bs\<rparr>) q = ext_of k q" for bs by (simp add: ext_of_def)
  then show "ext_of (snd (wake_agent_by_pid p k)) q = ext_of k q"
    by (simp add: wake_agent_by_pid_def split: option.split)
qed (simp add: wake_agent_by_pid_def split: option.split)

lemma wake_pids_inv:
  "kernel_inv n k \<Longrightarrow> kernel_inv n (wake_pids ps k)"
  by (induction ps arbitrary: k) (simp_all add: wake_agent_by_pid_inv)

lemma wake_pids_current [simp]: "current (wake_pids ps k) = current k"
  by (induction ps arbitrary: k) simp_all

lemma wake_pids_ext [simp]: "ext_of (wake_pids ps k) q = ext_of k q"
  by (induction ps arbitrary: k) simp_all

lemma wake_agent_by_pid_blocked:
  assumes "kernel_inv n k"
  shows "set (map fst (blocked_agents (snd (wake_agent_by_pid p k)))) = set (map fst (blocked_agents k)) - {p}"
proof (cases "position (\<lambda>e. fst e = p) (blocked_agents k)")
  case None
  then have "p \<notin> set (map fst (blocked_agents k))" by (auto simp: position_None)
  with None show ?thesis by (simp add: wake_agent_by_pid_def)
next
  case (Some i)
  then have i: "i < length (blocked_agents k)" "fst (blocked_agents k ! i) = p" by (auto dest: position_Some)
  from keys_swap_remove(1) [OF i(1) kernel_invD(2) [OF assms]] Some i(2) show ?thesis
    by (simp add: wake_agent_by_pid_def)
qed

lemma wake_pids_blocked_set:
  assumes "kernel_inv n k"
  shows "set (map fst (blocked_agents (wake_pids ps k))) = set (map fst (blocked_agents k)) - set ps"
  using assms
proof (induction ps arbitrary: k)
  case (Cons p ps)
  from Cons.IH [OF wake_agent_by_pid_inv [OF Cons.prems]] wake_agent_by_pid_blocked [OF Cons.prems]
  show ?case by auto
qed simp

lemma wake_pids_blocked:
  assumes "kernel_inv n k" "p \<in> set ps"
  shows "p \<notin> set (map fst (blocked_agents (wake_pids ps k)))"
  using assms(2) by (simp only: wake_pids_blocked_set [OF assms(1)]) simp

text \<open>Waking only turns blocked tasks into ready ones and shortens the blocked list.\<close>

definition wakes :: "kernel \<Rightarrow> kernel \<Rightarrow> bool" where
  "wakes k k' \<longleftrightarrow> set (blocked_agents k') \<subseteq> set (blocked_agents k) \<and>
     (\<forall>q. status_of k' q = status_of k q \<or> status_of k q = Some Blocked \<and> status_of k' q = Some Ready)"

lemma wakes_refl [simp, intro]: "wakes k k"
  by (simp add: wakes_def)

lemma wakes_trans:
  assumes "wakes k k1" "wakes k1 k2"
  shows "wakes k k2"
proof -
  have "status_of k2 q = status_of k q \<or> status_of k q = Some Blocked \<and> status_of k2 q = Some Ready" for q
  proof -
    from assms have "status_of k1 q = status_of k q \<or> status_of k q = Some Blocked \<and> status_of k1 q = Some Ready"
      "status_of k2 q = status_of k1 q \<or> status_of k1 q = Some Blocked \<and> status_of k2 q = Some Ready"
      by (simp_all add: wakes_def)
    then show ?thesis by auto
  qed
  with assms show ?thesis by (auto simp: wakes_def)
qed

lemma frame_wakes: "frame k k' \<Longrightarrow> wakes k k'"
  by (simp add: wakes_def frame_views(1)) (simp add: frame_def)

lemma wake_one_wakes:
  assumes "status_of k p = Some Blocked" "set bs \<subseteq> set (blocked_agents k)"
  shows "wakes k (wake_one p (k\<lparr>blocked_agents := bs\<rparr>))"
proof -
  have "status_of (wake_one p (k\<lparr>blocked_agents := bs\<rparr>)) q = (if q = p then Some Ready else status_of k q)" for q
    using assms(1) by (auto simp: status_of_def wake_one_def add_task_def)
  with assms show ?thesis by (simp add: wakes_def)
qed

lemma wake_agent_by_pid_wakes:
  assumes "kernel_inv n k"
  shows "wakes k (snd (wake_agent_by_pid p k))"
proof (cases "position (\<lambda>e. fst e = p) (blocked_agents k)")
  case (Some i)
  then have i: "i < length (blocked_agents k)" "fst (blocked_agents k ! i) = p" by (auto dest: position_Some)
  have "p \<in> set (map fst (blocked_agents k))" using i by (metis length_map nth_map nth_mem)
  then have "status_of k p = Some Blocked" by (simp only: kernel_invD(5) [OF assms])
  moreover have "set (swap_remove i (blocked_agents k)) \<subseteq> set (blocked_agents k)"
    using mset_swap_remove [OF i(1)] by (metis diff_subset_eq_self set_mset_mono set_mset_mset)
  ultimately show ?thesis using wake_one_wakes Some i(2) by (simp add: wake_agent_by_pid_def)
qed (simp add: wake_agent_by_pid_def)

lemma wake_pids_wakes:
  assumes "kernel_inv n k"
  shows "wakes k (wake_pids ps k)"
  using assms
proof (induction ps arbitrary: k)
  case (Cons p ps)
  from Cons.IH [OF wake_agent_by_pid_inv [OF Cons.prems]] wake_agent_by_pid_wakes [OF Cons.prems]
  show ?case by (auto intro: wakes_trans)
qed simp

section \<open>Timeouts\<close>

lemma timeouts_loop_split:
  assumes "timeouts_loop now i bs w = (bs', w')" "\<forall>e\<in>set (take i bs). \<not> due now (snd e)"
  shows "\<exists>es. w' = w @ map fst es \<and> mset bs = mset bs' + mset es \<and>
           (\<forall>e\<in>set es. due now (snd e)) \<and> (\<forall>e\<in>set bs'. \<not> due now (snd e))"
  using assms
proof (induction now i bs w arbitrary: bs' w' rule: timeouts_loop.induct)
  case (1 now i bs w)
  consider (stop) "\<not> i < length bs" | (hit) "i < length bs" "due now (snd (bs ! i))"
    | (skip) "i < length bs" "\<not> due now (snd (bs ! i))" by blast
  then show ?case
  proof cases
    case stop
    with 1(3,4) show ?thesis by (intro exI [of _ "[]"]) (simp add: timeouts_loop.simps)
  next
    case hit
    have "take i (swap_remove i bs) = take i bs" using hit(1) by (auto simp: swap_remove_def take_butlast butlast_conv_take)
    with hit 1(3,4) 1(1) [OF hit, of bs' w'] obtain es where
      es: "w' = (w @ [fst (bs ! i)]) @ map fst es" "mset (swap_remove i bs) = mset bs' + mset es"
        "\<forall>e\<in>set es. due now (snd e)" "\<forall>e\<in>set bs'. \<not> due now (snd e)"
      by (auto simp: timeouts_loop.simps [of now i bs])
    from hit(1) have "mset bs = add_mset (bs ! i) (mset (swap_remove i bs))" by (simp add: mset_swap_remove)
    with es hit(2) show ?thesis by (intro exI [of _ "bs ! i # es"]) simp
  next
    case skip
    with 1(4) have "\<forall>e\<in>set (take (Suc i) bs). \<not> due now (snd e)" by (auto simp: take_Suc_conv_app_nth)
    with skip 1(3) 1(2) [OF skip, of bs' w'] show ?thesis by (simp add: timeouts_loop.simps [of now i bs])
  qed
qed

text \<open>The queues in another order.\<close>

lemma kernel_inv_requeue:
  assumes inv: "kernel_inv n k" and k': "tcbs k' = tcbs k" "initproc k' = initproc k" "pids k' = pids k"
    "ready_queue k' = ready_queue k" "current k' = current k"
    and bs: "distinct (map fst (blocked_agents k'))" "set (map fst (blocked_agents k')) = set (map fst (blocked_agents k))"
  shows "kernel_inv n k'"
proof -
  have v: "status_of k' = status_of k" "parent_of k' = parent_of k" "children_of k' = children_of k"
    by (auto simp: status_of_def parent_of_def children_of_def k')
  then have c: "child_rel k' = child_rel k" by (simp add: child_rel_def)
  have "sched_inv k'" using inv bs by (simp add: kernel_inv_def sched_inv_def v k')
  moreover have "tree_inv k' = tree_inv k" unfolding tree_inv_def v c k' ..
  moreover have "tasks_ok k' = tasks_ok k" "pids_inv n k' = pids_inv n k" by (simp_all add: tasks_ok_def pids_inv_def k')
  ultimately show ?thesis using inv by (simp add: kernel_inv_def)
qed

lemma wake_all_inv:
  assumes "kernel_inv n k" "mset (blocked_agents k) = mset bs + mset es"
  shows "kernel_inv n (wake_all (map fst es) (k\<lparr>blocked_agents := bs\<rparr>)) \<and>
         wakes k (wake_all (map fst es) (k\<lparr>blocked_agents := bs\<rparr>))"
  using assms
proof (induction es arbitrary: k)
  case Nil
  then have m: "mset (map fst (blocked_agents k)) = mset (map fst bs)" by simp
  have "distinct (map fst bs)" "set (map fst bs) = set (map fst (blocked_agents k))"
    using kernel_invD(2) [OF Nil(1)] mset_eq_imp_distinct_iff [OF m] mset_eq_setD [OF m] by simp_all
  then have "kernel_inv n (k\<lparr>blocked_agents := bs\<rparr>)" by (intro kernel_inv_requeue [OF Nil(1)]) simp_all
  moreover from Nil(2) have "mset (blocked_agents k) = mset bs" by simp
  from mset_eq_setD [OF this] have "set bs = set (blocked_agents k)" by (rule sym)
  ultimately show ?case by (simp add: wakes_def status_of_def)
next
  case (Cons e es)
  let ?k = "wake_one (fst e) (k\<lparr>blocked_agents := bs @ es\<rparr>)"
  from Cons.prems(2) have m: "mset (map fst (blocked_agents k)) = mset (fst e # map fst (bs @ es))"
    by simp
  have d: "distinct (fst e # map fst (bs @ es))" using kernel_invD(2) [OF Cons.prems(1)] mset_eq_imp_distinct_iff [OF m] by simp
  have inv: "kernel_inv n ?k"
    using d mset_eq_setD [OF m] by (intro wake_one_inv [OF Cons.prems(1)]) auto
  have wk: "wakes k ?k"
  proof (rule wake_one_wakes)
    have "fst e \<in> set (map fst (blocked_agents k))" using mset_eq_setD [OF m] by simp
    then show "status_of k (fst e) = Some Blocked" by (simp only: kernel_invD(5) [OF Cons.prems(1)])
    show "set (bs @ es) \<subseteq> set (blocked_agents k)"
      using arg_cong [OF Cons.prems(2), of set_mset] by auto
  qed
  have "mset (blocked_agents ?k) = mset bs + mset es" by simp
  note ih = Cons.IH [OF inv this]
  have "kernel_inv n (wake_all (map fst es) (?k\<lparr>blocked_agents := bs\<rparr>)) \<and>
      wakes k (wake_all (map fst es) (?k\<lparr>blocked_agents := bs\<rparr>))"
    using ih wakes_trans [OF wk conjunct2 [OF ih]] by (rule conjI [OF conjunct1])
  moreover have "?k\<lparr>blocked_agents := bs\<rparr> = wake_one (fst e) (k\<lparr>blocked_agents := bs\<rparr>)"
    by (simp add: wake_one_def add_task_def update_tcb_def)
  ultimately show ?case by simp
qed

lemma wake_all_sel [simp]:
  "current (wake_all ps k) = current k" "blocked_agents (wake_all ps k) = blocked_agents k"
  by (induction ps arbitrary: k) simp_all

lemma wake_all_ext [simp]: "ext_of (wake_all ps k) q = ext_of k q"
  by (induction ps arbitrary: k) simp_all

lemma wake_all_ready: "ready_queue (wake_all ps k) = ready_queue k @ ps"
  by (induction ps arbitrary: k) (simp_all add: wake_one_def add_task_def)

lemma tick_wake_timeouts_spec:
  assumes "kernel_inv n k"
  shows "kernel_inv n (tick_wake_timeouts now k)" "current (tick_wake_timeouts now k) = current k"
    "\<exists>es. ready_queue (tick_wake_timeouts now k) = ready_queue k @ map fst es \<and>
       mset (blocked_agents k) = mset (blocked_agents (tick_wake_timeouts now k)) + mset es \<and>
       (\<forall>e\<in>set es. due now (snd e)) \<and> (\<forall>e\<in>set (blocked_agents (tick_wake_timeouts now k)). \<not> due now (snd e))"
    "wakes k (tick_wake_timeouts now k)" "ext_of (tick_wake_timeouts now k) q = ext_of k q"
proof -
  obtain bs w where l: "timeouts_loop now 0 (blocked_agents k) [] = (bs, w)" by fastforce
  from timeouts_loop_split [OF this] obtain es where es: "w = map fst es"
    "mset (blocked_agents k) = mset bs + mset es" "\<forall>e\<in>set es. due now (snd e)" "\<forall>e\<in>set bs. \<not> due now (snd e)" by auto
  have t: "tick_wake_timeouts now k = wake_all (map fst es) (k\<lparr>blocked_agents := bs\<rparr>)"
    by (simp add: tick_wake_timeouts_def l es(1))
  show "kernel_inv n (tick_wake_timeouts now k)" "wakes k (tick_wake_timeouts now k)"
    unfolding t using wake_all_inv [OF assms es(2)] by blast+
  show "ext_of (tick_wake_timeouts now k) q = ext_of k q" by (simp add: t) (simp add: ext_of_def)
  show "current (tick_wake_timeouts now k) = current k" by (simp add: t)
  show "\<exists>es. ready_queue (tick_wake_timeouts now k) = ready_queue k @ map fst es \<and>
       mset (blocked_agents k) = mset (blocked_agents (tick_wake_timeouts now k)) + mset es \<and>
       (\<forall>e\<in>set es. due now (snd e)) \<and> (\<forall>e\<in>set (blocked_agents (tick_wake_timeouts now k)). \<not> due now (snd e))"
    using es by (intro exI [of _ es]) (simp add: t wake_all_ready)
qed

end
