(* ===== verification/Kernel_Tree.thy ===== *)
theory Kernel_Tree
  imports Kernel_Sched
begin

text \<open>
  The process tree: the breadth-first listing returns every process once, and creating, ending and
  reaping a process keep the invariant.
\<close>

section \<open>Listing all processes\<close>

definition bfs_inv :: "kernel \<Rightarrow> usize list \<Rightarrow> usize list \<Rightarrow> bool" where
  "bfs_inv k q out \<longleftrightarrow>
     distinct (out @ q) \<and> set (out @ q) \<subseteq> dom (tcbs k) \<and> initproc k \<in> set (out @ q) \<and>
     (\<forall>p\<in>set out. set (children_of k p) \<subseteq> set (out @ q)) \<and>
     (\<forall>c\<in>set (out @ q). c \<noteq> initproc k \<longrightarrow> (\<exists>p\<in>set out. c \<in> set (children_of k p)))"

lemma tree_child:
  assumes "tree_inv k" "c \<in> set (children_of k p)"
  shows "c \<in> dom (tcbs k)" "p \<in> dom (tcbs k)" "parent_of k c = Some (Some p)" "c \<noteq> initproc k"
proof -
  show par: "parent_of k c = Some (Some p)" using assms by (simp add: tree_inv_def)
  then show "c \<in> dom (tcbs k)" by (auto simp: parent_of_def)
  show "p \<in> dom (tcbs k)" using assms(2) by (cases "tcbs k p") (auto simp: children_of_def)
  show "c \<noteq> initproc k" using par assms(1) by (auto simp: tree_inv_def)
qed

lemma bfs_step:
  assumes tree: "tree_inv k" and b: "bfs_inv k (p # q) out"
  shows "bfs_inv k (q @ children_of k p) (out @ [p])"
proof -
  have new: "c \<notin> set (out @ p # q)" if c: "c \<in> set (children_of k p)" for c
  proof
    assume "c \<in> set (out @ p # q)"
    with b tree_child(4) [OF tree c] obtain p' where "p' \<in> set out" "c \<in> set (children_of k p')"
      unfolding bfs_inv_def by blast
    with tree_child(3) [OF tree c] tree_child(3) [OF tree, of c p'] have "p \<in> set out" by simp
    with b show False by (simp add: bfs_inv_def)
  qed
  have "distinct (children_of k p)" using tree by (simp add: tree_inv_def)
  with b new have "distinct ((out @ [p]) @ q @ children_of k p)" by (auto simp: bfs_inv_def)
  moreover have "set ((out @ [p]) @ q @ children_of k p) \<subseteq> dom (tcbs k)"
    using b tree_child(1) [OF tree] by (auto simp: bfs_inv_def)
  ultimately show ?thesis using b unfolding bfs_inv_def by auto
qed

lemma bfs_done:
  assumes tree: "tree_inv k" and b: "bfs_inv k [] out"
  shows "set out = dom (tcbs k)"
proof -
  from b have root: "initproc k \<in> set out" and cl: "\<And>p. p \<in> set out \<Longrightarrow> set (children_of k p) \<subseteq> set out"
    and sub: "set out \<subseteq> dom (tcbs k)" by (simp_all add: bfs_inv_def)
  have "p \<in> set out" if "(initproc k, p) \<in> (child_rel k)\<^sup>*" for p
    using that
  proof (induction rule: rtrancl_induct)
    case (step y z)
    then have "z \<in> set (children_of k y)" by (simp add: child_rel_def)
    with cl [OF step.IH] show ?case by (rule subsetD)
  qed (rule root)
  with tree have "dom (tcbs k) \<subseteq> set out" unfolding tree_inv_def by blast
  with sub show ?thesis by (rule equalityI)
qed

lemma snapshot_loop_eqs:
  "snapshot_loop k [] out = Some out"
  "tcbs k p = Some t \<Longrightarrow> snapshot_loop k (p # q) out = snapshot_loop k (q @ children_of k p) (out @ [p])"
  by (subst snapshot_loop.simps, simp add: children_of_def)+

lemma snapshot_loop_ok:
  assumes "tree_inv k" "bfs_inv k q out"
  shows "\<exists>ps. snapshot_loop k q out = Some ps \<and> distinct ps \<and> set ps = dom (tcbs k)"
  using assms(2)
proof (induction "card (dom (tcbs k)) - length out" arbitrary: q out rule: less_induct)
  case less
  show ?case
  proof (cases q)
    case Nil
    with less.prems have b: "bfs_inv k [] out" by simp
    then have "distinct out" by (simp add: bfs_inv_def)
    with Nil bfs_done [OF assms(1) b] show ?thesis by (simp add: snapshot_loop_eqs(1))
  next
    case (Cons p r)
    with less.prems have b: "bfs_inv k (p # r) out" by simp
    from b have d: "distinct (out @ p # r)" and s: "set (out @ p # r) \<subseteq> dom (tcbs k)" by (simp_all add: bfs_inv_def)
    from s obtain t where t: "tcbs k p = Some t" by auto
    have "length (out @ p # r) \<le> card (dom (tcbs k))"
      using card_mono [OF _ s] distinct_card [OF d] by simp
    then have "card (dom (tcbs k)) - length (out @ [p]) < card (dom (tcbs k)) - length out" by simp
    from less.hyps [OF this bfs_step [OF assms(1) b]] show ?thesis
      unfolding Cons snapshot_loop_eqs(2) [OF t] .
  qed
qed

lemma tree_root: "tree_inv k \<Longrightarrow> initproc k \<in> dom (tcbs k)"
  by (auto simp: tree_inv_def parent_of_def)

lemma snapshot_all:
  assumes "kernel_inv n k"
  obtains ps where "snapshot_all_processes k = Some ps" "distinct ps" "set ps = dom (tcbs k)"
proof -
  from assms have tree: "tree_inv k" by (simp add: kernel_inv_def)
  have "bfs_inv k [initproc k] []" using tree_root [OF tree] by (auto simp: bfs_inv_def)
  from snapshot_loop_ok [OF tree this] that show thesis by (auto simp: snapshot_all_processes_def)
qed

section \<open>Events\<close>

lemma ext_of_update_ext: "ext_of (update_ext p f k) q = (if q = p then map_option f (ext_of k p) else ext_of k q)"
  by (cases "tcbs k p") (auto simp: ext_of_def update_ext_def)

definition beat :: "u64 \<Rightarrow> agent_ext \<Rightarrow> agent_ext" where
  "beat now e = (if heartbeat_due now e then e\<lparr>heartbeat_pending := True, heartbeat_last_ms := now\<rparr> else e)"

definition beats :: "u64 \<Rightarrow> kernel \<Rightarrow> usize \<Rightarrow> bool" where
  "beats now k p \<longleftrightarrow> (\<exists>e. ext_of k p = Some e \<and> heartbeat_due now e)"

lemma tick_loop_Cons:
  "tick_loop now (p # ps) w k =
     (if beats now k p then tick_loop now ps (w @ [p]) (update_ext p (beat now) k) else tick_loop now ps w k)"
proof (cases "ext_of k p")
  case (Some e)
  then obtain t where t: "tcbs k p = Some t" "agent_ext_of t = Some e" by (auto simp: ext_of_def bind_eq_Some_conv)
  have "update_ext p (beat now) k = update_ext p (\<lambda>e. e\<lparr>heartbeat_pending := True, heartbeat_last_ms := now\<rparr>) k"
    if "heartbeat_due now e"
    using t that by (simp add: update_ext_def update_tcb_def beat_def)
  with Some show ?thesis by (simp add: beats_def)
qed (simp add: beats_def)

lemma tick_loop_spec:
  assumes "tick_loop now ps w k = (w', k')" "distinct ps"
  shows "frame k k' \<and> set w' = set w \<union> {p \<in> set ps. beats now k p} \<and>
    (\<forall>p. ext_of k' p = (if p \<in> set ps then map_option (beat now) (ext_of k p) else ext_of k p))"
  using assms
proof (induction ps arbitrary: w k)
  case (Cons p ps)
  let ?k = "update_ext p (beat now) k"
  have fr: "frame k ?k" by (rule frame_update_ext) (simp add: ext_ok_def beat_def)
  have hb: "beats now ?k q = beats now k q" if "q \<noteq> p" for q using that by (simp add: beats_def ext_of_update_ext)
  have nb: "map_option (beat now) (ext_of k p) = ext_of k p" if "\<not> beats now k p"
    using that by (cases "ext_of k p") (simp_all add: beats_def beat_def)
  show ?case
  proof (cases "beats now k p")
    case True
    with Cons.prems(1) have "tick_loop now ps (w @ [p]) ?k = (w', k')" by (simp only: tick_loop_Cons if_True)
    from Cons.IH [OF this] Cons.prems(2) have ih: "frame ?k k'" "set w' = set (w @ [p]) \<union> {p \<in> set ps. beats now ?k p}"
      "\<forall>q. ext_of k' q = (if q \<in> set ps then map_option (beat now) (ext_of ?k q) else ext_of ?k q)"
      by simp_all
    have "{q \<in> set ps. beats now ?k q} = {q \<in> set ps. beats now k q}" using hb Cons.prems(2) by fastforce
    with ih(2,3) True Cons.prems(2) frame_trans [OF fr ih(1)] show ?thesis by (auto simp: ext_of_update_ext)
  next
    case False
    with Cons.prems(1) have "tick_loop now ps w k = (w', k')" by (simp only: tick_loop_Cons if_False)
    from Cons.IH [OF this] Cons.prems(2) have "frame k k'" "set w' = set w \<union> {p \<in> set ps. beats now k p}"
      "\<forall>q. ext_of k' q = (if q \<in> set ps then map_option (beat now) (ext_of k q) else ext_of k q)"
      by simp_all
    with False Cons.prems(2) nb show ?thesis by auto
  qed
qed simp

lemma file_event_loop_spec:
  assumes "file_event_loop ps w k = (w', k')"
  shows "frame k k'"
  using assms
proof (induction ps w k rule: file_event_loop.induct)
  case (2 p ps w k)
  have "frame k (update_ext p (\<lambda>e. e\<lparr>file_event_pending := True\<rparr>) k)"
    by (rule frame_update_ext) (simp add: ext_ok_def)
  with 2 show ?case by (auto split: option.splits if_splits intro: frame_trans)
qed simp

lemma tick_all_agents_ok:
  assumes inv: "kernel_inv n k"
  obtains k' where "tick_all_agents now k = Some k'" "kernel_inv n k'" "current k' = current k"
    "\<forall>p. ext_of k' p = map_option (beat now) (ext_of k p)"
    "\<forall>p. beats now k p \<longrightarrow> p \<notin> set (map fst (blocked_agents k'))" "wakes k k'"
proof -
  obtain ps where ps: "snapshot_all_processes k = Some ps" "distinct ps" "set ps = dom (tcbs k)"
    by (rule snapshot_all [OF inv])
  obtain w k1 where l: "tick_loop now ps [] k = (w, k1)" by fastforce
  from tick_loop_spec [OF l ps(2)] have fr: "frame k k1" and w: "set w = {p \<in> set ps. beats now k p}"
    and e: "\<And>p. ext_of k1 p = (if p \<in> set ps then map_option (beat now) (ext_of k p) else ext_of k p)" by simp_all
  have e': "ext_of k1 p = map_option (beat now) (ext_of k p)" for p
    using e [of p] ps(3) by (cases "tcbs k p") (auto simp: ext_of_def)
  from frame_inv [OF fr inv] have inv1: "kernel_inv n k1" .
  have wk: "beats now k p \<Longrightarrow> p \<in> set w" for p
    using ps(3) w by (cases "tcbs k p") (auto simp: beats_def ext_of_def)
  show thesis
  proof (rule that [of "wake_pids w k1"])
    show "tick_all_agents now k = Some (wake_pids w k1)" by (simp add: tick_all_agents_def ps l)
    show "kernel_inv n (wake_pids w k1)" by (rule wake_pids_inv [OF inv1])
    show "current (wake_pids w k1) = current k" using fr by (simp add: frame_def)
    show "\<forall>p. ext_of (wake_pids w k1) p = map_option (beat now) (ext_of k p)"
      by (simp add: e' wake_pids_ext)
    show "wakes k (wake_pids w k1)" by (rule wakes_trans [OF frame_wakes [OF fr] wake_pids_wakes [OF inv1]])
    show "\<forall>p. beats now k p \<longrightarrow> p \<notin> set (map fst (blocked_agents (wake_pids w k1)))"
      using wake_pids_blocked [OF inv1 wk] by blast
  qed
qed

lemma broadcast_file_event_ok:
  assumes inv: "kernel_inv n k"
  obtains k' where "broadcast_file_event k = Some k'" "kernel_inv n k'" "current k' = current k"
proof -
  obtain ps where ps: "snapshot_all_processes k = Some ps" by (rule snapshot_all [OF inv])
  obtain w k1 where l: "file_event_loop ps [] k = (w, k1)" by fastforce
  note fr = file_event_loop_spec [OF l]
  from that [of "wake_pids w k1"] wake_pids_inv [OF frame_inv [OF fr inv]] fr ps l show thesis
    by (simp add: broadcast_file_event_def frame_def)
qed

lemma push_message_ok: "ext_ok e \<Longrightarrow> ext_ok (push_message msg e)"
  by (auto simp: push_message_def ext_ok_def Let_def)

lemma deliver_message_ok:
  assumes inv: "kernel_inv n k"
  obtains k' where "deliver_message p msg k = Some (ext_of k p \<noteq> None, k')" "kernel_inv n k'" "current k' = current k"
    "\<forall>q. ext_of k' q = (if q = p then map_option (push_message msg) (ext_of k p) else ext_of k q)"
    "p \<notin> set (map fst (blocked_agents k')) \<or> ext_of k p = None"
proof -
  obtain ps where ps: "snapshot_all_processes k = Some ps" "set ps = dom (tcbs k)" by (rule snapshot_all [OF inv])
  show thesis
  proof (cases "ext_of k p = None")
    case True
    with inv ps that [of k] show thesis by (auto simp: deliver_message_def)
  next
    case False
    then have p: "p \<in> set ps" using ps(2) by (auto simp: ext_of_def)
    let ?k = "update_ext p (push_message msg) k"
    have fr: "frame k ?k" by (rule frame_update_ext) (rule push_message_ok)
    let ?k' = "snd (wake_agent_by_pid p ?k)"
    from False p ps have d: "deliver_message p msg k = Some (True, ?k')" by (simp add: deliver_message_def)
    show thesis
    proof (rule that [of ?k'])
      show "deliver_message p msg k = Some (ext_of k p \<noteq> None, ?k')" using d False by simp
      show "kernel_inv n ?k'" by (rule wake_agent_by_pid_inv [OF frame_inv [OF fr inv]])
      show "current ?k' = current k" using fr by (simp add: frame_def)
      show "\<forall>q. ext_of ?k' q = (if q = p then map_option (push_message msg) (ext_of k p) else ext_of k q)"
        by (simp add: ext_of_update_ext)
      show "p \<notin> set (map fst (blocked_agents ?k')) \<or> ext_of k p = None"
        by (simp only: wake_agent_by_pid_blocked [OF frame_inv [OF fr inv]]) simp
    qed
  qed
qed

end
