(* ===== verification/Kernel_Life.thy ===== *)
theory Kernel_Life
  imports Kernel_Tree
begin

text \<open>
  Creation, end and reaping of processes keep the kernel invariant, and the assertion of
  \<open>sys_waitpid\<close> on the number of references to a reaped child holds.
\<close>

section \<open>Ending a process\<close>

lemma reparent_sel [simp]:
  "ready_queue (reparent cs k) = ready_queue k" "current (reparent cs k) = current k"
  "blocked_agents (reparent cs k) = blocked_agents k" "initproc (reparent cs k) = initproc k"
  "pids (reparent cs k) = pids k" "k_machine (reparent cs k) = k_machine k"
  by (induction cs arbitrary: k) simp_all

lemma reparent_tcbs:
  assumes "initproc k \<notin> set cs" "distinct cs"
  shows "tcbs (reparent cs k) q =
    (if q \<in> set cs then map_option (\<lambda>t. t\<lparr>parent := Some (initproc k)\<rparr>) (tcbs k q)
     else if q = initproc k then map_option (\<lambda>t. t\<lparr>children := children t @ cs\<rparr>) (tcbs k q)
     else tcbs k q)"
  using assms
proof (induction cs arbitrary: k)
  case Nil
  show ?case by (auto simp: option.map_ident)
next
  case (Cons c cs)
  then show ?case by (auto simp: option.map_comp comp_def)
qed

lemma not_own_child:
  assumes tree: "tree_inv k" and p: "p \<in> dom (tcbs k)"
  shows "p \<notin> set (children_of k p)"
proof
  assume c: "p \<in> set (children_of k p)"
  from p tree have "(initproc k, p) \<in> (child_rel k)\<^sup>*" unfolding tree_inv_def by blast
  moreover have "x \<noteq> p" if "(initproc k, x) \<in> (child_rel k)\<^sup>*" for x
    using that
  proof (induction rule: rtrancl_induct)
    case base
    show ?case using tree_child(4) [OF tree c] by simp
  next
    case (step y z)
    then have "z \<in> set (children_of k y)" by (simp add: child_rel_def)
    with tree_child(3) [OF tree this] tree_child(3) [OF tree c] step.IH show ?case by auto
  qed
  ultimately show False by blast
qed

text \<open>The tree after the children of \<open>p\<close> moved below the initial process.\<close>

lemma tree_inv_exit:
  assumes tree: "tree_inv k" and p: "p \<in> dom (tcbs k)" "p \<noteq> initproc k"
    and ch: "children_of k' = (\<lambda>q. if q = p then [] else if q = initproc k then children_of k q @ children_of k p
                                  else children_of k q)"
    and par: "parent_of k' = (\<lambda>q. if q \<in> set (children_of k p) then Some (Some (initproc k)) else parent_of k q)"
    and k': "initproc k' = initproc k" "dom (tcbs k') = dom (tcbs k)"
  shows "tree_inv k'"
  unfolding tree_inv_def
proof (intro conjI allI impI ballI)
  have root: "initproc k \<notin> set (children_of k p)" using tree_child(4) [OF tree] by blast
  have "parent_of k (initproc k) = Some None" using tree by (simp add: tree_inv_def)
  then show "parent_of k' (initproc k') = Some None" using root by (simp add: par k')
  have disj: "set (children_of k (initproc k)) \<inter> set (children_of k p) = {}"
  proof (intro equals0I)
    fix c assume "c \<in> set (children_of k (initproc k)) \<inter> set (children_of k p)"
    with tree_child(3) [OF tree, of c p] tree_child(3) [OF tree, of c "initproc k"] p(2) show False by simp
  qed
  have "distinct (children_of k q)" for q using tree by (simp add: tree_inv_def)
  then show "distinct (children_of k' q)" for q using disj by (simp add: ch)
  show "parent_of k' c = Some (Some q)" if c: "c \<in> set (children_of k' q)" for q c
  proof (cases "c \<in> set (children_of k p)")
    case True
    have "q \<noteq> p" using c by (auto simp: ch)
    moreover have "c \<notin> set (children_of k q)" if "q \<noteq> p"
      using tree_child(3) [OF tree True] tree_child(3) [OF tree, of c q] that by auto
    ultimately have "q = initproc k" using c by (simp add: ch split: if_splits)
    with True show ?thesis by (simp add: par)
  next
    case False
    with c have "c \<in> set (children_of k q)" by (simp add: ch split: if_splits)
    with False tree_child(3) [OF tree this] show ?thesis by (simp add: par)
  qed
  show "(initproc k', q) \<in> (child_rel k')\<^sup>*" if "q \<in> dom (tcbs k')" for q
  proof -
    from that tree have "(initproc k, q) \<in> (child_rel k)\<^sup>*" unfolding tree_inv_def k' by blast
    then show ?thesis
    proof (induction rule: rtrancl_induct)
      case (step y z)
      then have z: "z \<in> set (children_of k y)" by (simp add: child_rel_def)
      show ?case
      proof (cases "y = p")
        case True
        with z p(2) have "(initproc k', z) \<in> child_rel k'" by (simp add: child_rel_def ch k')
        then show ?thesis by (rule r_into_rtrancl)
      next
        case False
        with z have "(y, z) \<in> child_rel k'" by (cases "y = initproc k") (simp_all add: child_rel_def ch)
        with step.IH show ?thesis by (rule rtrancl_into_rtrancl)
      qed
    qed (simp add: k')
  qed
qed

lemma exit_current_shape:
  assumes inv: "kernel_inv n k" and ex: "exit_current code k = Some (Exited k')"
  obtains p t ms where "current k = Some p" "p \<noteq> IDLE_PID" "tcbs k p = Some t"
    "ready_queue k' = ready_queue k" "current k' = None" "blocked_agents k' = blocked_agents k"
    "initproc k' = initproc k" "pids k' = pids k" "initproc k \<notin> set (children t)" "p \<notin> set (children t)"
    "p \<noteq> initproc k"
    "\<forall>q. tcbs k' q =
      (if q = p then Some (t\<lparr>task_status := Zombie, exit_code := code, children := [], memory_set_of := ms\<rparr>)
       else if q \<in> set (children t) then map_option (\<lambda>t. t\<lparr>parent := Some (initproc k)\<rparr>) (tcbs k q)
       else if q = initproc k then map_option (\<lambda>u. u\<lparr>children := children u @ children t\<rparr>) (tcbs k q)
       else tcbs k q)"
proof -
  from ex obtain p t ms mc where p: "current k = Some p" "p \<noteq> IDLE_PID" "tcbs k p = Some t"
    and k': "k' = update_tcb p (\<lambda>t. t\<lparr>memory_set_of := ms\<rparr>)
       ((update_tcb p (\<lambda>t. t\<lparr>children := []\<rparr>) (reparent (children t)
           (update_tcb p (\<lambda>t. t\<lparr>task_status := Zombie, exit_code := code\<rparr>) (k\<lparr>current := None\<rparr>))))\<lparr>k_machine := mc\<rparr>)"
    by (auto simp: exit_current_def take_current_task_def Let_def bind_eq_Some_conv split: if_splits)
  from inv have tree: "tree_inv k" and init: "initproc k = IDLE_PID" by (simp_all add: kernel_inv_def pids_inv_def)
  let ?i = "initproc k" and ?cs = "children t"
  have cs: "children_of k p = ?cs" by (simp add: children_of_def p)
  have i: "?i \<notin> set ?cs" using tree_child(4) [OF tree, of ?i p] cs by auto
  have self: "p \<notin> set ?cs" using not_own_child [OF tree, of p] p(3) cs by auto
  have d: "distinct ?cs" using tree cs unfolding tree_inv_def by metis
  have pi: "p \<noteq> ?i" using p(2) init by simp
  show thesis
  proof (rule that [OF p])
    show "\<forall>q. tcbs k' q =
      (if q = p then Some (t\<lparr>task_status := Zombie, exit_code := code, children := [], memory_set_of := ms\<rparr>)
       else if q \<in> set ?cs then map_option (\<lambda>t. t\<lparr>parent := Some ?i\<rparr>) (tcbs k q)
       else if q = ?i then map_option (\<lambda>u. u\<lparr>children := children u @ ?cs\<rparr>) (tcbs k q)
       else tcbs k q)"
      using p self pi i d by (simp add: k' reparent_tcbs)
  qed (simp_all add: k' i self pi)
qed

lemma exit_current_inv:
  assumes inv: "kernel_inv n k" and ex: "exit_current code k = Some (Exited k')"
  shows "kernel_inv n k' \<and> current k' = None"
proof -
  let ?i = "initproc k"
  obtain p t ms where p: "current k = Some p" "p \<noteq> IDLE_PID" "tcbs k p = Some t"
    and fields: "ready_queue k' = ready_queue k" "current k' = None" "blocked_agents k' = blocked_agents k"
      "initproc k' = ?i" "pids k' = pids k"
    and i: "?i \<notin> set (children t)" and self: "p \<notin> set (children t)" and pi: "p \<noteq> ?i"
    and "\<forall>q. tcbs k' q =
      (if q = p then Some (t\<lparr>task_status := Zombie, exit_code := code, children := [], memory_set_of := ms\<rparr>)
       else if q \<in> set (children t) then map_option (\<lambda>t. t\<lparr>parent := Some ?i\<rparr>) (tcbs k q)
       else if q = ?i then map_option (\<lambda>u. u\<lparr>children := children u @ children t\<rparr>) (tcbs k q)
       else tcbs k q)"
    by (rule exit_current_shape [OF inv ex])
  then have tc: "tcbs k' q =
      (if q = p then Some (t\<lparr>task_status := Zombie, exit_code := code, children := [], memory_set_of := ms\<rparr>)
       else if q \<in> set (children t) then map_option (\<lambda>t. t\<lparr>parent := Some ?i\<rparr>) (tcbs k q)
       else if q = ?i then map_option (\<lambda>u. u\<lparr>children := children u @ children t\<rparr>) (tcbs k q)
       else tcbs k q)" for q by blast
  from inv have tree: "tree_inv k" by (simp add: kernel_inv_def)
  have cs: "children_of k p = children t" by (simp add: children_of_def p)
  have st: "status_of k' q = (if q = p then Some Zombie else status_of k q)" for q
    by (cases "tcbs k q") (auto simp: status_of_def tc)
  obtain r: "p \<notin> set (ready_queue k)" "p \<notin> set (map fst (blocked_agents k))"
    by (rule current_task_status [OF inv p(1)])
  have only: "status_of k q \<noteq> Some Running" if "q \<noteq> p" for q
    using kernel_invD(4) [OF inv, of q] p(1) that by auto
  have "sched_inv k'"
    unfolding sched_inv_def st fields
    using kernel_invD(1,2,3,5,7) [OF inv] only r pi by (auto simp del: set_map split: if_splits)
  moreover have dm: "dom (tcbs k') = dom (tcbs k)" using p(3) by (auto simp: dom_def tc split: if_splits)
  have "tree_inv k'"
  proof (rule tree_inv_exit [OF tree _ pi _ _ fields(4) dm])
    show "p \<in> dom (tcbs k)" using p(3) by blast
    show "children_of k' = (\<lambda>q. if q = p then [] else if q = ?i then children_of k q @ children_of k p else children_of k q)"
    proof
      fix q show "children_of k' q = (if q = p then [] else if q = ?i then children_of k q @ children_of k p else children_of k q)"
        using p(3) i tree_root [OF tree] by (cases "tcbs k q") (auto simp: children_of_def tc)
    qed
    show "parent_of k' = (\<lambda>q. if q \<in> set (children_of k p) then Some (Some ?i) else parent_of k q)"
    proof
      fix q show "parent_of k' q = (if q \<in> set (children_of k p) then Some (Some ?i) else parent_of k q)"
        unfolding cs using p(3) self tree_child(1) [OF tree, of q p] cs by (cases "tcbs k q") (auto simp: parent_of_def tc)
    qed
  qed
  moreover have "tasks_ok k'"
    unfolding tasks_ok_def
  proof (intro allI impI)
    fix q u assume u: "tcbs k' q = Some u"
    with p(3) obtain v where v: "tcbs k q = Some v" by (auto simp: tc split: if_splits)
    have "q = ?i \<Longrightarrow> task_status v \<noteq> Zombie" using kernel_invD(7) [OF inv] v by (auto simp: status_of_def)
    with u v p(3) kernel_invD(6) [OF inv v] show "task_ok u" by (auto simp: tc task_ok_def split: if_splits)
  qed
  moreover have "pids_inv n k'" using inv dm by (simp add: kernel_inv_def pids_inv_def fields)
  ultimately show ?thesis by (simp add: kernel_inv_def fields)
qed

section \<open>Creating a process\<close>

lemma alloc_pid_and_stack_sel:
  assumes "alloc_pid_and_stack k = Some (p, k')"
  shows "pid_allocator_alloc (pids k) = (p, pids k')" "tcbs k' = tcbs k" "ready_queue k' = ready_queue k"
    "current k' = current k" "blocked_agents k' = blocked_agents k" "initproc k' = initproc k"
  using assms by (auto simp: alloc_pid_and_stack_def split: prod.splits)

lemma fresh_pid:
  assumes inv: "pids_inv n k" and room: "Suc n < 2 ^ 64" and al: "pid_allocator_alloc (pids k) = (p, a)"
  shows "pid_inv a" "p \<notin> dom (tcbs k)" "pid_owned a = insert p (dom (tcbs k))" "unat (pa_current a) \<le> Suc n"
proof -
  have "unat (- 1 :: usize) = 2 ^ 64 - 1" by (simp add: unsigned_minus_1_eq_mask mask_eq_exp_minus_1)
  with inv room have "pa_current (pids k) \<noteq> - 1" by (auto simp: pids_inv_def)
  with al have g: "pid_alloc_guarded (pids k) = Some (p, a)" by (simp add: pid_alloc_guarded_def)
  from inv have "pid_inv (pids k)" by (simp add: pids_inv_def)
  from pid_alloc_fresh [OF this g] inv show "pid_inv a" "p \<notin> dom (tcbs k)" "pid_owned a = insert p (dom (tcbs k))"
    by (simp_all add: pids_inv_def)
  have "unat (pa_current (pids k) + 1) \<le> Suc (unat (pa_current (pids k)))"
    by (simp add: unat_word_ariths)
  with al inv show "unat (pa_current a) \<le> Suc n"
    by (auto simp: pid_allocator_alloc_def pids_inv_def Let_def split: if_splits)
qed

text \<open>The tree with a new leaf \<open>p\<close> below \<open>pp\<close>.\<close>

lemma tree_inv_fork:
  assumes tree: "tree_inv k" and p: "p \<notin> dom (tcbs k)" "pp \<in> dom (tcbs k)"
    and ch: "children_of k' = (\<lambda>q. if q = pp then children_of k pp @ [p] else children_of k q)"
    and par: "parent_of k' = (parent_of k)(p := Some (Some pp))"
    and k': "initproc k' = initproc k" "dom (tcbs k') = insert p (dom (tcbs k))"
  shows "tree_inv k'"
  unfolding tree_inv_def
proof (intro conjI allI impI ballI)
  have "initproc k \<noteq> p" using tree_root [OF tree] p(1) by auto
  then show "parent_of k' (initproc k') = Some None" using tree by (simp add: par k' tree_inv_def)
  have new: "p \<notin> set (children_of k q)" for q using tree_child(1) [OF tree, of p q] p(1) by blast
  have "distinct (children_of k q)" for q using tree by (simp add: tree_inv_def)
  then show "distinct (children_of k' q)" for q using new by (simp add: ch)
  show "parent_of k' c = Some (Some q)" if c: "c \<in> set (children_of k' q)" for q c
  proof (cases "c = p")
    case True
    with c new show ?thesis by (simp add: par ch split: if_splits)
  next
    case False
    with c have "c \<in> set (children_of k q)" by (auto simp: ch split: if_splits)
    from tree_child(3) [OF tree this] False show ?thesis by (simp add: par)
  qed
  have sub: "(child_rel k)\<^sup>* \<subseteq> (child_rel k')\<^sup>*"
    by (rule rtrancl_mono) (auto simp: child_rel_def ch)
  have old: "(initproc k', q) \<in> (child_rel k')\<^sup>*" if "q \<in> dom (tcbs k)" for q
    using that tree sub unfolding tree_inv_def k' by blast
  have "(pp, p) \<in> child_rel k'" by (simp add: child_rel_def ch)
  with old [OF p(2)] have "(initproc k', p) \<in> (child_rel k')\<^sup>*" by (rule rtrancl_into_rtrancl)
  then show "(initproc k', q) \<in> (child_rel k')\<^sup>*" if "q \<in> dom (tcbs k')" for q
    using that old unfolding k' by blast
qed

lemma tcb_forkE:
  assumes "tcb_fork env pp k = Some (p, k')"
  obtains par t mc k1 m where "tcbs k pp = Some par" "alloc_pid_and_stack (k\<lparr>k_machine := mc\<rparr>) = Some (p, k1)"
    "parent t = Some pp" "children t = []" "task_status t = Ready" "agent_ext_of t = None" "priority t = priority par"
    "k' = set_mem m (update_tcb pp (\<lambda>u. u\<lparr>children := children u @ [p]\<rparr>) (k1\<lparr>tcbs := (tcbs k1)(p \<mapsto> t)\<rparr>))"
proof -
  from assms obtain par ms mc ppn k1 where par: "tcbs k pp = Some par"
    and al: "alloc_pid_and_stack (k\<lparr>k_machine := mc\<rparr>) = Some (p, k1)"
    and k': "(let kernel_stack_top = kernel_stack_get_top p;
         t = \<lparr>trap_cx_ppn = ppn, base_size = base_size par,
              task_cx = goto_trap_return (env_trap_return env) kernel_stack_top, task_status = Ready,
              memory_set_of = ms, parent = Some pp, children = [], exit_code = 0,
              fd_table = fd_table par, agent_ext_of = None,
              priority = priority par, resume = To_User\<rparr>;
         k = k1\<lparr>tcbs := (tcbs k1)(p \<mapsto> t)\<rparr>;
         k = update_tcb pp (\<lambda>u. u\<lparr>children := children u @ [p]\<rparr>) k in
     set_mem (store_u64 (user_mem k) (trap_cx_word ppn 35) kernel_stack_top) k) = k'"
    by (auto simp: tcb_fork_def bind_eq_Some_conv Let_def)
  show thesis by (rule that [OF par al _ _ _ _ _ k' [unfolded Let_def, symmetric]]) simp_all
qed

lemma sys_fork_inv:
  assumes inv: "kernel_inv n k" and room: "Suc n < 2 ^ 64" and fk: "sys_fork env k = Some (v, k')"
  shows "kernel_inv (Suc n) k' \<and> current k' = current k"
proof -
  from fk obtain pp p k0 m0 where pp: "current k = Some pp" and f: "tcb_fork env pp k = Some (p, k0)"
    and k0: "k' = add_task p (set_mem m0 k0)"
    by (auto simp: sys_fork_def bind_eq_Some_conv Let_def)
  from f obtain par t mc k1 m where par: "tcbs k pp = Some par"
    and al: "alloc_pid_and_stack (k\<lparr>k_machine := mc\<rparr>) = Some (p, k1)"
    and t: "parent t = Some pp" "children t = []" "task_status t = Ready" "agent_ext_of t = None" "priority t = priority par"
    and k0': "k0 = set_mem m (update_tcb pp (\<lambda>u. u\<lparr>children := children u @ [p]\<rparr>) (k1\<lparr>tcbs := (tcbs k1)(p \<mapsto> t)\<rparr>))"
    by (rule tcb_forkE)
  note k1 = alloc_pid_and_stack_sel [OF al, simplified]
  from inv have tree: "tree_inv k" and pi: "pids_inv n k" by (simp_all add: kernel_inv_def)
  note fp = fresh_pid [OF pi room k1(1)]
  have "p \<noteq> pp" using fp(2) par by auto
  have tc: "tcbs k' = (tcbs k)(p \<mapsto> t, pp \<mapsto> par\<lparr>children := children par @ [p]\<rparr>)"
    using par \<open>p \<noteq> pp\<close> by (auto simp: k0 k0' k1 add_task_def fun_eq_iff)
  have fields: "ready_queue k' = ready_queue k @ [p]" "current k' = current k" "blocked_agents k' = blocked_agents k"
    "initproc k' = initproc k" "pids k' = pids k1" by (simp_all add: k0 k0' k1 add_task_def)
  have st: "status_of k' q = (if q = p then Some Ready else status_of k q)" for q
    using par t \<open>p \<noteq> pp\<close> by (simp add: status_of_def tc)
  have np: "status_of k p = None" using fp(2) by (auto simp: status_of_def)
  have i: "initproc k \<noteq> p" using tree_root [OF tree] fp(2) by auto
  have "sched_inv k'"
    unfolding sched_inv_def st fields
    using kernel_invD(1-5,7) [OF inv] np i by (auto simp del: set_map split: if_splits)
  moreover have dm: "dom (tcbs k') = insert p (dom (tcbs k))" using par by (auto simp: tc)
  moreover have "tree_inv k'"
  proof (rule tree_inv_fork [OF tree fp(2) _ _ _ fields(4) dm])
    show "pp \<in> dom (tcbs k)" using par by blast
    show "children_of k' = (\<lambda>q. if q = pp then children_of k pp @ [p] else children_of k q)"
      using par t \<open>p \<noteq> pp\<close> fp(2) by (auto simp: children_of_def tc fun_eq_iff domIff)
    show "parent_of k' = (parent_of k)(p := Some (Some pp))"
      using par t \<open>p \<noteq> pp\<close> by (auto simp: parent_of_def tc fun_eq_iff)
  qed
  moreover have "tasks_ok k'"
  proof -
    obtain r where "tcbs k pp = Some r" "task_status r = Running" by (rule current_task_status [OF inv pp])
    with par kernel_invD(6) [OF inv par] have "task_ok t" "task_ok (par\<lparr>children := children par @ [p]\<rparr>)"
      by (auto simp: task_ok_def t)
    with inv show ?thesis by (auto simp: tasks_ok_def tc kernel_inv_def)
  qed
  moreover have "pids_inv (Suc n) k'"
    using fp pi unfolding pids_inv_def dm fields(4,5) by simp
  ultimately show ?thesis by (simp add: kernel_inv_def fields)
qed

section \<open>Reaping a process\<close>

text \<open>The tree without the childless process \<open>c\<close>.\<close>

lemma tree_inv_reap:
  assumes tree: "tree_inv k" and c: "c \<in> set (children_of k p)" "children_of k c = []"
    and ch: "\<And>q. set (children_of k' q) = set (children_of k q) - {c}" "\<And>q. distinct (children_of k' q)"
    and par: "\<And>q. q \<noteq> c \<Longrightarrow> parent_of k' q = parent_of k q"
    and k': "initproc k' = initproc k" "dom (tcbs k') = dom (tcbs k) - {c}"
  shows "tree_inv k'"
  unfolding tree_inv_def
proof (intro conjI allI impI ballI)
  have ic: "initproc k \<noteq> c" using tree_child(4) [OF tree c(1)] by simp
  have "parent_of k (initproc k) = Some None" using tree by (simp add: tree_inv_def)
  then show "parent_of k' (initproc k') = Some None" using par [OF ic] by (simp add: k')
  show "distinct (children_of k' q)" for q by (rule ch(2))
  show "parent_of k' d = Some (Some q)" if "d \<in> set (children_of k' q)" for q d
    using that tree_child(3) [OF tree, of d q] par [of d] by (simp add: ch)
  show "(initproc k', q) \<in> (child_rel k')\<^sup>*" if "q \<in> dom (tcbs k')" for q
  proof -
    from that have q: "q \<in> dom (tcbs k)" "q \<noteq> c" by (simp_all add: k')
    with tree have "(initproc k, q) \<in> (child_rel k)\<^sup>*" unfolding tree_inv_def by blast
    then show ?thesis using q(2)
    proof (induction rule: rtrancl_induct)
      case (step y z)
      then have z: "z \<in> set (children_of k y)" by (simp add: child_rel_def)
      then have "y \<noteq> c" using c(2) by auto
      moreover from z step.prems have "(y, z) \<in> child_rel k'" by (simp add: child_rel_def ch)
      ultimately show ?case using step.IH by (auto intro: rtrancl_into_rtrancl)
    qed (simp add: k')
  qed
qed

lemma count_list_0: "x \<notin> set xs \<Longrightarrow> count_list xs x = 0"
  by (simp add: count_list_0_iff)

text \<open>No other part of the kernel holds a child that is being reaped.\<close>

lemma reaped_unreferenced:
  assumes inv: "kernel_inv n k" and c: "zombie_pid k c" "children_of k p ! idx = c" "idx < length (children_of k p)"
  shows "strong_refs c (update_tcb p (\<lambda>t. t\<lparr>children := vec_remove idx (children t)\<rparr>) k) = 0"
proof -
  let ?k = "update_tcb p (\<lambda>t. t\<lparr>children := vec_remove idx (children t)\<rparr>) k"
  from inv have tree: "tree_inv k" by (simp add: kernel_inv_def)
  have cp: "c \<in> set (children_of k p)" using c(2,3) nth_mem by blast
  have "distinct (children_of k p)" using tree by (simp add: tree_inv_def)
  from vec_remove_distinct [OF c(3) this] c(2) have rm: "c \<notin> set (vec_remove idx (children_of k p))" by simp
  have none: "c \<notin> set (children t)" if "tcbs ?k q = Some t" for q t
  proof (cases "q = p")
    case True
    with that rm show ?thesis by (auto simp: children_of_def)
  next
    case False
    with that have "tcbs k q = Some t" by simp
    with False tree_child(3) [OF tree cp] tree_child(3) [OF tree, of c q] show ?thesis by (auto simp: children_of_def)
  qed
  have "child_refs c ?k = 0"
    unfolding child_refs_def sum_list_eq_0_iff using none by (auto simp: count_list_0_iff split: option.split simp del: update_tcb_sel(11))
  moreover have "status_of k c = Some Zombie"
    using c(1) by (auto simp: zombie_pid_def is_zombie_def status_of_def split: option.splits)
  with kernel_invD(3-5) [OF inv, of c] have "c \<notin> set (ready_queue k)" "current k \<noteq> Some c" "c \<notin> set (map fst (blocked_agents k))"
    by (auto simp del: set_map)
  ultimately show ?thesis using tree_child(4) [OF tree cp] by (simp add: strong_refs_def count_list_0_iff del: set_map)
qed

lemma tcb_drop_sel:
  assumes "tcb_drop p k = Some k'"
  shows "pid_allocator_dealloc p (pids k) = Some (pids k')" "tcbs k' = (tcbs k)(p := None)"
    "ready_queue k' = ready_queue k" "current k' = current k" "blocked_agents k' = blocked_agents k" "initproc k' = initproc k"
  using assms by (auto simp: tcb_drop_def bind_eq_Some_conv)

lemma reap_child_inv:
  assumes inv: "kernel_inv n k" and r: "reap_child p idx ptr k = Some (v, k')"
    and c: "zombie_pid k c" "children_of k p ! idx = c" "idx < length (children_of k p)"
  shows "kernel_inv n k' \<and> current k' = current k"
proof -
  let ?k = "update_tcb p (\<lambda>t. t\<lparr>children := vec_remove idx (children t)\<rparr>) k"
  from r obtain t m where t: "tcbs k p = Some t" and d: "tcb_drop (children t ! idx) (set_mem m ?k) = Some k'"
    by (auto simp: reap_child_def bind_eq_Some_conv Let_def split: if_splits)
  have ct: "children t ! idx = c" using t c(2) by (simp add: children_of_def)
  note k' = tcb_drop_sel [OF d [unfolded ct], simplified]
  from inv have tree: "tree_inv k" and pi: "pids_inv n k" by (simp_all add: kernel_inv_def)
  have cp: "c \<in> set (children_of k p)" using c(2,3) nth_mem by blast
  from tree_child(1) [OF tree cp] obtain u where u: "tcbs k c = Some u" by auto
  from c(1) u have z: "task_status u = Zombie" by (simp add: zombie_pid_def is_zombie_def)
  with kernel_invD(6) [OF inv u] have uc: "children u = []" by (simp add: task_ok_def)
  have dis: "distinct (children_of k q)" for q using tree by (simp add: tree_inv_def)
  have "p \<noteq> c" using cp uc u by (auto simp: children_of_def)
  have tc: "tcbs k' = (tcbs k)(p \<mapsto> t\<lparr>children := vec_remove idx (children t)\<rparr>, c := None)"
    using t \<open>p \<noteq> c\<close> by (auto simp: k' fun_eq_iff)
  have st: "status_of k' q = (if q = c then None else status_of k q)" for q
    using t by (simp add: status_of_def tc)
  have zc: "status_of k c = Some Zombie" using u z by (simp add: status_of_def)
  have "sched_inv k'"
    unfolding sched_inv_def st k' using kernel_invD(1-5,7) [OF inv] zc tree_child(4) [OF tree cp]
    by (auto simp del: set_map split: if_splits)
  moreover have dm: "dom (tcbs k') = dom (tcbs k) - {c}" using t by (auto simp: tc)
  moreover have "tree_inv k'"
  proof (rule tree_inv_reap [OF tree cp _ _ _ _ k'(6) dm])
    show "children_of k c = []" using u uc by (simp add: children_of_def)
    have pc: "children_of k' p = vec_remove idx (children_of k p)" using t \<open>p \<noteq> c\<close> by (simp add: children_of_def tc)
    have oc: "children_of k' q = children_of k q" if "q \<noteq> p" for q
      using that u uc by (auto simp: children_of_def tc)
    have nc: "c \<notin> set (children_of k q)" if "q \<noteq> p" for q
      using that tree_child(3) [OF tree cp] tree_child(3) [OF tree, of c q] by auto
    show "set (children_of k' q) = set (children_of k q) - {c}" for q
      using vec_remove_distinct [OF c(3) dis] c(2) nc by (cases "q = p") (simp_all add: pc oc)
    show "distinct (children_of k' q)" for q
      using vec_remove_distinct [OF c(3) dis] dis by (cases "q = p") (simp_all add: pc oc)
    show "parent_of k' q = parent_of k q" if "q \<noteq> c" for q using that t by (simp add: parent_of_def tc)
  qed
  moreover have "tasks_ok k'"
  proof -
    have "vec_remove idx [] = []" by (simp add: vec_remove_def)
    with kernel_invD(6) [OF inv t] have "task_ok (t\<lparr>children := vec_remove idx (children t)\<rparr>)" by (auto simp: task_ok_def)
    with inv show ?thesis by (auto simp: tasks_ok_def tc kernel_inv_def)
  qed
  moreover have "pids_inv n k'"
  proof -
    from pi have "pid_inv (pids k)" "c \<in> pid_owned (pids k)" using u by (auto simp: pids_inv_def)
    from pid.de_owned [OF this] obtain a where "pid_allocator_dealloc c (pids k) = Some a" "pid_inv a"
      "pid_owned a = pid_owned (pids k) - {c}" by auto
    moreover from this(1) have "pa_current a = pa_current (pids k)"
      by (auto simp: pid_allocator_dealloc_def split: if_splits)
    ultimately show ?thesis using pi k'(1) unfolding pids_inv_def dm k'(6) by simp
  qed
  ultimately show ?thesis by (simp add: kernel_inv_def k')
qed

lemma sys_waitpid_inv:
  assumes inv: "kernel_inv n k" and w: "sys_waitpid pid ptr k = Some (v, k')"
  shows "kernel_inv n k' \<and> current k' = current k"
proof -
  from w obtain p t where cur: "current k = Some p" "tcbs k p = Some t" and
    "k' = k \<or> (\<exists>idx. position (\<lambda>c. zombie_pid k c \<and> waits_for pid c) (children t) = Some idx \<and>
                 reap_child p idx ptr k = Some (v, k'))"
    by (auto simp: sys_waitpid_def current_tcb_def bind_eq_Some_conv split: if_splits option.splits)
  then show ?thesis
  proof (elim disjE exE conjE)
    fix idx assume "position (\<lambda>c. zombie_pid k c \<and> waits_for pid c) (children t) = Some idx"
      and r: "reap_child p idx ptr k = Some (v, k')"
    from position_Some [OF this(1)] have "zombie_pid k (children_of k p ! idx)" "idx < length (children_of k p)"
      using cur by (auto simp: children_of_def)
    with reap_child_inv [OF inv r] show ?thesis by blast
  qed (use inv in simp)
qed

end
