(* ===== verification/Kernel_Laws.thy ===== *)
theory Kernel_Laws
  imports Kernel_Life
begin

text \<open>
  Every system call, every trap and every round of the idle loop keep the kernel invariant; runs of
  the kernel, and what holds in every state of a run.
\<close>

section \<open>Calls that the scheduler does not see\<close>

text \<open>What holds of the result of a call, if it returns; the rules follow the structure of the call.\<close>

definition on_some :: "('a \<Rightarrow> bool) \<Rightarrow> 'a option \<Rightarrow> bool" where
  "on_some P r \<longleftrightarrow> (\<forall>x. r = Some x \<longrightarrow> P x)"

lemma on_some_simps [simp]:
  "on_some P None" "on_some P (Some x) = P x"
  "on_some P (Option.bind r f) = (\<forall>x. r = Some x \<longrightarrow> on_some P (f x))"
  "on_some P (map_option g r) = (\<forall>x. r = Some x \<longrightarrow> P (g x))"
  by (auto simp: on_some_def bind_eq_Some_conv)

definition framed :: "kernel \<Rightarrow> (isize \<times> kernel) option \<Rightarrow> bool" where
  "framed k r \<longleftrightarrow> on_some (\<lambda>(v, k'). frame k k') r"

lemma evict_one_ext: "evict_one token (e, m) = Some (r, e', m') \<Longrightarrow> ext_ok e \<Longrightarrow> ext_ok e'"
  by (auto simp: evict_one_def ext_ok_def Let_def bind_eq_Some_conv split: option.splits)

lemma evict_loop_ext: "evict_loop token sz (e, m) = Some (r, e', m') \<Longrightarrow> ext_ok e \<Longrightarrow> ext_ok e'"
proof (induction "length (path_meta e)" arbitrary: e m rule: less_induct)
  case less
  show ?case
  proof (cases "(max_bytes (ext_quota e) < path_used_bytes e + sz \<or>
      max_nodes (ext_quota e) \<le> word_of_nat (length (path_meta e))) \<and> path_meta e \<noteq> []")
    case False
    with less.prems show ?thesis by (auto simp: evict_loop.simps [of token sz e m] split: if_splits)
  next
    case True
    then obtain r1 e1 m1 where ev: "evict_one token (e, m) = Some (r1, e1, m1)"
      using less.prems(1) by (auto simp: evict_loop.simps [of token sz e m] split: option.splits)
    note ok = evict_one_ext [OF ev less.prems(2)]
    show ?thesis
    proof (cases r1)
      case (Inl x)
      with ok less.prems(1) True ev show ?thesis by (simp add: evict_loop.simps [of token sz e m])
    next
      case (Inr u)
      with less.prems(1) True ev have "evict_loop token sz (e1, m1) = Some (r, e', m')"
        by (simp add: evict_loop.simps [of token sz e m])
      with less.hyps [OF evict_one_shrinks [OF ev [unfolded Inr]]] ok show ?thesis by blast
    qed
  qed
qed

lemma push_node_ext:
  assumes "push_node now token rq rs (e, m) = Some (r, e', m')" "ext_ok e"
  shows "ext_ok e'"
proof -
  have k: "ext_ok (e1\<lparr>path_meta := a, path_used_bytes := b, next_seq := c\<rparr>) = ext_ok e1" for e1 a b c
    by (simp add: ext_ok_def)
  from assms show ?thesis
    unfolding push_node_def Let_def
    by (auto simp: bind_eq_Some_conv k evict_loop_ext split: if_splits option.splits sum.splits)
qed

lemma path_rollback_ext: "path_rollback token c (e, m) = Some (r, e', m') \<Longrightarrow> ext_ok e \<Longrightarrow> ext_ok e'"
  by (auto simp: path_rollback_def ext_ok_def Let_def bind_eq_Some_conv split: if_splits)

lemma path_clear_ext: "path_clear token (e, m) = Some (e', m') \<Longrightarrow> ext_ok e \<Longrightarrow> ext_ok e'"
  by (auto simp: path_clear_def ext_ok_def Let_def bind_eq_Some_conv)

lemma current_tcb_Some: "current_tcb k = Some (p, t) \<longleftrightarrow> current k = Some p \<and> tcbs k p = Some t"
  by (auto simp: current_tcb_def bind_eq_Some_conv)

lemma frame_set_path_state:
  assumes "tcbs k p = Some t" "agent_ext_of t = Some e" "ext_ok e \<Longrightarrow> ext_ok (fst s)"
  shows "frame k (set_path_state p s k)"
proof -
  have "frame k (update_tcb p (\<lambda>t. t\<lparr>agent_ext_of := Some (fst s)\<rparr>) k)"
    by (rule frame_update_tcb) (use assms in \<open>auto simp: task_frame_def task_ok_def\<close>)
  from frame_trans [OF this frame_fields(6)] show ?thesis by (simp add: set_path_state_def)
qed

lemma put_user_frame: "put_user token va bs k = Some k' \<Longrightarrow> frame k k'"
  by (auto simp: put_user_def)

lemma put_out_frame: "put_out token va v k = Some k' \<Longrightarrow> frame k k'"
  by (auto simp: put_out_def put_user_frame split: if_splits)

lemma set_loop_state_frame: "frame k (set_loop_state p st k)"
  unfolding set_loop_state_def by (rule frame_update_ext) (simp add: ext_ok_def)

lemma with_ext_framed:
  assumes "\<And>e. ext_ok e \<Longrightarrow> ext_ok (f e)"
  shows "framed k (with_ext f k)"
  using frame_update_ext [OF assms]
  by (auto simp: framed_def with_ext_def split: option.split)

lemma sys_agent_create_framed: "framed k (sys_agent_create pad cfg k)"
proof -
  have "frame k (update_tcb p (\<lambda>t. t\<lparr>memory_set_of := ms,
       agent_ext_of := Some (agent_ext_new Normal b sz 128 (16 * 1024))\<rparr>) (k\<lparr>k_machine := mc\<rparr>))" for p ms b sz mc
    by (rule frame_trans [OF frame_fields(1) frame_update_tcb])
      (auto simp: task_frame_def task_ok_def ext_ok_def agent_ext_new_def)
  then show ?thesis
    by (auto simp: framed_def sys_agent_create_def Let_def split: if_split)
qed

lemma sys_agent_info_framed: "framed k (sys_agent_info p a n k)"
  by (auto simp: framed_def sys_agent_info_def split: option.split)

lemma sys_tool_list_framed: "framed k (sys_tool_list pc a n k)"
  by (auto simp: framed_def sys_tool_list_def Let_def put_user_frame split: if_split)

lemma sys_context_push_framed: "framed k (sys_context_push now a b c d k)"
  by (auto simp: framed_def sys_context_push_def Let_def current_tcb_Some push_node_ext frame_set_path_state
      split: option.split)

lemma sys_context_rollback_framed: "framed k (sys_context_rollback c k)"
  by (auto simp: framed_def sys_context_rollback_def Let_def current_tcb_Some path_rollback_ext frame_set_path_state
      split: option.split)

lemma sys_context_clear_framed: "framed k (sys_context_clear k)"
  by (auto simp: framed_def sys_context_clear_def Let_def current_tcb_Some path_clear_ext frame_set_path_state
      split: option.split)

lemma sys_context_query_framed: "framed k (sys_context_query pc a b c d k)"
  by (auto simp: framed_def sys_context_query_def Let_def
      split: option.split if_split sum.split dest!: put_user_frame put_out_frame intro: frame_trans)

lemma sys_agent_set_priority_framed: "framed k (sys_agent_set_priority v k)"
proof -
  have "frame k (update_tcb p (\<lambda>t. t\<lparr>priority := min v MAX_PRIORITY\<rparr>) k)" for p
    by (rule frame_update_tcb) (auto simp: task_frame_def task_ok_def)
  then show ?thesis by (auto simp: framed_def sys_agent_set_priority_def Let_def)
qed

lemma sys_mailbox_recv_framed: "framed k (sys_mailbox_recv a n k)"
proof -
  have fr: "frame k (update_ext p (\<lambda>e. e\<lparr>mailbox := ms\<rparr>) k)"
    if "tcbs k p = Some t" "agent_ext_of t = Some e" "mailbox e = m # ms" for p t e m ms
    unfolding update_ext_def
    by (rule frame_update_tcb) (use that in \<open>auto simp: task_frame_def task_ok_def ext_ok_def\<close>)
  show ?thesis
    by (auto simp: framed_def sys_mailbox_recv_def Let_def current_tcb_Some
        split: option.split list.split dest!: put_user_frame intro: frame_trans [OF fr])
qed

lemma sys_agent_set_loop_state_framed: "framed k (sys_agent_set_loop_state c k)"
  by (auto simp: sys_agent_set_loop_state_def framed_def [of _ "Some _"] ext_ok_def
      split: option.split intro!: with_ext_framed)

lemma sys_agent_heartbeat_set_framed: "framed k (sys_agent_heartbeat_set now i k)"
  unfolding sys_agent_heartbeat_set_def by (rule with_ext_framed) (simp add: ext_ok_def)

lemma sys_agent_heartbeat_stop_framed: "framed k (sys_agent_heartbeat_stop k)"
  unfolding sys_agent_heartbeat_stop_def by (rule with_ext_framed) (simp add: ext_ok_def)

lemma sys_agent_watch_framed: "framed k (sys_agent_watch m a n k)"
  unfolding sys_agent_watch_def by (rule with_ext_framed) (simp add: ext_ok_def)

lemma sys_agent_unwatch_framed: "framed k (sys_agent_unwatch m k)"
  unfolding sys_agent_unwatch_def by (rule with_ext_framed) (simp add: ext_ok_def)

lemma sys_exec_framed: "framed k (sys_exec env path k)"
proof -
  have frame_exec: "frame k k'" if "tcb_exec env p d k = Some k'" for p d and k k' :: kernel
  proof -
    from that obtain mc t ms ppn cx where t: "tcbs k p = Some t" and k': "k' = write_trap_cx ppn cx
        (k\<lparr>k_machine := mc, tcbs := (tcbs k)(p \<mapsto> t\<lparr>memory_set_of := ms, trap_cx_ppn := ppn\<rparr>)\<rparr>)"
      by (auto simp: tcb_exec_def bind_eq_Some_conv Let_def)
    have "task_frame t (t\<lparr>memory_set_of := ms, trap_cx_ppn := ppn\<rparr>)" by (simp add: task_frame_def task_ok_def)
    with t have "frame k (k\<lparr>k_machine := mc, tcbs := (tcbs k)(p \<mapsto> t\<lparr>memory_set_of := ms, trap_cx_ppn := ppn\<rparr>)\<rparr>)"
      by (simp add: frame_def option.rel_refl)
    from frame_trans [OF this frame_fields(6)] show ?thesis by (simp add: k' write_trap_cx_def)
  qed
  show ?thesis
    by (auto simp: framed_def sys_exec_def Let_def split: option.split dest!: frame_exec intro: frame_trans [OF frame_fields(4)])
qed

lemma file_write_framed: "framed k (file_write f sl k)"
  by (cases f) (auto simp: framed_def)

lemma sys_write_framed: "framed k (sys_write fd a n k)"
  using file_write_framed by (auto simp: framed_def sys_write_def split: option.split if_split)

lemma sys_open_framed: "framed k (sys_open path fl k)"
proof -
  have "frame k (update_tcb p (\<lambda>t. t\<lparr>fd_table := fs\<rparr>) (k\<lparr>k_fs := st\<rparr>))" for p fs st
    by (rule frame_trans [OF frame_fields(4) frame_update_tcb]) (auto simp: task_frame_def task_ok_def)
  then show ?thesis
    by (auto simp: framed_def sys_open_def Let_def split: option.split prod.split)
qed

lemma sys_close_framed: "framed k (sys_close fd k)"
proof -
  have "frame k (update_tcb p (\<lambda>t. t\<lparr>fd_table := (fd_table t)[i := None]\<rparr>) k)" for p i
    by (rule frame_update_tcb) (auto simp: task_frame_def task_ok_def)
  then show ?thesis by (auto simp: framed_def sys_close_def split: if_split)
qed

section \<open>The invariant across system calls\<close>

definition keeps :: "nat \<Rightarrow> kernel \<Rightarrow> ('a \<times> kernel) option \<Rightarrow> bool" where
  "keeps n k r \<longleftrightarrow> on_some (\<lambda>(v, k'). kernel_inv n k' \<and> current k' = current k) r"

definition result_ok :: "nat \<Rightarrow> kernel \<Rightarrow> sys_result option \<Rightarrow> bool" where
  "result_ok n k r \<longleftrightarrow>
     on_some (\<lambda>r. case r of
        Ret v k' \<Rightarrow> kernel_inv n k' \<and> current k' = current k
      | Switch k' \<Rightarrow> kernel_inv n k' \<and> current k' = None
      | Halt b \<Rightarrow> True) r"

lemma kernel_inv_mono: "kernel_inv n k \<Longrightarrow> n \<le> m \<Longrightarrow> kernel_inv m k"
  by (auto simp: kernel_inv_def pids_inv_def)

lemma result_ok_mono: "result_ok n k r \<Longrightarrow> n \<le> m \<Longrightarrow> result_ok m k r"
  by (cases r) (auto simp: result_ok_def kernel_inv_mono split: sys_result.splits)

lemma result_ok_frame: "result_ok n k1 r \<Longrightarrow> frame k k1 \<Longrightarrow> result_ok n k r"
  by (cases r) (auto simp: result_ok_def frame_current split: sys_result.splits)

lemma result_ok_ret: "keeps n k r \<Longrightarrow> result_ok n k (ret r)"
  by (auto simp: keeps_def result_ok_def ret_def on_some_def split: prod.splits)

lemma result_ok_if: "result_ok n k a \<Longrightarrow> result_ok n k b \<Longrightarrow> result_ok n k (if c then a else b)"
  by simp

lemma framed_ok: "framed k r \<Longrightarrow> kernel_inv n k \<Longrightarrow> keeps n k r"
  by (auto simp: framed_def keeps_def on_some_def frame_inv frame_current)

lemma framed_ret: "framed k r \<Longrightarrow> kernel_inv n k \<Longrightarrow> result_ok n k (ret r)"
  by (rule result_ok_ret [OF framed_ok])

lemma dispatch_keeps:
  assumes "kernel_inv n k"
  shows "keeps n k (dispatch pc now req k)"
proof -
  have "keeps n k (send_message req k)"
  proof (cases "params req")
    case (PSendMessage target msg)
    from deliver_message_ok [OF assms, of target msg] obtain b k' where
      "deliver_message target msg k = Some (b, k')" "kernel_inv n k'" "current k' = current k" by metis
    with PSendMessage show ?thesis by (simp add: send_message_def keeps_def)
  qed (use assms in \<open>auto simp: send_message_def keeps_def\<close>)
  with assms show ?thesis by (auto simp: dispatch_def keeps_def split: tool_name.split)
qed

lemma tool_call_finish_framed: "framed k (tool_call_finish p token a op lp dr k)"
  by (auto simp: framed_def tool_call_finish_def
      dest!: put_user_frame put_out_frame intro: frame_trans frame_trans [OF _ set_loop_state_frame] split: if_split_asm)

lemma sys_tool_call_keeps:
  assumes inv: "kernel_inv n k"
  shows "keeps n k (sys_tool_call pc now a b c d k)"
  unfolding sys_tool_call_def
proof -
  have step: "keeps n k (case r of Inl e \<Rightarrow> Some (into_isize e, k2)
      | Inr dr \<Rightarrow> tool_call_finish p token area c d dr k2)"
    if "dispatch pc now req (set_loop_state p Calling k) = Some (r, k2)" for p token area req r k2
  proof -
    have fr: "frame k (set_loop_state p Calling k)" by (rule set_loop_state_frame)
    from dispatch_keeps [OF frame_inv [OF fr inv], of pc now req] that
    have k2: "kernel_inv n k2" "current k2 = current k" using frame_current [OF fr] by (auto simp: keeps_def)
    show ?thesis
    proof (cases r)
      case (Inl e)
      with k2 show ?thesis by (simp add: keeps_def)
    next
      case (Inr dr)
      with framed_ok [OF tool_call_finish_framed k2(1)] k2(2) show ?thesis by (simp add: keeps_def)
    qed
  qed
  have "kernel_inv n (set_loop_state p Calling k)" "current (set_loop_state p Calling k) = current k" for p
    using frame_inv [OF set_loop_state_frame inv] frame_current [OF set_loop_state_frame] by simp_all
  with inv step show "keeps n k (if a = 0 \<or> b = 0 \<or> 64 * 1024 < b then Some (-1, k)
      else Option.bind (current_tcb k) (\<lambda>(p, t).
      case agent_ext_of t of
        None \<Rightarrow> Some (-4, k)
      | Some ext \<Rightarrow>
          let token = get_user_token t; k = set_loop_state p Calling k in
          Option.bind (get_user token a b k) (\<lambda>req_buf.
          case decode_request pc req_buf of
            Inl e \<Rightarrow> Some (-3, k)
          | Inr req \<Rightarrow>
              Option.bind (dispatch pc now req k) (\<lambda>(r, k).
              case r of
                Inl e \<Rightarrow> Some (into_isize e, k)
              | Inr dr \<Rightarrow> tool_call_finish p token (context_area_base ext) c d dr k))))"
    by (simp add: keeps_def Let_def split: option.split sum.split prod.split)
qed

lemma broadcast_keeps:
  assumes "kernel_inv n k1" "current k1 = current k"
  shows "keeps n k (map_option (\<lambda>k. (v, k)) (broadcast_file_event k1))"
proof -
  obtain k' where "broadcast_file_event k1 = Some k'" "kernel_inv n k'" "current k' = current k1"
    by (rule broadcast_file_event_ok [OF assms(1)])
  with assms(2) show ?thesis by (simp add: keeps_def)
qed

lemma attr_store_inv: "kernel_inv n k \<Longrightarrow> kernel_inv n (k\<lparr>attr_store := st\<rparr>)"
  by (rule frame_inv [OF frame_fields(3)])

lemma sys_file_attr_set_keeps:
  assumes "kernel_inv n k"
  shows "keeps n k (sys_file_attr_set a b c d k)"
  using assms broadcast_keeps [OF attr_store_inv [OF assms], where k = k]
  by (simp add: sys_file_attr_set_def keeps_def split: option.split)

lemma attr_del_finish_keeps:
  assumes "kernel_inv n k"
  shows "keeps n k (attr_del_finish r k)"
  using attr_store_inv [OF assms] broadcast_keeps [OF attr_store_inv [OF assms], where k = k]
  by (simp add: attr_del_finish_def keeps_def Let_def)

lemma sys_file_attr_del_keeps:
  assumes "kernel_inv n k"
  shows "keeps n k (sys_file_attr_del a b c d k)"
  using assms attr_del_finish_keeps [OF assms]
  by (simp add: sys_file_attr_del_def keeps_def split: option.split)

section \<open>Calls that leave the processor\<close>

lemma suspend_ok:
  assumes "kernel_inv n k"
  shows "result_ok n k' (map_option Switch (suspend_current r k))"
  using suspend_current_inv [OF assms] by (auto simp: result_ok_def)

lemma sys_exit_ok:
  assumes "kernel_inv n k"
  shows "result_ok n k (sys_exit code k)"
  using exit_current_inv [OF assms] by (auto simp: sys_exit_def result_ok_def split: exit_outcome.split)

lemma wait_round_ok:
  assumes inv: "kernel_inv n k"
  shows "result_ok n k (wait_round tm st dl now k)"
proof -
  have c: "frame k (update_ext p (consume_events tr) k)" for p tr
    by (rule frame_update_ext) (simp add: consume_events_def ext_ok_def)
  note s = frame_trans [OF c set_loop_state_frame]
  have b: "kernel_inv n k' \<and> current k' = None"
    if "current k = Some p" "tcbs k p = Some t" "agent_ext_of t = Some e"
      and blk: "block_current_agent dl r (update_ext p (consume_events tr) k) = Some k'" for p t e r tr k'
    by (rule block_current_agent_inv [OF frame_inv [OF c inv] blk])
      (use that frame_current [OF c, of p tr] in \<open>auto simp: ext_of_def update_ext_def\<close>)
  show ?thesis
    unfolding wait_round_def result_ok_def
    using inv frame_inv [OF s inv] frame_current [OF s] b
    by (auto simp: Let_def current_tcb_Some split: option.split)
qed

lemma sys_agent_wait_ok:
  assumes inv: "kernel_inv n k"
  shows "result_ok n k (sys_agent_wait tm st t2 now k)"
proof -
  have "result_ok n k (wait_round tm st dl now (set_loop_state p Thinking k))" for p dl
    by (rule result_ok_frame [OF wait_round_ok [OF frame_inv [OF set_loop_state_frame inv]] set_loop_state_frame])
  then show ?thesis by (simp add: sys_agent_wait_def result_ok_def Let_def split: prod.split)
qed

lemma getchar_round_ok:
  assumes inv: "kernel_inv n k"
  shows "result_ok n k (getchar_round c a k)"
proof (cases "stdin_poll c a (user_mem k)")
  case None
  with suspend_ok [OF inv] show ?thesis by (simp add: getchar_round_def)
next
  case (Some r)
  with frame_inv [OF frame_fields(6) inv] show ?thesis by (cases r) (simp add: getchar_round_def result_ok_def)
qed

lemma file_read_ok:
  assumes inv: "kernel_inv n k"
  shows "result_ok n k (file_read c f sl k)"
proof (cases f)
  case (OSInode i)
  have "frame k (set_mem m (k\<lparr>k_fs := st\<rparr>))" for m st by (rule frame_trans [OF frame_fields(4) frame_fields(6)])
  from frame_inv [OF this inv] show ?thesis by (auto simp: OSInode result_ok_def)
qed (use getchar_round_ok [OF inv] in \<open>auto simp: result_ok_def\<close>)

lemma sys_read_ok:
  assumes inv: "kernel_inv n k"
  shows "result_ok n k (sys_read c fd a len k)"
  using inv file_read_ok [OF inv] by (auto simp: sys_read_def result_ok_def split: option.split)

section \<open>All calls, traps and rounds\<close>

lemmas agent_calls_ok =
  framed_ret [OF sys_agent_create_framed] framed_ret [OF sys_agent_info_framed] framed_ret [OF sys_tool_list_framed]
  framed_ret [OF sys_context_push_framed] framed_ret [OF sys_context_query_framed] framed_ret [OF sys_context_rollback_framed]
  framed_ret [OF sys_context_clear_framed] framed_ret [OF sys_agent_heartbeat_set_framed]
  framed_ret [OF sys_agent_heartbeat_stop_framed] framed_ret [OF sys_agent_watch_framed]
  framed_ret [OF sys_agent_unwatch_framed] framed_ret [OF sys_mailbox_recv_framed]
  framed_ret [OF sys_agent_set_loop_state_framed] framed_ret [OF sys_agent_set_priority_framed]
  result_ok_ret [OF sys_tool_call_keeps] result_ok_ret [OF sys_file_attr_set_keeps]
  result_ok_ret [OF sys_file_attr_del_keeps] sys_agent_wait_ok

lemma syscall_agent_ok:
  assumes "kernel_inv n k"
  shows "result_ok n k (syscall_agent pc inp i args k)"
proof -
  have "result_ok n k None" "result_ok n k (Some (Ret v k))" for v using assms by (simp_all add: result_ok_def)
  then show ?thesis unfolding syscall_agent_def Let_def by (intro result_ok_if agent_calls_ok [OF assms])
qed

lemmas process_calls_ok =
  framed_ret [OF sys_open_framed] framed_ret [OF sys_close_framed] framed_ret [OF sys_write_framed]
  framed_ret [OF sys_exec_framed]

lemma syscall_ok:
  assumes inv: "kernel_inv n k" and room: "Suc n < 2 ^ 64"
  shows "result_ok (Suc n) k (syscall env pc inp i args k)"
proof -
  have inv': "kernel_inv (Suc n) k" using inv by (rule kernel_inv_mono) simp
  have "keeps (Suc n) k (sys_fork env k)"
    using sys_fork_inv [OF inv room] by (auto simp: keeps_def on_some_def)
  moreover have "keeps (Suc n) k (sys_waitpid pid a k)" for pid a
    using sys_waitpid_inv [OF inv'] by (auto simp: keeps_def on_some_def)
  moreover have "keeps (Suc n) k (sys_getpid k)" using inv' by (auto simp: keeps_def sys_getpid_def)
  moreover have "keeps (Suc n) k (Some (sys_get_time t k))" for t using inv' by (simp add: keeps_def sys_get_time_def)
  moreover have "result_ok (Suc n) k (sys_yield k)" unfolding sys_yield_def by (rule suspend_ok [OF inv'])
  ultimately show ?thesis
    unfolding syscall_def Let_def
    by (intro result_ok_if process_calls_ok [OF inv'] sys_read_ok [OF inv'] sys_exit_ok [OF inv'] syscall_agent_ok [OF inv']
        result_ok_ret)
qed

lemma finish_syscall_ok:
  assumes "result_ok n k r"
  shows "result_ok n k (Option.bind r finish_syscall)"
proof (cases r)
  case (Some x)
  with assms show ?thesis
    by (cases x) (auto simp: result_ok_def finish_syscall_def set_x_def frame_inv [OF frame_fields(6)])
qed (simp add: result_ok_def)

lemma handle_timer_ok:
  assumes inv: "kernel_inv n k"
  shows "result_ok n k (handle_timer inp k)"
proof -
  obtain k1 where k1: "tick_all_agents (time_ms inp 1) k = Some k1" "kernel_inv n k1"
    by (rule tick_all_agents_ok [OF inv])
  from suspend_ok [OF tick_wake_timeouts_spec(1) [OF k1(2)]] k1(1) show ?thesis by (simp add: handle_timer_def)
qed

lemma trap_handler_ok:
  assumes inv: "kernel_inv n k" and room: "Suc n < 2 ^ 64"
  shows "result_ok (Suc n) k (trap_handler env pc inp cause k)"
proof -
  have inv': "kernel_inv (Suc n) k" using inv by (rule kernel_inv_mono) simp
  have "result_ok (Suc n) k (handle_env_call env pc inp k)"
  proof (cases "current_trap_cx k")
    case (Some cx)
    let ?k = "set_x cx 33 (get_x cx 33 k + 4) k"
    have fr: "frame k ?k" by (simp add: set_x_def)
    from result_ok_frame [OF finish_syscall_ok [OF syscall_ok [OF frame_inv [OF fr inv] room]] fr] Some
    show ?thesis by (simp add: handle_env_call_def Let_def)
  qed (simp add: handle_env_call_def result_ok_def)
  with handle_timer_ok [OF inv'] sys_exit_ok [OF inv'] show ?thesis
    by (cases cause) (simp_all add: trap_handler_def, simp add: result_ok_def)
qed

lemma continue_task_ok:
  assumes inv: "kernel_inv n k"
  shows "result_ok n k (continue_task inp k)"
proof -
  have r0: "result_ok n k (Some (Ret 0 k))" using inv by (simp add: result_ok_def)
  have "result_ok n k (finish_syscall (Ret 0 k))" using finish_syscall_ok [OF r0] by simp
  with r0 finish_syscall_ok [OF wait_round_ok [OF inv]] finish_syscall_ok [OF getchar_round_ok [OF inv]]
  have "result_ok n k (case resume t of
       To_User \<Rightarrow> Some (Ret 0 k)
     | In_Yield \<Rightarrow> finish_syscall (Ret 0 k)
     | In_Wait timeout_ms start_ms deadline \<Rightarrow>
         Option.bind (wait_round timeout_ms start_ms deadline (sint (time_ms inp 0)) k) finish_syscall
     | In_Getchar a \<Rightarrow> Option.bind (getchar_round (in_getchar inp) a k) finish_syscall)" for t
    by (simp split: resume_point.split)
  then show ?thesis by (cases "current_tcb k") (auto simp: continue_task_def result_ok_def [of _ _ None])
qed

end
