(* ===== verification/Kernel_Runs.thy ===== *)
theory Kernel_Runs
  imports Kernel_Laws
begin

text \<open>
  Runs of the kernel and the properties that hold in every state of a run: of the scheduler, the
  process tree, the timer, mailboxes, \<open>sys_agent_wait\<close>, \<open>sys_waitpid\<close> and \<open>exit\<close>.
\<close>

unbundle bit_operations_syntax

section \<open>Runs\<close>

text \<open>Between two entries of the kernel the running task may change memory in any way.\<close>

inductive kernel_step :: "kernel_env \<Rightarrow> 'e postcard \<Rightarrow> kernel \<Rightarrow> kernel \<Rightarrow> bool" for env pc where
  user: "current k = Some p \<Longrightarrow> kernel_step env pc k (set_mem m k)"
| trap_return: "current k = Some p \<Longrightarrow> trap_handler env pc inp cause k = Some (Ret v k') \<Longrightarrow> kernel_step env pc k k'"
| trap_switch: "current k = Some p \<Longrightarrow> trap_handler env pc inp cause k = Some (Switch k') \<Longrightarrow> kernel_step env pc k k'"
| idle_return: "current k = None \<Longrightarrow> idle_round inp k = Some (Ret v k') \<Longrightarrow> kernel_step env pc k k'"
| idle_switch: "current k = None \<Longrightarrow> idle_round inp k = Some (Switch k') \<Longrightarrow> kernel_step env pc k k'"

inductive steps :: "('s \<Rightarrow> 's \<Rightarrow> bool) \<Rightarrow> nat \<Rightarrow> 's \<Rightarrow> 's \<Rightarrow> bool" for step where
  stop: "steps step 0 s s"
| step: "steps step n s s1 \<Longrightarrow> step s1 s2 \<Longrightarrow> steps step (Suc n) s s2"

inductive_cases steps_SucE: "steps step (Suc n) s s2"

text \<open>A system whose invariant is indexed by a resource that each step may use up by one.\<close>

locale bounded_system =
  fixes step :: "'s \<Rightarrow> 's \<Rightarrow> bool"
    and inv :: "nat \<Rightarrow> 's \<Rightarrow> bool"
    and bound :: nat
  assumes step_inv: "inv n s \<Longrightarrow> Suc n < bound \<Longrightarrow> step s s' \<Longrightarrow> inv (Suc n) s'"
begin

lemma run_inv:
  assumes "steps step m s s'" "inv n s" "n + m < bound"
  shows "inv (n + m) s'"
  using assms
proof (induction rule: steps.induct)
  case (step m s s1 s2)
  then have "inv (n + m) s1" by simp
  from step_inv [OF this _ step.hyps(2)] step.prems(2) show ?case by simp
qed simp

end

lemma idle_round_ok:
  assumes inv: "kernel_inv n k" and idle: "current k = None"
  shows "on_some (\<lambda>r. case r of Ret v k' \<Rightarrow> kernel_inv n k' | Switch k' \<Rightarrow> kernel_inv n k' | Halt b \<Rightarrow> True) (idle_round inp k)"
proof -
  note r = run_tasks_round_inv [OF inv idle]
  from continue_task_ok [OF r, of inp] r show ?thesis
    by (auto simp: idle_round_def Let_def result_ok_def on_some_def split: sys_result.splits)
qed

lemma kernel_step_inv:
  assumes inv: "kernel_inv n k" and room: "Suc n < 2 ^ 64" and st: "kernel_step env pc k k'"
  shows "kernel_inv (Suc n) k'"
  using st
proof cases
  case (user p m)
  with kernel_inv_mono [OF frame_inv [OF frame_fields(6) inv], of "Suc n" m] show ?thesis by simp
next
  case (trap_return p inp cause v)
  with trap_handler_ok [OF inv room, of env pc inp cause] show ?thesis by (simp add: result_ok_def)
next
  case (trap_switch p inp cause)
  with trap_handler_ok [OF inv room, of env pc inp cause] show ?thesis by (simp add: result_ok_def)
next
  case (idle_return inp v)
  with idle_round_ok [OF inv, of inp] show ?thesis by (auto intro: kernel_inv_mono)
next
  case (idle_switch inp)
  with idle_round_ok [OF inv, of inp] show ?thesis by (auto intro: kernel_inv_mono)
qed

interpretation kern: bounded_system "kernel_step env pc" kernel_inv "2 ^ 64" for env pc
  by unfold_locales (rule kernel_step_inv)

section \<open>Boot\<close>

text \<open>The kernel before the initial process exists, and after.\<close>

definition no_tasks :: "kernel \<Rightarrow> bool" where
  "no_tasks k \<longleftrightarrow> tcbs k = Map.empty \<and> ready_queue k = [] \<and> blocked_agents k = [] \<and> current k = None \<and>
     pids k = pid_allocator_new"

lemma tcb_newE:
  assumes "tcb_new env elf k = Some (p, k')"
  obtains t mc k1 m where "alloc_pid_and_stack (k\<lparr>k_machine := mc\<rparr>) = Some (p, k1)"
    "parent t = None" "children t = []" "task_status t = Ready" "agent_ext_of t = None" "priority t = DEFAULT_PRIORITY"
    "k' = set_mem m (k1\<lparr>tcbs := (tcbs k1)(p \<mapsto> t)\<rparr>)"
proof -
  from assms obtain ppn sp ms entry mc k1 m where al: "alloc_pid_and_stack (k\<lparr>k_machine := mc\<rparr>) = Some (p, k1)"
    and k': "k' = set_mem m (k1\<lparr>tcbs := (tcbs k1)(p \<mapsto> \<lparr>trap_cx_ppn = ppn, base_size = sp,
              task_cx = goto_trap_return (env_trap_return env) (kernel_stack_get_top p), task_status = Ready,
              memory_set_of = ms, parent = None, children = [], exit_code = 0,
              fd_table = [Some Stdin, Some Stdout, Some Stdout], agent_ext_of = None,
              priority = DEFAULT_PRIORITY, resume = To_User\<rparr>)\<rparr>)"
    by (auto simp: tcb_new_def bind_eq_Some_conv Let_def write_trap_cx_def)
  show thesis by (rule that [OF al _ _ _ _ _ k']) simp_all
qed

lemma add_initproc_inv:
  assumes "no_tasks k" "add_initproc env k = Some k'"
  shows "kernel_inv 1 k'"
proof -
  from assms(2) obtain st v p k2 where new: "tcb_new env v (k\<lparr>k_fs := st\<rparr>) = Some (p, k2)"
    and k': "k' = add_task p (k2\<lparr>initproc := p\<rparr>)"
    by (auto simp: add_initproc_def bind_eq_Some_conv)
  from new obtain mc k1 t m where al: "alloc_pid_and_stack (k\<lparr>k_fs := st, k_machine := mc\<rparr>) = Some (p, k1)"
    and t: "parent t = None" "children t = []" "task_status t = Ready" "agent_ext_of t = None" "priority t = DEFAULT_PRIORITY"
    and k2: "k2 = set_mem m (k1\<lparr>tcbs := (tcbs k1)(p \<mapsto> t)\<rparr>)"
    by (rule tcb_newE)
  note s = alloc_pid_and_stack_sel [OF al, simplified]
  from s(1) assms(1) have p: "p = 0" "pids k1 = \<lparr>pa_current = 1, pa_recycled = []\<rparr>"
    by (simp_all add: no_tasks_def pid_allocator_new_def pid_allocator_alloc_def Let_def)
  have tc: "tcbs k' = [p \<mapsto> t]" and f: "ready_queue k' = [p]" "blocked_agents k' = []" "current k' = None"
    "initproc k' = p" "pids k' = pids k1"
    using assms(1) s by (simp_all add: k' k2 add_task_def no_tasks_def fun_eq_iff)
  have "sched_inv k'" by (auto simp: sched_inv_def status_of_def tc f t split: if_splits)
  moreover have "tree_inv k'" by (auto simp: tree_inv_def parent_of_def children_of_def tc f t split: if_splits)
  moreover have "tasks_ok k'"
    by (auto simp: tasks_ok_def tc task_ok_def t DEFAULT_PRIORITY_def MAX_PRIORITY_def split: if_splits)
  moreover have "pids_inv 1 k'"
    using word_less_1 by (auto simp: pids_inv_def f tc p pid_inv_def pid_owned_def IDLE_PID_def word_less_1 split: if_splits)
  ultimately show ?thesis by (simp add: kernel_inv_def)
qed

end
