(* ===== verification/Kernel_Theorems.thy ===== *)
theory Kernel_Theorems
  imports Kernel_Runs
begin

text \<open>
  Properties of the kernel as a whole, over the lemmas of the component theories, with an example
  state in which four processes exist: the initial process (ready), a running agent with a zombie
  child, and a blocked agent.
\<close>

unbundle bit_operations_syntax

section \<open>An example state\<close>

definition demo_ext :: agent_ext where
  "demo_ext = agent_ext_new Normal 0x80000000 0x10000 128 0x4000"

definition demo_task :: "task_status \<Rightarrow> usize option \<Rightarrow> usize list \<Rightarrow> agent_ext option \<Rightarrow> task_control_block" where
  "demo_task st par ch ext =
     \<lparr>trap_cx_ppn = 0x80500, base_size = 0, task_cx = task_context_zero_init, task_status = st,
      memory_set_of = \<lparr>ms_page_table = \<lparr>root_ppn = 0x80400, pt_frames = []\<rparr>, ms_areas = []\<rparr>, parent = par,
      children = ch, exit_code = 0, fd_table = [Some Stdin, Some Stdout, Some Stdout], agent_ext_of = ext,
      priority = DEFAULT_PRIORITY, resume = To_User\<rparr>"

definition demo_tcbs :: "usize \<Rightarrow> task_control_block option" where
  "demo_tcbs =
     [0 \<mapsto> demo_task Ready None [1, 2] None,
      1 \<mapsto> demo_task Running (Some 0) [3] (Some demo_ext),
      2 \<mapsto> demo_task Blocked (Some 0) [] (Some (demo_ext\<lparr>heartbeat_interval_ms := 100\<rparr>)),
      3 \<mapsto> demo_task Zombie (Some 1) [] None]"

definition demo_kernel :: kernel where
  "demo_kernel =
     \<lparr>k_machine = \<lparr>mem = (\<lambda>a. 0), frame_allocator = frame_allocator_new\<rparr>,
      kernel_space = \<lparr>ms_page_table = \<lparr>root_ppn = 0x80300, pt_frames = []\<rparr>, ms_areas = []\<rparr>,
      pids = \<lparr>pa_current = 4, pa_recycled = []\<rparr>, tcbs = demo_tcbs, initproc = 0, ready_queue = [0],
      current = Some 1, blocked_agents = [(2, Some 500)], attr_store = file_attr_store_new,
      k_fs = \<lparr>root_fs = \<lparr>inode_bitmap = \<lparr>start_block_id = 1, bm_blocks = 1\<rparr>,
                         data_bitmap = \<lparr>start_block_id = 3, bm_blocks = 1\<rparr>,
                         inode_area_start_block = 2, data_area_start_block = 4\<rparr>,
              fs_cache = \<lparr>queue = [], device = \<lparr>dev_size = 0, dev_data = (\<lambda>i. [])\<rparr>, held = []\<rparr>, open_files = []\<rparr>,
      console_out = []\<rparr>"

lemma demo_tcb:
  "tcbs demo_kernel p = (if p = 0 then Some (demo_task Ready None [1, 2] None)
     else if p = 1 then Some (demo_task Running (Some 0) [3] (Some demo_ext))
     else if p = 2 then Some (demo_task Blocked (Some 0) [] (Some (demo_ext\<lparr>heartbeat_interval_ms := 100\<rparr>)))
     else if p = 3 then Some (demo_task Zombie (Some 1) [] None) else None)"
  by (simp add: demo_kernel_def demo_tcbs_def)

lemma demo_sel [simp]:
  "ready_queue demo_kernel = [0]" "current demo_kernel = Some 1" "blocked_agents demo_kernel = [(2, Some 500)]"
  "initproc demo_kernel = 0" "pids demo_kernel = \<lparr>pa_current = 4, pa_recycled = []\<rparr>"
  by (simp_all add: demo_kernel_def)

lemma demo_task_sel [simp]:
  "task_status (demo_task st par ch ext) = st" "parent (demo_task st par ch ext) = par"
  "children (demo_task st par ch ext) = ch" "agent_ext_of (demo_task st par ch ext) = ext"
  "priority (demo_task st par ch ext) = DEFAULT_PRIORITY"
  by (simp_all add: demo_task_def)

lemma demo_views:
  "status_of demo_kernel p = (if p = 0 then Some Ready else if p = 1 then Some Running
     else if p = 2 then Some Blocked else if p = 3 then Some Zombie else None)"
  "children_of demo_kernel p = (if p = 0 then [1, 2] else if p = 1 then [3] else [])"
  "parent_of demo_kernel p = (if p = 0 then Some None else if p = 1 \<or> p = 2 then Some (Some 0)
     else if p = 3 then Some (Some 1) else None)"
  by (simp_all add: status_of_def children_of_def parent_of_def demo_tcb)

lemma demo_dom: "dom (tcbs demo_kernel) = {0, 1, 2, 3}"
  by (auto simp: demo_tcb dom_def)

lemma demo_sched: "sched_inv demo_kernel"
  by (simp add: sched_inv_def demo_views)

lemma demo_tree: "tree_inv demo_kernel"
proof -
  let ?R = "child_rel demo_kernel"
  have "(0, 1) \<in> ?R" "(0, 2) \<in> ?R" "(1, 3) \<in> ?R" by (simp_all add: child_rel_def demo_views)
  then have "(0, 1) \<in> ?R\<^sup>*" "(0, 2) \<in> ?R\<^sup>*" "(0, 3) \<in> ?R\<^sup>*" by (blast intro: rtrancl_into_rtrancl)+
  then have "\<forall>p\<in>dom (tcbs demo_kernel). (initproc demo_kernel, p) \<in> ?R\<^sup>*" by (simp add: demo_dom)
  moreover have "\<forall>p c. c \<in> set (children_of demo_kernel p) \<longrightarrow> parent_of demo_kernel c = Some (Some p)"
    by (simp add: demo_views)
  ultimately show ?thesis by (simp add: tree_inv_def demo_views(2,3))
qed

lemma demo_tasks: "tasks_ok demo_kernel"
proof -
  have "ext_ok demo_ext" "ext_ok (demo_ext\<lparr>heartbeat_interval_ms := 100\<rparr>)"
    by (simp_all add: ext_ok_def demo_ext_def agent_ext_new_def)
  moreover have "DEFAULT_PRIORITY \<le> MAX_PRIORITY" by (simp add: DEFAULT_PRIORITY_def MAX_PRIORITY_def)
  ultimately show ?thesis by (simp add: tasks_ok_def demo_tcb task_ok_def)
qed

lemma below_4: "{x :: usize. x < 4} = {0, 1, 2, 3}"
proof -
  have "x \<in> {0, 1, 2, 3}" if "x < 4" for x :: usize
  proof -
    from that have "unat x < 4" by (simp add: word_less_nat_alt)
    then have "unat x \<in> {0, 1, 2, 3}" by auto
    then show ?thesis by (auto simp: word_unat_eq_iff)
  qed
  then show ?thesis by auto
qed

lemma demo_inv: "kernel_inv 4 demo_kernel"
  by (simp add: kernel_inv_def demo_sched demo_tree demo_tasks pids_inv_def demo_dom pid_inv_def pid_owned_def
      IDLE_PID_def below_4)

text \<open>A surrounding of the kernel, for the examples.\<close>

definition demo_env :: kernel_env where
  "demo_env = \<lparr>env_trap_return = 0x80201000, env_trap_handler = 0x80202000, env_strampoline = 0x80203000,
     env_user_sstatus = 0, env_xmas_elf_new = (\<lambda>bs. None)\<rparr>"

definition demo_inputs :: inputs where
  "demo_inputs = \<lparr>in_time = (\<lambda>i. 12500000), in_getchar = 0, in_pad = []\<rparr>"

section \<open>Runs\<close>

lemma suspend_current_Some:
  assumes "current k = Some p"
  shows "suspend_current r k = Some (add_task p (update_tcb p (\<lambda>t. t\<lparr>task_status := Ready, resume := r\<rparr>) (k\<lparr>current := None\<rparr>)))"
  using assms by (simp add: suspend_current_def take_current_task_def)

lemma timer_switches:
  assumes "kernel_inv n k" "current k = Some p"
  shows "\<exists>k'. trap_handler env pc inp SupervisorTimer k = Some (Switch k')"
proof -
  obtain k1 where k1: "tick_all_agents (time_ms inp 1) k = Some k1" "kernel_inv n k1" "current k1 = current k"
    by (rule tick_all_agents_ok [OF assms(1)])
  from suspend_current_Some [of "tick_wake_timeouts (time_ms inp 2) k1" p] tick_wake_timeouts_spec(2) [OF k1(2)] k1 assms(2)
  show ?thesis by (simp add: trap_handler_def handle_timer_def del: One_nat_def)
qed

text \<open>
  C2: A run of the kernel of \<open>m\<close> steps (traps of the running task, rounds of the idle loop, and
  arbitrary changes of memory by user code) keeps the kernel invariant, as long as fewer than
  \<open>2^64\<close> steps are taken: each process is in exactly the queue its status names, the control blocks
  form a tree below the initial process that every process is in, pids in use are the pids of
  control blocks, priorities are at most 255, mailboxes hold at most 32 messages, only agents block,
  and zombies have no children.
\<close>

theorem kernel_runs_keep_invariant:
  assumes "kernel_inv n k" "steps (kernel_step env pc) m k k'" "n + m < 2 ^ 64"
  shows "kernel_inv (n + m) k'"
  using assms(2,1,3) by (rule kern.run_inv)

theorem kernel_runs_keep_invariant_witness:
  "\<exists>k1 k2. steps (kernel_step demo_env demo_postcard) 2 demo_kernel k2 \<and>
     trap_handler demo_env demo_postcard demo_inputs SupervisorTimer k1 = Some (Switch k2) \<and> kernel_inv 6 k2"
proof -
  let ?k1 = "set_mem (\<lambda>a. 1) demo_kernel" and ?S = "kernel_step demo_env demo_postcard"
  have s1: "?S demo_kernel ?k1" by (rule kernel_step.user [of _ 1]) simp
  obtain k2 where k2: "trap_handler demo_env demo_postcard demo_inputs SupervisorTimer ?k1 = Some (Switch k2)"
    using timer_switches [OF frame_inv [OF frame_fields(6) demo_inv], of "\<lambda>a. 1" 1 demo_env demo_postcard demo_inputs] by auto
  have s2: "?S ?k1 k2" by (rule kernel_step.trap_switch [OF _ k2, of 1]) simp
  have "steps ?S (Suc 0) demo_kernel ?k1" by (rule steps.step [of ?S]) (rule steps.stop, rule s1)
  from steps.step [of ?S, OF this s2] have run: "steps ?S (Suc (Suc 0)) demo_kernel k2" .
  from kernel_runs_keep_invariant [OF demo_inv run] have "kernel_inv 6 k2" by simp
  moreover from run have "steps ?S 2 demo_kernel k2" by (simp only: numeral_2_eq_2)
  ultimately show ?thesis using k2 by blast
qed

text \<open>
  C33: The breadth-first listing of processes returns, and lists every process exactly once.
\<close>

theorem all_processes_listed_once:
  assumes "kernel_inv n k"
  shows "\<exists>ps. snapshot_all_processes k = Some ps \<and> distinct ps \<and> set ps = dom (tcbs k)"
proof -
  obtain ps where "snapshot_all_processes k = Some ps" "distinct ps" "set ps = dom (tcbs k)"
    by (rule snapshot_all [OF assms])
  then show ?thesis by simp
qed

theorem all_processes_listed_once_witness:
  "\<exists>ps. snapshot_all_processes demo_kernel = Some ps \<and> distinct ps \<and> set ps = {0, 1, 2, 3}"
  using all_processes_listed_once [OF demo_inv] unfolding demo_dom .

text \<open>
  C13: The scheduler takes a task of highest priority out of the ready queue, the first of them in
  queue order, and leaves the order of the others; on an empty queue it changes nothing.
\<close>

theorem scheduler_takes_first_of_highest_priority:
  "(ready_queue k = [] \<and> fetch_task k = (None, k)) \<or>
   (\<exists>i < length (ready_queue k).
      fetch_task k = (Some (ready_queue k ! i), k\<lparr>ready_queue := take i (ready_queue k) @ drop (Suc i) (ready_queue k)\<rparr>) \<and>
      Max (task_priority k ` set (ready_queue k)) = task_priority k (ready_queue k ! i) \<and>
      task_priority k (ready_queue k ! i) \<notin> task_priority k ` set (take i (ready_queue k)))"
proof (cases k rule: fetch_task_cases)
  case (task i)
  let ?q = "ready_queue k"
  from task(1) have i: "i < length ?q" and mx: "\<And>j. j < length ?q \<Longrightarrow> task_priority k (?q ! j) \<le> task_priority k (?q ! i)"
    and fst: "\<And>j. j < i \<Longrightarrow> task_priority k (?q ! j) < task_priority k (?q ! i)" by (auto simp: first_max_def)
  have "Max (task_priority k ` set ?q) = task_priority k (?q ! i)"
    by (rule Max_eqI) (use i mx in \<open>auto simp: in_set_conv_nth intro!: imageI nth_mem\<close>)
  moreover have "task_priority k (?q ! i) \<notin> task_priority k ` set (take i ?q)"
    using i fst by (fastforce simp: in_set_conv_nth)
  ultimately show ?thesis using task(2) i by (auto simp: vec_remove_def)
qed simp

section \<open>Timer\<close>

text \<open>
  C12: A timer interrupt returns to the scheduler with the interrupted task ready.  An agent whose
  deadline has passed is ready.  An agent whose heartbeat interval has elapsed has its heartbeat
  marked pending and does not stay blocked.  No agent left blocked is due.
\<close>

theorem timer_wakes_due_agents:
  assumes inv: "kernel_inv n k" and cur: "current k = Some p"
  shows "\<exists>k'. trap_handler env pc inp SupervisorTimer k = Some (Switch k') \<and> kernel_inv n k' \<and>
     status_of k' p = Some Ready \<and>
     (\<forall>q d. (q, Some d) \<in> set (blocked_agents k) \<and> d \<le> time_ms inp 2 \<longrightarrow> status_of k' q = Some Ready) \<and>
     (\<forall>q e. ext_of k q = Some e \<and> heartbeat_due (time_ms inp 1) e \<longrightarrow>
        status_of k' q \<noteq> Some Blocked \<and> (\<exists>e'. ext_of k' q = Some e' \<and> heartbeat_pending e')) \<and>
     (\<forall>q d. (q, Some d) \<in> set (blocked_agents k') \<longrightarrow> time_ms inp 2 < d)"
proof -
  let ?n1 = "time_ms inp 1" and ?n2 = "time_ms inp 2"
  obtain k1 where k1: "tick_all_agents ?n1 k = Some k1" "kernel_inv n k1" "current k1 = current k"
    and beat: "\<forall>q. ext_of k1 q = map_option (beat ?n1) (ext_of k q)"
    and woken: "\<forall>q. beats ?n1 k q \<longrightarrow> q \<notin> set (map fst (blocked_agents k1))"
    and w1: "wakes k k1"
    by (rule tick_all_agents_ok [OF inv, of ?n1])
  let ?k2 = "tick_wake_timeouts ?n2 k1"
  let ?k3 = "add_task p (update_tcb p (\<lambda>t. t\<lparr>task_status := Ready, resume := To_User\<rparr>) (?k2\<lparr>current := None\<rparr>))"
  note t2 = tick_wake_timeouts_spec [OF k1(2), of ?n2]
  have cur2: "current ?k2 = Some p" using t2(2) k1(3) cur by simp
  note wk = wakes_trans [OF w1 t2(4)]
  have s3: "suspend_current To_User ?k2 = Some ?k3" by (rule suspend_current_Some [OF cur2])
  note inv3 = conjunct1 [OF suspend_current_inv [OF t2(1) s3]]
  have st: "status_of ?k3 q = (if q = p then Some Ready else status_of ?k2 q)" for q
    using cur2 kernel_invD(4) [OF t2(1), of p] by (auto simp: status_of_def add_task_def)
  have ext: "ext_of ?k3 q = ext_of k1 q" for q
    using ext_of_keep [of "\<lambda>t. t\<lparr>task_status := Ready, resume := To_User\<rparr>" p "?k2\<lparr>current := None\<rparr>" q] t2(5) [of q]
    by (simp add: ext_of_def add_task_def)
  have nd: "\<not> due ?n2 d" if "(q, d) \<in> set (blocked_agents ?k2)" for q d using t2(3) that by fastforce
  have ready: "status_of ?k3 q = Some Ready" if q: "(q, Some d) \<in> set (blocked_agents k)" "d \<le> ?n2" for q d
  proof -
    have b: "status_of k q = Some Blocked" using q(1) kernel_invD(5) [OF inv, of q] by force
    have "q \<notin> set (map fst (blocked_agents ?k2))"
    proof
      assume "q \<in> set (map fst (blocked_agents ?k2))"
      then obtain d' where d': "(q, d') \<in> set (blocked_agents ?k2)" by auto
      with wk have "(q, d') \<in> set (blocked_agents k)" by (auto simp: wakes_def)
      with q(1) kernel_invD(2) [OF inv] have "d' = Some d" by (rule eq_key_imp_eq_value [rotated 2])
      with nd [OF d'] q(2) show False by (simp add: due_def)
    qed
    then have "status_of ?k2 q \<noteq> Some Blocked" by (simp only: kernel_invD(5) [OF t2(1)]) simp
    moreover from wk have "status_of ?k2 q = status_of k q \<or> status_of ?k2 q = Some Ready"
      unfolding wakes_def by blast
    ultimately show ?thesis using b by (auto simp: st)
  qed
  have hb: "status_of ?k3 q \<noteq> Some Blocked \<and> (\<exists>e'. ext_of ?k3 q = Some e' \<and> heartbeat_pending e')"
    if e: "ext_of k q = Some e" "heartbeat_due ?n1 e" for q e
  proof -
    have "q \<notin> set (map fst (blocked_agents k1))" using woken e by (simp add: beats_def)
    then have "q \<notin> set (map fst (blocked_agents ?k2))" using t2(4) by (auto simp: wakes_def)
    then have "status_of ?k2 q \<noteq> Some Blocked" by (simp only: kernel_invD(5) [OF t2(1)]) simp
    with e beat show ?thesis by (simp add: st ext beat_def)
  qed
  have left: "?n2 < d" if "(q, Some d) \<in> set (blocked_agents ?k3)" for q d
    using nd [of q "Some d"] that by (simp add: due_def add_task_def)
  have "trap_handler env pc inp SupervisorTimer k = Some (Switch ?k3)"
    by (simp add: trap_handler_def handle_timer_def k1(1) s3 del: One_nat_def)
  moreover have "status_of ?k3 p = Some Ready" by (simp add: st)
  ultimately show ?thesis using inv3 ready hb left by blast
qed

theorem timer_wakes_due_agents_witness:
  "\<exists>k'. trap_handler demo_env demo_postcard demo_inputs SupervisorTimer demo_kernel = Some (Switch k') \<and>
     status_of k' 1 = Some Ready \<and> status_of k' 2 = Some Ready"
proof -
  have "500 \<le> time_ms demo_inputs 2"
    by (simp add: time_ms_def get_time_ms_def demo_inputs_def CLOCK_FREQ_def MSEC_PER_SEC_def)
  with timer_wakes_due_agents [OF demo_inv, of 1 demo_env demo_postcard demo_inputs] show ?thesis by fastforce
qed

section \<open>Mailboxes\<close>

text \<open>
  C34: Delivering a message returns and succeeds exactly for agents.  The mailbox then holds the last
  32 messages, the new one last; the agent is not blocked; no other agent is changed.
\<close>

theorem mailbox_keeps_last_messages:
  assumes inv: "kernel_inv n k"
  shows "\<exists>k'. deliver_message p msg k = Some (ext_of k p \<noteq> None, k') \<and> kernel_inv n k' \<and>
     (\<forall>e. ext_of k p = Some e \<longrightarrow> status_of k' p \<noteq> Some Blocked \<and>
        (\<exists>e'. ext_of k' p = Some e' \<and> mailbox e' = drop (length (mailbox e) - 31) (mailbox e @ [msg]) \<and>
              length (mailbox e') \<le> 32)) \<and>
     (\<forall>q. q \<noteq> p \<longrightarrow> ext_of k' q = ext_of k q)"
proof -
  obtain k' where k': "deliver_message p msg k = Some (ext_of k p \<noteq> None, k')" "kernel_inv n k'"
    and ext: "\<forall>q. ext_of k' q = (if q = p then map_option (push_message msg) (ext_of k p) else ext_of k q)"
    and nb: "p \<notin> set (map fst (blocked_agents k')) \<or> ext_of k p = None"
    by (rule deliver_message_ok [OF inv])
  have "status_of k' p \<noteq> Some Blocked \<and>
        (\<exists>e'. ext_of k' p = Some e' \<and> mailbox e' = drop (length (mailbox e) - 31) (mailbox e @ [msg]) \<and>
              length (mailbox e') \<le> 32)" if e: "ext_of k p = Some e" for e
  proof -
    from e obtain t where "tcbs k p = Some t" "agent_ext_of t = Some e" by (auto simp: ext_of_def bind_eq_Some_conv)
    with kernel_invD(6) [OF inv] have ok: "ext_ok e" by (auto simp: task_ok_def)
    from nb e have "status_of k' p \<noteq> Some Blocked" using kernel_invD(5) [OF k'(2), of p] by simp
    moreover have "mailbox (push_message msg e) = drop (length (mailbox e) - 31) (mailbox e @ [msg])"
    proof (cases "length (mailbox e) = 32")
      case True
      then obtain x xs where "mailbox e = x # xs" by (cases "mailbox e") auto
      with True ok show ?thesis by (simp add: push_message_def ext_ok_def)
    next
      case False
      with ok show ?thesis by (simp add: push_message_def ext_ok_def)
    qed
    moreover have "length (mailbox (push_message msg e)) \<le> 32" using push_message_ok [OF ok] by (simp add: ext_ok_def)
    ultimately show ?thesis using ext e by simp
  qed
  moreover have "ext_of k' q = ext_of k q" if "q \<noteq> p" for q using ext that by simp
  ultimately show ?thesis using k' by blast
qed

theorem mailbox_keeps_last_messages_witness:
  "\<exists>k' e'. deliver_message 2 [7] demo_kernel = Some (True, k') \<and> ext_of k' 2 = Some e' \<and> mailbox e' = [[7]] \<and>
     status_of k' 2 \<noteq> Some Blocked"
proof -
  have "ext_of demo_kernel 2 = Some (demo_ext\<lparr>heartbeat_interval_ms := 100\<rparr>)" by (simp add: ext_of_def demo_tcb)
  with mailbox_keeps_last_messages [OF demo_inv, of 2 "[7]"] show ?thesis
    by (fastforce simp: demo_ext_def agent_ext_new_def)
qed

section \<open>Waiting for events\<close>

lemma single_bit: "i < 32 \<Longrightarrow> bit (push_bit i (1 :: u32)) j \<longleftrightarrow> j = i"
  by (auto simp: bit_exp_iff)

lemma event_bit:
  "bit EVENT_HEARTBEAT j \<longleftrightarrow> j = 0" "bit EVENT_MESSAGE j \<longleftrightarrow> j = 1" "bit EVENT_FILE_MODIFIED j \<longleftrightarrow> j = 2"
  unfolding EVENT_HEARTBEAT_def EVENT_MESSAGE_def EVENT_FILE_MODIFIED_def by (rule single_bit, simp)+

lemma and_single:
  assumes "\<And>j. bit m j \<longleftrightarrow> j = i"
  shows "w AND m = (if bit w i then m else (0 :: u32))"
  by (rule bit_word_eqI) (auto simp: bit_and_iff assms)

lemmas event_and = and_single [OF event_bit(1)] and_single [OF event_bit(2)] and_single [OF event_bit(3)]

lemma event_nz: "EVENT_HEARTBEAT \<noteq> 0" "EVENT_MESSAGE \<noteq> 0" "EVENT_FILE_MODIFIED \<noteq> 0"
  by (simp_all add: EVENT_HEARTBEAT_def EVENT_MESSAGE_def EVENT_FILE_MODIFIED_def)

lemma event_bits:
  "bit (pending_events e AND event_mask_of e) 0 \<longleftrightarrow> heartbeat_pending e \<and> (watched_events e = 0 \<or> bit (watched_events e) 0)"
  "bit (pending_events e AND event_mask_of e) 1 \<longleftrightarrow> mailbox e \<noteq> [] \<and> (watched_events e = 0 \<or> bit (watched_events e) 1)"
  "bit (pending_events e AND event_mask_of e) 2 \<longleftrightarrow> file_event_pending e \<and> bit (watched_events e) 2"
  by (auto simp: pending_events_def event_mask_of_def bit_and_iff bit_or_iff event_bit)

definition wait_deadline :: "int \<Rightarrow> int \<Rightarrow> u64 option" where
  "wait_deadline timeout t2 =
     (if timeout < 0 then None else Some (word_of_int (max (sint (word_of_int (t2 + timeout) :: u64)) 0)))"

lemma agent_wait_eq:
  assumes cur: "current k = Some p" and ext: "ext_of k p = Some e"
  shows "sys_agent_wait timeout start t2 now k =
     (let ev = pending_events e AND event_mask_of e;
          k2 = update_ext p (consume_events ev) (set_loop_state p Thinking k) in
      if ev \<noteq> 0 then Some (Ret (uint ev) (set_loop_state p Idle k2))
      else if 0 \<le> timeout \<and> timeout \<le> now - start then Some (Ret 0 (set_loop_state p Idle k2))
      else map_option Switch
             (block_current_agent (wait_deadline timeout t2) (In_Wait timeout start (wait_deadline timeout t2)) k2))"
proof -
  obtain t where t: "tcbs k p = Some t" "agent_ext_of t = Some e" using ext by (auto simp: ext_of_def bind_eq_Some_conv)
  let ?k1 = "set_loop_state p Thinking k" and ?e1 = "e\<lparr>ext_loop_state := Thinking\<rparr>"
  have c0: "current_tcb k = Some (p, t)" using t cur by (simp add: current_tcb_Some)
  have c1: "current_tcb ?k1 = Some (p, t\<lparr>agent_ext_of := Some ?e1\<rparr>)"
    using t cur frame_current [OF set_loop_state_frame] by (simp add: current_tcb_Some set_loop_state_def update_ext_def)
  have pe: "pending_events ?e1 = pending_events e" "event_mask_of ?e1 = event_mask_of e"
    by (simp_all add: pending_events_def event_mask_of_def)
  show ?thesis by (simp add: sys_agent_wait_def c0 c1 wait_round_def Let_def pe wait_deadline_def)
qed

lemma block_current_ok:
  assumes inv: "kernel_inv n k" and cur: "current k = Some p" and ext: "ext_of k p = Some e"
  obtains k' where "block_current_agent d r k = Some k'" "kernel_inv n k'" "status_of k' p = Some Blocked"
    "ext_of k' p = Some e" "(p, d) \<in> set (blocked_agents k')"
proof -
  let ?k = "(update_tcb p (\<lambda>t. t\<lparr>task_status := Blocked, resume := r\<rparr>) (k\<lparr>current := None\<rparr>))
              \<lparr>blocked_agents := blocked_agents k @ [(p, d)]\<rparr>"
  have bl: "block_current_agent d r k = Some ?k" using cur by (simp add: block_current_agent_def take_current_task_def)
  have inv': "kernel_inv n ?k" using block_current_agent_inv [OF inv bl] cur ext by auto
  show thesis
  proof (rule that [OF bl inv'])
    show "status_of ?k p = Some Blocked" using kernel_invD(5) [OF inv', of p] by simp
    show "ext_of ?k p = Some e"
      using ext ext_of_keep [of "\<lambda>t. t\<lparr>task_status := Blocked, resume := r\<rparr>" p "k\<lparr>current := None\<rparr>" p]
      by (simp add: ext_of_def)
  qed simp
qed

text \<open>
  C35: What \<open>sys_agent_wait\<close> does for an agent.  The events that count are those pending and
  watched, where an agent that watches nothing is taken to watch heartbeats and messages, not file
  events.  If there is one, the call returns their bits, marks heartbeat and file event as consumed
  exactly when they are reported, and the agent is idle.  Without one it returns 0 once the timeout
  has elapsed, and otherwise blocks the agent until its deadline.
\<close>

theorem agent_wait_outcomes:
  assumes inv: "kernel_inv n k" and cur: "current k = Some p" and ext: "ext_of k p = Some e"
  shows "let ev = pending_events e AND event_mask_of e in
     (bit ev 0 \<longleftrightarrow> heartbeat_pending e \<and> (watched_events e = 0 \<or> bit (watched_events e) 0)) \<and>
     (bit ev 1 \<longleftrightarrow> mailbox e \<noteq> [] \<and> (watched_events e = 0 \<or> bit (watched_events e) 1)) \<and>
     (bit ev 2 \<longleftrightarrow> file_event_pending e \<and> bit (watched_events e) 2) \<and>
     (if ev \<noteq> 0 then
        \<exists>k'. sys_agent_wait timeout start t2 now k = Some (Ret (uint ev) k') \<and>
          ext_of k' p = Some (e\<lparr>heartbeat_pending := heartbeat_pending e \<and> \<not> bit ev 0,
                                file_event_pending := file_event_pending e \<and> \<not> bit ev 2, ext_loop_state := Idle\<rparr>)
      else if 0 \<le> timeout \<and> timeout \<le> now - start then
        \<exists>k'. sys_agent_wait timeout start t2 now k = Some (Ret 0 k') \<and> ext_of k' p = Some (e\<lparr>ext_loop_state := Idle\<rparr>)
      else
        \<exists>k'. sys_agent_wait timeout start t2 now k = Some (Switch k') \<and> kernel_inv n k' \<and>
          status_of k' p = Some Blocked \<and> ext_of k' p = Some (e\<lparr>ext_loop_state := Thinking\<rparr>) \<and>
          (p, wait_deadline timeout t2) \<in> set (blocked_agents k'))"
proof -
  let ?ev = "pending_events e AND event_mask_of e" and ?k1 = "set_loop_state p Thinking k"
  let ?e1 = "e\<lparr>ext_loop_state := Thinking\<rparr>" and ?k2 = "update_ext p (consume_events ?ev) ?k1"
  note w = agent_wait_eq [OF cur ext, of timeout start t2 now, unfolded Let_def]
  have "ext_of ?k1 p = Some ?e1" using ext by (simp add: set_loop_state_def ext_of_update_ext)
  then have x2: "ext_of ?k2 p = Some (consume_events ?ev ?e1)" by (simp add: ext_of_update_ext)
  have x3: "ext_of (set_loop_state p Idle ?k2) p = Some ((consume_events ?ev ?e1)\<lparr>ext_loop_state := Idle\<rparr>)"
    by (simp add: set_loop_state_def [of p Idle] ext_of_update_ext [of p _ ?k2] x2)
  have ce: "(consume_events ?ev ?e1)\<lparr>ext_loop_state := Idle\<rparr> =
      e\<lparr>heartbeat_pending := heartbeat_pending e \<and> \<not> bit ?ev 0, file_event_pending := file_event_pending e \<and> \<not> bit ?ev 2,
        ext_loop_state := Idle\<rparr>"
    by (simp add: consume_events_def event_and event_nz del: bit_and_iff)
  have z: "?ev = 0 \<Longrightarrow> consume_events ?ev ?e1 = ?e1" by (simp add: consume_events_def)
  have fr: "frame k ?k2"
    by (rule frame_trans [OF set_loop_state_frame frame_update_ext]) (simp add: consume_events_def ext_ok_def)
  have cur2: "current ?k2 = Some p" using cur frame_current [OF fr] by simp
  let ?dl = "wait_deadline timeout t2"
  obtain k3 where k3: "block_current_agent ?dl (In_Wait timeout start ?dl) ?k2 = Some k3" "kernel_inv n k3"
    "status_of k3 p = Some Blocked" "ext_of k3 p = Some (consume_events ?ev ?e1)" "(p, ?dl) \<in> set (blocked_agents k3)"
    by (rule block_current_ok [OF frame_inv [OF fr inv] cur2 x2])
  consider (event) "?ev \<noteq> 0" | (timeout) "?ev = 0" "0 \<le> timeout \<and> timeout \<le> now - start"
    | (block) "?ev = 0" "\<not> (0 \<le> timeout \<and> timeout \<le> now - start)" by blast
  then show ?thesis
  proof cases
    case event
    with w x3 [unfolded ce] show ?thesis unfolding Let_def event_bits by simp
  next
    case timeout
    with w x3 [unfolded z [OF timeout(1)]] show ?thesis unfolding Let_def event_bits by simp
  next
    case block
    with w k3 z show ?thesis unfolding Let_def event_bits by simp
  qed
qed

theorem agent_wait_outcomes_witness:
  "\<exists>k'. sys_agent_wait (-1) 0 0 0 demo_kernel = Some (Switch k') \<and> status_of k' 1 = Some Blocked \<and>
     (1, None) \<in> set (blocked_agents k')"
proof -
  have e: "ext_of demo_kernel 1 = Some demo_ext" by (simp add: ext_of_def demo_tcb)
  have "pending_events demo_ext = 0" by (simp add: pending_events_def demo_ext_def agent_ext_new_def)
  with agent_wait_outcomes [OF demo_inv _ e, of "-1" 0 0 0] show ?thesis
    by (auto simp: Let_def wait_deadline_def)
qed

section \<open>End of a process\<close>

text \<open>
  C15: A process that exits (other than the initial one, which shuts the system down) becomes a
  zombie with its exit code and without children; its children become children of the initial
  process, after those it had; the status of every other process stays.
\<close>

theorem exit_reparents_children:
  assumes inv: "kernel_inv n k" and ex: "sys_exit code k = Some (Switch k')"
  shows "\<exists>p t. current k = Some p \<and> tcbs k' p = Some t \<and> task_status t = Zombie \<and> exit_code t = code \<and> children t = [] \<and>
     (\<forall>c\<in>set (children_of k p). parent_of k' c = Some (Some (initproc k))) \<and>
     children_of k' (initproc k) = children_of k (initproc k) @ children_of k p \<and>
     (\<forall>q. q \<noteq> p \<longrightarrow> status_of k' q = status_of k q) \<and> kernel_inv n k'"
proof -
  from ex obtain r where "exit_current code k = Some r" "(case r of Shutdown b \<Rightarrow> Halt b | Exited k \<Rightarrow> Switch k) = Switch k'"
    by (auto simp: sys_exit_def)
  then have ex': "exit_current code k = Some (Exited k')" by (cases r) simp_all
  obtain p t ms where p: "current k = Some p" "p \<noteq> IDLE_PID" "tcbs k p = Some t"
    and "ready_queue k' = ready_queue k" "current k' = None" "blocked_agents k' = blocked_agents k"
      "initproc k' = initproc k" "pids k' = pids k"
    and i: "initproc k \<notin> set (children t)" and self: "p \<notin> set (children t)" and pi: "p \<noteq> initproc k"
    and tc: "\<forall>q. tcbs k' q =
      (if q = p then Some (t\<lparr>task_status := Zombie, exit_code := code, children := [], memory_set_of := ms\<rparr>)
       else if q \<in> set (children t) then map_option (\<lambda>t. t\<lparr>parent := Some (initproc k)\<rparr>) (tcbs k q)
       else if q = initproc k then map_option (\<lambda>u. u\<lparr>children := children u @ children t\<rparr>) (tcbs k q)
       else tcbs k q)"
    by (rule exit_current_shape [OF inv ex'])
  from inv have tree: "tree_inv k" by (simp add: kernel_inv_def)
  have cs: "children_of k p = children t" using p(3) by (simp add: children_of_def)
  have "parent_of k' c = Some (Some (initproc k))" if c: "c \<in> set (children t)" for c
    using tree_child(1) [OF tree, of c p] c self tc by (auto simp: parent_of_def cs)
  moreover have "children_of k' (initproc k) = children_of k (initproc k) @ children t"
    using tc pi i tree_root [OF tree] by (auto simp: children_of_def)
  moreover have "status_of k' q = status_of k q" if "q \<noteq> p" for q
    using tc that by (cases "tcbs k q") (auto simp: status_of_def)
  moreover have "kernel_inv n k'" using exit_current_inv [OF inv ex'] by blast
  ultimately show ?thesis using p tc by (intro exI [of _ p]) (simp add: cs)
qed

theorem exit_reparents_children_witness:
  "\<exists>k'. sys_exit 7 demo_kernel = Some (Switch k') \<and> children_of k' 0 = [1, 2, 3] \<and> parent_of k' 3 = Some (Some 0) \<and>
     status_of k' 1 = Some Zombie"
proof -
  let ?t = "demo_task Running (Some 0) [3] (Some demo_ext)"
  have "tcbs demo_kernel 1 = Some ?t" by (simp add: demo_tcb)
  moreover have "recycle_data_pages (memory_set_of ?t, mc) = Some (memory_set_of ?t, mc)" for mc
    by (simp add: recycle_data_pages_def demo_task_def)
  ultimately obtain k' where k': "sys_exit 7 demo_kernel = Some (Switch k')"
    by (auto simp: sys_exit_def exit_current_def take_current_task_def IDLE_PID_def Let_def)
  from exit_reparents_children [OF demo_inv k'] k' show ?thesis
    by (auto simp: demo_views status_of_def)
qed

lemma first_match:
  assumes "position P xs = Some i" "distinct xs"
  shows "filter P xs = xs ! i # filter P (drop (Suc i) xs)" "vec_remove i xs = remove1 (xs ! i) xs"
proof -
  from position_Some [OF assms(1)] have i: "i < length xs" "P (xs ! i)" "\<forall>j<i. \<not> P (xs ! j)" by auto
  have sp: "xs = take i xs @ xs ! i # drop (Suc i) xs" by (rule id_take_nth_drop [OF i(1)])
  have no: "filter P (take i xs) = []" using i by (auto simp: filter_empty_conv in_set_conv_nth)
  show "filter P xs = xs ! i # filter P (drop (Suc i) xs)" by (subst sp) (simp add: no i(2))
  have "xs ! i \<notin> set (take i xs)" using sp assms(2) by (metis disjoint_insert(1) distinct_append list.simps(15))
  then show "vec_remove i xs = remove1 (xs ! i) xs" using sp by (metis remove1_append remove1.simps(2) vec_remove_def)
qed

text \<open>
  C16: What \<open>sys_waitpid\<close> does: -1 if no child matches, -2 if no matching child is a zombie, and
  otherwise the first matching zombie is taken out of the children, its exit code is written to the
  caller's memory and its control block is dropped.  The assertion that nothing else refers to the
  child never fails.
\<close>

theorem waitpid_outcomes:
  assumes inv: "kernel_inv n k" and cur: "current k = Some p" "tcbs k p = Some t"
  shows "sys_waitpid pid ptr k =
     (if \<forall>c\<in>set (children t). \<not> waits_for pid c then Some (-1, k)
      else case filter (\<lambda>c. zombie_pid k c \<and> waits_for pid c) (children t) of
        [] \<Rightarrow> Some (-2, k)
      | c # cs \<Rightarrow>
          let k1 = update_tcb p (\<lambda>t. t\<lparr>children := remove1 c (children t)\<rparr>) k in
          Option.bind (translated_refmut (user_mem k) (get_user_token t) ptr) (\<lambda>pa.
          map_option (\<lambda>k. (sint c, k))
            (tcb_drop c (set_mem (store_bytes (user_mem k) pa (to_le_bytes (exit_code (the (tcbs k c))))) k1))))"
proof -
  let ?P = "\<lambda>c. zombie_pid k c \<and> waits_for pid c"
  have ct: "current_tcb k = Some (p, t)" using cur by (simp add: current_tcb_Some)
  from inv have tree: "tree_inv k" by (simp add: kernel_inv_def)
  have ch: "children_of k p = children t" using cur by (simp add: children_of_def)
  show ?thesis
  proof (cases "position ?P (children t)")
    case None
    then have "filter ?P (children t) = []" by (simp add: position_None filter_empty_conv)
    with None ct show ?thesis by (auto simp: sys_waitpid_def list_ex_iff)
  next
    case (Some idx)
    let ?c = "children t ! idx"
    from position_Some [OF Some] have idx: "idx < length (children t)" "zombie_pid k ?c" "waits_for pid ?c" by auto
    have "distinct (children t)" using tree ch unfolding tree_inv_def by metis
    note fm = first_match [OF Some this]
    let ?k1 = "update_tcb p (\<lambda>t. t\<lparr>children := vec_remove idx (children t)\<rparr>) k"
    have k1: "?k1 = update_tcb p (\<lambda>t. t\<lparr>children := remove1 ?c (children t)\<rparr>) k"
      using cur(2) fm(2) by (simp add: update_tcb_def)
    have refs: "strong_refs ?c ?k1 = 0"
      using reaped_unreferenced [OF inv idx(2), of p idx] ch idx(1) by simp
    obtain u where u: "tcbs k ?c = Some u" using idx(2) by (auto simp: zombie_pid_def split: option.splits)
    have "?c \<noteq> p" using not_own_child [OF tree, of p] cur(2) ch idx(1) nth_mem by fastforce
    then have r: "reap_child p idx ptr k =
        Option.bind (translated_refmut (user_mem k) (get_user_token t) ptr) (\<lambda>pa.
          map_option (\<lambda>k. (sint ?c, k)) (tcb_drop ?c (set_mem (store_bytes (user_mem k) pa (to_le_bytes (exit_code u))) ?k1)))"
      using cur(2) refs u by (simp add: reap_child_def Let_def)
    have "list_ex (waits_for pid) (children t)" using idx by (auto simp: list_ex_iff)
    with fm(1) ct Some r u k1 show ?thesis
      by (auto simp: sys_waitpid_def list_ex_iff Let_def)
  qed
qed

theorem waitpid_outcomes_witness:
  "sys_waitpid (-1) 0 demo_kernel =
     Option.bind (translated_refmut (user_mem demo_kernel) (get_user_token (demo_task Running (Some 0) [3] (Some demo_ext))) 0) (\<lambda>pa.
       map_option (\<lambda>k. (3, k)) (tcb_drop 3 (set_mem (store_bytes (user_mem demo_kernel) pa [0, 0, 0, 0])
         (update_tcb 1 (\<lambda>t. t\<lparr>children := remove1 3 (children t)\<rparr>) demo_kernel))))"
proof -
  have t: "tcbs demo_kernel 1 = Some (demo_task Running (Some 0) [3] (Some demo_ext))" by (simp add: demo_tcb)
  have z: "zombie_pid demo_kernel 3" by (simp add: zombie_pid_def is_zombie_def demo_tcb)
  have e: "to_le_bytes (exit_code (the (tcbs demo_kernel 3))) = [0, 0, 0, 0]"
    by (simp add: demo_tcb demo_task_def) code_simp
  from waitpid_outcomes [OF demo_inv _ t, of "-1" 0] show ?thesis
    by (simp add: waits_for_def z e Let_def)
qed

section \<open>What tools report\<close>

lemma collect_infos_map:
  "set ps \<subseteq> dom (tcbs k) \<Longrightarrow> collect_infos k ps = Some (map (\<lambda>p. process_info_of p (the (tcbs k p))) ps)"
  by (induction ps) auto

lemma collect_processes_all:
  assumes "kernel_inv n k"
  obtains ps where "collect_processes k = Some (map (\<lambda>p. process_info_of p (the (tcbs k p))) ps)"
    "distinct ps" "set ps = dom (tcbs k)"
proof -
  obtain ps where ps: "snapshot_all_processes k = Some ps" "distinct ps" "set ps = dom (tcbs k)"
    by (rule snapshot_all [OF assms])
  with collect_infos_map [of ps k] that show thesis by (simp add: collect_processes_def)
qed

lemma length_filter_card: "distinct xs \<Longrightarrow> length (filter P (map f xs)) = card {x \<in> set xs. P (f x)}"
  by (simp add: filter_map comp_def distinct_card [symmetric])

text \<open>
  C36: The tool \<open>system_status\<close> reports the number of processes, of agents among them, and of
  running ones, which is one for the caller, and \<open>query_process\<close> exactly the processes that match
  the filters, each once.
\<close>

theorem tools_report_processes:
  assumes inv: "kernel_inv n k"
  shows "system_status pc now req k = Some (ok_body (pc_status_info pc
       \<lparr>total_procs = word_of_nat (card (dom (tcbs k))), agent_procs = word_of_nat (card {p. ext_of k p \<noteq> None}),
        running_procs = (if current k = None then 0 else 1), memory_used_bytes = 0, uptime_ticks = now\<rparr>)) \<and>
     (\<forall>st ty. params req = PQueryProcess st ty \<longrightarrow>
        (\<exists>ps. query_process pc req k = Some (ok_body (pc_process_list pc (map (\<lambda>p. process_info_of p (the (tcbs k p))) ps))) \<and>
           distinct ps \<and>
           set ps = {p. \<exists>t. tcbs k p = Some t \<and> process_matches st ty (process_info_of p t)}))"
proof -
  let ?f = "\<lambda>p. process_info_of p (the (tcbs k p))"
  obtain ps where ps: "collect_processes k = Some (map ?f ps)" "distinct ps" "set ps = dom (tcbs k)"
    by (rule collect_processes_all [OF inv])
  have "{p \<in> set ps. pi_is_agent (?f p)} = {p. ext_of k p \<noteq> None}"
    by (auto simp: ps(3) process_info_of_def ext_of_def bind_eq_None_conv split: option.splits)
  then have ag: "length (filter pi_is_agent (map ?f ps)) = card {p. ext_of k p \<noteq> None}"
    by (simp only: length_filter_card [OF ps(2)])
  have ms: "map_status s = PRunning \<longleftrightarrow> s = Running" for s by (cases s) simp_all
  have "{p \<in> set ps. pi_status (?f p) = PRunning} = {p. current k = Some p}"
    using kernel_invD(4) [OF inv] by (auto simp: ps(3) process_info_of_def ms status_of_def)
  then have "length (filter (\<lambda>p. pi_status p = PRunning) (map ?f ps)) = card {p. current k = Some p}"
    by (simp only: length_filter_card [OF ps(2)])
  then have ru: "length (filter (\<lambda>p. pi_status p = PRunning) (map ?f ps)) = (if current k = None then 0 else 1)"
    by (auto simp: card_1_singleton_iff)
  have "system_status pc now req k = Some (ok_body (pc_status_info pc
       \<lparr>total_procs = word_of_nat (card (dom (tcbs k))), agent_procs = word_of_nat (card {p. ext_of k p \<noteq> None}),
        running_procs = (if current k = None then 0 else 1), memory_used_bytes = 0, uptime_ticks = now\<rparr>))"
    unfolding system_status_def ps(1) option.map ag ru using distinct_card [OF ps(2)] by (simp add: ps(3))
  moreover have "\<exists>ps. query_process pc req k = Some (ok_body (pc_process_list pc (map ?f ps))) \<and> distinct ps \<and>
      set ps = {p. \<exists>t. tcbs k p = Some t \<and> process_matches st ty (process_info_of p t)}"
    if "params req = PQueryProcess st ty" for st ty
    using that ps by (intro exI [of _ "filter (\<lambda>p. process_matches st ty (?f p)) ps"])
      (auto simp: query_process_def filter_map comp_def)
  ultimately show ?thesis by blast
qed

theorem tools_report_processes_witness:
  "system_status demo_postcard 9 \<lparr>req_id = 1, tool = SystemStatus, params = PSystemStatus\<rparr> demo_kernel =
     Some (ok_body (pc_status_info demo_postcard
       \<lparr>total_procs = 4, agent_procs = 2, running_procs = 1, memory_used_bytes = 0, uptime_ticks = 9\<rparr>))"
proof -
  have d: "card (dom (tcbs demo_kernel)) = 4" by (simp add: demo_dom)
  have "{p. ext_of demo_kernel p \<noteq> None} = {1, 2}" by (auto simp: ext_of_def demo_tcb split: if_splits)
  then have a: "card {p. ext_of demo_kernel p \<noteq> None} = 2" by simp
  from tools_report_processes [OF demo_inv, of demo_postcard 9, unfolded d a] show ?thesis by simp
qed

end
