(* ===== verification/Agent_Laws.thy ===== *)
theory Agent_Laws
  imports Kernel_Theorems Context_Path_Laws
begin

text \<open>
  Becoming an agent: \<open>sys_agent_create\<close> over the laws of address spaces, and what it does in a
  child that was forked from an agent.
\<close>

section \<open>Creation\<close>

lemma agent_create_mapped:
  assumes inv: "ms_inv l r (memory_set_of t, k_machine k)" and cur: "current_tcb k = Some (p, t)"
    and none: "agent_ext_of t = None" and v: "v \<in> set (range_list area_vpns)"
    and mapped: "pt_view (mem (k_machine k)) (ms_root (memory_set_of t)) v \<noteq> None"
  shows "sys_agent_create pad cfg k = None"
proof -
  have "context_area_allocate CONTEXT_AREA_DEFAULT_SIZE (memory_set_of t, k_machine k) = None"
  proof (rule ccontr)
    assume "context_area_allocate CONTEXT_AREA_DEFAULT_SIZE (memory_set_of t, k_machine k) \<noteq> None"
    then obtain area ms' mc' where
      "context_area_allocate CONTEXT_AREA_DEFAULT_SIZE (memory_set_of t, k_machine k) = Some (area, ms', mc')" by auto
    from context_area_allocated [OF inv this] have
      "\<forall>v\<in>set (range_list area_vpns). pt_view (mem (k_machine k)) (ms_root (memory_set_of t)) v = None" by blast
    from bspec [OF this v] mapped show False by simp
  qed
  with cur none show ?thesis by (simp add: sys_agent_create_def)
qed

text \<open>
  C37: \<open>sys_agent_create\<close> in a process whose address space has nothing in the context area: with
  enough frames it returns 0, the process is an agent with quotas of 128 nodes and 16 KiB, and its
  context area is 64 KiB of reachable memory with the initial header.  In an agent it changes nothing
  and returns 0.  If a page of the context area is already mapped, it panics.
\<close>

theorem agent_create_outcomes:
  assumes inv: "ms_inv l r (memory_set_of t, k_machine k)" and cur: "current k = Some p" "tcbs k p = Some t"
    and pad: "length pad = 4"
  shows "if agent_ext_of t \<noteq> None then sys_agent_create pad cfg k = Some (0, k)
     else if \<exists>v\<in>set (range_list area_vpns). pt_view (mem (k_machine k)) (ms_root (memory_set_of t)) v \<noteq> None
     then sys_agent_create pad cfg k = None
     else 48 \<le> frames_free (frame_allocator (k_machine k)) \<longrightarrow>
       (\<exists>k' t' addrs. sys_agent_create pad cfg k = Some (0, k') \<and> tcbs k' p = Some t' \<and>
          agent_ext_of t' = Some (agent_ext_new Normal 0x80000000 0x10000 128 (16 * 1024)) \<and>
          length addrs = 0x10000 \<and>
          user_region (get_user_token t') 0x80000000 addrs (user_mem k') \<and>
          map (user_mem k') addrs = header_bytes pad initial_header @ replicate (0x10000 - 248) 0)"
proof -
  have ct: "current_tcb k = Some (p, t)" using cur by (simp add: current_tcb_Some)
  consider (agent) "agent_ext_of t \<noteq> None"
    | (mapped) v where "agent_ext_of t = None" "v \<in> set (range_list area_vpns)"
        "pt_view (mem (k_machine k)) (ms_root (memory_set_of t)) v \<noteq> None"
    | (free) "agent_ext_of t = None"
        "\<forall>v\<in>set (range_list area_vpns). pt_view (mem (k_machine k)) (ms_root (memory_set_of t)) v = None" by blast
  then show ?thesis
  proof cases
    case agent
    with ct show ?thesis by (simp add: sys_agent_create_def)
  next
    case mapped
    from agent_create_mapped [OF inv ct mapped] mapped show ?thesis by auto
  next
    case free
    have "\<exists>k' t' addrs. sys_agent_create pad cfg k = Some (0, k') \<and> tcbs k' p = Some t' \<and>
          agent_ext_of t' = Some (agent_ext_new Normal 0x80000000 0x10000 128 (16 * 1024)) \<and>
          length addrs = 0x10000 \<and> user_region (get_user_token t') 0x80000000 addrs (user_mem k') \<and>
          map (user_mem k') addrs = header_bytes pad initial_header @ replicate (0x10000 - 248) 0"
      if "48 \<le> frames_free (frame_allocator (k_machine k))"
    proof -
      from context_area_init [OF inv pad free(2) that] obtain area ms mc addrs m where
        r: "context_area_allocate CONTEXT_AREA_DEFAULT_SIZE (memory_set_of t, k_machine k) = Some (area, ms, mc)"
          "area = \<lparr>area_base = 0x80000000, area_bytes = 0x10000\<rparr>" "init_header pad area (ms_token ms) (mem mc) = Some m"
        and u: "length addrs = 0x10000" "user_region (ms_token ms) 0x80000000 addrs m"
          "map m addrs = header_bytes pad initial_header @ replicate (0x10000 - 248) 0" by blast
      let ?f = "\<lambda>t. t\<lparr>memory_set_of := ms, agent_ext_of := Some (agent_ext_new Normal 0x80000000 0x10000 128 (16 * 1024))\<rparr>"
      let ?k = "update_tcb p ?f (k\<lparr>k_machine := mc\<lparr>mem := m\<rparr>\<rparr>)"
      have "sys_agent_create pad cfg k = Some (0, ?k)" using ct free(1) r by (simp add: sys_agent_create_def)
      moreover have "tcbs ?k p = Some (?f t)" using cur by simp
      ultimately show ?thesis using u by (intro exI [of _ ?k] exI [of _ "?f t"] exI [of _ addrs])
        (simp add: get_user_token_def user_mem_def)
    qed
    with free show ?thesis by auto
  qed
qed

theorem agent_create_outcomes_witness:
  "\<exists>k k' t'. current k = Some 1 \<and> sys_agent_create [0, 0, 0, 0] 0 k = Some (0, k') \<and> tcbs k' 1 = Some t' \<and>
     agent_ext_of t' = Some (agent_ext_new Normal 0x80000000 0x10000 128 (16 * 1024))"
proof -
  obtain ms mc where s: "ms_inv 0x80400 0x88000 (ms, mc)" "\<And>v. pt_view (mem mc) (ms_root ms) v = None"
    "frames_free (frame_allocator mc) = 0x7BFF" using demo_space by blast
  define t where "t = (demo_task Running (Some 0) [3] None)\<lparr>memory_set_of := ms\<rparr>"
  define k where "k = demo_kernel\<lparr>k_machine := mc, tcbs := demo_tcbs(1 \<mapsto> t)\<rparr>"
  have h: "ms_inv 0x80400 0x88000 (memory_set_of t, k_machine k)" "current k = Some 1" "tcbs k 1 = Some t"
    "length [0, 0, 0, 0 :: u8] = 4" "agent_ext_of t = None"
    using s(1) by (simp_all add: t_def k_def demo_task_def)
  have m: "memory_set_of t = ms" "k_machine k = mc" by (simp_all add: t_def k_def)
  from agent_create_outcomes [OF h(1-4), of 0] s(2,3) h(5) m
  have "\<exists>k' t'. sys_agent_create [0, 0, 0, 0] 0 k = Some (0, k') \<and> tcbs k' 1 = Some t' \<and>
     agent_ext_of t' = Some (agent_ext_new Normal 0x80000000 0x10000 128 (16 * 1024))" by auto
  with h(2) show ?thesis by blast
qed

section \<open>Children of agents\<close>

lemma mapped_area_view:
  assumes inv: "ms_inv l r (ms, mc)" and a: "a \<in> set (ms_areas ms)" "v \<in> set (range_list (area_range a))"
  shows "pt_view (mem mc) (ms_root ms) v \<noteq> None"
proof -
  from inv a(1) have m: "area_mapped (mem mc) (ms_root ms) a" by (simp add: ms_inv_def)
  from area_mapped_get [OF m a(2)] show ?thesis by fastforce
qed



end
