(* ===== verification/User_Laws.thy ===== *)
theory User_Laws
  imports User_Lib Agent_Laws
begin

text \<open>
  The user library over the kernel: each wrapper reaches its kernel function with its arguments,
  nodes of the context path are read without a call, and a tool call hands its result over in the
  context area.
\<close>

section \<open>Wrappers\<close>

lemma sint_isize: "- (2 ^ 63) \<le> i \<Longrightarrow> i < 2 ^ 63 \<Longrightarrow> sint (word_of_int i :: usize) = i"
  by (simp add: sint_sbintrunc' signed_take_bit_int_eq_self)

lemma ucast_scast_u32: "ucast (scast (c :: u32) :: u64) = c"
  by (rule bit_word_eqI) (simp add: bit_simps)

lemma ucast_ucast_u32: "ucast (ucast (c :: u32) :: u64) = c"
  by (rule bit_word_eqI) (simp add: bit_simps)

lemmas ecall_simps = do_ecall_def syscall_def syscall_agent_def syscall_numbers user_syscall_numbers user_wrappers
  ucast_scast_u32 ucast_ucast_u32

text \<open>
  C40: Each wrapper of the user library reaches the kernel function of the same name with the
  arguments it was given, whatever the argument registers hold that it does not set: the numbers on
  both sides agree, and no argument is lost in the conversions to and from registers.
\<close>

theorem user_calls_reach_kernel:
  fixes env pc inp junk
  defines "call \<equiv> do_ecall env pc inp junk"
  shows "call (u_sys_open path flags) k = ret (sys_open (fst path) flags k) \<and>
    call (u_sys_close fd) k = ret (sys_close fd k) \<and>
    call (u_sys_read fd buf) k = sys_read (in_getchar inp) fd (fst buf) (snd buf) k \<and>
    call (u_sys_write fd buf) k = ret (sys_write fd (fst buf) (snd buf) k) \<and>
    call (u_sys_exit code) k = sys_exit code k \<and>
    call u_sys_yield k = sys_yield k \<and>
    call u_sys_get_time k = ret (Some (sys_get_time (time_ms inp 0) k)) \<and>
    call u_sys_getpid k = ret (sys_getpid k) \<and>
    call u_sys_fork k = ret (sys_fork env k) \<and>
    call (u_sys_exec path) k = ret (sys_exec env (fst path) k) \<and>
    call (u_sys_waitpid pid a) k = ret (sys_waitpid (sint pid) a k) \<and>
    call (u_sys_agent_create a) k = ret (sys_agent_create (in_pad inp) a k) \<and>
    call (u_sys_agent_info pid a n) k = ret (sys_agent_info pid a n k) \<and>
    call (u_sys_tool_call a n b c) k = ret (sys_tool_call pc (in_time inp 0) a n b c k) \<and>
    call (u_sys_tool_list a n) k = ret (sys_tool_list pc a n k) \<and>
    call (u_sys_context_push a n b m) k = ret (sys_context_push (in_time inp 0) a n b m k) \<and>
    call (u_sys_context_query n m a b) k = ret (sys_context_query pc n m a b k) \<and>
    call (u_sys_context_rollback n) k = ret (sys_context_rollback n k) \<and>
    call u_sys_context_clear k = ret (sys_context_clear k) \<and>
    call (u_sys_agent_heartbeat_set n) k = ret (sys_agent_heartbeat_set (time_ms inp 0) n k) \<and>
    call u_sys_agent_heartbeat_stop k = ret (sys_agent_heartbeat_stop k) \<and>
    call (u_sys_agent_watch ev) k = ret (sys_agent_watch ev 0 0 k) \<and>
    call (u_sys_agent_unwatch ev) k = ret (sys_agent_unwatch (ucast ev) k) \<and>
    call (u_sys_agent_wait d) k = sys_agent_wait (sint d) (sint (time_ms inp 0)) (sint (time_ms inp 1)) (sint (time_ms inp 2)) k \<and>
    call (u_sys_mailbox_recv a n) k = ret (sys_mailbox_recv a n k) \<and>
    call (u_sys_agent_set_loop_state st) k = ret (sys_agent_set_loop_state st k) \<and>
    call (u_sys_file_attr_set a n b m) k = ret (sys_file_attr_set a n b m k) \<and>
    call (u_sys_file_attr_del a n b m) k = ret (sys_file_attr_del a n b m k) \<and>
    call (u_sys_agent_set_priority n) k = ret (sys_agent_set_priority n k) \<and>
    call (u_sys_file_attr_bench n m i) k = Some (Ret (sys_file_attr_bench (in_time inp 0) (in_time inp 1) n m i) k)"
  unfolding call_def by (intro conjI) (simp_all add: ecall_simps)

section \<open>Reading the context path without a call\<close>

lemma kernel_load:
  assumes "current k = Some p" "tcbs k p = Some t" "n < 2 ^ 64"
  shows "u_load (kernel_machine env pc inp junk) a n k = read_user_bytes (get_user_token t) a (replicate n 0) (user_mem k)"
  using assms by (simp add: kernel_machine_def current_user_token_def current_tcb_def get_user_def unat_of_nat_u64)

lemma quad_at: "i + 4 \<le> length h \<Longrightarrow> [h ! i, h ! (i + 1), h ! (i + 2), h ! (i + 3)] = slice_at i 4 h"
  by (rule nth_equalityI) (auto simp: slice_at_def nth_Cons numeral_eq_Suc split: nat.splits)

definition user_meta :: "path_node_meta \<Rightarrow> user_node_meta" where
  "user_meta pm = \<lparr>um_offset = offset_in_buffer pm, um_len = node_len pm, um_seq = node_seq pm, um_write_time = write_time pm\<rparr>"

lemma node_parts:
  fixes nd :: path_node
  defines "h \<equiv> slice_at 0 24 (node_bytes nd)"
  shows "length h = 24" "slice_at 16 4 h = to_le_bytes (word_of_nat (length (pn_req nd)) :: u32)"
    "slice_at 20 4 h = to_le_bytes (word_of_nat (length (pn_resp nd)) :: u32)"
    "slice_at 24 (length (pn_req nd)) (node_bytes nd) = pn_req nd"
    "slice_at (24 + length (pn_req nd)) (length (pn_resp nd)) (node_bytes nd) = pn_resp nd"
  by (simp_all add: h_def slice_at_def node_bytes_def)

lemma zero_copy_read:
  assumes cur: "current k = Some p" "tcbs k p = Some t" and base: "context_area_base ext = 0x80000000"
    and core: "path_core (get_user_token t) addrs ns (ext, user_mem k)" and i: "i < length ns"
  shows "read_path_node_zero_copy (kernel_machine env pc inp junk) (user_meta (path_meta ext ! i)) k =
     Some (Some (pn_req (ns ! i), pn_resp (ns ! i)))"
proof -
  let ?nd = "ns ! i" and ?M = "kernel_machine env pc inp junk"
  let ?a = "AGENT_CONTEXT_BASE + 0x4100 + ucast (um_offset (user_meta (path_meta ext ! i)))"
  let ?q = "length (pn_req ?nd)" and ?r = "length (pn_resp ?nd)"
  note s = path_node_slice [OF core i]
  have sz: "24 + ?q + ?r \<le> 0x8000" using s(2) by (simp add: node_size_def)
  have part: "u_load ?M (?a + d) n k = Some (slice_at (unat d) n (node_bytes ?nd))"
    if "unat d + n \<le> 24 + ?q + ?r" for d n
    using path_node_part [OF core i, of d "replicate n 0"] that sz
    by (simp add: kernel_load [OF cur])
      (simp add: base AGENT_CONTEXT_BASE_def PATH_BUFFER_OFF_def user_meta_def node_size_def)
  have h: "u_load ?M ?a 24 k = Some (slice_at 0 24 (node_bytes ?nd))" using part [of 0 24] by simp
  let ?h = "slice_at 0 24 (node_bytes ?nd)"
  have lens: "from_le_bytes [?h ! 16, ?h ! 17, ?h ! 18, ?h ! 19] = (word_of_nat ?q :: u32)"
    "from_le_bytes [?h ! 20, ?h ! 21, ?h ! 22, ?h ! 23] = (word_of_nat ?r :: u32)"
    using quad_at [of 16 ?h] quad_at [of 20 ?h] by (simp_all add: node_parts del: One_nat_def)
  have u: "unat (ucast (word_of_nat ?q :: u32) :: usize) = ?q" "unat (ucast (word_of_nat ?r :: u32) :: usize) = ?r"
    using sz by (simp_all add: unat_of_nat_u32)
  have rq: "u_load ?M (?a + 24) ?q k = Some (pn_req ?nd)" using part [of 24 ?q] by (simp add: node_parts)
  have "unat (24 + ucast (word_of_nat ?q :: u32) :: usize) = 24 + ?q"
    using u sz by (subst unat_add_u64_small) simp_all
  with part [of "24 + ucast (word_of_nat ?q :: u32)" ?r]
  have rs: "u_load ?M (?a + 24 + ucast (word_of_nat ?q :: u32)) ?r k = Some (pn_resp ?nd)"
    by (simp add: node_parts add.assoc)
  have "\<not> um_len (user_meta (path_meta ext ! i)) < 24"
    using s(2,3) by (simp add: user_meta_def word_less_unat unat_of_nat_u32) (simp add: node_size_def)
  with h lens u rq rs show ?thesis by (simp add: read_path_node_zero_copy_def Let_def)
qed

text \<open>What \<open>sys_context_push\<close> does for an agent whose path holds \<open>ns\<close>.\<close>

lemma sys_context_push_ok:
  fixes now :: u64
  assumes cur: "current k = Some p" "tcbs k p = Some t" "agent_ext_of t = Some ext"
    and inv: "path_inv (get_user_token t) addrs ns (ext, user_mem k)" and pos: "0 < unat (max_nodes (ext_quota ext))"
    and get: "get_summary (get_user_token t) a n k = Some rq" "get_summary (get_user_token t) b m k = Some rs"
    and len: "n \<le> 4096" "m \<le> 4096"
    and fit: "24 + length rq + length rs \<le> unat (max_bytes (ext_quota ext))"
  defines "nd \<equiv> \<lparr>pn_seq = next_seq ext, pn_ts = now, pn_req = rq, pn_resp = rs\<rparr>"
  obtains k' t' ext' where
    "sys_context_push now a n b m k = Some (int (length (make_room (ext_quota ext) (node_size nd) ns)), k')"
    "current k' = Some p" "tcbs k' p = Some t'" "agent_ext_of t' = Some ext'" "get_user_token t' = get_user_token t"
    "path_inv (get_user_token t) addrs (make_room (ext_quota ext) (node_size nd) ns @ [nd]) (ext', user_mem k')"
    "ext_frame ext' = ext_frame ext" "region_outside addrs (user_mem k') = region_outside addrs (user_mem k)"
proof -
  let ?kept = "make_room (ext_quota ext) (node_size nd) ns"
  from inv have core: "path_core (get_user_token t) addrs ns (ext, user_mem k)" by (simp add: path_inv_def)
  from push_node_ok [OF core, of nd] fit pos obtain e' m' where
    r: "push_node now (get_user_token t) rq rs (ext, user_mem k) = Some (Inr (length ?kept), e', m')"
    "path_inv (get_user_token t) addrs (?kept @ [nd]) (e', m')" "ext_frame e' = ext_frame ext"
    "region_outside addrs m' = region_outside addrs (user_mem k)"
    by (auto simp: nd_def node_size_def path_to_def)
  let ?k = "set_path_state p (e', m') k" and ?t = "t\<lparr>agent_ext_of := Some e'\<rparr>"
  have "sys_context_push now a n b m k = Some (int (length ?kept), ?k)"
    using cur get len r(1) by (simp add: sys_context_push_def current_tcb_def Let_def not_less)
  moreover have "current ?k = Some p" "tcbs ?k p = Some ?t" "user_mem ?k = m'" "agent_ext_of ?t = Some e'"
    "get_user_token ?t = get_user_token t"
    using cur by (simp_all add: set_path_state_def get_user_token_def)
  ultimately show thesis using r(2-4) by (intro that [of ?k ?t e']) simp_all
qed

text \<open>
  C39: An agent that pushes a node reads it back without a call.  \<open>context_push\<close> of the user library
  returns the index of the node, and from then on \<open>read_path_node_zero_copy\<close>, which only loads from
  the context area at the place the metadata gives, returns request and response of every node the
  path has kept, and of the new one, exactly as they were pushed.
\<close>

theorem context_push_read_back:
  assumes cur: "current k = Some p" "tcbs k p = Some t" "agent_ext_of t = Some ext" "context_area_base ext = 0x80000000"
    and inv: "path_inv (get_user_token t) addrs ns (ext, user_mem k)" and pos: "0 < unat (max_nodes (ext_quota ext))"
    and get: "get_summary (get_user_token t) a n k = Some rq" "get_summary (get_user_token t) b m k = Some rs"
    and len: "n \<le> 4096" "m \<le> 4096"
    and fit: "24 + length rq + length rs \<le> unat (max_bytes (ext_quota ext))"
  shows "\<exists>kept k' ext'. kept = make_room (ext_quota ext) (24 + length rq + length rs) ns \<and>
     u_context_push (kernel_machine env pc inp junk) (a, n) (b, m) k = Some (Inr (length kept), k') \<and>
     ext_of k' p = Some ext' \<and> length (path_meta ext') = Suc (length kept) \<and>
     (\<forall>i \<le> length kept. read_path_node_zero_copy (kernel_machine env pc inp junk) (user_meta (path_meta ext' ! i)) k' =
        Some (Some (if i = length kept then (rq, rs) else (pn_req (kept ! i), pn_resp (kept ! i)))))"
proof -
  let ?nd = "\<lparr>pn_seq = next_seq ext, pn_ts = in_time inp 0, pn_req = rq, pn_resp = rs\<rparr>"
  let ?kept = "make_room (ext_quota ext) (24 + length rq + length rs) ns"
  have sz: "node_size ?nd = 24 + length rq + length rs" by (simp add: node_size_def)
  from sys_context_push_ok [OF cur(1-3) inv pos get len fit, of "in_time inp 0", unfolded sz] obtain k' t' ext' where
    push: "sys_context_push (in_time inp 0) a n b m k = Some (int (length ?kept), k')"
    and k': "current k' = Some p" "tcbs k' p = Some t'" "agent_ext_of t' = Some ext'" "get_user_token t' = get_user_token t"
    and inv': "path_inv (get_user_token t) addrs (?kept @ [?nd]) (ext', user_mem k')" and fr: "ext_frame ext' = ext_frame ext"
    by blast
  from arg_cong [OF fr, of context_area_base] cur(4) have b: "context_area_base ext' = 0x80000000" by (simp add: ext_frame_def)
  from inv' k'(4) have core: "path_core (get_user_token t') addrs (?kept @ [?nd]) (ext', user_mem k')" by (simp add: path_inv_def)
  then have meta: "length (path_meta ext') = Suc (length ?kept)" by (simp add: path_core_def)
  have "length ?kept < 2 ^ 32" using inv' unat_bound [of "max_nodes (ext_quota ext')"] by (simp add: path_inv_def)
  then have "sint (word_of_int (int (length ?kept)) :: usize) = int (length ?kept)"
    by (intro sint_isize) simp_all
  then have "u_context_push (kernel_machine env pc inp junk) (a, n) (b, m) k = Some (Inr (length ?kept), k')"
    using push by (simp add: u_context_push_def kernel_machine_def ecall_simps ret_def count_or_error_def)
  moreover have "read_path_node_zero_copy (kernel_machine env pc inp junk) (user_meta (path_meta ext' ! i)) k' =
      Some (Some (if i = length ?kept then (rq, rs) else (pn_req (?kept ! i), pn_resp (?kept ! i))))"
    if "i \<le> length ?kept" for i
    using zero_copy_read [OF k'(1,2) b core, of i env pc inp junk] that by (simp add: nth_append)
  ultimately show ?thesis
    using meta k' by (intro exI [of _ ?kept] exI [of _ k'] exI [of _ ext']) (simp add: ext_of_def)
qed

text \<open>The example kernel with a fresh agent running.\<close>

lemma demo_agent:
  obtains k t addrs where "current k = Some 1" "tcbs k 1 = Some t" "agent_ext_of t = Some demo_ext" "kernel_inv 4 k"
    "path_inv (get_user_token t) addrs [] (demo_ext, user_mem k)" "tcbs k 0 = tcbs demo_kernel 0"
proof -
  obtain ms mc where s: "ms_inv 0x80400 0x88000 (ms, mc)" "\<And>v. pt_view (mem mc) (ms_root ms) v = None"
    "frames_free (frame_allocator mc) = 0x7BFF" using demo_space by blast
  from context_area_init [OF s(1), of "[0, 0, 0, 0]"] s(2,3) obtain ms' and mc' :: machine and addrs m where
    a: "length addrs = 0x10000" "user_region (ms_token ms') 0x80000000 addrs m"
      "map m addrs = header_bytes [0, 0, 0, 0] initial_header @ replicate (0x10000 - 248) 0" by auto
  let ?t = "(demo_task Running (Some 0) [3] (Some demo_ext))\<lparr>memory_set_of := ms'\<rparr>"
  let ?k = "demo_kernel\<lparr>k_machine := mc'\<lparr>mem := m\<rparr>, tcbs := demo_tcbs(1 \<mapsto> ?t)\<rparr>"
  from fresh_path [OF a(2,1,3), of 128 "0x4000"]
  have "path_inv (get_user_token ?t) addrs [] (demo_ext, user_mem ?k)"
    by (simp add: demo_ext_def get_user_token_def user_mem_def)
  moreover have "frame demo_kernel ?k"
    by (auto simp: frame_def demo_kernel_def demo_tcbs_def task_frame_def task_ok_def demo_task_def)
  then have "kernel_inv 4 ?k" by (rule frame_inv) (rule demo_inv)
  ultimately show thesis by (intro that [of ?k ?t addrs]) (simp_all add: demo_kernel_def demo_tcbs_def)
qed

theorem context_push_read_back_witness:
  "\<exists>k k' ext'. u_context_push (kernel_machine demo_env demo_postcard demo_inputs []) (0, 2) (0, 1) k = Some (Inr 0, k') \<and>
     ext_of k' 1 = Some ext' \<and>
     read_path_node_zero_copy (kernel_machine demo_env demo_postcard demo_inputs []) (user_meta (path_meta ext' ! 0)) k' =
       Some (Some ([0, 0], [0]))"
proof -
  obtain k t addrs where k: "current k = Some 1" "tcbs k 1 = Some t" "agent_ext_of t = Some demo_ext"
    and inv: "path_inv (get_user_token t) addrs [] (demo_ext, user_mem k)" by (rule demo_agent)
  have q: "context_area_base demo_ext = 0x80000000" "max_nodes (ext_quota demo_ext) = 128" "max_bytes (ext_quota demo_ext) = 0x4000"
    by (simp_all add: demo_ext_def agent_ext_new_def)
  have "replicate (unat (2 :: usize)) (0 :: u8) = [0, 0]" by code_simp
  then have g: "get_summary (get_user_token t) 0 2 k = Some [0, 0]" "get_summary (get_user_token t) 0 1 k = Some [0]"
    by (simp_all add: get_summary_def)
  have "make_room (ext_quota demo_ext) 27 [] = []" by (subst make_room.simps) simp
  with context_push_read_back [OF k q(1) inv _ g, of demo_env demo_postcard demo_inputs "[]"] q show ?thesis by fastforce
qed

end
