(* ===== verification/Tool_Laws.thy ===== *)
theory Tool_Laws
  imports User_Laws
begin

text \<open>
  A tool call from end to end: the user library encodes a request into memory of the process, the
  kernel decodes and dispatches it, and leaves the result in the context area, where the user library
  reads it without another call.
\<close>

section \<open>Several regions of one address space\<close>

text \<open>The regions \<open>rs\<close>, each a base and the physical addresses behind its bytes, do not overlap, and
  stay mapped whatever is written to them.\<close>

definition regions_addrs :: "(usize \<times> phys_addr list) list \<Rightarrow> phys_addr list" where
  "regions_addrs rs = concat (map snd rs)"

definition regions_mapped :: "usize \<Rightarrow> (usize \<times> phys_addr list) list \<Rightarrow> memory \<Rightarrow> bool" where
  "regions_mapped token rs m \<longleftrightarrow>
     (\<forall>(b, as)\<in>set rs. \<forall>i<length as. user_pa m (page_table_from_token token) (b + word_of_nat i) = Some (as ! i))"

definition user_regions :: "usize \<Rightarrow> (usize \<times> phys_addr list) list \<Rightarrow> memory \<Rightarrow> bool" where
  "user_regions token rs m \<longleftrightarrow> distinct (regions_addrs rs) \<and>
     (\<forall>(b, as)\<in>set rs. unat b + length as < 2 ^ 38) \<and>
     (\<forall>m'. (\<forall>x. x \<notin> set (regions_addrs rs) \<longrightarrow> m' x = m x) \<longrightarrow> regions_mapped token rs m')"

lemma region_addrs_mem: "(b, as) \<in> set rs \<Longrightarrow> x \<in> set as \<Longrightarrow> x \<in> set (regions_addrs rs)"
  by (force simp: regions_addrs_def)

lemma user_regions_region:
  assumes r: "user_regions token rs m" and b: "(b, as) \<in> set rs"
  shows "user_region token b as m"
proof -
  have "distinct as" using r b by (auto simp: user_regions_def regions_addrs_def distinct_concat_iff)
  moreover have "user_pa m' (page_table_from_token token) (b + word_of_nat i) = Some (as ! i)"
    if "\<forall>x. x \<notin> set as \<longrightarrow> m' x = m x" "i < length as" for m' i
  proof -
    have "\<forall>x. x \<notin> set (regions_addrs rs) \<longrightarrow> m' x = m x" using that(1) region_addrs_mem [OF b] by blast
    with r have "regions_mapped token rs m'" by (simp add: user_regions_def)
    from bspec [OF this [unfolded regions_mapped_def] b] that(2) show ?thesis by simp
  qed
  ultimately show ?thesis using r b by (auto simp: user_region_def user_regions_def)
qed

lemma user_regions_agree:
  assumes r: "user_regions token rs m" and ag: "\<And>x. x \<notin> set (regions_addrs rs) \<Longrightarrow> m' x = m x"
  shows "user_regions token rs m'"
proof -
  have "regions_mapped token rs m''" if "\<forall>x. x \<notin> set (regions_addrs rs) \<longrightarrow> m'' x = m' x" for m''
    using r that ag by (simp add: user_regions_def)
  with r show ?thesis by (simp add: user_regions_def)
qed

lemma user_regions_disjoint:
  assumes "user_regions token rs m" "i < length rs" "j < length rs" "i \<noteq> j"
  shows "set (snd (rs ! i)) \<inter> set (snd (rs ! j)) = {}"
proof -
  have "distinct (concat (map snd rs))" using assms(1) by (simp add: user_regions_def regions_addrs_def)
  then show ?thesis using assms(2-4)
  proof (induction rs arbitrary: i j)
    case (Cons r rs)
    have "set (snd r) \<inter> set (snd (rs ! k)) = {}" if "k < length rs" for k
      using Cons.prems(1) that by (fastforce simp: in_set_conv_nth)
    with Cons show ?case by (cases i; cases j) (auto simp: Int_commute)
  qed simp
qed

text \<open>A write into one region: it returns, changes that region only, and keeps the regions.\<close>

lemma regions_write:
  assumes r: "user_regions token rs m" and i: "i < length rs" "rs ! i = (b, as)" and len: "unat off + length bs \<le> length as"
  obtains m' where "write_user_bytes token (b + off) bs m = Some m'" "user_regions token rs m'"
    "map m' as = splice (unat off) bs (map m as)"
    "\<forall>j<length rs. j \<noteq> i \<longrightarrow> map m' (snd (rs ! j)) = map m (snd (rs ! j))"
proof -
  have mem: "(b, as) \<in> set rs" using i nth_mem by metis
  note reg = user_regions_region [OF r mem]
  from um.wr_ok [OF reg len] obtain m' where
    m': "write_user_bytes token (b + off) bs m = Some m'" "map m' as = splice (unat off) bs (map m as)"
    "region_outside as m' = region_outside as m" by auto
  have out: "m' x = m x" if "x \<notin> set as" for x
    using fun_cong [OF m'(3), of x] that by (simp add: region_outside_def)
  have "user_regions token rs m'" by (rule user_regions_agree [OF r]) (use out region_addrs_mem [OF mem] in blast)
  moreover have "map m' (snd (rs ! j)) = map m (snd (rs ! j))" if "j < length rs" "j \<noteq> i" for j
    using user_regions_disjoint [OF r that(1) i(1) that(2)] i(2) by (intro map_cong refl out) auto
  ultimately show thesis using that m' by blast
qed

lemma regions_read:
  assumes r: "user_regions token rs m" and i: "i < length rs" "rs ! i = (b, as)" and len: "unat off + length buf \<le> length as"
  shows "read_user_bytes token (b + off) buf m = Some (slice_at (unat off) (length buf) (map m as))"
proof -
  have "(b, as) \<in> set rs" using i nth_mem by metis
  from um_read [OF user_regions_region [OF r this] len] show ?thesis .
qed

text \<open>A region can be cut into adjacent ones.\<close>

lemma user_regions_single: "user_region token b as m \<Longrightarrow> user_regions token [(b, as)] m"
  by (simp add: user_regions_def user_region_def regions_addrs_def regions_mapped_def)

lemma user_regions_cut:
  assumes r: "user_regions token ((b, xs @ ys) # rs) m"
  shows "user_regions token ((b, xs) # (b + word_of_nat (length xs), ys) # rs) m"
proof -
  let ?ad = "regions_addrs ((b, xs @ ys) # rs)" and ?c = "b + word_of_nat (length xs)"
  have ad: "regions_addrs ((b, xs) # (?c, ys) # rs) = ?ad" by (simp add: regions_addrs_def)
  from r have len: "unat b + length xs + length ys < 2 ^ 38" by (simp add: user_regions_def)
  then have c: "unat ?c = unat b + length xs" by (subst unat_add_u64_small) (simp_all add: unat_of_nat_u64)
  have "regions_mapped token ((b, xs) # (?c, ys) # rs) m'" if h: "regions_mapped token ((b, xs @ ys) # rs) m'" for m'
  proof -
    let ?pt = "page_table_from_token token"
    from h have v: "user_pa m' ?pt (b + word_of_nat i) = Some ((xs @ ys) ! i)" if "i < length xs + length ys" for i
      using that by (simp add: regions_mapped_def)
    have "user_pa m' ?pt (b + word_of_nat i) = Some (xs ! i)" if "i < length xs" for i
      using v [of i] that by (simp add: nth_append)
    moreover have "user_pa m' ?pt (?c + word_of_nat i) = Some (ys ! i)" if "i < length ys" for i
      using v [of "length xs + i"] that by (simp add: add.assoc)
    ultimately show ?thesis using h by (simp add: regions_mapped_def)
  qed
  with r c len show ?thesis unfolding user_regions_def ad by simp
qed

section \<open>Dispatch\<close>

text \<open>What the handlers leave alone: memory, the running task, and every address space.\<close>

definition same_space :: "kernel \<Rightarrow> kernel \<Rightarrow> bool" where
  "same_space k k' \<longleftrightarrow> k_machine k' = k_machine k \<and> current k' = current k \<and>
     (\<forall>q. map_option memory_set_of (tcbs k' q) = map_option memory_set_of (tcbs k q)) \<and>
     (\<forall>q. ext_of k' q = None \<longleftrightarrow> ext_of k q = None)"

lemma same_space_refl [simp]: "same_space k k"
  by (simp add: same_space_def)

lemma same_space_trans: "same_space k k' \<Longrightarrow> same_space k' k'' \<Longrightarrow> same_space k k''"
  by (simp add: same_space_def)

lemma same_space_update_tcb:
  assumes "\<And>t. memory_set_of (f t) = memory_set_of t" "\<And>t. agent_ext_of (f t) = None \<longleftrightarrow> agent_ext_of t = None"
  shows "same_space k (update_tcb p f k)"
  using assms by (cases "tcbs k p") (simp_all add: same_space_def update_tcb_def ext_of_def)

lemma same_space_wake: "same_space k (snd (wake_agent_by_pid p k))"
proof -
  have "same_space k (wake_one q (k\<lparr>blocked_agents := bs\<rparr>))" for q bs
    by (cases "tcbs k q") (simp_all add: same_space_def wake_one_def add_task_def ext_of_def update_tcb_def)
  then show ?thesis by (simp add: wake_agent_by_pid_def split: option.split)
qed

lemma deliver_message_space:
  assumes "deliver_message q msg k = Some (b, k')"
  shows "same_space k k'"
proof -
  have "same_space k (snd (wake_agent_by_pid q (update_ext q (push_message msg) k)))"
    unfolding update_ext_def by (rule same_space_trans [OF same_space_update_tcb same_space_wake]) simp_all
  with assms show ?thesis by (auto simp: deliver_message_def split: if_splits)
qed

lemma dispatch_space: "dispatch pc now req k = Some (r, k') \<Longrightarrow> same_space k k'"
  by (cases "tool req"; cases "params req") (auto simp: dispatch_def send_message_def dest: deliver_message_space)

lemma dispatch_returns:
  assumes inv: "kernel_inv n k"
  obtains r k' where "dispatch pc now req k = Some (r, k')" "kernel_inv n k'" "same_space k k'"
proof -
  obtain ps where ps: "collect_processes k = Some ps" by (rule collect_processes_all [OF inv])
  have d: "\<exists>b k'. deliver_message q msg k = Some (b, k')" for q msg
    by (rule deliver_message_ok [OF inv, of q msg]) blast
  have "\<exists>r k'. dispatch pc now req k = Some (r, k')"
  proof (cases "tool req")
    case SendMessage
    with d show ?thesis by (cases "params req") (fastforce simp: dispatch_def send_message_def)+
  qed (cases "params req"; simp add: dispatch_def system_status_def query_process_def read_context_def ps
        split: context_target_type.split)+
  then obtain r k' where r: "dispatch pc now req k = Some (r, k')" by blast
  from dispatch_keeps [OF inv, of pc now req] r have "kernel_inv n k'" by (simp add: keeps_def)
  with r dispatch_space [OF r] that show thesis by blast
qed

section \<open>Handing over the result\<close>

definition call_regions :: "phys_addr list \<Rightarrow> usize \<Rightarrow> phys_addr list \<Rightarrow> usize \<Rightarrow> phys_addr list \<Rightarrow> usize \<Rightarrow> phys_addr list \<Rightarrow>
    (usize \<times> phys_addr list) list" where
  "call_regions ctx buf bufa off offa len lena = [(0x80000000, ctx), (buf, bufa), (off, offa), (len, lena)]"

lemma splice_all: "length bs = length xs \<Longrightarrow> splice 0 bs xs = bs"
  by (simp add: splice_def)

lemma set_mem_set_mem [simp]: "set_mem m (set_mem m' k) = set_mem m k"
  by (simp add: set_mem_def)

definition dr_result :: "dispatch_result \<Rightarrow> u8 list" where
  "dr_result dr = (if dr_status dr = StOk then dr_body dr else [])"

lemma tool_call_finish_ok:
  assumes regs: "user_regions token (call_regions ctx buf bufa off offa len lena) (user_mem k)"
    and sz: "0x4100 \<le> length ctx" "length offa = 4" "length lena = 4" "off \<noteq> 0" "len \<noteq> 0"
    and fit: "length (dr_result dr) \<le> 0x4000"
  obtains m where "tool_call_finish p token 0x80000000 off len dr k =
       Some (status_code (dr_status dr), set_loop_state p Observing (set_mem m k))"
    "user_regions token (call_regions ctx buf bufa off offa len lena) m"
    "map m offa = to_le_bytes (if dr_result dr = [] then 0 else 0x100 :: u32)"
    "map m lena = to_le_bytes (word_of_nat (length (dr_result dr)) :: u32)"
    "slice_at 0x100 (length (dr_result dr)) (map m ctx) = dr_result dr"
proof -
  let ?rs = "call_regions ctx buf bufa off offa len lena" and ?r = "dr_result dr"
  let ?o = "if ?r = [] then 0 else 0x100 :: u32" and ?l = "word_of_nat (length ?r) :: u32"
  note cr = call_regions_def
  obtain m1 where m1: "write_user_bytes token (0x80000000 + 0x100) ?r (user_mem k) = Some m1" "user_regions token ?rs m1"
    "map m1 ctx = splice 0x100 ?r (map (user_mem k) ctx)"
    by (rule regions_write [OF regs, of 0 "0x80000000" ctx "0x100" ?r]) (use sz fit in \<open>simp_all add: cr\<close>)
  let ?m1 = "if ?r = [] then user_mem k else m1"
  have r1: "user_regions token ?rs ?m1" using m1(2) regs by simp
  have c1: "slice_at 0x100 (length ?r) (map ?m1 ctx) = ?r" using m1(3) sz fit
    by (cases "?r = []") (simp_all add: slice_at_splice_same slice_at_def [of _ 0])
  obtain m2 where m2: "write_user_bytes token (off + 0) (to_le_bytes ?o) ?m1 = Some m2" "user_regions token ?rs m2"
    "map m2 offa = splice 0 (to_le_bytes ?o) (map ?m1 offa)"
    "\<forall>j<length ?rs. j \<noteq> 2 \<longrightarrow> map m2 (snd (?rs ! j)) = map ?m1 (snd (?rs ! j))"
    by (rule regions_write [OF r1, of 2 off offa 0 "to_le_bytes ?o"]) (use sz in \<open>simp_all add: cr\<close>)
  obtain m3 where m3: "write_user_bytes token (len + 0) (to_le_bytes ?l) m2 = Some m3" "user_regions token ?rs m3"
    "map m3 lena = splice 0 (to_le_bytes ?l) (map m2 lena)"
    "\<forall>j<length ?rs. j \<noteq> 3 \<longrightarrow> map m3 (snd (?rs ! j)) = map m2 (snd (?rs ! j))"
    by (rule regions_write [OF m2(2), of 3 len lena 0 "to_le_bytes ?l"]) (use sz in \<open>simp_all add: cr\<close>)
  from m3(4) [rule_format, of 0] m2(4) [rule_format, of 0] have ctx: "map m3 ctx = map ?m1 ctx" by (simp add: cr)
  have c3: "slice_at 0x100 (length ?r) (map m3 ctx) = ?r" unfolding ctx by (rule c1)
  from m3(4) [rule_format, of 2] have offa: "map m3 offa = map m2 offa" by (simp add: cr)
  have "tool_call_finish p token 0x80000000 off len dr k =
      Some (status_code (dr_status dr), set_loop_state p Observing (set_mem m3 k))"
  proof (cases "?r = []")
    case True
    then have "\<not> (dr_status dr = StOk \<and> dr_body dr \<noteq> [])" by (auto simp: dr_result_def)
    moreover have "put_user token off (to_le_bytes (0 :: u32)) k = Some (set_mem m2 k)"
      "put_user token len (to_le_bytes (0 :: u32)) (set_mem m2 k) = Some (set_mem m3 k)"
      using m2(1) m3(1) True by (simp_all add: put_user_def)
    ultimately show ?thesis using sz(4,5) by (auto simp: tool_call_finish_def put_out_def)
  next
    case False
    then have ok: "dr_status dr = StOk" "dr_body dr = ?r" "dr_body dr \<noteq> []" by (auto simp: dr_result_def split: if_splits)
    have "put_user token 0x80000100 (dr_body dr) k = Some (set_mem m1 k)"
      "put_user token off (to_le_bytes (0x100 :: u32)) (set_mem m1 k) = Some (set_mem m2 k)"
      "put_user token len (to_le_bytes ?l) (set_mem m2 k) = Some (set_mem m3 k)"
      using m1(1) m2(1) m3(1) False ok(2) by (simp_all add: put_user_def)
    with ok fit sz(4,5) show ?thesis
      by (simp add: tool_call_finish_def put_out_def TOOL_RESULT_OFF_def TOOL_RESULT_LEN_def)
  qed
  with m3(2,3) m2(3) c3 offa sz show thesis by (intro that [of m3]) (simp_all add: splice_all)
qed

section \<open>The call\<close>

text \<open>The request in memory: the three variables of \<open>tool_call\<close> on the stack.\<close>

lemma tool_call_request:
  assumes regs: "user_regions token (call_regions ctx buf bufa off offa len lena) m0"
    and sz: "length bufa = 1024" "length offa = 4" "length lena = 4" and bs: "length bs = 1024"
  obtains m1 m2 m3 where "write_user_bytes token buf bs m0 = Some m1"
    "write_user_bytes token off (to_le_bytes (0 :: u32)) m1 = Some m2"
    "write_user_bytes token len (to_le_bytes (0 :: u32)) m2 = Some m3"
    "user_regions token (call_regions ctx buf bufa off offa len lena) m3" "map m3 bufa = bs"
proof -
  let ?rs = "call_regions ctx buf bufa off offa len lena" and ?z = "to_le_bytes (0 :: u32)"
  note cr = call_regions_def
  obtain m1 where m1: "write_user_bytes token (buf + 0) bs m0 = Some m1" "user_regions token ?rs m1"
    "map m1 bufa = splice 0 bs (map m0 bufa)"
    by (rule regions_write [OF regs, of 1 buf bufa 0 bs]) (use sz bs in \<open>simp_all add: cr\<close>)
  obtain m2 where m2: "write_user_bytes token (off + 0) ?z m1 = Some m2" "user_regions token ?rs m2"
    "\<forall>j<length ?rs. j \<noteq> 2 \<longrightarrow> map m2 (snd (?rs ! j)) = map m1 (snd (?rs ! j))"
    by (rule regions_write [OF m1(2), of 2 off offa 0 ?z]) (use sz in \<open>simp_all add: cr\<close>)
  obtain m3 where m3: "write_user_bytes token (len + 0) ?z m2 = Some m3" "user_regions token ?rs m3"
    "\<forall>j<length ?rs. j \<noteq> 3 \<longrightarrow> map m3 (snd (?rs ! j)) = map m2 (snd (?rs ! j))"
    by (rule regions_write [OF m2(2), of 3 len lena 0 ?z]) (use sz in \<open>simp_all add: cr\<close>)
  from m3(3) [rule_format, of 1] m2(3) [rule_format, of 1] have "map m3 bufa = map m1 bufa" by (simp add: cr)
  with m1(3) sz bs have "map m3 bufa = bs" by (simp add: splice_all)
  with m1(1) m2(1) m3(1,2) that show thesis by simp
qed

lemma encode_request_fits:
  assumes "pc_request_to_slice pc req 1018 = Inr body" "length body \<le> 1018"
  shows "encode_request pc req (replicate 1024 0) = Some (Inr (6 + length body, frame_header @ body @ replicate (1018 - length body) 0))"
  using assms by (simp add: encode_request_def encode_frame_def FRAME_HEADER_SIZE_def write_frame_header_eq splice_def)

lemma decode_request_frame:
  assumes "\<And>rest. pc_request_from_bytes pc (body @ rest) = Inr req"
  shows "decode_request pc (frame_header @ body) = Inr req"
proof -
  have "check_frame_header (frame_header @ body) = Inr 6" by (simp add: check_frame_header_Inr)
  with assms [of "[]"] show ?thesis by (simp add: decode_request_def decode_frame_def)
qed

text \<open>The kernel's part, from the request in memory to the result of the dispatcher.\<close>

lemma sys_tool_call_request:
  assumes cur: "current k = Some p" "tcbs k p = Some t" "agent_ext_of t = Some e" "context_area_base e = 0x80000000"
    and regs: "user_regions (get_user_token t) (call_regions ctx buf bufa off offa len lena) (user_mem k)"
    and buf: "length bufa = 1024" "buf \<noteq> 0" "map (user_mem k) bufa = frame_header @ body @ pad" "length body \<le> 1018"
    and rt: "\<And>rest. pc_request_from_bytes pc (body @ rest) = Inr req"
    and d: "dispatch pc now req (set_loop_state p Calling k) = Some (r, k1)"
  shows "sys_tool_call pc now buf (word_of_nat (6 + length body)) off len k =
     (case r of Inl e \<Rightarrow> Some (into_isize e, k1)
      | Inr dr \<Rightarrow> tool_call_finish p (get_user_token t) 0x80000000 off len dr k1)"
proof -
  let ?n = "word_of_nat (6 + length body) :: usize"
  have n: "unat ?n = 6 + length body" using buf(4) by (subst unat_of_nat_u64) simp_all
  then have g: "?n \<noteq> 0" "\<not> 64 * 1024 < ?n" using buf(4) by (auto simp: word_unat_eq_iff word_less_unat)
  have "get_user (get_user_token t) buf ?n (set_loop_state p Calling k) = Some (frame_header @ body)"
    using regions_read [OF regs, of 1 buf bufa 0 "replicate (6 + length body) 0"] buf(1,3,4) n
    by (simp add: get_user_def call_regions_def slice_at_def set_loop_state_def update_ext_def user_mem_def)
  with decode_request_frame [OF rt] cur buf(2) g d show ?thesis
    by (simp add: sys_tool_call_def current_tcb_def Let_def split: sum.split)
qed

text \<open>The user's part before and after \<open>ecall\<close>.\<close>

definition tool_call_tail :: "kernel user_machine \<Rightarrow> usize \<Rightarrow> usize \<Rightarrow> (isize \<times> kernel) option \<Rightarrow>
    ((isize + tool_call_outcome) \<times> kernel) option" where
  "tool_call_tail M off_ptr len_ptr r =
     Option.bind r (\<lambda>(r, s).
     if r < 0 then Some (Inl r, s)
     else Option.bind (u_load_u32 M off_ptr s) (\<lambda>off.
          Option.bind (u_load_u32 M len_ptr s) (\<lambda>len.
          Some (Inr \<lparr>tc_status_code = r, tc_result_offset = off, tc_result_len = len\<rparr>, s))))"

lemma u_tool_call_ecall:
  assumes cur: "current k = Some p" "tcbs k p = Some t"
    and regs: "user_regions (get_user_token t) (call_regions ctx buf bufa off offa len lena) (user_mem k)"
    and sz: "length bufa = 1024" "length offa = 4" "length lena = 4"
    and ser: "pc_request_to_slice pc req 1018 = Inr body" "length body \<le> 1018"
  obtains m where "user_regions (get_user_token t) (call_regions ctx buf bufa off offa len lena) m"
    "map m bufa = frame_header @ body @ replicate (1018 - length body) 0"
    "u_tool_call (kernel_machine env pc inp junk) pc buf off len req k =
       tool_call_tail (kernel_machine env pc inp junk) off len
         (map_option (\<lambda>(v, k). (sint (word_of_int v :: usize), k))
            (sys_tool_call pc (in_time inp 0) buf (word_of_nat (6 + length body)) off len (set_mem m k)))"
proof -
  let ?tok = "get_user_token t" and ?M = "kernel_machine env pc inp junk"
  let ?bs = "frame_header @ body @ replicate (1018 - length body) 0"
  obtain m1 m2 m3 where w: "write_user_bytes ?tok buf ?bs (user_mem k) = Some m1"
    "write_user_bytes ?tok off (to_le_bytes (0 :: u32)) m1 = Some m2"
    "write_user_bytes ?tok len (to_le_bytes (0 :: u32)) m2 = Some m3"
    and r3: "user_regions ?tok (call_regions ctx buf bufa off offa len lena) m3" "map m3 bufa = ?bs"
    by (rule tool_call_request [OF regs sz, of ?bs]) (use ser(2) in simp_all)
  have st: "u_store ?M a bs k' = map_option (\<lambda>m. set_mem m k') (write_user_bytes ?tok a bs (user_mem k'))"
    if "current k' = Some p" "tcbs k' p = Some t" for a bs k'
    using that by (simp add: kernel_machine_def current_user_token_def current_tcb_def put_user_def)
  have ec: "u_ecall ?M (u_sys_tool_call buf c off len) k' =
      map_option (\<lambda>(v, k). (sint (word_of_int v :: usize), k)) (sys_tool_call pc (in_time inp 0) buf c off len k')" for c k'
    by (auto simp: kernel_machine_def ecall_simps ret_def split: option.split)
  have "u_tool_call ?M pc buf off len req k = tool_call_tail ?M off len
      (u_ecall ?M (u_sys_tool_call buf (word_of_nat (6 + length body)) off len) (set_mem m3 k))"
    using w cur by (simp add: u_tool_call_def tool_call_tail_def encode_request_fits [OF ser] st)
  with that r3 show thesis unfolding ec by blast
qed

text \<open>What the caller finds when the tool has produced a result that fits.\<close>

lemma tool_call_tail_result:
  assumes cur: "current k = Some p" "tcbs k p = Some t" "get_user_token t = token"
    and regs: "user_regions token (call_regions ctx buf bufa off offa len lena) (user_mem k)"
    and sz: "0x4100 \<le> length ctx" "length offa = 4" "length lena = 4"
    and res: "length bs \<le> 0x4000" "map (user_mem k) offa = to_le_bytes (if bs = [] then 0 else 0x100 :: u32)"
      "map (user_mem k) lena = to_le_bytes (word_of_nat (length bs) :: u32)" "slice_at 0x100 (length bs) (map (user_mem k) ctx) = bs"
    and v: "0 \<le> v"
  obtains oc where "tool_call_tail (kernel_machine env pc inp junk) off len (Some (v, k)) = Some (Inr oc, k)"
    "tc_status_code oc = v" "result_bytes (kernel_machine env pc inp junk) oc k = Some bs"
proof -
  let ?M = "kernel_machine env pc inp junk"
  let ?oc = "\<lparr>tc_status_code = v, tc_result_offset = if bs = [] then 0 else 0x100, tc_result_len = word_of_nat (length bs)\<rparr>"
  have ld: "u_load ?M a j k = read_user_bytes token a (replicate j 0) (user_mem k)" if "j < 2 ^ 64" for a j
    using kernel_load [OF cur(1,2) that] cur(3) by simp
  have "u_load ?M off 4 k = Some (map (user_mem k) offa)" "u_load ?M len 4 k = Some (map (user_mem k) lena)"
    using regions_read [OF regs, of 2 off offa 0 "replicate 4 0"] regions_read [OF regs, of 3 len lena 0 "replicate 4 0"] sz
    by (simp_all add: ld call_regions_def slice_at_def)
  then have l: "u_load_u32 ?M off k = Some (if bs = [] then 0 else 0x100)" "u_load_u32 ?M len k = Some (word_of_nat (length bs))"
    using res(2,3) by (simp_all add: u_load_u32_def)
  have "u_load ?M (0x80000000 + 0x100) (length bs) k = Some bs"
    using regions_read [OF regs, of 0 "0x80000000" ctx "0x100" "replicate (length bs) 0"] sz(1) res(1,4)
    by (simp add: ld call_regions_def)
  moreover have "unat (word_of_nat (length bs) :: u32) = length bs" using res(1) by (subst unat_of_nat_u32) simp_all
  moreover from this have "(word_of_nat (length bs) :: u32) = 0 \<longleftrightarrow> bs = []" by (simp add: word_unat_eq_iff)
  ultimately have "result_bytes ?M ?oc k = Some bs" by (auto simp: result_bytes_def AGENT_CONTEXT_BASE_def)
  with l v show thesis by (intro that [of ?oc]) (simp_all add: tool_call_tail_def)
qed

lemma into_isize_range: "- 8 \<le> into_isize e" "into_isize e < 0"
  by (cases e; simp)+

lemma status_code_range: "0 \<le> status_code st" "status_code st \<le> 105"
  by (cases st; simp)+

lemma finish_too_long:
  "0x4000 < length (dr_result dr) \<Longrightarrow> tool_call_finish p token a off len dr k = Some (- 5, k)"
  by (auto simp: tool_call_finish_def dr_result_def TOOL_RESULT_LEN_def split: if_splits)

text \<open>The task after the dispatcher has run.\<close>

lemma same_space_task:
  assumes "same_space (set_loop_state p st (set_mem m k)) k1" "current k = Some p" "tcbs k p = Some t" "agent_ext_of t = Some e"
  obtains t1 e1 where "user_mem k1 = m" "current k1 = Some p" "tcbs k1 p = Some t1" "get_user_token t1 = get_user_token t"
    "agent_ext_of t1 = Some e1"
proof -
  from assms have s: "user_mem k1 = m" "current k1 = Some p"
    by (simp_all add: same_space_def set_loop_state_def update_ext_def user_mem_def set_mem_def)
  have "map_option memory_set_of (tcbs k1 p) = Some (memory_set_of t)" "ext_of k1 p \<noteq> None"
    using assms by (auto simp: same_space_def set_loop_state_def update_ext_def update_tcb_def ext_of_def)
  with s that show thesis by (auto simp: ext_of_def get_user_token_def)
qed

lemma finish_and_load:
  assumes inv: "kernel_inv n k" and cur: "current k = Some p" "tcbs k p = Some t" "agent_ext_of t = Some e" "get_user_token t = token"
    and regs: "user_regions token (call_regions ctx buf bufa off offa len lena) (user_mem k)"
    and sz: "0x4100 \<le> length ctx" "length offa = 4" "length lena = 4" "off \<noteq> 0" "len \<noteq> 0"
    and fit: "length (dr_result dr) \<le> 0x4000"
  shows "\<exists>oc k' e'. tool_call_tail (kernel_machine env pc inp junk) off len
       (map_option (\<lambda>(v, k). (sint (word_of_int v :: usize), k)) (tool_call_finish p token 0x80000000 off len dr k)) = Some (Inr oc, k') \<and>
     kernel_inv n k' \<and> tc_status_code oc = status_code (dr_status dr) \<and>
     result_bytes (kernel_machine env pc inp junk) oc k' = Some (dr_result dr) \<and> ext_of k' p = Some e' \<and> ext_loop_state e' = Observing"
proof -
  obtain m' where f: "tool_call_finish p token 0x80000000 off len dr k =
      Some (status_code (dr_status dr), set_loop_state p Observing (set_mem m' k))"
    and m': "user_regions token (call_regions ctx buf bufa off offa len lena) m'"
      "map m' offa = to_le_bytes (if dr_result dr = [] then 0 else 0x100 :: u32)"
      "map m' lena = to_le_bytes (word_of_nat (length (dr_result dr)) :: u32)"
      "slice_at 0x100 (length (dr_result dr)) (map m' ctx) = dr_result dr"
    by (rule tool_call_finish_ok [OF regs sz fit])
  let ?k' = "set_loop_state p Observing (set_mem m' k)" and ?e = "e\<lparr>ext_loop_state := Observing\<rparr>"
  let ?t = "t\<lparr>agent_ext_of := Some ?e\<rparr>"
  have k': "current ?k' = Some p" "tcbs ?k' p = Some ?t" "get_user_token ?t = token" "user_mem ?k' = m'"
    using cur by (simp_all add: set_loop_state_def update_ext_def get_user_token_def)
  have v: "sint (word_of_int (status_code (dr_status dr)) :: usize) = status_code (dr_status dr)"
    using status_code_range [of "dr_status dr"] by (simp add: sint_isize)
  obtain oc where oc: "tool_call_tail (kernel_machine env pc inp junk) off len (Some (status_code (dr_status dr), ?k')) = Some (Inr oc, ?k')"
    "tc_status_code oc = status_code (dr_status dr)" "result_bytes (kernel_machine env pc inp junk) oc ?k' = Some (dr_result dr)"
    by (rule tool_call_tail_result [OF k'(1-3) _ sz(1-3) fit _ _ _ status_code_range(1), unfolded k'(4), OF m'])
  have "kernel_inv n ?k'" by (intro frame_inv [OF set_loop_state_frame] frame_inv [OF frame_fields(6)] inv)
  moreover have "ext_of ?k' p = Some ?e" using k'(2) by (simp add: ext_of_def)
  ultimately show ?thesis using oc f v by (intro exI [of _ oc] exI [of _ ?k'] exI [of _ ?e]) simp
qed

text \<open>
  C4: A tool call from end to end.  For a request that fits its buffer and a serializer that reads
  back what it wrote, \<open>tool_call\<close> of the user library returns: the kernel has dispatched exactly that
  request.  If the dispatcher reports an error, that error is returned.  If the result is larger than
  the ring, \<open>-5\<close> is returned.  Otherwise the outcome carries the status of the tool, \<open>result_bytes\<close>,
  which only loads from the context area, gives the bytes the tool produced, and the agent is in
  state \<open>Observing\<close>.  The kernel invariant is kept.
\<close>

theorem tool_call_delivers_result:
  fixes env inp junk
  assumes inv: "kernel_inv n k"
    and cur: "current k = Some p" "tcbs k p = Some t" "agent_ext_of t = Some e" "context_area_base e = 0x80000000"
    and regs: "user_regions (get_user_token t) (call_regions ctx buf bufa off offa len lena) (user_mem k)"
    and sz: "0x4100 \<le> length ctx" "length bufa = 1024" "length offa = 4" "length lena = 4" "buf \<noteq> 0" "off \<noteq> 0" "len \<noteq> 0"
    and ser: "pc_request_to_slice pc req 1018 = Inr body" "length body \<le> 1018"
      "\<And>rest. pc_request_from_bytes pc (body @ rest) = Inr req"
  defines "M \<equiv> kernel_machine env pc inp junk"
  shows "\<exists>m r k1 res k'. dispatch pc (in_time inp 0) req (set_loop_state p Calling (set_mem m k)) = Some (r, k1) \<and>
     u_tool_call M pc buf off len req k = Some (res, k') \<and> kernel_inv n k' \<and>
     (case r of
        Inl e \<Rightarrow> res = Inl (into_isize e)
      | Inr dr \<Rightarrow>
          if 0x4000 < length (dr_result dr) then res = Inl (- 5)
          else \<exists>oc e'. res = Inr oc \<and> tc_status_code oc = status_code (dr_status dr) \<and>
                 result_bytes M oc k' = Some (dr_result dr) \<and>
                 ext_of k' p = Some e' \<and> ext_loop_state e' = Observing)"
proof -
  obtain m where m: "user_regions (get_user_token t) (call_regions ctx buf bufa off offa len lena) m"
    "map m bufa = frame_header @ body @ replicate (1018 - length body) 0"
    and run: "u_tool_call M pc buf off len req k = tool_call_tail M off len
       (map_option (\<lambda>(v, k). (sint (word_of_int v :: usize), k))
          (sys_tool_call pc (in_time inp 0) buf (word_of_nat (6 + length body)) off len (set_mem m k)))"
    unfolding M_def by (rule u_tool_call_ecall [OF cur(1,2) regs sz(2-4) ser(1,2)])
  have inv3: "kernel_inv n (set_loop_state p Calling (set_mem m k))"
    by (intro frame_inv [OF set_loop_state_frame] frame_inv [OF frame_fields(6)] inv)
  obtain r k1 where d: "dispatch pc (in_time inp 0) req (set_loop_state p Calling (set_mem m k)) = Some (r, k1)" "kernel_inv n k1"
    "same_space (set_loop_state p Calling (set_mem m k)) k1" by (rule dispatch_returns [OF inv3])
  have call: "sys_tool_call pc (in_time inp 0) buf (word_of_nat (6 + length body)) off len (set_mem m k) =
     (case r of Inl e \<Rightarrow> Some (into_isize e, k1) | Inr dr \<Rightarrow> tool_call_finish p (get_user_token t) 0x80000000 off len dr k1)"
    by (rule sys_tool_call_request [OF _ _ cur(3,4) _ sz(2,5) _ ser(2,3) d(1)]) (use cur m in simp_all)
  show ?thesis
  proof (cases r)
    case (Inl err)
    have "sint (word_of_int (into_isize err) :: usize) = into_isize err" "into_isize err < 0"
      using into_isize_range [of err] by (simp_all add: sint_isize)
    with Inl call have "u_tool_call M pc buf off len req k = Some (Inl (into_isize err), k1)"
      by (simp add: run tool_call_tail_def)
    with d(1,2) Inl show ?thesis by (intro exI [of _ m] exI [of _ r] exI [of _ k1]) simp
  next
    case (Inr dr)
    then have fin: "sys_tool_call pc (in_time inp 0) buf (word_of_nat (6 + length body)) off len (set_mem m k) =
      tool_call_finish p (get_user_token t) 0x80000000 off len dr k1" using call by simp
    from same_space_task [OF d(3) cur(1-3)] obtain t1 e1 where k1: "user_mem k1 = m" "current k1 = Some p"
      "tcbs k1 p = Some t1" "get_user_token t1 = get_user_token t" "agent_ext_of t1 = Some e1" by metis
    show ?thesis
    proof (cases "0x4000 < length (dr_result dr)")
      case True
      then have "u_tool_call M pc buf off len req k = Some (Inl (- 5), k1)"
        using fin by (simp add: run tool_call_tail_def finish_too_long)
      with d(1,2) Inr True show ?thesis by (intro exI [of _ m] exI [of _ r] exI [of _ k1]) simp
    next
      case False
      then have fit: "length (dr_result dr) \<le> 0x4000" by simp
      have reg1: "user_regions (get_user_token t) (call_regions ctx buf bufa off offa len lena) (user_mem k1)"
        using m(1) k1(1) by simp
      from finish_and_load [OF d(2) k1(2,3,5,4) reg1 sz(1,3,4,6,7) fit, of env pc inp junk, folded M_def] obtain oc k' e' where
        "tool_call_tail M off len (map_option (\<lambda>(v, k). (sint (word_of_int v :: usize), k))
           (tool_call_finish p (get_user_token t) 0x80000000 off len dr k1)) = Some (Inr oc, k')"
        and oc: "kernel_inv n k'" "tc_status_code oc = status_code (dr_status dr)" "result_bytes M oc k' = Some (dr_result dr)"
        "ext_of k' p = Some e'" "ext_loop_state e' = Observing" by blast
      then have "u_tool_call M pc buf off len req k = Some (Inr oc, k')" using fin by (simp add: run)
      with d(1) Inr oc False show ?thesis
        by (intro exI [of _ m] exI [of _ r] exI [of _ k1] exI [of _ "Inr oc"] exI [of _ k']) simp
    qed
  qed
qed

text \<open>In the example, the end of the context area serves as the stack.\<close>

lemma demo_call_regions:
  assumes r: "user_region token 0x80000000 as m" and len: "length as = 0x10000"
  obtains ctx bufa offa lena where "length ctx = 0xFBF8" "length bufa = 1024" "length offa = 4" "length lena = 4"
    "user_regions token (call_regions ctx 0x8000FBF8 bufa 0x8000FFF8 offa 0x8000FFFC lena) m"
proof -
  let ?A = "take 0xFBF8 as" and ?B = "slice_at 0xFBF8 1024 as" and ?C = "slice_at 0xFFF8 4 as" and ?D = "drop 0xFFFC as"
  have l: "length ?A = 0xFBF8" "length ?B = 1024" "length ?C = 4" "length ?D = 4"
    using len by (simp_all add: slice_at_def)
  have cat: "take i as @ slice_at i j as = take (i + j) as" for i j by (simp add: slice_at_def take_add)
  have as: "((?A @ ?B) @ ?C) @ ?D = as" using cat [of "0xFBF8" 1024] cat [of "0xFFF8" 4] by simp
  from user_regions_single [OF r] as have "user_regions token [(0x80000000, ((?A @ ?B) @ ?C) @ ?D)] m" by simp
  from user_regions_cut [OF user_regions_cut [OF user_regions_cut [OF this]]]
  have "user_regions token (call_regions ?A 0x8000FBF8 ?B 0x8000FFF8 ?C 0x8000FFFC ?D) m"
    using l by (simp add: call_regions_def)
  with l that show thesis by blast
qed

theorem tool_call_delivers_result_witness:
  "\<exists>k k' oc bs. let M = kernel_machine demo_env demo_postcard demo_inputs [] in
     u_tool_call M demo_postcard 0x8000FBF8 0x8000FFF8 0x8000FFFC \<lparr>req_id = 7, tool = SystemStatus, params = PSystemStatus\<rparr> k =
       Some (Inr oc, k') \<and> tc_status_code oc = 0 \<and> result_bytes M oc k' = Some bs \<and> length bs = 8"
proof -
  let ?req = "\<lparr>req_id = 7, tool = SystemStatus, params = PSystemStatus\<rparr>" and ?body = "to_le_bytes (7 :: u64)"
  let ?M = "kernel_machine demo_env demo_postcard demo_inputs []"
  obtain k t addrs where k: "current k = Some 1" "tcbs k 1 = Some t" "agent_ext_of t = Some demo_ext" "kernel_inv 4 k"
    and inv: "path_inv (get_user_token t) addrs [] (demo_ext, user_mem k)" by (rule demo_agent)
  have base: "context_area_base demo_ext = 0x80000000" by (simp add: demo_ext_def agent_ext_new_def)
  from inv base have "user_region (get_user_token t) 0x80000000 addrs (user_mem k)" "length addrs = 0x10000"
    by (simp_all add: path_inv_def path_core_def)
  then obtain ctx bufa offa lena where r: "length ctx = 0xFBF8" "length bufa = 1024" "length offa = 4" "length lena = 4"
    "user_regions (get_user_token t) (call_regions ctx 0x8000FBF8 bufa 0x8000FFF8 offa 0x8000FFFC lena) (user_mem k)"
    by (rule demo_call_regions)
  have ser: "pc_request_to_slice demo_postcard ?req 1018 = Inr ?body" "length ?body \<le> 1018"
    "\<And>rest. pc_request_from_bytes demo_postcard (?body @ rest) = Inr ?req"
    by (simp_all add: demo_postcard_def)
  have g: "0x4100 \<le> length ctx" "(0x8000FBF8 :: usize) \<noteq> 0" "(0x8000FFF8 :: usize) \<noteq> 0" "(0x8000FFFC :: usize) \<noteq> 0"
    using r(1) by simp_all
  obtain m d k1 res k' where d: "dispatch demo_postcard (in_time demo_inputs 0) ?req (set_loop_state 1 Calling (set_mem m k)) = Some (d, k1)"
    and run: "u_tool_call ?M demo_postcard 0x8000FBF8 0x8000FFF8 0x8000FFFC ?req k = Some (res, k')"
    and res: "case d of Inl e \<Rightarrow> res = Inl (into_isize e)
      | Inr dr \<Rightarrow> if 0x4000 < length (dr_result dr) then res = Inl (- 5)
          else \<exists>oc e'. res = Inr oc \<and> tc_status_code oc = status_code (dr_status dr) \<and>
                 result_bytes ?M oc k' = Some (dr_result dr) \<and> ext_of k' 1 = Some e' \<and> ext_loop_state e' = Observing"
    using tool_call_delivers_result [OF k(4,1-3) base r(5) g(1) r(2-4) g(2-4) ser, of demo_inputs demo_env "[]"] by blast
  from d obtain dr where "d = Inr dr" "dr_status dr = StOk" "length (dr_body dr) = 8"
    by (auto simp: dispatch_def system_status_def ok_body_def demo_postcard_def)
  with res run show ?thesis by (auto simp: dr_result_def Let_def)
qed

end
