(* ===== verification/File_Laws.thy ===== *)
theory File_Laws
  imports Easy_Fs
begin

text \<open>
  A file is a byte array: the blocks a disk inode reaches, directly and through one or two levels of
  index blocks, read and written as one array of bytes (\<open>easy-fs/src/layout.rs\<close>,
  \<open>easy-fs/src/vfs.rs\<close>).
\<close>

section \<open>Which block holds which byte\<close>

definition index_entry :: "(usize \<Rightarrow> u8 list) \<Rightarrow> u32 \<Rightarrow> nat \<Rightarrow> u32" where
  "index_entry v b k = le_split 128 (v (ucast b)) ! k"

definition file_block :: "(usize \<Rightarrow> u8 list) \<Rightarrow> disk_inode \<Rightarrow> nat \<Rightarrow> usize" where
  "file_block v di i =
     ucast (if i < 28 then direct di ! i
            else if i < 156 then index_entry v (indirect1 di) (i - 28)
            else index_entry v (index_entry v (indirect2 di) ((i - 156) div 128)) ((i - 156) mod 128))"

text \<open>The index blocks on the way to the first \<open>n\<close> data blocks.\<close>

definition index_blocks :: "(usize \<Rightarrow> u8 list) \<Rightarrow> disk_inode \<Rightarrow> nat \<Rightarrow> usize set" where
  "index_blocks v di n =
     (if 28 < n then {ucast (indirect1 di)} else {}) \<union>
     (if 156 < n then {ucast (indirect2 di)} \<union> (\<lambda>j. ucast (index_entry v (indirect2 di) j)) ` {j. 156 + 128 * j < n} else {})"

definition file_blocks :: "(usize \<Rightarrow> u8 list) \<Rightarrow> disk_inode \<Rightarrow> nat \<Rightarrow> usize set" where
  "file_blocks v di n = file_block v di ` {..<n}"

definition inode_ok :: "nat \<Rightarrow> disk_inode \<Rightarrow> block_cache_manager \<Rightarrow> bool" where
  "inode_ok n di s \<longleftrightarrow> n \<le> 156 + 128 * 128 \<and> length (direct di) = 28 \<and> unat (di_size di) \<le> n * 512 \<and>
     inj_on (file_block (view s) di) {..<n} \<and> file_blocks (view s) di n \<inter> index_blocks (view s) di n = {} \<and>
     (\<forall>b\<in>file_blocks (view s) di n \<union> index_blocks (view s) di n. usable s b)"

lemma file_block_cong:
  assumes "\<And>b. b \<in> index_blocks v di n \<Longrightarrow> v' b = v b" "i < n"
  shows "file_block v' di i = file_block v di i"
proof -
  have e: "index_entry v' b k = index_entry v b k" if "ucast b \<in> index_blocks v di n" for b k
    using assms(1) [OF that] by (simp add: index_entry_def)
  show ?thesis
  proof (cases "i < 156")
    case True
    with assms(2) e [of "indirect1 di"] show ?thesis by (simp add: file_block_def index_blocks_def)
  next
    case False
    let ?j = "(i - 156) div 128"
    have j: "156 + 128 * ?j < n" using False assms(2) by linarith
    with False assms(2) have "ucast (index_entry v (indirect2 di) ?j) \<in> index_blocks v di n"
      "ucast (indirect2 di) \<in> index_blocks v di n" by (auto simp: index_blocks_def)
    with e False show ?thesis by (simp add: file_block_def)
  qed
qed

lemma index_blocks_cong:
  assumes "\<And>b. b \<in> index_blocks v di n \<Longrightarrow> v' b = v b"
  shows "index_blocks v' di n = index_blocks v di n"
proof -
  have "index_entry v' (indirect2 di) k = index_entry v (indirect2 di) k" if "156 < n" for k
    using assms [of "ucast (indirect2 di)"] that by (simp add: index_entry_def index_blocks_def)
  then show ?thesis by (auto simp: index_blocks_def)
qed

section \<open>Finding a block\<close>

lemma read_indirect_ok:
  assumes "usable s (ucast b)" "k < 128"
  shows "\<exists>s'. read_indirect b k s = Some (index_entry (view s) b k, s') \<and> same_disk s s' \<and> view s' = view s"
  unfolding read_indirect_def
  by (rule cache_read_ok)
    (use assms in \<open>auto simp: usable_def layout_consts same_disk_def index_entry_def slice_at_def length_view [unfolded BLOCK_SZ_def]\<close>)

lemma usable_same_disk: "same_disk s s' \<Longrightarrow> usable s b \<Longrightarrow> usable s' b"
  by (auto simp: usable_def same_disk_def)

lemma inode_ok_block:
  assumes "inode_ok n di s" "i < n"
  shows "usable s (file_block (view s) di i)" "file_block (view s) di i \<notin> index_blocks (view s) di n"
  using assms by (auto simp: inode_ok_def file_blocks_def)

lemma inode_ok_refl: "inode_ok n di s \<Longrightarrow> i < n \<Longrightarrow> same_disk s s"
  using inode_ok_block(1) by (auto simp: usable_def same_disk_def)

lemma inode_ok_same_disk:
  assumes "inode_ok n di s" "same_disk s s'" "view s' = view s"
  shows "inode_ok n di s'"
  using assms usable_same_disk [OF assms(2)] by (auto simp: inode_ok_def)

lemma get_block_id_ok:
  assumes ok: "inode_ok n di s" and i: "i < n"
  shows "\<exists>b s'. get_block_id di (word_of_nat i) s = Some (b, s') \<and> ucast b = file_block (view s) di i \<and>
     same_disk s s' \<and> view s' = view s"
proof -
  have u: "unat (word_of_nat i :: u32) = i" using ok i by (subst unat_of_nat_u32) (simp_all add: inode_ok_def)
  have us: "usable s b" if "b \<in> index_blocks (view s) di n" for b using ok that by (simp add: inode_ok_def)
  consider "i < 28" | "\<not> i < 28" "i < 156" | "\<not> i < 156" by linarith
  then show ?thesis
  proof cases
    case 1
    moreover have "same_disk s s" by (rule inode_ok_refl [OF ok i])
    ultimately show ?thesis using u by (auto simp: get_block_id_def layout_consts file_block_def)
  next
    case 2
    with i have "usable s (ucast (indirect1 di))" by (intro us) (simp add: index_blocks_def)
    with read_indirect_ok [OF this, of "i - 28"] 2 u show ?thesis
      by (fastforce simp: get_block_id_def layout_consts file_block_def)
  next
    case 3
    let ?j = "(i - 156) div 128" and ?k = "(i - 156) mod 128"
    have j: "156 + 128 * ?j < n" "?j < 128" using 3 i ok by (auto simp: inode_ok_def)
    with 3 i have "usable s (ucast (indirect2 di))" "usable s (ucast (index_entry (view s) (indirect2 di) ?j))"
      by (auto intro!: us simp: index_blocks_def)
    with read_indirect_ok [of s "indirect2 di" ?j] j(2) obtain s1 where
      1: "read_indirect (indirect2 di) ?j s = Some (index_entry (view s) (indirect2 di) ?j, s1)" "same_disk s s1" "view s1 = view s"
      "usable s1 (ucast (index_entry (view s) (indirect2 di) ?j))" using usable_same_disk by blast
    from read_indirect_ok [OF 1(4), of ?k] 1 3 u show ?thesis
      by (auto simp: get_block_id_def layout_consts file_block_def Let_def intro: same_disk_trans)
  qed
qed

section \<open>Reading\<close>

definition file_byte :: "(usize \<Rightarrow> u8 list) \<Rightarrow> disk_inode \<Rightarrow> nat \<Rightarrow> u8" where
  "file_byte v di j = v (file_block v di (j div 512)) ! (j mod 512)"

definition file_data :: "disk_inode \<Rightarrow> block_cache_manager \<Rightarrow> u8 list" where
  "file_data di s = map (file_byte (view s) di) [0..<unat (di_size di)]"

text \<open>The part of a transfer that lies in one block.\<close>

lemma block_part:
  fixes start fin :: nat
  assumes "start < fin"
  defines "ec \<equiv> min ((start div 512 + 1) * 512) fin"
  shows "start < ec" "ec \<le> fin" "start mod 512 + (ec - start) \<le> 512" "\<And>j. start \<le> j \<Longrightarrow> j < ec \<Longrightarrow> j div 512 = start div 512"
    "\<And>j. start \<le> j \<Longrightarrow> j < ec \<Longrightarrow> j mod 512 = start mod 512 + (j - start)" "ec \<noteq> fin \<Longrightarrow> ec div 512 = start div 512 + 1"
proof -
  have s: "start = start div 512 * 512 + start mod 512" "start mod 512 < 512" by simp_all
  have e: "ec \<le> start div 512 * 512 + 512" by (simp add: ec_def)
  have "start < (start div 512 + 1) * 512" using dividend_less_div_times [of 512 start] by simp
  with assms(1) show "start < ec" by (simp add: ec_def)
  show "ec \<le> fin" by (simp add: ec_def)
  show "start mod 512 + (ec - start) \<le> 512" using s e by linarith
  show d: "j div 512 = start div 512" if "start \<le> j" "j < ec" for j
  proof -
    show ?thesis by (rule div_nat_eqI) (use that s e in \<open>simp_all add: algebra_simps\<close>)
  qed
  show "j mod 512 = start mod 512 + (j - start)" if "start \<le> j" "j < ec" for j
    using d [OF that] s that minus_div_mult_eq_mod [of j 512] by linarith
  show "ec div 512 = start div 512 + 1" if "ec \<noteq> fin" using that by (auto simp: ec_def min_def)
qed

lemma block_bytes:
  assumes "start < fin" "\<And>i. length (v i) = 512"
  defines "ec \<equiv> min ((start div 512 + 1) * 512) fin"
  shows "slice_at (start mod 512) (ec - start) (v (file_block v di (start div 512))) = map (file_byte v di) [start..<ec]"
proof (rule nth_equalityI)
  note b = block_part [OF assms(1), folded ec_def]
  show "length (slice_at (start mod 512) (ec - start) (v (file_block v di (start div 512)))) = length (map (file_byte v di) [start..<ec])"
    using b(3) assms(2) by (simp add: slice_at_length)
  fix i
  assume "i < length (slice_at (start mod 512) (ec - start) (v (file_block v di (start div 512))))"
  then have i: "i < ec - start" using b(3) assms(2) by (simp add: slice_at_length)
  with b(4) [of "start + i"] b(5) [of "start + i"] b(3) assms(2)
  show "slice_at (start mod 512) (ec - start) (v (file_block v di (start div 512))) ! i = map (file_byte v di) [start..<ec] ! i"
    by (simp add: slice_at_def file_byte_def)
qed

lemma read_loop_ok:
  assumes "inode_ok n di s" "start < fin" "fin \<le> n * 512" "rs + (fin - start) \<le> length buf"
  shows "\<exists>s'. inode_read_loop di start fin (start div 512) rs buf s =
       Some ((rs + (fin - start), splice rs (map (file_byte (view s) di) [start..<fin]) buf), s') \<and> same_disk s s' \<and> view s' = view s"
  using assms
proof (induction "fin - start" arbitrary: start rs buf s rule: less_induct)
  case less
  define ec where "ec = min ((start div 512 + 1) * 512) fin"
  note b = block_part [OF less.prems(2), folded ec_def]
  have i: "start div 512 < n" using less.prems(2,3) by (simp add: less_mult_imp_div_less)
  obtain blk s1 where g: "get_block_id di (word_of_nat (start div 512)) s = Some (blk, s1)"
    "ucast blk = file_block (view s) di (start div 512)" "same_disk s s1" "view s1 = view s"
    using get_block_id_ok [OF less.prems(1) i] by blast
  have us: "usable s1 (ucast blk)" using usable_same_disk [OF g(3) inode_ok_block(1) [OF less.prems(1) i]] g(2) by simp
  let ?src = "map (file_byte (view s) di) [start..<ec]"
  have len: "length (view s x) = 512" for x
    using inode_ok_block(1) [OF less.prems(1) i] length_view by (auto simp: usable_def BLOCK_SZ_def)
  have src: "slice_at (start mod 512) (ec - start) (view s (ucast blk)) = ?src"
    using block_bytes [OF less.prems(2), of "view s" di] len by (simp add: ec_def g(2))
  have "\<exists>s2. cache_read (ucast blk) 0 BLOCK_SZ (\<lambda>data_block s. Some (slice_at (start mod BLOCK_SZ) (ec - start) data_block, s)) s1 =
      Some (?src, s2) \<and> same_disk s1 s2 \<and> view s2 = view s"
    by (rule cache_read_ok) (use us g(4) src len in \<open>auto simp: usable_def same_disk_def BLOCK_SZ_def slice_at_def [of 0]\<close>)
  then obtain s2 where r: "cache_read (ucast blk) 0 BLOCK_SZ (\<lambda>data_block s. Some (slice_at (start mod BLOCK_SZ) (ec - start) data_block, s)) s1 =
      Some (?src, s2)" "same_disk s s2" "view s2 = view s" using same_disk_trans [OF g(3)] by blast
  have step: "inode_read_loop di start fin (start div 512) rs buf s =
      (if ec = fin then Some ((rs + (ec - start), splice rs ?src buf), s2)
       else inode_read_loop di ec fin (start div 512 + 1) (rs + (ec - start)) (splice rs ?src buf) s2)"
    using g(1) r(1) by (subst inode_read_loop.simps) (simp add: Let_def BLOCK_SZ_def ec_def)
  show ?case
  proof (cases "ec = fin")
    case True
    with step r show ?thesis by auto
  next
    case False
    have ss: "splice (rs + (ec - start)) (map (file_byte (view s) di) [ec..<fin]) (splice rs ?src buf) =
        splice rs (map (file_byte (view s) di) [start..<fin]) buf"
      using splice_splice [of rs ?src "map (file_byte (view s) di) [ec..<fin]" buf] less.prems(4) b(1,2)
        upt_add_eq_append [of start ec "fin - ec"] by (simp flip: map_append)
    have "\<exists>s'. inode_read_loop di ec fin (ec div 512) (rs + (ec - start)) (splice rs ?src buf) s2 =
       Some ((rs + (ec - start) + (fin - ec), splice (rs + (ec - start)) (map (file_byte (view s2) di) [ec..<fin]) (splice rs ?src buf)), s') \<and>
       same_disk s2 s' \<and> view s' = view s2"
      by (rule less.hyps) (use inode_ok_same_disk [OF less.prems(1) r(2,3)] less.prems(2-4) b(1,2) False in simp_all)
    then obtain s3 where "inode_read_loop di ec fin (ec div 512) (rs + (ec - start)) (splice rs ?src buf) s2 =
       Some ((rs + (ec - start) + (fin - ec), splice (rs + (ec - start)) (map (file_byte (view s2) di) [ec..<fin]) (splice rs ?src buf)), s3)"
      "same_disk s2 s3" "view s3 = view s2" by blast
    with step False b(1,2) b(6) [OF False] r(2,3) ss same_disk_trans [of s s2 s3] show ?thesis by simp
  qed
qed

section \<open>Writing\<close>

text \<open>Changing data blocks leaves the way to them.\<close>

lemma inode_ok_data:
  assumes ok: "inode_ok n di s" and sd: "same_disk s s'" and out: "\<And>b. b \<notin> file_blocks (view s) di n \<Longrightarrow> view s' b = view s b"
  shows "inode_ok n di s'" "i < n \<Longrightarrow> file_block (view s') di i = file_block (view s) di i"
    "file_blocks (view s') di n = file_blocks (view s) di n"
proof -
  have ix: "view s' b = view s b" if "b \<in> index_blocks (view s) di n" for b
    using ok that by (intro out) (auto simp: inode_ok_def)
  have fb: "file_block (view s') di i = file_block (view s) di i" if "i < n" for i
    by (rule file_block_cong [OF ix that])
  show "i < n \<Longrightarrow> file_block (view s') di i = file_block (view s) di i" by (rule fb)
  show fs: "file_blocks (view s') di n = file_blocks (view s) di n" by (simp add: file_blocks_def fb)
  have "inj_on (file_block (view s') di) {..<n}" using ok fb by (simp add: inode_ok_def inj_on_def)
  then show "inode_ok n di s'"
    using ok usable_same_disk [OF sd] index_blocks_cong [OF ix] fs by (simp add: inode_ok_def)
qed

lemma write_block_bytes:
  assumes ok: "inode_ok n di s" and sd: "same_disk s s'" and i: "i < n" and len: "off + length bs \<le> 512"
    and v: "view s' = (view s)(file_block (view s) di i := splice off bs (view s (file_block (view s) di i)))" and j: "j < n * 512"
  shows "file_byte (view s') di j =
     (if j div 512 = i \<and> off \<le> j mod 512 \<and> j mod 512 < off + length bs then bs ! (j mod 512 - off) else file_byte (view s) di j)"
proof -
  let ?b = "file_block (view s) di"
  have out: "view s' x = view s x" if "x \<notin> file_blocks (view s) di n" for x
    using that i by (auto simp: v file_blocks_def)
  have jn: "j div 512 < n" using j by (simp add: less_mult_imp_div_less)
  have fb: "file_block (view s') di (j div 512) = ?b (j div 512)" by (rule inode_ok_data(2) [OF ok sd out jn])
  have l: "length (view s (?b i)) = 512"
    using inode_ok_block(1) [OF ok i] length_view by (auto simp: usable_def BLOCK_SZ_def)
  have e: "file_byte (view s') di j = view s' (?b (j div 512)) ! (j mod 512)" by (simp only: file_byte_def fb)
  show ?thesis
  proof (cases "j div 512 = i")
    case True
    with l len show ?thesis unfolding e by (simp add: v nth_splice file_byte_def)
  next
    case False
    then have "?b (j div 512) \<noteq> ?b i" using ok i jn by (auto simp: inode_ok_def inj_on_def)
    with False show ?thesis unfolding e by (simp add: v file_byte_def)
  qed
qed

definition written :: "nat \<Rightarrow> disk_inode \<Rightarrow> nat \<Rightarrow> u8 list \<Rightarrow> block_cache_manager \<Rightarrow> block_cache_manager \<Rightarrow> bool" where
  "written n di start bs s s' \<longleftrightarrow> same_disk s s' \<and> (\<forall>b. b \<notin> file_blocks (view s) di n \<longrightarrow> view s' b = view s b) \<and>
     (\<forall>j<n * 512. file_byte (view s') di j =
        (if start \<le> j \<and> j < start + length bs then bs ! (j - start) else file_byte (view s) di j))"

lemma writtenD:
  assumes "inode_ok n di s" "written n di start bs s s'"
  shows "inode_ok n di s'" "file_blocks (view s') di n = file_blocks (view s) di n"
proof -
  from assms(2) have "same_disk s s'" and out: "\<And>b. b \<notin> file_blocks (view s) di n \<Longrightarrow> view s' b = view s b"
    by (simp_all add: written_def)
  from inode_ok_data(1,3) [OF assms(1) this(1)] out
  show "inode_ok n di s'" "file_blocks (view s') di n = file_blocks (view s) di n" by simp_all
qed

lemma written_trans:
  assumes ok: "inode_ok n di s" and w: "written n di start xs s s1" "written n di (start + length xs) ys s1 s2"
  shows "written n di start (xs @ ys) s s2"
  using w writtenD(2) [OF ok w(1)] same_disk_trans [of s s1 s2] by (auto simp: written_def nth_append)

lemma write_one_block:
  assumes ok: "inode_ok n di s" and b: "start < fin" "fin \<le> n * 512"
  defines "ec \<equiv> min ((start div 512 + 1) * 512) fin"
  assumes len: "length bs = ec - start"
  shows "\<exists>blk s1 s2. get_block_id di (word_of_nat (start div 512)) s = Some (blk, s1) \<and>
     cache_modify (ucast blk) 0 BLOCK_SZ (\<lambda>data_block s. Some ((), splice (start mod BLOCK_SZ) bs data_block, s)) s1 = Some ((), s2) \<and>
     written n di start bs s s2"
proof -
  note p = block_part [OF b(1), folded ec_def]
  have i: "start div 512 < n" using b by (simp add: less_mult_imp_div_less)
  let ?b = "file_block (view s) di (start div 512)"
  obtain blk s1 where g: "get_block_id di (word_of_nat (start div 512)) s = Some (blk, s1)" "ucast blk = ?b"
    "same_disk s s1" "view s1 = view s" using get_block_id_ok [OF ok i] by blast
  have us: "usable s1 (ucast blk)" using usable_same_disk [OF g(3) inode_ok_block(1) [OF ok i]] g(2) by simp
  have l: "length (view s x) = 512" for x
    using inode_ok_block(1) [OF ok i] length_view by (auto simp: usable_def BLOCK_SZ_def)
  let ?new = "splice (start mod 512) bs (view s ?b)"
  have ln: "length ?new = 512" using p(3) len l by simp
  have "\<exists>s2. cache_modify (ucast blk) 0 BLOCK_SZ (\<lambda>data_block s. Some ((), splice (start mod BLOCK_SZ) bs data_block, s)) s1 = Some ((), s2) \<and>
      same_disk s1 s2 \<and> view s2 = (view s)(ucast blk := splice 0 ?new (view s1 (ucast blk)))"
    by (rule cache_modify_ok) (use us g(2,4) l ln in \<open>auto simp: usable_def same_disk_def BLOCK_SZ_def slice_at_def [of 0]\<close>)
  then obtain s2 where m: "cache_modify (ucast blk) 0 BLOCK_SZ (\<lambda>data_block s. Some ((), splice (start mod BLOCK_SZ) bs data_block, s)) s1 = Some ((), s2)"
    "same_disk s s2" "view s2 = (view s)(?b := ?new)"
    using same_disk_trans [OF g(3)] ln l by (auto simp: splice_def [of 0] g(2,4))
  have by': "file_byte (view s2) di j = (if start \<le> j \<and> j < start + length bs then bs ! (j - start) else file_byte (view s) di j)"
    if j: "j < n * 512" for j
  proof -
    have "(j div 512 = start div 512 \<and> start mod 512 \<le> j mod 512 \<and> j mod 512 < start mod 512 + length bs) \<longleftrightarrow> start \<le> j \<and> j < start + length bs"
      (is "?l \<longleftrightarrow> ?r")
    proof
      assume ?l
      then show ?r using div_mult_mod_eq [of j 512] div_mult_mod_eq [of start 512] by linarith
    next
      assume ?r
      then have "j < ec" "start \<le> j" using len p(1) by simp_all
      with p(4,5) [of j] have "j div 512 = start div 512" "j mod 512 = start mod 512 + (j - start)" by blast+
      with \<open>?r\<close> show ?l by linarith
    qed
    moreover have "j mod 512 - start mod 512 = j - start" if ?r using that p(5) [of j] len p(1) by simp
    ultimately show ?thesis using write_block_bytes [OF ok m(2) i _ m(3) j] p(3) len by auto
  qed
  have "written n di start bs s s2"
    using m(2,3) by' i by (auto simp: written_def file_blocks_def)
  with g(1) m(1) show ?thesis by blast
qed

lemma write_loop_ok:
  assumes "inode_ok n di s" "start < fin" "fin \<le> n * 512" "ws + (fin - start) \<le> length buf"
  shows "\<exists>s'. inode_write_loop di start fin (start div 512) ws buf s = Some (ws + (fin - start), s') \<and>
     written n di start (slice_at ws (fin - start) buf) s s'"
  using assms
proof (induction "fin - start" arbitrary: start ws s rule: less_induct)
  case less
  define ec where "ec = min ((start div 512 + 1) * 512) fin"
  note b = block_part [OF less.prems(2), folded ec_def]
  let ?xs = "slice_at ws (ec - start) buf" and ?ys = "slice_at (ws + (ec - start)) (fin - ec) buf"
  have lx: "length ?xs = ec - start" using less.prems(4) b(1,2) by (simp add: slice_at_length)
  obtain blk s1 s2 where g: "get_block_id di (word_of_nat (start div 512)) s = Some (blk, s1)"
    "cache_modify (ucast blk) 0 BLOCK_SZ (\<lambda>data_block s. Some ((), splice (start mod BLOCK_SZ) ?xs data_block, s)) s1 = Some ((), s2)"
    and w: "written n di start ?xs s s2"
    using write_one_block [OF less.prems(1-3), folded ec_def, OF lx] by (elim exE conjE)
  have step: "inode_write_loop di start fin (start div 512) ws buf s =
      (if ec = fin then Some (ws + (ec - start), s2)
       else inode_write_loop di ec fin (start div 512 + 1) (ws + (ec - start)) buf s2)"
    using g by (subst inode_write_loop.simps) (simp add: Let_def BLOCK_SZ_def ec_def)
  show ?case
  proof (cases "ec = fin")
    case True
    with step w show ?thesis by auto
  next
    case False
    have "\<exists>s'. inode_write_loop di ec fin (ec div 512) (ws + (ec - start)) buf s2 = Some (ws + (ec - start) + (fin - ec), s') \<and>
       written n di ec ?ys s2 s'"
      by (rule less.hyps) (use writtenD(1) [OF less.prems(1) w] less.prems(2-4) b(1,2) False in simp_all)
    from this obtain s3 where s3: "inode_write_loop di ec fin (ec div 512) (ws + (ec - start)) buf s2 = Some (ws + (ec - start) + (fin - ec), s3)"
      "written n di ec ?ys s2 s3" by blast
    have "?xs @ ?ys = slice_at ws (fin - start) buf"
      using b(1,2) take_add [of "ec - start" "fin - ec" "drop ws buf"] by (simp add: slice_at_def add.commute)
    moreover have "written n di start (?xs @ ?ys) s s3"
      using s3(2) b(1) lx by (intro written_trans [OF less.prems(1) w]) simp
    ultimately show ?thesis using step False s3(1) b(1,2) b(6) [OF False] by simp
  qed
qed

section \<open>A file is a byte array\<close>

lemma length_file_data [simp]: "length (file_data di s) = unat (di_size di)"
  by (simp add: file_data_def)

lemma slice_file_data:
  "off + k \<le> unat (di_size di) \<Longrightarrow> slice_at off k (file_data di s) = map (file_byte (view s) di) [off..<off + k]"
  by (rule nth_equalityI) (auto simp: slice_at_def file_data_def)

lemma inode_read_at_ok:
  assumes "inode_ok n di s" "off < unat (di_size di)" "buf \<noteq> []"
  defines "k \<equiv> min (length buf) (unat (di_size di) - off)"
  shows "\<exists>s'. inode_read_at di off buf s = Some ((k, splice 0 (slice_at off k (file_data di s)) buf), s') \<and>
     same_disk s s' \<and> view s' = view s"
proof -
  let ?fin = "min (off + length buf) (unat (di_size di))"
  have f: "off < ?fin" "?fin \<le> n * 512" "?fin - off = k" "off + k = ?fin" "off + k \<le> unat (di_size di)"
    using assms by (auto simp: inode_ok_def k_def)
  have "0 + (?fin - off) \<le> length buf" using f(3) by (simp add: k_def)
  from read_loop_ok [OF assms(1) f(1,2) this] slice_file_data [OF f(5), of s] f(3,4)
  have "\<exists>s'. inode_read_loop di off ?fin (off div 512) 0 buf s = Some ((k, splice 0 (slice_at off k (file_data di s)) buf), s') \<and>
     same_disk s s' \<and> view s' = view s" by simp
  moreover have "\<not> ?fin \<le> off" using f(1) by (simp only: not_le)
  ultimately show ?thesis by (simp only: inode_read_at_def BLOCK_SZ_def Let_def if_False)
qed

lemma inode_write_at_ok:
  assumes ok: "inode_ok n di s" and len: "off + length bs \<le> unat (di_size di)" "bs \<noteq> []"
  shows "\<exists>s'. inode_write_at di off bs s = Some (length bs, s') \<and> written n di off bs s s' \<and>
     file_data di s' = splice off bs (file_data di s)"
proof -
  have f: "off < off + length bs" "off + length bs \<le> n * 512" using ok len by (auto simp: inode_ok_def)
  from write_loop_ok [OF ok f, of 0 bs] obtain s' where
    w: "inode_write_loop di off (off + length bs) (off div 512) 0 bs s = Some (length bs, s')" "written n di off bs s s'"
    by (auto simp: slice_at_def)
  have "file_data di s' = splice off bs (file_data di s)"
  proof (rule nth_equalityI)
    fix i
    assume "i < length (file_data di s')"
    then have i: "i < unat (di_size di)" by simp
    then have "i < n * 512" using ok by (simp add: inode_ok_def)
    with w(2) have "file_byte (view s') di i = (if off \<le> i \<and> i < off + length bs then bs ! (i - off) else file_byte (view s) di i)"
      by (simp add: written_def)
    then show "file_data di s' ! i = splice off bs (file_data di s) ! i"
      using i len(1) by (simp add: nth_splice) (simp add: file_data_def)
  qed (use len(1) in simp)
  with w len show ?thesis by (simp add: inode_write_at_def BLOCK_SZ_def Let_def min_def)
qed

text \<open>
  C10: A file is a byte array.  For a disk inode whose blocks are distinct and in range, up to the
  largest size the two levels of index blocks allow, \<open>write_at\<close> inside the file returns after writing
  all bytes, and the contents of the file are then those it had with the written range replaced; only
  data blocks of this file have changed.  A later \<open>read_at\<close> at any place returns the bytes of that
  array that are there, up to the end of the file, and changes nothing.
\<close>

theorem file_is_a_byte_array:
  assumes ok: "inode_ok n di s" and len: "off + length bs \<le> unat (di_size di)" "bs \<noteq> []"
  shows "\<exists>s'. inode_write_at di off bs s = Some (length bs, s') \<and> inode_ok n di s' \<and>
     file_data di s' = splice off bs (file_data di s) \<and>
     (\<forall>b. b \<notin> file_blocks (view s) di n \<longrightarrow> view s' b = view s b) \<and>
     (\<forall>off' buf. \<exists>s''. inode_read_at di off' buf s' =
          (let k = min (length buf) (unat (di_size di) - off') in
           Some ((k, splice 0 (slice_at off' k (splice off bs (file_data di s))) buf), s'')) \<and> view s'' = view s')"
proof -
  from inode_write_at_ok [OF ok len] obtain s' where w: "inode_write_at di off bs s = Some (length bs, s')"
    "written n di off bs s s'" "file_data di s' = splice off bs (file_data di s)" by blast
  note ok' = writtenD(1) [OF ok w(2)]
  have "\<exists>s''. inode_read_at di off' buf s' =
          (let k = min (length buf) (unat (di_size di) - off') in
           Some ((k, splice 0 (slice_at off' k (file_data di s')) buf), s'')) \<and> view s'' = view s'" for off' buf
  proof (cases "off' < unat (di_size di) \<and> buf \<noteq> []")
    case True
    with inode_read_at_ok [OF ok', of off' buf] show ?thesis by (auto simp: Let_def)
  next
    case False
    then show ?thesis by (auto simp: inode_read_at_def Let_def splice_def slice_at_def)
  qed
  with w ok' show ?thesis by (auto simp: written_def)
qed

theorem file_is_a_byte_array_witness:
  "let di = \<lparr>di_size = 600, direct = [20, 10] @ replicate 26 0, indirect1 = 0, indirect2 = 0, di_type = File_Inode\<rparr> in
   \<exists>s s' s''. inode_write_at di 510 [1, 2, 3] s = Some (3, s') \<and> inode_read_at di 511 [0, 0] s' = Some ((2, [2, 3]), s'')"
proof -
  let ?di = "\<lparr>di_size = 600, direct = [20, 10] @ replicate 26 0, indirect1 = 0, indirect2 = 0, di_type = File_Inode\<rparr>"
  let ?s = "bcm_new \<lparr>dev_size = 64, dev_data = \<lambda>_. replicate 512 0\<rparr>"
  have inv: "cache_inv ?s" by (rule bcm_new_inv) (simp add: BLOCK_SZ_def)
  have b: "file_block (view ?s) ?di 0 = 20" "file_block (view ?s) ?di (Suc 0) = 10" by (simp_all add: file_block_def)
  have two: "{..<2 :: nat} = {0, Suc 0}" by auto
  have "inode_ok 2 ?di ?s"
    using inv b by (auto simp: inode_ok_def file_blocks_def index_blocks_def two usable_def bcm_new_inv BLOCK_CACHE_SIZE_def)
  moreover have "file_data ?di ?s = replicate 600 0"
    by (rule nth_equalityI) (auto simp: file_data_def file_byte_def bcm_new_inv)
  moreover have sz: "unat (di_size ?di) = 600" by simp
  ultimately obtain s' where w: "inode_write_at ?di 510 [1, 2, 3] ?s = Some (length [1, 2, 3 :: u8], s')"
    "\<forall>off' buf. \<exists>s''. inode_read_at ?di off' buf s' =
          (let k = min (length buf) (unat (di_size ?di) - off') in
           Some ((k, splice 0 (slice_at off' k (splice 510 [1, 2, 3] (replicate 600 0))) buf), s'')) \<and> view s'' = view s'"
    using file_is_a_byte_array [of 2 ?di ?s 510 "[1, 2, 3]"] by (simp only: sz) auto
  have k: "min (length [0, 0 :: u8]) (unat (di_size ?di) - 511) = 2" by simp
  from w(2) [rule_format, of 511 "[0, 0]"] obtain s'' where
    "inode_read_at ?di 511 [0, 0] s' = Some ((2, splice 0 (slice_at 511 2 (splice 510 [1, 2, 3] (replicate 600 0))) [0, 0]), s'')"
    unfolding Let_def k by blast
  moreover have "slice_at 511 2 (splice 510 [1, 2, 3 :: u8] (replicate 600 0)) = [2, 3]" by (simp add: slice_at_def splice_def)
  ultimately show ?thesis using w(1) unfolding Let_def by (intro exI [of _ ?s] exI [of _ s'] exI [of _ s'']) (simp add: splice_def)
qed

end
