(* ===== verification/Tree_Laws.thy ===== *)
theory Tree_Laws
  imports File_Laws
begin

text \<open>
  The blocks of a disk inode in the order in which \<open>increase_size\<close> takes them and \<open>clear_size\<close>
  returns them (\<open>easy-fs/src/layout.rs\<close>): the direct blocks, the index block \<open>indirect1\<close> and its
  entries, the index block \<open>indirect2\<close> and, for each of its entries, that entry and the blocks it
  lists.  Growing a file appends to this list; clearing it returns the list.
\<close>

section \<open>Slots\<close>

definition slot2 :: "(usize \<Rightarrow> u8 list) \<Rightarrow> (nat \<Rightarrow> u32) \<Rightarrow> nat \<Rightarrow> u32" where
  "slot2 v arr r = (if r mod 129 = 0 then arr (r div 129) else index_entry v (arr (r div 129)) (r mod 129 - 1))"

definition slot_block :: "(usize \<Rightarrow> u8 list) \<Rightarrow> disk_inode \<Rightarrow> nat \<Rightarrow> u32" where
  "slot_block v di t =
     (if t < 28 then direct di ! t else if t = 28 then indirect1 di
      else if t < 157 then index_entry v (indirect1 di) (t - 29) else if t = 157 then indirect2 di
      else slot2 v (index_entry v (indirect2 di)) (t - 158))"

text \<open>How many blocks a file of \<open>n\<close> data blocks takes, and where its \<open>i\<close>-th data block stands.\<close>

definition tcount :: "nat \<Rightarrow> nat" where
  "tcount n = n + (if n \<le> 28 then 0 else if n \<le> 156 then 1 else 2 + (n - 29) div 128)"

definition dslot :: "nat \<Rightarrow> nat" where
  "dslot i = (if i < 28 then i else if i < 156 then Suc i else i + 3 + (i - 156) div 128)"

definition tree :: "(usize \<Rightarrow> u8 list) \<Rightarrow> disk_inode \<Rightarrow> nat \<Rightarrow> u32 list" where
  "tree v di n = map (slot_block v di) [0..<tcount n]"

definition tree_ok :: "nat \<Rightarrow> disk_inode \<Rightarrow> block_cache_manager \<Rightarrow> bool" where
  "tree_ok n di s \<longleftrightarrow> n \<le> 156 + 128 * 128 \<and> length (direct di) = 28 \<and> unat (di_size di) \<le> n * 512 \<and>
     distinct (tree (view s) di n) \<and> (\<forall>b\<in>set (tree (view s) di n). usable s (ucast b))"

lemma length_tree [simp]: "length (tree v di n) = tcount n" by (simp add: tree_def)

lemma nth_tree: "t < tcount n \<Longrightarrow> tree v di n ! t = slot_block v di t" by (simp add: tree_def)

lemma tcount_simps [simp]: "tcount 0 = 0" "tcount 28 = 28" "tcount 156 = 157" by (simp_all add: tcount_def)

lemma tcount_mono: "m \<le> n \<Longrightarrow> tcount m \<le> tcount n"
proof -
  assume mn: "m \<le> n"
  then have "(m - 29) div 128 \<le> (n - 29) div 128" by (intro div_le_mono) simp
  with mn show ?thesis by (auto simp: tcount_def)
qed

lemma group_div_mod:
  assumes "m < 128"
  shows "(129 * q + Suc m) div 129 = q" "(129 * q + Suc m) mod 129 = Suc m"
  using assms by simp_all

lemma dslot_far:
  assumes "156 \<le> i"
  shows "dslot i = 158 + (129 * ((i - 156) div 128) + Suc ((i - 156) mod 128))"
proof -
  have "i - 156 = 128 * ((i - 156) div 128) + (i - 156) mod 128" by simp
  moreover have "dslot i = i + 3 + (i - 156) div 128" using assms by (simp add: dslot_def)
  ultimately show ?thesis using assms by linarith
qed

lemma tcount_Suc: "tcount (Suc i) = Suc (dslot i)"
proof (cases "156 \<le> i")
  case True
  then have "Suc i - 29 = (i - 156) + 1 * 128" by simp
  then have "(Suc i - 29) div 128 = (i - 156) div 128 + 1" by (simp only: div_mult_self1)
  with True show ?thesis by (simp add: tcount_def dslot_def)
next
  case False
  then show ?thesis by (auto simp: tcount_def dslot_def)
qed

lemma dslot_mono: "i < j \<Longrightarrow> dslot i < dslot j"
proof -
  assume ij: "i < j"
  then have "(i - 156) div 128 \<le> (j - 156) div 128" by (intro div_le_mono) simp
  with ij show ?thesis by (simp add: dslot_def)
qed

lemma dslot_inj: "dslot i = dslot j \<longleftrightarrow> i = j"
  using dslot_mono [of i j] dslot_mono [of j i] by (cases i j rule: linorder_cases) auto

lemma dslot_less: "i < n \<Longrightarrow> dslot i < tcount n"
  using tcount_Suc [of i] tcount_mono [of "Suc i" n] by simp

text \<open>The slots of index blocks.\<close>

definition islot :: "nat \<Rightarrow> bool" where
  "islot t \<longleftrightarrow> t = 28 \<or> t = 157 \<or> (158 \<le> t \<and> 129 dvd (t - 158))"

lemma dslot_not_islot: "\<not> islot (dslot i)"
proof (cases "156 \<le> i")
  case True
  have "(129 * ((i - 156) div 128) + Suc ((i - 156) mod 128)) mod 129 = Suc ((i - 156) mod 128)" by (rule group_div_mod) simp
  then have "\<not> 129 dvd dslot i - 158" unfolding dslot_far [OF True] by (simp only: dvd_eq_mod_eq_0 diff_add_inverse nat.distinct not_False_eq_True)
  then show ?thesis using dslot_far [OF True] by (simp add: islot_def)
next
  case False
  then have "dslot i < 157" "dslot i \<noteq> 28" by (simp_all add: dslot_def)
  then show ?thesis by (simp add: islot_def)
qed

lemma file_block_slot: "file_block v di i = ucast (slot_block v di (dslot i))"
proof (cases "156 \<le> i")
  case True
  let ?q = "(i - 156) div 128" and ?m = "(i - 156) mod 128"
  have "slot2 v (index_entry v (indirect2 di)) (129 * ?q + Suc ?m) = index_entry v (index_entry v (indirect2 di) ?q) ?m"
    using group_div_mod [of ?m ?q] by (simp add: slot2_def del: mult_Suc_right)
  then show ?thesis using True unfolding dslot_far [OF True] by (simp add: slot_block_def file_block_def)
next
  case False
  then show ?thesis by (auto simp: slot_block_def file_block_def dslot_def)
qed

lemma far_islot: "158 + 129 * j < tcount n \<longleftrightarrow> 156 + 128 * j < n"
proof -
  have "dslot (156 + 128 * j) = 159 + 129 * j" using dslot_far [of "156 + 128 * j"] by simp
  with tcount_Suc [of "156 + 128 * j"] have 1: "tcount (Suc (156 + 128 * j)) = 160 + 129 * j" by simp
  have 2: "tcount (156 + 128 * j) \<le> 158 + 129 * j"
  proof (cases j)
    case (Suc k)
    have "dslot (155 + 128 * j) = 158 + (129 * k + 128)"
      using dslot_far [of "155 + 128 * j"] Suc by simp
    with tcount_Suc [of "155 + 128 * j"] Suc show ?thesis by simp
  qed simp
  show ?thesis using tcount_mono [of n "156 + 128 * j"] tcount_mono [of "Suc (156 + 128 * j)" n] 1 2 by linarith
qed

lemma index_blocks_slots:
  "index_blocks v di n = (\<lambda>t. ucast (slot_block v di t)) ` {t. t < tcount n \<and> islot t}"
proof -
  have a: "28 < tcount n \<longleftrightarrow> 28 < n" using tcount_mono [of n 28] tcount_mono [of 29 n] by (auto simp: tcount_def)
  have b: "157 < tcount n \<longleftrightarrow> 156 < n" using far_islot [of 0 n] tcount_mono [of n 156] by auto
  have "{t. t < tcount n \<and> islot t} =
      (if 28 < n then {28} else {}) \<union> (if 156 < n then {157} \<union> (\<lambda>j. 158 + 129 * j) ` {j. 156 + 128 * j < n} else {})"
    (is "?l = ?r")
  proof (intro set_eqI)
    fix t
    show "t \<in> ?l \<longleftrightarrow> t \<in> ?r"
    proof (cases "158 \<le> t \<and> 129 dvd (t - 158)")
      case True
      then obtain j where j: "t = 158 + 129 * j" by (metis dvdE le_add_diff_inverse)
      then show ?thesis using far_islot [of j n] by (auto simp: islot_def)
    next
      case False
      then show ?thesis using a b by (auto simp: islot_def)
    qed
  qed
  moreover have "slot_block v di (158 + 129 * j) = index_entry v (indirect2 di) j" for j
    by (simp add: slot_block_def slot2_def)
  ultimately show ?thesis by (auto simp: index_blocks_def slot_block_def image_Un image_image)
qed

lemma u32_to_usize_inj: "(ucast (a :: u32) :: usize) = ucast b \<longleftrightarrow> a = b"
proof
  assume "(ucast a :: usize) = ucast b"
  then have "(ucast (ucast a :: usize) :: u32) = ucast (ucast b :: usize)" by simp
  then show "a = b" by (simp add: ucast_up_ucast_id is_up)
qed simp

lemma tree_inode_ok:
  assumes "tree_ok n di s"
  shows "inode_ok n di s"
proof -
  have d: "t = u" if "slot_block (view s) di t = slot_block (view s) di u" "t < tcount n" "u < tcount n" for t u
    using assms that nth_eq_iff_index_eq [of "tree (view s) di n" t u] by (simp add: tree_ok_def nth_tree)
  have u: "usable s (ucast (slot_block (view s) di t))" if "t < tcount n" for t
    using assms that by (auto simp: tree_ok_def tree_def)
  have "inj_on (file_block (view s) di) {..<n}"
  proof (rule inj_onI)
    fix i j
    assume "i \<in> {..<n}" "j \<in> {..<n}" "file_block (view s) di i = file_block (view s) di j"
    then show "i = j" using d [of "dslot i" "dslot j"] dslot_less by (simp add: file_block_slot u32_to_usize_inj dslot_inj)
  qed
  moreover have "file_blocks (view s) di n \<inter> index_blocks (view s) di n = {}"
  proof -
    have "slot_block (view s) di (dslot i) \<noteq> slot_block (view s) di t" if "i < n" "t < tcount n" "islot t" for i t
      using d [of "dslot i" t] dslot_less [OF that(1)] dslot_not_islot [of i] that by auto
    then show ?thesis by (auto simp: file_blocks_def index_blocks_slots file_block_slot u32_to_usize_inj)
  qed
  moreover have "\<forall>b\<in>file_blocks (view s) di n \<union> index_blocks (view s) di n. usable s b"
    using u dslot_less by (simp add: file_blocks_def index_blocks_slots file_block_slot ball_Un)
  ultimately show ?thesis using assms by (simp add: inode_ok_def tree_ok_def)
qed

section \<open>Sizes in blocks\<close>

definition nblocks :: "nat \<Rightarrow> nat" where "nblocks k = (k + 511) div 512"

definition MAX_BLOCKS :: nat where "MAX_BLOCKS = 156 + 128 * 128"

lemma nblocks_bound: "k \<le> nblocks k * 512" "nblocks k * 512 < k + 512"
  by (simp_all add: nblocks_def)

lemma nblocks_mono: "k \<le> l \<Longrightarrow> nblocks k \<le> nblocks l"
  by (simp add: nblocks_def div_le_mono)

lemma data_blocks_of_nat:
  assumes "nblocks (unat sz) \<le> MAX_BLOCKS"
  shows "unat (data_blocks_of sz) = nblocks (unat sz)"
proof -
  have "unat sz \<le> 16540 * 512" using nblocks_bound(1) [of "unat sz"] assms by (simp add: MAX_BLOCKS_def)
  then have u: "sz + 511 = word_of_nat (unat sz + 511)" "unat (word_of_nat (unat sz + 511) :: u32) = unat sz + 511"
    by (simp_all add: unat_of_nat_u32 del: of_nat_add) (simp add: word_unat_eq_iff)
  have "data_blocks_of sz = (sz + 511) div 512" by (simp add: data_blocks_of_def BLOCK_SZ_def) (simp add: add.commute)
  then show ?thesis using u by (simp add: unat_div nblocks_def del: of_nat_add)
qed

lemma tcount_bound: "n \<le> MAX_BLOCKS \<Longrightarrow> tcount n < 2 ^ 32"
  using tcount_mono [of n MAX_BLOCKS] by (simp add: tcount_def MAX_BLOCKS_def split: if_splits)

lemma total_blocks_nat:
  assumes "nblocks (unat sz) \<le> MAX_BLOCKS"
  shows "unat (total_blocks sz) = tcount (nblocks (unat sz))"
proof -
  let ?n = "nblocks (unat sz)"
  have "total_blocks sz = word_of_nat (tcount ?n)"
    using data_blocks_of_nat [OF assms] by (simp add: total_blocks_def Let_def layout_consts tcount_def)
  then show ?thesis using tcount_bound [OF assms] by (simp add: unat_of_nat_u32)
qed

lemma blocks_num_needed_nat:
  assumes "unat (di_size di) \<le> unat sz" "nblocks (unat sz) \<le> MAX_BLOCKS"
  shows "\<exists>k. blocks_num_needed di sz = Some k \<and> unat k = tcount (nblocks (unat sz)) - tcount (nblocks (unat (di_size di)))"
proof -
  have m: "nblocks (unat (di_size di)) \<le> nblocks (unat sz)" by (rule nblocks_mono [OF assms(1)])
  then have "unat (total_blocks (di_size di)) = tcount (nblocks (unat (di_size di)))"
    using assms(2) by (intro total_blocks_nat) simp
  with total_blocks_nat [OF assms(2)] tcount_mono [OF m] assms(1)
  show ?thesis by (simp add: blocks_num_needed_def word_le_nat_alt unat_sub)
qed

end
