(* ===== verification/Grow_Laws.thy ===== *)
theory Grow_Laws
  imports Tree_Laws
begin

text \<open>
  Growing a file (\<open>DiskInode::increase_size\<close> of \<open>easy-fs/src/layout.rs\<close>): the new blocks are appended
  to the list of blocks of the inode, and only its index blocks are written.
\<close>

section \<open>Growing\<close>

lemma fill_array_ok:
  assumes "lim \<le> length arr" "lim - cur \<le> length nb"
  shows "fill_array cur lim arr nb = Some (max cur lim, splice cur (take (lim - cur) nb) arr, drop (lim - cur) nb)"
  using assms
proof (induction cur lim arr nb rule: fill_array.induct)
  case (1 cur lim arr nb)
  show ?case
  proof (cases "cur < lim")
    case True
    with 1(3) obtain b nb' where nb: "nb = b # nb'" by (cases nb) auto
    have "splice (Suc cur) (take (lim - Suc cur) nb') (arr[cur := b]) = splice cur (take (lim - cur) nb) arr"
    proof -
      have "take (Suc cur) (arr[cur := b]) = take cur arr @ [b]" using True 1(2) by (simp add: take_Suc_conv_app_nth)
      moreover have "take (lim - cur) nb = b # take (lim - Suc cur) nb'" using True nb by (simp add: take_Cons' Suc_diff_Suc)
      ultimately show ?thesis by (simp add: splice_def drop_update_cancel)
    qed
    moreover have "drop (lim - cur) nb = drop (lim - Suc cur) nb'" using True nb by (simp add: drop_Cons')
    ultimately show ?thesis using 1(1) [OF True nb] 1(2,3) True nb by (subst fill_array.simps) simp
  next
    case False
    then show ?thesis by (subst fill_array.simps) (simp add: splice_def)
  qed
qed

lemma index_entry_upd:
  assumes "length arr = 128"
  shows "index_entry (v(ucast b := le_concat arr)) c k = (if c = b then arr ! k else index_entry v c k)"
  using le_split_concat [of arr] assms by (simp add: index_entry_def u32_to_usize_inj)

lemma tree_appendI:
  assumes "m \<le> n" "length xs = tcount n - tcount m"
    and "\<And>t. t < tcount m \<Longrightarrow> slot_block v' di' t = slot_block v di t"
    and "\<And>t. tcount m \<le> t \<Longrightarrow> t < tcount n \<Longrightarrow> slot_block v' di' t = xs ! (t - tcount m)"
  shows "tree v' di' n = tree v di m @ xs"
  by (rule nth_equalityI) (use assms tcount_mono [OF assms(1)] in \<open>auto simp: nth_append nth_tree\<close>)

text \<open>Rewriting a whole index block.\<close>

lemma rewrite_index_block:
  assumes us: "usable s (ucast b)" and g: "\<And>s1. g (view s (ucast b)) s1 = Some (r, le_concat arr, s1)"
    and l: "length (arr :: u32 list) = 128"
  shows "\<exists>s'. cache_modify (ucast b) 0 BLOCK_SZ g s = Some (r, s') \<and> same_disk s s' \<and> view s' = (view s)(ucast b := le_concat arr)"
proof -
  have l: "length (view s (ucast b)) = 512" "length (le_concat arr) = 512"
    using us length_view l by (auto simp: usable_def BLOCK_SZ_def length_le_concat)
  have "\<exists>s'. cache_modify (ucast b) 0 BLOCK_SZ g s =
       Some (r, s') \<and> same_disk s s' \<and> view s' = (view s)(ucast b := splice 0 (le_concat arr) (view s (ucast b)))"
    by (rule cache_modify_ok) (use us l g in \<open>auto simp: usable_def layout_consts slice_at_def same_disk_def\<close>)
  then show ?thesis using l by (simp add: splice_def)
qed

lemma grow_direct:
  assumes cn: "c \<le> n" and l: "length (direct di) = 28" and nb: "tcount n - tcount c \<le> length nb"
  defines "m \<equiv> max c (min n 28)"
  shows "\<exists>arr. fill_array c (min n 28) (direct di) nb = Some (m, arr, drop (tcount m - tcount c) nb) \<and> length arr = 28 \<and>
     tree v (di\<lparr>di_size := sz, direct := arr\<rparr>) m = tree v di c @ take (tcount m - tcount c) nb"
proof -
  have k: "tcount m - tcount c = min n 28 - c" "m \<le> n" using cn by (auto simp: m_def tcount_def)
  then have le: "min n 28 - c \<le> length nb" using tcount_mono [OF k(2)] nb by linarith
  let ?xs = "take (min n 28 - c) nb"
  have f: "fill_array c (min n 28) (direct di) nb = Some (m, splice c ?xs (direct di), drop (tcount m - tcount c) nb)"
    using fill_array_ok [of "min n 28" "direct di" c nb] l le k(1) by (simp add: m_def)
  have fits: "c + length ?xs \<le> 28" if "c < 28" using that le by simp
  have "tree v (di\<lparr>di_size := sz, direct := splice c ?xs (direct di)\<rparr>) m = tree v di c @ ?xs"
  proof (rule tree_appendI)
    show "length ?xs = tcount m - tcount c" using k le by simp
    show "slot_block v (di\<lparr>di_size := sz, direct := splice c ?xs (direct di)\<rparr>) t = slot_block v di t" if "t < tcount c" for t
    proof (cases "c < 28")
      case True
      with that have "t < c" by (simp add: tcount_def)
      with fits True l show ?thesis by (simp add: slot_block_def nth_splice)
    qed (simp add: splice_def slot_block_def)
    show "slot_block v (di\<lparr>di_size := sz, direct := splice c ?xs (direct di)\<rparr>) t = ?xs ! (t - tcount c)"
      if t: "tcount c \<le> t" "t < tcount m" for t
    proof (cases "c < 28")
      case True
      then have m: "m = min n 28" using cn by (simp add: m_def)
      then have "tcount m = m" "tcount c = c" using True by (simp_all add: tcount_def)
      with t m have "c \<le> t" "t < 28" "t < c + length ?xs" "tcount c = c" using le by simp_all
      with fits True l show ?thesis by (simp only: slot_block_def nth_splice) (simp add: nth_splice)
    next
      case False
      with t show ?thesis by (simp add: m_def)
    qed
  qed (simp add: m_def)
  moreover have "length (splice c ?xs (direct di)) = 28" using fits l by (cases "c < 28") (simp_all add: splice_def)
  ultimately show ?thesis using f k(1) by auto
qed

text \<open>The blocks of an inode that does not use \<open>indirect2\<close>.\<close>

lemma tree_near:
  assumes l: "length (direct di) = 28" and c: "c \<le> 156"
  shows "tree v di c = take c (direct di) @
     (if 28 < c then indirect1 di # take (c - 28) (le_split 128 (v (ucast (indirect1 di)))) else [])" (is "_ = ?r")
proof (rule nth_equalityI)
  have "length ?r = tcount c" using l c by (simp add: tcount_def)
  then show "length (tree v di c) = length ?r" by simp
  fix t
  assume "t < length (tree v di c)"
  then have t: "t < tcount c" by simp
  consider "t < 28" | "t = 28" | "29 \<le> t" by linarith
  then show "tree v di c ! t = ?r ! t"
  proof cases
    case 1
    with t have "t < c" by (simp add: tcount_def split: if_splits)
    with 1 t l show ?thesis by (simp add: nth_tree slot_block_def nth_append)
  next
    case 2
    with t have "28 < c" by (simp add: tcount_def split: if_splits)
    with 2 t l show ?thesis by (simp add: nth_tree slot_block_def nth_append)
  next
    case 3
    with t c have "28 < c" "t < 157" "t - 29 < c - 28" by (simp_all add: tcount_def split: if_splits)
    moreover from 3 have "t - 28 = Suc (t - 29)" by simp
    ultimately show ?thesis using 3 t l by (simp add: nth_tree slot_block_def nth_append index_entry_def)
  qed
qed

lemma take_splice: "length xs = k \<Longrightarrow> i \<le> length ws \<Longrightarrow> take (i + k) (splice i xs ws) = take i ws @ xs"
  by (simp add: splice_def)

text \<open>Filling \<open>indirect1\<close>: its number comes from the supply when the file gets its first block there.\<close>

lemma fill_indirect1_run:
  assumes c: "28 \<le> c" and us: "usable s (ucast b)" and nb: "min (n - 28) 128 - (c - 28) \<le> length nb"
  defines "k \<equiv> min (n - 28) 128 - (c - 28)"
  defines "arr \<equiv> splice (c - 28) (take k nb) (le_split 128 (view s (ucast b)) :: u32 list)"
  shows "\<exists>s'. cache_modify (ucast b) 0 BLOCK_SZ
          (\<lambda>bs s. map_option (\<lambda>(current, arr, nb). ((current, nb), le_concat arr, s))
                     (fill_array (c - 28) (min (n - 28) 128) (le_split INODE_INDIRECT1_COUNT bs) nb)) s =
       Some ((max c (min n 156) - 28, drop k nb), s') \<and> same_disk s s' \<and> view s' = (view s)(ucast b := le_concat arr)"
    and "length arr = 128"
proof -
  let ?ws = "le_split 128 (view s (ucast b)) :: u32 list"
  have lx: "length (take k nb) = k" using nb by (simp add: k_def)
  show l: "length arr = 128"
  proof (cases "c - 28 < 128")
    case True
    then have "c - 28 + length (take k nb) \<le> length ?ws" unfolding lx k_def by simp
    from length_splice [OF this] show ?thesis by (simp add: arr_def)
  qed (simp add: arr_def splice_def k_def)
  have 1: "max (c - 28) (min (n - 28) 128) = max c (min n 156) - 28" using c by linarith
  have 2: "min (n - 28) 128 \<le> length ?ws" by simp
  from fill_array_ok [OF 2 nb] have "fill_array (c - 28) (min (n - 28) 128) ?ws nb = Some (max c (min n 156) - 28, arr, drop k nb)"
    unfolding 1 arr_def k_def .
  then show "\<exists>s'. cache_modify (ucast b) 0 BLOCK_SZ
          (\<lambda>bs s. map_option (\<lambda>(current, arr, nb). ((current, nb), le_concat arr, s))
                     (fill_array (c - 28) (min (n - 28) 128) (le_split INODE_INDIRECT1_COUNT bs) nb)) s =
       Some ((max c (min n 156) - 28, drop k nb), s') \<and> same_disk s s' \<and> view s' = (view s)(ucast b := le_concat arr)"
    by (intro rewrite_index_block [OF us _ l]) (simp add: layout_consts)
qed

lemma grow_indirect1:
  assumes l: "length (direct di) = 28" and c: "28 \<le> c" "c \<le> n" "28 < n" and nb: "tcount n - tcount c \<le> length nb"
    and us: "\<And>b. b \<in> set (tree (view s) di c @ take (tcount n - tcount c) nb) \<Longrightarrow> usable s (ucast b)"
  defines "m \<equiv> max c (min n 156)"
  shows "\<exists>ind1 nb1 s'. (if c = 28 then take_block nb else Some (indirect1 di, nb)) = Some (ind1, nb1) \<and>
     cache_modify (ucast ind1) 0 BLOCK_SZ
          (\<lambda>bs s. map_option (\<lambda>(current, arr, nb). ((current, nb), le_concat arr, s))
                     (fill_array (c - 28) (min (n - 28) 128) (le_split INODE_INDIRECT1_COUNT bs) nb1)) s =
       Some ((m - 28, drop (tcount m - tcount c) nb), s') \<and>
     same_disk s s' \<and> (\<forall>b. b \<noteq> ucast ind1 \<longrightarrow> view s' b = view s b) \<and>
     tree (view s') (di\<lparr>indirect1 := ind1\<rparr>) m = tree (view s) di c @ take (tcount m - tcount c) nb"
proof -
  define e where "e = (if c = 28 then 1 else 0 :: nat)"
  define ind1 where "ind1 = (if c = 28 then hd nb else indirect1 di)"
  define k where "k = min (n - 28) 128 - (c - 28)"
  let ?nb1 = "drop e nb" and ?di = "di\<lparr>indirect1 := ind1\<rparr>"
  have tk: "tcount m - tcount c = e + k" using c by (simp add: m_def tcount_def e_def k_def max_def min_def) linarith
  have len: "e + k \<le> length nb" using tk tcount_mono [of m n] nb c by (simp add: m_def)
  have ne: "nb \<noteq> []" if "c = 28" using len that by (auto simp: e_def)
  have tb: "(if c = 28 then take_block nb else Some (indirect1 di, nb)) = Some (ind1, ?nb1)"
    using ne by (cases nb) (auto simp: ind1_def e_def)
  have "ind1 \<in> set (tree (view s) di c @ take (tcount n - tcount c) nb)"
  proof (cases "c = 28")
    case True
    have "28 < tcount n" using tcount_mono [of 29 n] c by (simp add: tcount_def)
    then have "hd (take (tcount n - tcount c) nb) \<in> set (take (tcount n - tcount c) nb)" using ne True by (intro hd_in_set) simp
    then show ?thesis using True \<open>28 < tcount n\<close> by (simp add: ind1_def hd_take)
  next
    case False
    then have "28 < tcount c" using tcount_mono [of 29 c] c by (simp add: tcount_def)
    with nth_mem [of 28 "tree (view s) di c"] False show ?thesis by (simp add: nth_tree slot_block_def ind1_def)
  qed
  note us1 = us [OF this]
  let ?ws = "le_split 128 (view s (ucast ind1)) :: u32 list"
  have "min (n - 28) 128 - (c - 28) \<le> length ?nb1" using len unfolding k_def length_drop by linarith
  note f = fill_indirect1_run [OF c(1) us1 this, folded k_def m_def]
  have "drop k ?nb1 = drop (tcount m - tcount c) nb" by (simp add: tk add.commute)
  with f(1) obtain s' where s': "cache_modify (ucast ind1) 0 BLOCK_SZ
          (\<lambda>bs s. map_option (\<lambda>(current, arr, nb). ((current, nb), le_concat arr, s))
                     (fill_array (c - 28) (min (n - 28) 128) (le_split INODE_INDIRECT1_COUNT bs) ?nb1)) s =
       Some ((m - 28, drop (tcount m - tcount c) nb), s')" "same_disk s s'"
      "view s' = (view s)(ucast ind1 := le_concat (splice (c - 28) (take k ?nb1) ?ws))" by (elim exE conjE) simp
  have "tree (view s') ?di m = tree (view s) di c @ take (tcount m - tcount c) nb"
  proof (cases "156 \<le> c")
    case True
    then have "k = 0" "?di = di" "m = c" by (simp_all add: k_def ind1_def m_def)
    moreover have "le_concat ?ws = view s (ucast ind1)"
      using us1 length_view by (intro le_concat_split) (auto simp: usable_def BLOCK_SZ_def)
    ultimately show ?thesis using s'(3) by (simp add: splice_def)
  next
    case False
    have m: "28 < m" "m \<le> 156" "m - 28 = c - 28 + k" using c False unfolding m_def k_def by linarith+
    have m4: "c - 28 \<le> length ?ws" using False by simp
    have "length (take k ?nb1) = k" using len by simp
    from take_splice [OF this m4] have "take (m - 28) (le_split 128 (view s' (ucast ind1)) :: u32 list) = take (c - 28) ?ws @ take k ?nb1"
      using le_split_concat [of "splice (c - 28) (take k ?nb1) ?ws"] f(2) unfolding m(3) by (simp add: s'(3))
    then have "tree (view s') ?di m = direct di @ ind1 # take (c - 28) ?ws @ take k ?nb1" using tree_near [of ?di m] l m by simp
    also have "\<dots> = tree (view s) di c @ take (e + k) nb"
      using tree_near [OF l, of c "view s"] c False ne l by (cases nb) (auto simp: ind1_def e_def)
    finally show ?thesis by (simp add: tk)
  qed
  with tb s' show ?thesis by auto
qed

end
