(* ===== verification/Indirect2_Laws.thy ===== *)
theory Indirect2_Laws
  imports Grow_Laws
begin

text \<open>
  Growing a file beyond the first index block: the loop over the entries of \<open>indirect2\<close>, and the whole of
  \<open>increase_size\<close>.
\<close>

section \<open>The doubly indirect blocks\<close>

text \<open>Blocks taken by \<open>t\<close> data blocks below \<open>indirect2\<close>, in the order of their slots.\<close>

definition rcount :: "nat \<Rightarrow> nat" where "rcount t = t + (t + 127) div 128"

definition rslots :: "(usize \<Rightarrow> u8 list) \<Rightarrow> u32 list \<Rightarrow> nat \<Rightarrow> u32 list" where
  "rslots v arr t = map (slot2 v ((!) arr)) [0..<rcount t]"

lemma rcount_Suc: "rcount (Suc t) = 129 * (t div 128) + t mod 128 + 2"
proof -
  have "Suc t + 127 = t + 1 * 128" by simp
  then have "(Suc t + 127) div 128 = t div 128 + 1" by (simp only: div_mult_self1)
  then show ?thesis using div_mult_mod_eq [of t 128] unfolding rcount_def by linarith
qed

lemma rcount_parts: "rcount t = 129 * (t div 128) + (if t mod 128 = 0 then 0 else Suc (t mod 128))"
proof (cases t)
  case (Suc u)
  show ?thesis
  proof (cases "Suc u mod 128 = 0")
    case True
    then have "u mod 128 = 127" "Suc u div 128 = Suc (u div 128)" by (auto simp: mod_Suc div_Suc split: if_splits)
    with Suc True show ?thesis using rcount_Suc [of u] by simp
  next
    case False
    then have "u mod 128 = Suc u mod 128 - 1" "Suc u div 128 = u div 128" "0 < Suc u mod 128" by (auto simp: mod_Suc div_Suc split: if_splits)
    with Suc show ?thesis using rcount_Suc [of u] by simp
  qed
qed (simp add: rcount_def)

lemma rcount_mono: "t \<le> u \<Longrightarrow> rcount t \<le> rcount u"
  by (simp add: rcount_def add_mono div_le_mono)

lemma length_rslots [simp]: "length (rslots v arr t) = rcount t" by (simp add: rslots_def)

lemma nth_rslots: "r < rcount t \<Longrightarrow> rslots v arr t ! r = slot2 v ((!) arr) r" by (simp add: rslots_def)

lemma slot2_index: "slot2 v arr (129 * q) = arr q" by (simp add: slot2_def)

text \<open>Writing one entry of the index block that is being filled.\<close>

lemma slot2_write:
  fixes arr :: "u32 list" and v :: "usize \<Rightarrow> u8 list" and b :: u32
  assumes b0: "b0 < 128" and other: "\<And>q. q < a0 \<Longrightarrow> arr ! q \<noteq> arr ! a0"
  defines "v' \<equiv> v(ucast (arr ! a0) := le_concat ((le_split 128 (v (ucast (arr ! a0))) :: u32 list)[b0 := b]))"
  shows "r < 129 * a0 + Suc b0 \<Longrightarrow> slot2 v' ((!) arr) r = slot2 v ((!) arr) r"
    and "slot2 v' ((!) arr) (129 * a0 + Suc b0) = b"
proof -
  let ?ws = "le_split 128 (v (ucast (arr ! a0))) :: u32 list"
  have ie: "index_entry v' c k = (if c = arr ! a0 then (?ws[b0 := b]) ! k else index_entry v c k)" for c k
    unfolding v'_def by (rule index_entry_upd) simp
  show "slot2 v' ((!) arr) (129 * a0 + Suc b0) = b"
    using group_div_mod [OF b0, of a0] b0 by (simp add: slot2_def ie)
  assume r: "r < 129 * a0 + Suc b0"
  show "slot2 v' ((!) arr) r = slot2 v ((!) arr) r"
  proof (cases "r div 129 = a0")
    case True
    then have "r mod 129 < Suc b0" using r div_mult_mod_eq [of r 129] by linarith
    then show ?thesis using True by (simp add: slot2_def ie) (simp add: index_entry_def)
  next
    case False
    have "r < 129 * Suc a0" using r b0 by simp
    then have "r div 129 < Suc a0" by (simp add: less_mult_imp_div_less mult.commute)
    with False have "r div 129 < a0" by simp
    from other [OF this] show ?thesis by (simp add: slot2_def ie)
  qed
qed

lemma rslots_snoc:
  assumes "\<And>r. r < rcount t \<Longrightarrow> slot2 v' ((!) arr') r = slot2 v ((!) arr) r"
    and "length xs = rcount (Suc t) - rcount t"
    and "\<And>r. rcount t \<le> r \<Longrightarrow> r < rcount (Suc t) \<Longrightarrow> slot2 v' ((!) arr') r = xs ! (r - rcount t)"
  shows "rslots v' arr' (Suc t) = rslots v arr t @ xs"
  by (rule nth_equalityI) (use assms rcount_mono [of t "Suc t"] in \<open>auto simp: nth_append nth_rslots\<close>)

text \<open>The index block for entry \<open>t\<close>: the first block of the supply when \<open>t\<close> starts a new one.\<close>

definition index_for :: "nat \<Rightarrow> u32 list \<Rightarrow> u32 list \<Rightarrow> u32 list" where
  "index_for t arr nb = (if t mod 128 = 0 then arr[t div 128 := hd nb] else arr)"

lemma fill_indirect2_round:
  fixes arr nb :: "u32 list"
  assumes t: "t < lim" "lim \<le> 128 * 128" and l: "length arr = 128" and nb: "rcount (Suc t) - rcount t \<le> length nb"
    and d: "distinct (rslots (view s) arr t @ take (rcount (Suc t) - rcount t) nb)"
    and us: "\<And>b. b \<in> set (rslots (view s) arr t @ take (rcount (Suc t) - rcount t) nb) \<Longrightarrow> usable s (ucast b)"
  defines "k \<equiv> rcount (Suc t) - rcount t"
  shows "\<exists>s1. fill_indirect2 t lim arr nb s = fill_indirect2 (Suc t) lim (index_for t arr nb) (drop k nb) s1 \<and> same_disk s s1 \<and>
     rslots (view s1) (index_for t arr nb) (Suc t) = rslots (view s) arr t @ take k nb \<and>
     (\<forall>b. b \<noteq> ucast (index_for t arr nb ! (t div 128)) \<longrightarrow> view s1 b = view s b)"
proof -
  let ?a = "t div 128" and ?b = "t mod 128" and ?arr = "index_for t arr nb"
  let ?p = "?arr ! ?a"
  have a: "?a < 128" using t by (simp add: less_mult_imp_div_less)
  have k: "k = (if ?b = 0 then 2 else 1)" unfolding k_def rcount_Suc rcount_parts [of t] by simp
  define z where "z = nb ! (k - 1)"
  have kl: "k - 1 < length nb" "Suc (k - 1) = k" "k \<le> length nb" using nb k unfolding k_def [symmetric] by (auto split: if_splits)
  have ne: "nb \<noteq> []" using kl(1) by auto
  have nz: "drop (k - 1) nb = z # drop k nb" using Cons_nth_drop_Suc [OF kl(1)] kl(2) by (simp add: z_def)
  have rc: "rcount t = 129 * ?a + (if ?b = 0 then 0 else Suc ?b)" "rcount (Suc t) = Suc (129 * ?a + Suc ?b)"
    using rcount_parts [of t] rcount_Suc [of t] by simp_all
  have same: "?arr ! q = arr ! q" if "q < ?a" for q using that by (simp add: index_for_def)
  have idx: "arr ! q = rslots (view s) arr t ! (129 * q)" "129 * q < rcount t" if "q < ?a" for q
    using that rc(1) by (simp_all add: nth_rslots slot2_index)
  have p: "?p = (rslots (view s) arr t @ take k nb) ! (129 * ?a)" "129 * ?a < rcount (Suc t)"
    using rc a l nb k by (auto simp: index_for_def nth_append nth_rslots slot2_index hd_conv_nth [OF ne] k_def [symmetric] split: if_splits)
  have all: "length (rslots (view s) arr t @ take k nb) = rcount (Suc t)"
    using nb rcount_mono [of t "Suc t"] by (simp add: k_def)
  have other: "?arr ! q \<noteq> ?p" if "q < ?a" for q
  proof -
    have "arr ! q = (rslots (view s) arr t @ take k nb) ! (129 * q)" using idx [OF that] by (simp add: nth_append)
    moreover have "129 * q < rcount (Suc t)" "129 * q \<noteq> 129 * ?a" using that p(2) by simp_all
    ultimately show ?thesis
      using nth_eq_iff_index_eq [OF d [folded k_def], of "129 * q" "129 * ?a"] p all same [OF that] by simp
  qed
  have usp: "usable s (ucast ?p)" by (rule us [folded k_def]) (use p all nth_mem in metis)
  let ?ws = "le_split 128 (view s (ucast ?p)) :: u32 list"
  have "\<exists>s1. cache_modify (ucast ?p) 0 BLOCK_SZ
        (\<lambda>bs s. map_option (\<lambda>(b, nb). (nb, le_concat ((le_split INODE_INDIRECT1_COUNT bs :: u32 list)[?b := b]), s))
                   (take_block (drop (k - 1) nb))) s = Some (drop k nb, s1) \<and> same_disk s s1 \<and>
      view s1 = (view s)(ucast ?p := le_concat (?ws[?b := z]))"
  proof (rule rewrite_index_block [OF usp])
    show "length (?ws[?b := z]) = 128" by simp
    have "take_block (drop (k - 1) nb) = Some (z, drop k nb)"
      by (simp only: nz take_block.simps)
    then show "map_option (\<lambda>(b, nb). (nb, le_concat ((le_split INODE_INDIRECT1_COUNT (view s (ucast ?p)) :: u32 list)[?b := b]), s1))
                   (take_block (drop (k - 1) nb)) = Some (drop k nb, le_concat (?ws[?b := z]), s1)" for s1
      by (simp add: layout_consts)
  qed
  then obtain s1 where s1: "cache_modify (ucast ?p) 0 BLOCK_SZ
        (\<lambda>bs s. map_option (\<lambda>(b, nb). (nb, le_concat ((le_split INODE_INDIRECT1_COUNT bs :: u32 list)[?b := b]), s))
                   (take_block (drop (k - 1) nb))) s = Some (drop k nb, s1)" "same_disk s s1"
      "view s1 = (view s)(ucast ?p := le_concat (?ws[?b := z]))" by blast
  have tb: "(if ?b = 0 then map_option (\<lambda>(b, nb). (arr[?a := b], nb)) (take_block nb) else Some (arr, nb)) = Some (?arr, drop (k - 1) nb)"
    using ne k by (cases nb) (auto simp: index_for_def split: if_splits)
  have run: "fill_indirect2 t lim arr nb s = fill_indirect2 (Suc t) lim ?arr (drop k nb) s1"
    by (subst fill_indirect2.simps) (use t(1) a l tb s1(1) in \<open>simp add: layout_consts Let_def\<close>)
  have b: "?b < 128" by simp
  note w = slot2_write [OF b other, where v = "view s" and b = z, folded s1(3)]
  have "rslots (view s1) ?arr (Suc t) = rslots (view s) arr t @ take k nb"
  proof (rule rslots_snoc)
    show "length (take k nb) = rcount (Suc t) - rcount t" using nb by (simp add: k_def)
    show "slot2 (view s1) ((!) ?arr) r = slot2 (view s) ((!) arr) r" if r: "r < rcount t" for r
    proof -
      have "r < 129 * ?a + Suc ?b" using r rc(1) by (simp split: if_splits)
      then have "slot2 (view s1) ((!) ?arr) r = slot2 (view s) ((!) ?arr) r" by (intro w(1))
      moreover have "?b = 0 \<Longrightarrow> r div 129 < ?a" using r rc(1) by (simp add: less_mult_imp_div_less mult.commute)
      ultimately show ?thesis by (auto simp: slot2_def index_for_def)
    qed
    show "slot2 (view s1) ((!) ?arr) r = take k nb ! (r - rcount t)" if r: "rcount t \<le> r" "r < rcount (Suc t)" for r
    proof (cases "r = 129 * ?a + Suc ?b")
      case True
      then have "r - rcount t = k - 1" using rc k by simp
      then show ?thesis using w(2) True k by (simp add: z_def)
    next
      case False
      then have "?b = 0" "r = 129 * ?a" using r rc by (auto split: if_splits)
      then show ?thesis using rc(1) k a l by (simp add: slot2_index index_for_def hd_conv_nth [OF ne])
    qed
  qed
  then show ?thesis using run s1(2,3) by (intro exI [of _ s1]) simp
qed

lemma rslots_index: "128 * q < t \<Longrightarrow> 129 * q < rcount t" "128 * q < t \<Longrightarrow> rslots v arr t ! (129 * q) = arr ! q"
proof -
  assume q: "128 * q < t"
  have "129 * q < rcount (Suc (128 * q))" using rcount_Suc [of "128 * q"] by simp
  also have "\<dots> \<le> rcount t" using q by (intro rcount_mono) simp
  finally show "129 * q < rcount t" .
  then show "rslots v arr t ! (129 * q) = arr ! q" by (simp add: nth_rslots slot2_index)
qed

lemma fill_indirect2_ok:
  assumes "cache_inv s" "t \<le> lim" "lim \<le> 128 * 128" "length arr = 128" "rcount lim - rcount t \<le> length nb"
    and "distinct (rslots (view s) arr t @ take (rcount lim - rcount t) nb)"
    and "\<And>b. b \<in> set (rslots (view s) arr t @ take (rcount lim - rcount t) nb) \<Longrightarrow> usable s (ucast b)"
  shows "\<exists>arr' s'. fill_indirect2 t lim arr nb s = Some (arr', drop (rcount lim - rcount t) nb, s') \<and> length arr' = 128 \<and> same_disk s s' \<and>
     rslots (view s') arr' lim = rslots (view s) arr t @ take (rcount lim - rcount t) nb \<and>
     (\<forall>b. (\<forall>q. 128 * q < lim \<longrightarrow> b \<noteq> ucast (arr' ! q)) \<longrightarrow> view s' b = view s b)"
  using assms
proof (induction "lim - t" arbitrary: t arr nb s)
  case 0
  then show ?case by (subst fill_indirect2.simps) (auto simp: same_disk_def)
next
  case (Suc d)
  define k where "k = rcount (Suc t) - rcount t"
  define r where "r = rcount lim - rcount (Suc t)"
  have tl: "t < lim" using Suc.hyps(2) by simp
  have kr: "rcount lim - rcount t = k + r"
    using rcount_mono [of t "Suc t"] rcount_mono [of "Suc t" lim] tl by (simp add: k_def r_def)
  then have tk: "take (rcount lim - rcount t) nb = take k nb @ take r (drop k nb)" by (simp add: take_add)
  let ?arr = "index_for t arr nb"
  have "k \<le> length nb" using kr Suc.prems(5) by simp
  moreover have "distinct (rslots (view s) arr t @ take k nb)" using Suc.prems(6) unfolding tk by auto
  moreover have "usable s (ucast b)" if "b \<in> set (rslots (view s) arr t @ take k nb)" for b
    using that by (intro Suc.prems(7)) (auto simp: tk)
  ultimately obtain s1 where s1: "fill_indirect2 t lim arr nb s = fill_indirect2 (Suc t) lim ?arr (drop k nb) s1" "same_disk s s1"
      "rslots (view s1) ?arr (Suc t) = rslots (view s) arr t @ take k nb"
      "\<forall>b. b \<noteq> ucast (?arr ! (t div 128)) \<longrightarrow> view s1 b = view s b"
    using fill_indirect2_round [OF tl Suc.prems(3,4), of nb s] unfolding k_def by blast
  have dd: "rslots (view s1) ?arr (Suc t) @ take r (drop k nb) = rslots (view s) arr t @ take (rcount lim - rcount t) nb"
    unfolding s1(3) tk by simp
  have "\<exists>arr' s'. fill_indirect2 (Suc t) lim ?arr (drop k nb) s1 = Some (arr', drop r (drop k nb), s') \<and> length arr' = 128 \<and> same_disk s1 s' \<and>
     rslots (view s') arr' lim = rslots (view s1) ?arr (Suc t) @ take r (drop k nb) \<and>
     (\<forall>b. (\<forall>q. 128 * q < lim \<longrightarrow> b \<noteq> ucast (arr' ! q)) \<longrightarrow> view s' b = view s1 b)"
    unfolding r_def
  proof (rule Suc.hyps(1), unfold r_def [symmetric] dd)
    show "d = lim - Suc t" "cache_inv s1" "Suc t \<le> lim" "lim \<le> 128 * 128" "length ?arr = 128" "r \<le> length (drop k nb)"
      "distinct (rslots (view s) arr t @ take (rcount lim - rcount t) nb)"
      using Suc.hyps(2) tl same_diskD(1) [OF s1(2)] Suc.prems kr by (simp_all add: index_for_def)
    show "usable s1 (ucast b)" if "b \<in> set (rslots (view s) arr t @ take (rcount lim - rcount t) nb)" for b
      using usable_same_disk [OF s1(2) Suc.prems(7) [OF that]] .
  qed
  then obtain arr' s' where r: "fill_indirect2 (Suc t) lim ?arr (drop k nb) s1 = Some (arr', drop r (drop k nb), s')" "length arr' = 128"
     "same_disk s1 s'" "rslots (view s') arr' lim = rslots (view s1) ?arr (Suc t) @ take r (drop k nb)"
     "\<forall>b. (\<forall>q. 128 * q < lim \<longrightarrow> b \<noteq> ucast (arr' ! q)) \<longrightarrow> view s' b = view s1 b" by blast
  have q: "128 * (t div 128) < Suc t" "128 * (t div 128) < lim" using tl by simp_all
  have "arr' ! (t div 128) = rslots (view s') arr' lim ! (129 * (t div 128))" using rslots_index(2) [OF q(2)] by simp
  also have "\<dots> = ?arr ! (t div 128)"
    unfolding r(4) using rslots_index [OF q(1)] by (simp add: nth_append)
  finally have same: "?arr ! (t div 128) = arr' ! (t div 128)" ..
  have "view s' b = view s b" if "\<forall>q. 128 * q < lim \<longrightarrow> b \<noteq> ucast (arr' ! q)" for b
    using r(5) s1(4) that q(2) same by simp
  then show ?case using r(1-4) s1(1) dd same_disk_trans [OF s1(2) r(3)] kr by (simp add: add.commute)
qed

lemma tcount_far: "156 < n \<Longrightarrow> tcount n = 158 + rcount (n - 156)"
proof -
  assume "156 < n"
  moreover from this have "n - 156 + 127 = n - 29" by simp
  ultimately show ?thesis by (simp add: tcount_def rcount_def)
qed

text \<open>The slots below \<open>indirect2\<close>, when its entries are those of \<open>arr\<close>.\<close>

lemma tree_far:
  assumes "158 \<le> t"
  shows "slot_block v di t = slot2 v (index_entry v (indirect2 di)) (t - 158)"
  using assms by (simp add: slot_block_def)

lemma slot2_upd:
  assumes l: "length arr = 128" and other: "r mod 129 \<noteq> 0 \<Longrightarrow> arr ! (r div 129) \<noteq> p"
  shows "slot2 (v(ucast p := le_concat arr)) (index_entry (v(ucast p := le_concat arr)) p) r = slot2 v ((!) arr) r"
  using index_entry_upd [OF l, of v p] other by (simp add: slot2_def)

lemma far_tree:
  fixes v V :: "usize \<Rightarrow> u8 list"
  assumes l: "length arr = 128" and n: "156 < n" and T: "length T = tcount n" "distinct T"
    and R: "rslots V arr (n - 156) = drop 158 T" and near: "\<And>t. t < 157 \<Longrightarrow> slot_block v di t = T ! t"
    and fr: "\<And>b. (\<forall>q. 128 * q < n - 156 \<longrightarrow> b \<noteq> ucast (arr ! q)) \<Longrightarrow> V b = v b"
  defines "v' \<equiv> V(ucast (T ! 157) := le_concat arr)" and "di' \<equiv> di\<lparr>indirect2 := T ! 157\<rparr>"
  shows "tree v' di' n = T" "b \<notin> index_blocks v' di' n \<Longrightarrow> v' b = v b"
proof -
  note ie = index_entry_upd [OF l, of V "T ! 157", folded v'_def]
  have tn: "tcount n = 158 + rcount (n - 156)" by (rule tcount_far [OF n])
  have slot: "slot2 V ((!) arr) r = T ! (158 + r)" if "r < rcount (n - 156)" for r
    using arg_cong [OF R, of "\<lambda>xs. xs ! r"] that T(1) tn by (simp add: nth_rslots)
  have arr: "arr ! q = T ! (158 + 129 * q)" if "129 * q < rcount (n - 156)" for q
    using slot [OF that] by (simp add: slot2_index)
  have ne: "T ! t \<noteq> T ! u" if "t < tcount n" "u < tcount n" "t \<noteq> u" for t u
    using nth_eq_iff_index_eq [OF T(2), of t u] that T(1) by simp
  have ind1: "v' (ucast (indirect1 di)) = v (ucast (indirect1 di))"
  proof -
    have i: "indirect1 di = T ! 28" using near [of 28] by (simp add: slot_block_def)
    have "indirect1 di \<noteq> arr ! q" if "128 * q < n - 156" for q
      using ne [of 28 "158 + 129 * q"] arr [of q] rslots_index(1) [OF that] tn i by simp
    then have "V (ucast (indirect1 di)) = v (ucast (indirect1 di))" by (intro fr) (simp add: u32_to_usize_inj)
    moreover have "indirect1 di \<noteq> T ! 157" using ne [of 28 157] i tn by simp
    ultimately show ?thesis by (simp add: v'_def u32_to_usize_inj)
  qed
  show "tree v' di' n = T"
  proof (rule nth_equalityI)
    fix t
    assume "t < length (tree v' di' n)"
    then have t: "t < tcount n" by simp
    consider "t < 157" | "t = 157" | "158 \<le> t" by linarith
    then have "slot_block v' di' t = T ! t"
    proof cases
      case 1
      have "index_entry v' (indirect1 di) j = index_entry v (indirect1 di) j" for j using ind1 by (simp add: index_entry_def)
      then have "slot_block v' di' t = slot_block v di t" using 1 by (simp add: slot_block_def di'_def)
      with near [OF 1] show ?thesis by simp
    next
      case 2
      then show ?thesis by (simp add: slot_block_def di'_def)
    next
      case 3
      let ?r = "t - 158" and ?q = "(t - 158) div 129"
      have r: "?r < rcount (n - 156)" using 3 t tn by simp
      have "129 * ?q \<le> ?r" by simp
      then have "129 * ?q < rcount (n - 156)" using r by simp
      then have "arr ! ?q \<noteq> T ! 157" using arr ne [of "158 + 129 * ?q" 157] tn by simp
      then have "slot2 v' (index_entry v' (T ! 157)) ?r = slot2 V ((!) arr) ?r"
        unfolding v'_def by (intro slot2_upd [OF l]) simp
      with slot [OF r] 3 show ?thesis by (simp add: tree_far di'_def)
    qed
    with t show "tree v' di' n ! t = T ! t" by (simp add: nth_tree)
  qed (use T(1) in simp)
  assume "b \<notin> index_blocks v' di' n"
  then have "b \<noteq> ucast (T ! 157)" "\<forall>q. 128 * q < n - 156 \<longrightarrow> b \<noteq> ucast (arr ! q)"
    using n ie by (auto simp: index_blocks_def di'_def)
  with fr show "v' b = v b" by (simp add: v'_def)
qed

lemma grow_indirect2:
  assumes c: "156 \<le> c" "c \<le> n" "156 < n" "n \<le> MAX_BLOCKS" and nb: "tcount n - tcount c \<le> length nb"
    and d: "distinct (tree (view s) di c @ take (tcount n - tcount c) nb)"
    and us: "\<And>b. b \<in> set (tree (view s) di c @ take (tcount n - tcount c) nb) \<Longrightarrow> usable s (ucast b)"
    and room: "Suc (length (held s)) < BLOCK_CACHE_SIZE"
  shows "\<exists>ind2 nb2 s'. (if c = 156 then take_block nb else Some (indirect2 di, nb)) = Some (ind2, nb2) \<and>
     cache_modify (ucast ind2) 0 BLOCK_SZ
          (\<lambda>bs s. map_option (\<lambda>(arr, nb, s). ((), le_concat arr, s))
                     (fill_indirect2 (c - 156) (n - 156) (le_split INODE_INDIRECT1_COUNT bs) nb2 s)) s = Some ((), s') \<and>
     same_disk s s' \<and>
     tree (view s') (di\<lparr>indirect2 := ind2\<rparr>) n = tree (view s) di c @ take (tcount n - tcount c) nb \<and>
     (\<forall>b. b \<notin> index_blocks (view s') (di\<lparr>indirect2 := ind2\<rparr>) n \<longrightarrow> view s' b = view s b)"
proof -
  define e where "e = (if c = 156 then 1 else 0 :: nat)"
  define ind2 where "ind2 = (if c = 156 then hd nb else indirect2 di)"
  define T where "T = tree (view s) di c @ take (tcount n - tcount c) nb"
  let ?nb2 = "drop e nb" and ?t = "c - 156" and ?lim = "n - 156"
  let ?arr = "le_split 128 (view s (ucast ind2)) :: u32 list"
  have lT: "length T = tcount n" using nb tcount_mono [OF c(2)] by (simp add: T_def)
  have tn: "tcount n = 158 + rcount ?lim" by (rule tcount_far [OF c(3)])
  have tc: "tcount c + e = 158 + rcount ?t" using tcount_far [of c] c(1) by (auto simp: e_def rcount_def)
  have rm: "rcount ?t \<le> rcount ?lim" using c(2) by (intro rcount_mono) simp
  have k: "tcount n - tcount c = e + (rcount ?lim - rcount ?t)" using tn tc rm by linarith
  have one: "c = 156 \<Longrightarrow> nb \<noteq> []" using k nb by (auto simp: e_def)
  have tb: "(if c = 156 then take_block nb else Some (indirect2 di, nb)) = Some (ind2, ?nb2)"
    using one by (cases nb) (auto simp: ind2_def e_def)
  have i157: "T ! 157 = ind2"
  proof (cases "c = 156")
    case True
    then show ?thesis using one k by (simp add: T_def nth_append ind2_def hd_conv_nth e_def)
  next
    case False
    then have "157 < tcount c" using tc by (simp add: e_def)
    then show ?thesis using False by (simp add: T_def nth_append nth_tree slot_block_def ind2_def)
  qed
  define R where "R = rslots (view s) ?arr ?t @ take (rcount ?lim - rcount ?t) ?nb2"
  have X: "rcount ?lim - rcount ?t \<le> length ?nb2" using k nb unfolding length_drop by linarith
  have lR: "length R = rcount ?lim" using rm unfolding R_def length_append length_rslots length_take min_absorb2 [OF X] by simp
  have dropT: "R = drop 158 T"
  proof (rule nth_equalityI)
    show "length R = length (drop 158 T)" using lT tn lR by simp
    fix r
    assume "r < length R"
    then have r: "r < rcount ?lim" using lR by simp
    show "R ! r = drop 158 T ! r"
    proof (cases "r < rcount ?t")
      case True
      then have "c \<noteq> 156" by (auto simp: rcount_def)
      then have "158 + r < tcount c" using True tc by (simp add: e_def)
      then have "T ! (158 + r) = slot_block (view s) di (158 + r)" by (simp add: T_def nth_append nth_tree)
      also have "\<dots> = slot2 (view s) ((!) ?arr) r"
        using \<open>c \<noteq> 156\<close> by (simp add: tree_far ind2_def slot2_def index_entry_def)
      also have "\<dots> = R ! r" using True by (simp add: R_def nth_append nth_rslots)
      finally show ?thesis using lT tn by simp
    next
      case False
      then have "tcount c \<le> 158 + r" "158 + r - tcount c = e + (r - rcount ?t)" using tc by linarith+
      moreover have "e \<le> length nb" using k nb by linarith
      moreover have "R ! r = nb ! (e + (r - rcount ?t))"
        using False r rm \<open>e \<le> length nb\<close> by (simp add: R_def nth_append)
      moreover have "T ! (158 + r) = nb ! (158 + r - tcount c)" using calculation(1) r tn by (simp add: T_def nth_append)
      ultimately show ?thesis using lT tn by simp
    qed
  qed
  have dR: "distinct R" using d unfolding dropT T_def [symmetric] by simp
  have ni: "ind2 \<notin> set R"
  proof -
    have "T = take 158 T @ R" by (simp add: dropT)
    moreover have "ind2 \<in> set (take 158 T)"
      using nth_mem [of 157 "take 158 T"] i157 lT tn by simp
    ultimately show ?thesis using d unfolding T_def [symmetric] by (metis distinct_append disjoint_iff)
  qed
  have usT: "usable s (ucast b)" if "b \<in> set T" for b using us that by (simp add: T_def)
  have RT: "set R \<subseteq> set T" "ind2 \<in> set T" using set_drop_subset [of 158 T] i157 nth_mem [of 157 T] lT tn by (auto simp: dropT)
  note u2 = usT [OF RT(2)]
  let ?P = "\<lambda>(_ :: unit) bs V. \<exists>arr'. bs = le_concat arr' \<and> length arr' = 128 \<and> rslots V arr' ?lim = R \<and>
      (\<forall>b. (\<forall>q. 128 * q < ?lim \<longrightarrow> b \<noteq> ucast (arr' ! q)) \<longrightarrow> V b = view s b)"
  have len2: "length (view s (ucast ind2)) = 512" using u2 length_view by (auto simp: usable_def BLOCK_SZ_def)
  have closure: "\<exists>v bs s2. map_option (\<lambda>(arr, nb, s). ((), le_concat arr, s))
        (fill_indirect2 ?t ?lim (le_split INODE_INDIRECT1_COUNT (slice_at 0 BLOCK_SZ (view s (ucast ind2)))) ?nb2 s1) = Some (v, bs, s2) \<and>
      same_disk s1 s2 \<and> length bs = BLOCK_SZ \<and> ?P v bs (view s2)"
    if s1: "cache_inv s1" "view s1 = view s" "held s1 = ucast ind2 # held s" "dev_size (device s1) = dev_size (device s)" for s1
  proof -
    have us1: "usable s1 (ucast b)" if "b \<in> set R" for b
    proof -
      have "b \<noteq> ind2" using that ni by auto
      moreover have "usable s (ucast b)" using usT RT(1) that by blast
      ultimately show ?thesis using s1 room by (auto simp: usable_def u32_to_usize_inj)
    qed
    have "\<exists>arr' s'. fill_indirect2 ?t ?lim ?arr ?nb2 s1 = Some (arr', drop (rcount ?lim - rcount ?t) ?nb2, s') \<and> length arr' = 128 \<and>
       same_disk s1 s' \<and> rslots (view s') arr' ?lim = rslots (view s1) ?arr ?t @ take (rcount ?lim - rcount ?t) ?nb2 \<and>
       (\<forall>b. (\<forall>q. 128 * q < ?lim \<longrightarrow> b \<noteq> ucast (arr' ! q)) \<longrightarrow> view s' b = view s1 b)"
      by (rule fill_indirect2_ok) (use s1(1) c X dR us1 in \<open>simp_all add: R_def s1(2) MAX_BLOCKS_def\<close>)
    then obtain arr' s' where f: "fill_indirect2 ?t ?lim ?arr ?nb2 s1 = Some (arr', drop (rcount ?lim - rcount ?t) ?nb2, s')"
      "length arr' = 128" "same_disk s1 s'" "rslots (view s') arr' ?lim = R"
      "\<forall>b. (\<forall>q. 128 * q < ?lim \<longrightarrow> b \<noteq> ucast (arr' ! q)) \<longrightarrow> view s' b = view s b"
      unfolding s1(2) R_def [symmetric] by blast
    have "slice_at 0 BLOCK_SZ (view s (ucast ind2)) = view s (ucast ind2)" using len2 by (simp add: slice_at_def BLOCK_SZ_def)
    moreover have "length (le_concat arr') = BLOCK_SZ" using f(2) by (simp add: length_le_concat BLOCK_SZ_def)
    ultimately show ?thesis using f by (auto simp: layout_consts)
  qed
  have "\<exists>v bs V s'. cache_modify (ucast ind2) 0 BLOCK_SZ
          (\<lambda>bs s. map_option (\<lambda>(arr, nb, s). ((), le_concat arr, s))
                     (fill_indirect2 ?t ?lim (le_split INODE_INDIRECT1_COUNT bs) ?nb2 s)) s = Some (v, s') \<and> same_disk s s' \<and>
      view s' = V(ucast ind2 := splice 0 bs (view s (ucast ind2))) \<and> length bs = BLOCK_SZ \<and> ?P v bs V"
  proof (rule cache_modify_ex [where P = ?P])
    show "cache_inv s" "unat (ucast ind2 :: usize) < dev_size (device s)" "ucast ind2 \<notin> set (held s)" "length (held s) < BLOCK_CACHE_SIZE"
      "0 + BLOCK_SZ \<le> BLOCK_SZ" using u2 by (simp_all add: usable_def)
  qed (rule closure)
  then obtain V s' arr' where m: "cache_modify (ucast ind2) 0 BLOCK_SZ
          (\<lambda>bs s. map_option (\<lambda>(arr, nb, s). ((), le_concat arr, s))
                     (fill_indirect2 ?t ?lim (le_split INODE_INDIRECT1_COUNT bs) ?nb2 s)) s = Some ((), s')" "same_disk s s'"
      "view s' = V(ucast ind2 := splice 0 (le_concat arr') (view s (ucast ind2)))" "length arr' = 128"
      and V: "rslots V arr' ?lim = drop 158 T" "\<And>b. (\<forall>q. 128 * q < ?lim \<longrightarrow> b \<noteq> ucast (arr' ! q)) \<Longrightarrow> V b = view s b"
    unfolding dropT by auto
  have v': "view s' = V(ucast (T ! 157) := le_concat arr')"
    using m(3,4) len2 i157 by (simp add: splice_def length_le_concat)
  have near: "slot_block (view s) di t = T ! t" if "t < 157" for t
    using that tc by (simp add: T_def nth_append nth_tree e_def split: if_splits)
  note ft = far_tree [OF m(4) c(3) lT _ V(1) near V(2), folded v', unfolded i157]
  have "tree (view s') (di\<lparr>indirect2 := ind2\<rparr>) n = T" by (rule ft(1)) (use d in \<open>simp_all add: T_def\<close>)
  moreover have "view s' b = view s b" if "b \<notin> index_blocks (view s') (di\<lparr>indirect2 := ind2\<rparr>) n" for b
    by (rule ft(2)) (use d that in \<open>simp_all add: T_def\<close>)
  ultimately show ?thesis using tb m(1,2) unfolding T_def by blast
qed

section \<open>The whole of increase\_size\<close>

text \<open>Splitting the supply of blocks at an intermediate number of data blocks.\<close>

lemma supply_split:
  assumes m: "c \<le> m" "m \<le> n" and l: "length nb = tcount n - tcount c" and t: "t' = t @ take (tcount m - tcount c) nb"
  defines "nb' \<equiv> drop (tcount m - tcount c) nb"
  shows "t' @ nb' = t @ nb" "length nb' = tcount n - tcount m" "take (tcount n - tcount m) nb' = nb'"
  using tcount_mono [OF m(1)] tcount_mono [OF m(2)] l by (simp_all add: t nb'_def)

lemma increase_size_ok:
  assumes c: "c = nblocks (unat (di_size di))" and n: "n = nblocks (unat sz)" "c \<le> n" "n \<le> MAX_BLOCKS"
    and l: "length (direct di) = 28" and nb: "length nb = tcount n - tcount c"
    and d: "distinct (tree (view s) di c @ nb)" and us: "\<And>b. b \<in> set (tree (view s) di c @ nb) \<Longrightarrow> usable s (ucast b)"
    and inv: "cache_inv s" and room: "Suc (length (held s)) < BLOCK_CACHE_SIZE"
  shows "\<exists>di' s'. increase_size sz nb di s = Some (di', s') \<and> same_disk s s' \<and> di_size di' = sz \<and> di_type di' = di_type di \<and>
     length (direct di') = 28 \<and> tree (view s') di' n = tree (view s) di c @ nb \<and>
     (\<forall>b. b \<notin> index_blocks (view s') di' n \<longrightarrow> view s' b = view s b)"
proof -
  have db: "unat (data_blocks di) = c" "unat (data_blocks_of sz) = n"
    using data_blocks_of_nat n c by (simp_all add: data_blocks_def)
  have refl: "same_disk s s" using inv by (simp add: same_disk_def)
  define T where "T = tree (view s) di c @ nb"
  define m1 where "m1 = max c (min n 28)"
  define nb1 where "nb1 = drop (tcount m1 - tcount c) nb"
  obtain arr where f1: "fill_array c (min n 28) (direct di) nb = Some (m1, arr, nb1)" "length arr = 28"
    "tree (view s) (di\<lparr>di_size := sz, direct := arr\<rparr>) m1 = tree (view s) di c @ take (tcount m1 - tcount c) nb"
    using grow_direct [OF n(2) l, of nb "view s" sz] nb unfolding m1_def nb1_def by auto
  let ?di1 = "di\<lparr>di_size := sz, direct := arr\<rparr>"
  have m1: "c \<le> m1" "m1 \<le> n" using n(2) by (simp_all add: m1_def)
  note s1 = supply_split [OF m1 nb f1(3), folded nb1_def T_def]
  show ?thesis
  proof (cases "28 < n")
    case False
    then have "m1 = n" using n(2) by (simp add: m1_def)
    then have "nb1 = []" using s1(2) by simp
    then have "tree (view s) ?di1 n = T" using s1(1) \<open>m1 = n\<close> by simp
    moreover have "increase_size sz nb di s = Some (?di1, s)"
      using f1(1) False by (simp add: increase_size_def Let_def db data_blocks_def [of "di\<lparr>di_size := sz\<rparr>"] layout_consts)
    ultimately show ?thesis using f1(2) refl unfolding T_def by auto
  next
    case True
    define m2 where "m2 = max m1 (min n 156)"
    define nb2 where "nb2 = drop (tcount m2 - tcount m1) nb1"
    have g1: "28 \<le> m1" using True by (simp add: m1_def)
    have ld: "length (direct ?di1) = 28" using f1(2) by simp
    obtain ind1 nb1' s' where f2: "(if m1 = 28 then take_block nb1 else Some (indirect1 ?di1, nb1)) = Some (ind1, nb1')"
      "cache_modify (ucast ind1) 0 BLOCK_SZ
          (\<lambda>bs s. map_option (\<lambda>(current, arr, nb). ((current, nb), le_concat arr, s))
                     (fill_array (m1 - 28) (min (n - 28) 128) (le_split INODE_INDIRECT1_COUNT bs) nb1')) s = Some ((m2 - 28, nb2), s')"
      "same_disk s s'" "\<forall>b. b \<noteq> ucast ind1 \<longrightarrow> view s' b = view s b"
      "tree (view s') (?di1\<lparr>indirect1 := ind1\<rparr>) m2 = tree (view s) ?di1 m1 @ take (tcount m2 - tcount m1) nb1"
      using grow_indirect1 [OF ld g1 m1(2) True, of nb1 s] us unfolding s1(3) s1(1) T_def m2_def nb2_def
      by (auto simp: s1(2))
    let ?di2 = "?di1\<lparr>indirect1 := ind1\<rparr>"
    have m2: "m1 \<le> m2" "m2 \<le> n" using m1(2) by (simp_all add: m2_def)
    have more: "128 < n - 28 \<longleftrightarrow> 156 < n" by linarith
    note s2 = supply_split [OF m2 s1(2) f2(5), folded nb2_def, unfolded s1(1)]
    show ?thesis
    proof (cases "156 < n")
      case False
      then have "m2 = n" using m1(2) by (simp add: m2_def)
      then have "nb2 = []" using s2(2) by simp
      then have "tree (view s') ?di2 n = T" using s2(1) \<open>m2 = n\<close> by simp
      moreover have "ucast ind1 \<in> index_blocks (view s') ?di2 n" using True by (simp add: index_blocks_def)
      then have "view s' b = view s b" if "b \<notin> index_blocks (view s') ?di2 n" for b using f2(4) that by (cases "b = ucast ind1") auto
      moreover have "increase_size sz nb di s = Some (?di2, s')"
        using f1(1) f2(1,2) True False more
        by (simp add: increase_size_def Let_def db data_blocks_def [of "di\<lparr>di_size := sz\<rparr>"] layout_consts)
      ultimately show ?thesis using f1(2) f2(3) unfolding T_def by auto
    next
      case far: True
      have g2: "156 \<le> m2" using far by (simp add: m2_def)
      have us': "usable s' (ucast b)" if "b \<in> set T" for b using usable_same_disk [OF f2(3) us] that by (simp add: T_def)
      have room': "Suc (length (held s')) < BLOCK_CACHE_SIZE" using room same_diskD(2) [OF f2(3)] by simp
      obtain ind2 nb2' s'' where f3: "(if m2 = 156 then take_block nb2 else Some (indirect2 ?di2, nb2)) = Some (ind2, nb2')"
        "cache_modify (ucast ind2) 0 BLOCK_SZ
          (\<lambda>bs s. map_option (\<lambda>(arr, nb, s). ((), le_concat arr, s))
                     (fill_indirect2 (m2 - 156) (n - 156) (le_split INODE_INDIRECT1_COUNT bs) nb2' s)) s' = Some ((), s'')"
        "same_disk s' s''" "tree (view s'') (?di2\<lparr>indirect2 := ind2\<rparr>) n = T"
        "\<forall>b. b \<notin> index_blocks (view s'') (?di2\<lparr>indirect2 := ind2\<rparr>) n \<longrightarrow> view s'' b = view s' b"
        using grow_indirect2 [OF g2 m2(2) far n(3), of nb2 s' ?di2, unfolded s2(1,3), OF _ _ us' room'] s2(2) d
        unfolding T_def by auto
      have "ucast ind1 \<in> index_blocks (view s'') (?di2\<lparr>indirect2 := ind2\<rparr>) n" using True by (simp add: index_blocks_def)
      then have "view s'' b = view s b" if "b \<notin> index_blocks (view s'') (?di2\<lparr>indirect2 := ind2\<rparr>) n" for b
        using f2(4) f3(5) that by (cases "b = ucast ind1") auto
      moreover have "m2 - 28 = 128 \<longleftrightarrow> m2 = 156" "m2 - 28 - 128 = m2 - 156" "n - 28 - 128 = n - 156" using g2 by auto
      then have "increase_size sz nb di s = Some (?di2\<lparr>indirect2 := ind2\<rparr>, s'')"
        using f1(1) f2(1,2) f3(1,2) True far more
        by (simp add: increase_size_def Let_def db data_blocks_def [of "di\<lparr>di_size := sz\<rparr>"] layout_consts)
      ultimately show ?thesis using f1(2) f3(4) same_disk_trans [OF f2(3) f3(3)] unfolding T_def by auto
    qed
  qed
qed

end
