(* ===== verification/Clear_Laws.thy ===== *)
theory Clear_Laws
  imports Indirect2_Laws
begin

text \<open>
  Clearing a file (\<open>DiskInode::clear_size\<close> of \<open>easy-fs/src/layout.rs\<close>): it returns the list of all
  blocks of the inode, in the order in which they were taken, and leaves an empty inode.
\<close>

section \<open>The list of blocks, level by level\<close>

definition index_group :: "(usize \<Rightarrow> u8 list) \<Rightarrow> nat \<Rightarrow> u32 \<Rightarrow> u32 list" where
  "index_group v m b = b # take m (le_split 128 (v (ucast b)))"

lemma map_nth_take: "m \<le> length xs \<Longrightarrow> map ((!) xs) [0..<m] = take m xs"
  by (rule nth_equalityI) auto

lemma group_slots:
  assumes "m \<le> 128"
  shows "map (slot2 v arr) [129 * q..<129 * q + Suc m] = index_group v m (arr q)"
proof -
  have "map (slot2 v arr) [129 * q..<129 * q + Suc m] = slot2 v arr (129 * q) # map (slot2 v arr) [Suc (129 * q)..<129 * q + Suc m]"
    by (subst upt_conv_Cons) simp_all
  also have "map (slot2 v arr) [Suc (129 * q)..<129 * q + Suc m] = map (\<lambda>k. slot2 v arr (129 * q + Suc k)) [0..<m]"
    by (rule nth_equalityI) (auto simp del: upt_Suc)
  also have "\<dots> = map (index_entry v (arr q)) [0..<m]"
  proof (rule map_cong)
    fix k
    assume "k \<in> set [0..<m]"
    then have "k < 128" using assms by simp
    then show "slot2 v arr (129 * q + Suc k) = index_entry v (arr q) k"
      using group_div_mod [of k q] by (simp add: slot2_def del: mult_Suc_right)
  qed simp
  also have "\<dots> = take m (le_split 128 (v (ucast (arr q))))"
    using assms by (simp add: index_entry_def [abs_def] map_nth_take)
  finally show ?thesis by (simp add: index_group_def slot2_index)
qed

lemma full_groups:
  "map (slot2 v arr) [0..<129 * a] = concat (map (\<lambda>q. index_group v 128 (arr q)) [0..<a])"
proof (induction a)
  case (Suc a)
  have "[0..<129 * Suc a] = [0..<129 * a] @ [129 * a..<129 * a + Suc 128]"
    using upt_add_eq_append [of 0 "129 * a" 129] by (simp add: add.commute)
  then show ?case using Suc group_slots [of 128 v arr a] by simp
qed simp

lemma rslots_groups:
  "rslots v arr t = concat (map (\<lambda>q. index_group v 128 (arr ! q)) [0..<t div 128]) @
     (if t mod 128 = 0 then [] else index_group v (t mod 128) (arr ! (t div 128)))"
proof -
  have m: "t mod 128 \<le> 128" by (simp add: less_imp_le)
  have "[0..<rcount t] = [0..<129 * (t div 128)] @ [129 * (t div 128)..<rcount t]"
    using upt_add_eq_append [of 0 "129 * (t div 128)" "rcount t - 129 * (t div 128)"] rcount_parts [of t] by simp
  moreover have "map (slot2 v ((!) arr)) [129 * (t div 128)..<rcount t] =
      (if t mod 128 = 0 then [] else index_group v (t mod 128) (arr ! (t div 128)))"
    using group_slots [OF m, of v "(!) arr" "t div 128"] rcount_parts [of t] by simp
  ultimately show ?thesis by (simp add: rslots_def full_groups)
qed

lemma tree_levels:
  assumes "length (direct di) = 28"
  shows "tree v di c = take (min c 28) (direct di) @
     (if 28 < c then index_group v (min (c - 28) 128) (indirect1 di) @
        (if 156 < c then indirect2 di # rslots v (le_split 128 (v (ucast (indirect2 di)))) (c - 156) else []) else [])"
proof -
  have d: "map (slot_block v di) [157..<158 + rcount k] = indirect2 di # rslots v (le_split 128 (v (ucast (indirect2 di)))) k" for k
  proof (rule nth_equalityI)
    fix i
    assume "i < length (map (slot_block v di) [157..<158 + rcount k])"
    then show "map (slot_block v di) [157..<158 + rcount k] ! i =
        (indirect2 di # rslots v (le_split 128 (v (ucast (indirect2 di)))) k) ! i"
      by (cases i) (auto simp: slot_block_def nth_rslots index_entry_def slot2_def simp del: upt_Suc)
  qed (simp del: upt_Suc)
  show ?thesis
  proof (cases "c \<le> 156")
    case True
    then have "min (c - 28) 128 = c - 28" "28 < c \<or> min c 28 = c" by linarith+
    then show ?thesis using tree_near [OF assms True, of v] True assms by (auto simp: index_group_def)
  next
    case False
    then have "[0..<tcount c] = [0..<157] @ [157..<158 + rcount (c - 156)]"
      using upt_add_eq_append [of 0 157 "1 + rcount (c - 156)"] tcount_far [of c] by simp
    moreover have "map (slot_block v di) [0..<157] = tree v di 156" by (simp add: tree_def)
    moreover have "min (c - 28) 128 = 128" using False by linarith
    ultimately show ?thesis using False tree_near [OF assms, of 156 v] d [of "c - 156"] assms
      by (simp add: tree_def [of _ _ c] index_group_def del: upt_Suc)
  qed
qed

section \<open>Collecting the blocks\<close>

lemma list_indirect_ok:
  assumes "usable s (ucast b)"
  shows "\<exists>s'. list_indirect b m s = Some (take m (le_split 128 (view s (ucast b))), s') \<and> same_disk s s' \<and> view s' = view s"
proof -
  have l: "length (view s (ucast b)) = 512" using assms length_view by (auto simp: usable_def BLOCK_SZ_def)
  have "\<exists>s'. list_indirect b m s = Some (take m (le_split 128 (view s (ucast b))), s') \<and> same_disk s s' \<and>
      view s' = (view s)(ucast b := splice 0 (view s (ucast b)) (view s (ucast b)))"
    unfolding list_indirect_def
    by (rule cache_modify_ok) (use assms l in \<open>auto simp: usable_def layout_consts slice_at_def same_disk_def\<close>)
  then show ?thesis by (simp add: splice_def)
qed

lemma list_full_indirects_ok:
  assumes "cache_inv s" "\<And>e. e \<in> set es \<Longrightarrow> usable s (ucast e)"
  shows "\<exists>s'. list_full_indirects es s = Some (concat (map (index_group (view s) 128) es), s') \<and> same_disk s s' \<and> view s' = view s"
  using assms
proof (induction es arbitrary: s)
  case Nil
  then show ?case by (simp add: same_disk_def)
next
  case (Cons e es)
  obtain s1 where s1: "list_indirect e 128 s = Some (take 128 (le_split 128 (view s (ucast e))), s1)" "same_disk s s1" "view s1 = view s"
    using list_indirect_ok [of s e 128] Cons.prems by auto
  have "\<exists>s'. list_full_indirects es s1 = Some (concat (map (index_group (view s1) 128) es), s') \<and> same_disk s1 s' \<and> view s' = view s1"
    by (rule Cons.IH) (use same_diskD(1) [OF s1(2)] usable_same_disk [OF s1(2)] Cons.prems(2) in auto)
  then obtain s2 where s2: "list_full_indirects es s1 = Some (concat (map (index_group (view s) 128) es), s2)" "same_disk s1 s2" "view s2 = view s"
    using s1(3) by auto
  have "list_full_indirects (e # es) s = Some (concat (map (index_group (view s) 128) (e # es)), s2)"
    using s1(1) s2(1) by (simp add: layout_consts index_group_def [of _ _ e])
  then show ?case using same_disk_trans [OF s1(2) s2(2)] s2(3) by blast
qed

lemma list_indirect2_ok:
  assumes inv: "cache_inv s" and l: "length arr = 128" and t: "t \<le> 128 * 128"
    and us: "\<And>e. e \<in> set (rslots (view s) arr t) \<Longrightarrow> usable s (ucast e)"
  shows "\<exists>s'. list_indirect2 t arr s = Some (rslots (view s) arr t, s') \<and> same_disk s s' \<and> view s' = view s"
proof -
  let ?a = "t div 128" and ?b = "t mod 128"
  have at: "?a \<le> 128" "?b \<noteq> 0 \<Longrightarrow> ?a < 128"
  proof -
    show "?a \<le> 128" using div_le_mono [OF t, of 128] by simp
    assume "?b \<noteq> 0"
    then have "t < 128 * 128" using t by (cases "t = 128 * 128") auto
    then show "?a < 128" by (simp add: less_mult_imp_div_less)
  qed
  have u: "usable s (ucast (arr ! q))" if "128 * q < t" for q
    using us nth_mem [of "129 * q" "rslots (view s) arr t"] rslots_index(1) [OF that] rslots_index(2) [OF that, of "view s" arr] by simp
  have "usable s (ucast e)" if "e \<in> set (take ?a arr)" for e
  proof -
    from that obtain q where "q < ?a" "e = arr ! q" by (auto simp: in_set_conv_nth)
    moreover from this have "128 * q < t" by linarith
    ultimately show ?thesis using u by simp
  qed
  from list_full_indirects_ok [OF inv this] obtain s1 where
    s1: "list_full_indirects (take ?a arr) s = Some (concat (map (index_group (view s) 128) (take ?a arr)), s1)" "same_disk s s1" "view s1 = view s" by blast
  have full: "concat (map (index_group (view s) 128) (take ?a arr)) = concat (map (\<lambda>q. index_group (view s) 128 (arr ! q)) [0..<?a])"
    using map_nth_take [of ?a arr] at(1) l map_map [of "index_group (view s) 128" "(!) arr" "[0..<?a]"] by (simp add: comp_def)
  show ?thesis
  proof (cases "?b = 0")
    case True
    with s1 full show ?thesis by (simp add: list_indirect2_def layout_consts Let_def rslots_groups)
  next
    case False
    have "128 * ?a < t" using False by (metis div_mult_mod_eq mult.commute less_add_same_cancel1 neq0_conv)
    from usable_same_disk [OF s1(2) u [OF this]] have "usable s1 (ucast (arr ! ?a))" .
    from list_indirect_ok [OF this, of ?b] s1 full False at(2) [OF False] l same_disk_trans [OF s1(2)]
    show ?thesis by (auto simp: list_indirect2_def layout_consts Let_def rslots_groups index_group_def)
  qed
qed

text \<open>The entries of \<open>indirect2\<close> are collected while its block is locked.\<close>

lemma list_locked_indirect2_ok:
  assumes us2: "usable s (ucast b)" and t: "t \<le> 128 * 128" and room: "Suc (length (held s)) < BLOCK_CACHE_SIZE"
  defines "arr \<equiv> le_split 128 (view s (ucast b)) :: u32 list"
  assumes us: "\<And>e. e \<in> set (rslots (view s) arr t) \<Longrightarrow> usable s (ucast e) \<and> e \<noteq> b"
  shows "\<exists>s'. cache_modify (ucast b) 0 BLOCK_SZ
       (\<lambda>bs s. map_option (\<lambda>(vs, s). (vs, bs, s)) (list_indirect2 t (le_split INODE_INDIRECT1_COUNT bs) s)) s =
       Some (rslots (view s) arr t, s') \<and> same_disk s s' \<and> view s' = view s"
proof -
  have l: "length (view s (ucast b)) = 512" using us2 length_view by (auto simp: usable_def BLOCK_SZ_def)
  have sl: "slice_at 0 BLOCK_SZ (view s (ucast b)) = view s (ucast b)" using l by (simp add: slice_at_def BLOCK_SZ_def)
  have closure: "\<exists>s2. list_indirect2 t arr s1 = Some (rslots (view s) arr t, s2) \<and> same_disk s1 s2 \<and> view s2 = view s"
    if s1: "cache_inv s1" "view s1 = view s" "held s1 = ucast b # held s" "dev_size (device s1) = dev_size (device s)" for s1
  proof -
    have "usable s1 (ucast e)" if "e \<in> set (rslots (view s1) arr t)" for e
      using us [of e] that s1 room by (auto simp: usable_def u32_to_usize_inj)
    from list_indirect2_ok [OF s1(1) _ t this] s1(2) show ?thesis by (auto simp: arr_def)
  qed
  have "\<exists>s'. cache_modify (ucast b) 0 BLOCK_SZ
       (\<lambda>bs s. map_option (\<lambda>(vs, s). (vs, bs, s)) (list_indirect2 t (le_split INODE_INDIRECT1_COUNT bs) s)) s =
       Some (rslots (view s) arr t, s') \<and> same_disk s s' \<and> view s' = (view s)(ucast b := splice 0 (view s (ucast b)) (view s (ucast b)))"
  proof (rule cache_modify_ok)
    show "cache_inv s" "unat (ucast b :: usize) < dev_size (device s)" "ucast b \<notin> set (held s)" "length (held s) < BLOCK_CACHE_SIZE"
      "0 + BLOCK_SZ \<le> BLOCK_SZ" "length (view s (ucast b)) = BLOCK_SZ" using us2 l by (simp_all add: usable_def BLOCK_SZ_def)
    fix s1
    assume s1: "cache_inv s1" "view s1 = view s" "held s1 = ucast b # held s" "dev_size (device s1) = dev_size (device s)"
    from closure [OF this] show "\<exists>s2. map_option (\<lambda>(vs, s'). (vs, slice_at 0 BLOCK_SZ (view s (ucast b)), s'))
         (list_indirect2 t (le_split INODE_INDIRECT1_COUNT (slice_at 0 BLOCK_SZ (view s (ucast b)))) s1) =
        Some (rslots (view s) arr t, view s (ucast b), s2) \<and> same_disk s1 s2 \<and> view s2 = view s"
      unfolding sl by (auto simp: layout_consts arr_def)
  qed
  then show ?thesis by (simp add: splice_def)
qed

lemma clear_size_ok:
  assumes c: "c = nblocks (unat (di_size di))" "c \<le> MAX_BLOCKS" and l: "length (direct di) = 28"
    and d: "distinct (tree (view s) di c)" and us: "\<And>b. b \<in> set (tree (view s) di c) \<Longrightarrow> usable s (ucast b)"
    and inv: "cache_inv s" and room: "Suc (length (held s)) < BLOCK_CACHE_SIZE"
  shows "\<exists>di' s'. clear_size di s = Some (tree (view s) di c, di', s') \<and> same_disk s s' \<and> view s' = view s \<and>
     di_size di' = 0 \<and> di_type di' = di_type di \<and> length (direct di') = 28"
proof -
  have db: "unat (data_blocks di) = c" using data_blocks_of_nat c by (simp add: data_blocks_def)
  note lev = tree_levels [OF l, of "view s" c]
  let ?k = "min c 28"
  have ld: "length (replicate ?k 0 @ drop ?k (direct di)) = 28" using l by simp
  show ?thesis
  proof (cases "28 < c")
    case False
    then show ?thesis using lev ld inv by (simp add: clear_size_def Let_def db layout_consts same_disk_def)
  next
    case True
    have "usable s (ucast (indirect1 di))" by (rule us) (use True in \<open>simp add: lev index_group_def\<close>)
    from list_indirect_ok [OF this, of "min (c - 28) 128"] obtain s1 where
      s1: "list_indirect (indirect1 di) (min (c - 28) 128) s = Some (take (min (c - 28) 128) (le_split 128 (view s (ucast (indirect1 di)))), s1)"
        "same_disk s s1" "view s1 = view s" by blast
    show ?thesis
    proof (cases "156 < c")
      case False
      then have "\<not> 128 < c - 28" by simp
      then show ?thesis using lev ld s1 True False
        by (simp add: clear_size_def Let_def db layout_consts index_group_def)
    next
      case far: True
      let ?arr = "le_split 128 (view s (ucast (indirect2 di))) :: u32 list"
      have u: "usable s (ucast (indirect2 di))" "usable s (ucast e) \<and> e \<noteq> indirect2 di" if "e \<in> set (rslots (view s) ?arr (c - 156))" for e
        using us d far that by (auto simp: lev)
      have u2: "usable s1 (ucast (indirect2 di))" using usable_same_disk [OF s1(2)] us far by (simp add: lev)
      have r1: "Suc (length (held s1)) < BLOCK_CACHE_SIZE" using room same_diskD(2) [OF s1(2)] by simp
      have "c - 156 \<le> 128 * 128" using c(2) by (simp add: MAX_BLOCKS_def)
      from list_locked_indirect2_ok [OF u2 this r1, unfolded s1(3)] usable_same_disk [OF s1(2)] u obtain s2 where
        s2: "cache_modify (ucast (indirect2 di)) 0 BLOCK_SZ
           (\<lambda>bs s. map_option (\<lambda>(vs, s). (vs, bs, s)) (list_indirect2 (c - 156) (le_split INODE_INDIRECT1_COUNT bs) s)) s1 =
           Some (rslots (view s) ?arr (c - 156), s2)" "same_disk s1 s2" "view s2 = view s" by blast
      have m: "128 < c - 28" "c - 28 - 128 = c - 156" "c - 156 \<le> 16384" "min (c - 28) 128 = 128" using far c(2) by (simp_all add: MAX_BLOCKS_def)
      then show ?thesis using lev ld s1 s2 True far same_disk_trans [OF s1(2) s2(2)]
        by (simp add: clear_size_def Let_def db layout_consts index_group_def)
    qed
  qed
qed

end
