(* ===== verification/Image_Laws.thy ===== *)
theory Image_Laws
  imports Clear_Laws
begin

text \<open>
  What the bytes of a disk mean: the areas of an \<open>easy-fs\<close> image, and the inodes it holds as a list of
  types and contents (\<open>easy-fs/src/efs.rs\<close>).  Everything here is about the array of blocks seen
  through the cache; the operations that change it follow in the next theories.
\<close>

section \<open>Areas\<close>

text \<open>\<open>C\<close> is the number of data blocks that lie on the device.\<close>

definition geom :: "easy_fs \<Rightarrow> nat \<Rightarrow> nat \<Rightarrow> bool" where
  "geom fs C dsz \<longleftrightarrow>
     0 < unat (bm_blocks (inode_bitmap fs)) \<and>
     1 \<le> unat (start_block_id (inode_bitmap fs)) \<and>
     unat (start_block_id (inode_bitmap fs)) + unat (bm_blocks (inode_bitmap fs)) \<le> unat (inode_area_start_block fs) \<and>
     unat (inode_area_start_block fs) + 1024 * unat (bm_blocks (inode_bitmap fs)) \<le> unat (start_block_id (data_bitmap fs)) \<and>
     unat (start_block_id (data_bitmap fs)) + unat (bm_blocks (data_bitmap fs)) \<le> unat (data_area_start_block fs) \<and>
     unat (data_area_start_block fs) + C \<le> dsz \<and> dsz < 2 ^ 32 \<and> C \<le> 4096 * unat (bm_blocks (data_bitmap fs)) \<and>
     4096 * unat (bm_blocks (inode_bitmap fs)) \<le> 2 ^ 32"

definition max_inodes :: "easy_fs \<Rightarrow> nat" where "max_inodes fs = 4096 * unat (bm_blocks (inode_bitmap fs))"

definition data_area :: "easy_fs \<Rightarrow> nat \<Rightarrow> usize set" where
  "data_area fs C = {b. unat (data_area_start_block fs) \<le> unat b \<and> unat b < unat (data_area_start_block fs) + C}"

definition iblock :: "easy_fs \<Rightarrow> nat \<Rightarrow> usize" where
  "iblock fs i = word_of_nat (unat (inode_area_start_block fs) + i div 4)"

lemma bm_range_unat:
  assumes "b \<in> bm_range bm" "unat (start_block_id bm) + unat (bm_blocks bm) < 2 ^ 32"
  shows "unat (start_block_id bm) \<le> unat b" "unat b < unat (start_block_id bm) + unat (bm_blocks bm)"
proof -
  from assms(1) obtain k where k: "b = word_of_nat k + start_block_id bm" "k < unat (bm_blocks bm)" by (auto simp: bm_range_def)
  have "unat b = k + unat (start_block_id bm)"
    unfolding k(1) using k(2) assms(2) by (subst unat_add_u64_small) (simp_all add: unat_of_nat_u64)
  with k(2) show "unat (start_block_id bm) \<le> unat b" "unat b < unat (start_block_id bm) + unat (bm_blocks bm)" by simp_all
qed

lemma unat_iblock:
  assumes "geom fs C dsz" "i < max_inodes fs"
  shows "unat (iblock fs i) = unat (inode_area_start_block fs) + i div 4"
    "unat (inode_area_start_block fs) + i div 4 < unat (start_block_id (data_bitmap fs))"
    "unat (start_block_id (inode_bitmap fs)) + unat (bm_blocks (inode_bitmap fs)) \<le> unat (inode_area_start_block fs) + i div 4"
proof -
  have "i div 4 < 1024 * unat (bm_blocks (inode_bitmap fs))"
    using assms(2) by (intro less_mult_imp_div_less) (simp add: max_inodes_def)
  with assms(1) have *: "unat (inode_area_start_block fs) + i div 4 < unat (start_block_id (data_bitmap fs))"
    "unat (start_block_id (data_bitmap fs)) < 2 ^ 32" unfolding geom_def by linarith+
  then show "unat (iblock fs i) = unat (inode_area_start_block fs) + i div 4" by (simp add: iblock_def unat_of_nat_u64 del: of_nat_add)
  show "unat (inode_area_start_block fs) + i div 4 < unat (start_block_id (data_bitmap fs))" by (rule *(1))
  show "unat (start_block_id (inode_bitmap fs)) + unat (bm_blocks (inode_bitmap fs)) \<le> unat (inode_area_start_block fs) + i div 4"
    using assms(1) by (simp add: geom_def)
qed

text \<open>The areas are disjoint and on the device.\<close>

lemma areas_disjoint:
  assumes g: "geom fs C dsz"
  shows "bm_range (inode_bitmap fs) \<inter> bm_range (data_bitmap fs) = {}" "bm_range (inode_bitmap fs) \<inter> data_area fs C = {}"
    "bm_range (data_bitmap fs) \<inter> data_area fs C = {}"
    "i < max_inodes fs \<Longrightarrow> iblock fs i \<notin> bm_range (inode_bitmap fs) \<union> bm_range (data_bitmap fs) \<union> data_area fs C"
proof -
  have l: "unat (start_block_id (inode_bitmap fs)) + unat (bm_blocks (inode_bitmap fs)) < 2 ^ 32"
    "unat (start_block_id (data_bitmap fs)) + unat (bm_blocks (data_bitmap fs)) < 2 ^ 32"
    "unat (start_block_id (inode_bitmap fs)) + unat (bm_blocks (inode_bitmap fs)) \<le> unat (start_block_id (data_bitmap fs))"
    "unat (start_block_id (data_bitmap fs)) + unat (bm_blocks (data_bitmap fs)) \<le> unat (data_area_start_block fs)"
    using g unfolding geom_def by linarith+
  have i: "b \<in> bm_range (inode_bitmap fs) \<Longrightarrow> unat b < unat (start_block_id (inode_bitmap fs)) + unat (bm_blocks (inode_bitmap fs))"
    and d: "b \<in> bm_range (data_bitmap fs) \<Longrightarrow> unat (start_block_id (data_bitmap fs)) \<le> unat b \<and>
      unat b < unat (start_block_id (data_bitmap fs)) + unat (bm_blocks (data_bitmap fs))" for b
    using bm_range_unat l(1,2) by blast+
  have "b \<notin> bm_range (data_bitmap fs)" "b \<notin> data_area fs C" if "b \<in> bm_range (inode_bitmap fs)" for b
    using i [OF that] d [of b] l(3,4) by (auto simp: data_area_def)
  then show "bm_range (inode_bitmap fs) \<inter> bm_range (data_bitmap fs) = {}" "bm_range (inode_bitmap fs) \<inter> data_area fs C = {}" by blast+
  have "b \<notin> data_area fs C" if "b \<in> bm_range (data_bitmap fs)" for b using d [OF that] l(4) by (auto simp: data_area_def)
  then show "bm_range (data_bitmap fs) \<inter> data_area fs C = {}" by blast
  assume "i < max_inodes fs"
  from unat_iblock [OF g this] i d l(4)
  show "iblock fs i \<notin> bm_range (inode_bitmap fs) \<union> bm_range (data_bitmap fs) \<union> data_area fs C"
    by (fastforce simp: data_area_def)
qed

section \<open>One inode\<close>

definition nb :: "disk_inode \<Rightarrow> nat" where "nb di = nblocks (unat (di_size di))"

definition dt :: "(usize \<Rightarrow> u8 list) \<Rightarrow> disk_inode \<Rightarrow> u32 list" where "dt v di = tree v di (nb di)"

definition fdata :: "(usize \<Rightarrow> u8 list) \<Rightarrow> disk_inode \<Rightarrow> u8 list" where
  "fdata v di = map (file_byte v di) [0..<unat (di_size di)]"

type_synonym content = "disk_inode_type \<times> u8 list"

text \<open>The bytes of the last block behind the end of the file are zero.\<close>

definition inode_img :: "(usize \<Rightarrow> u8 list) \<Rightarrow> disk_inode \<Rightarrow> content \<Rightarrow> bool" where
  "inode_img v di x \<longleftrightarrow> length (direct di) = 28 \<and> nb di \<le> MAX_BLOCKS \<and> di_type di = fst x \<and> fdata v di = snd x \<and>
     (\<forall>j<nb di * 512. unat (di_size di) \<le> j \<longrightarrow> file_byte v di j = 0)"

lemma file_data_fdata: "file_data di s = fdata (view s) di"
  by (simp add: file_data_def fdata_def)

lemma inode_img_length: "inode_img v di x \<Longrightarrow> unat (di_size di) = length (snd x)"
  by (metis inode_img_def fdata_def length_map length_upt diff_zero)

lemma index_blocks_tree: "index_blocks v di n \<subseteq> ucast ` set (tree v di n)"
  by (auto simp: index_blocks_slots tree_def)

lemma file_blocks_tree: "file_blocks v di n \<subseteq> ucast ` set (tree v di n)"
  using dslot_less by (auto simp: file_blocks_def file_block_slot tree_def)

lemma slot_block_cong:
  assumes "\<And>b. b \<in> index_blocks v di n \<Longrightarrow> v' b = v b" "t < tcount n"
  shows "slot_block v' di t = slot_block v di t"
proof -
  have e: "index_entry v' b k = index_entry v b k" if "ucast b \<in> index_blocks v di n" for b k
    using assms(1) [OF that] by (simp add: index_entry_def)
  have m: "28 < t \<Longrightarrow> 28 < n" "157 < t \<Longrightarrow> 156 < n"
    using assms(2) tcount_mono [of n 28] tcount_mono [of n 156] by (auto simp: not_less [symmetric])
  show ?thesis
  proof (cases "158 \<le> t")
    case False
    then show ?thesis using e [of "indirect1 di"] m by (auto simp: slot_block_def index_blocks_def)
  next
    case True
    let ?q = "(t - 158) div 129"
    have "158 + 129 * ?q \<le> t" using True by (simp add: times_div_less_eq_dividend le_diff_conv2 add.commute)
    then have "156 + 128 * ?q < n" using far_islot [of ?q n] assms(2) by simp
    then have "ucast (index_entry v (indirect2 di) ?q) \<in> index_blocks v di n" "ucast (indirect2 di) \<in> index_blocks v di n"
      using m True by (auto simp: index_blocks_def)
    with e True show ?thesis by (simp add: tree_far slot2_def)
  qed
qed

lemma tree_cong:
  assumes "\<And>b. b \<in> index_blocks v di n \<Longrightarrow> v' b = v b"
  shows "tree v' di n = tree v di n"
  unfolding tree_def by (rule map_cong) (use slot_block_cong [OF assms] in auto)

text \<open>An inode only depends on its own blocks.\<close>

lemma inode_frame:
  assumes "\<And>b. b \<in> set (dt v di) \<Longrightarrow> v' (ucast b) = v (ucast b)"
  shows "dt v' di = dt v di" "inode_img v' di x = inode_img v di x"
proof -
  have ib: "v' b = v b" if "b \<in> index_blocks v di (nb di)" for b
    using that index_blocks_tree assms by (fastforce simp: dt_def)
  show "dt v' di = dt v di" unfolding dt_def by (rule tree_cong [OF ib])
  have fb: "file_byte v' di j = file_byte v di j" if "j < nb di * 512" for j
  proof -
    have i: "j div 512 < nb di" using that by (simp add: less_mult_imp_div_less)
    then have "file_block v di (j div 512) \<in> file_blocks v di (nb di)" by (simp add: file_blocks_def)
    then have "file_block v di (j div 512) \<in> ucast ` set (dt v di)" using file_blocks_tree unfolding dt_def by blast
    then have "v' (file_block v di (j div 512)) = v (file_block v di (j div 512))" using assms by auto
    then show ?thesis using file_block_cong [OF ib i] by (simp add: file_byte_def)
  qed
  have "unat (di_size di) \<le> nb di * 512" unfolding nb_def by (rule nblocks_bound(1))
  then have "fdata v' di = fdata v di" using fb by (simp add: fdata_def)
  then show "inode_img v' di x = inode_img v di x" using fb by (auto simp: inode_img_def)
qed

lemma inode_img_empty:
  assumes "length (direct di) = 28" "di_size di = 0"
  shows "inode_img v di (di_type di, [])" "dt v di = []"
  using assms by (simp_all add: inode_img_def nb_def nblocks_def fdata_def dt_def tree_def)

section \<open>All inodes\<close>

definition uses :: "(usize \<Rightarrow> u8 list) \<Rightarrow> disk_inode list \<Rightarrow> u32 list" where
  "uses v dis = concat (map (dt v) dis)"

definition data_bit :: "easy_fs \<Rightarrow> u32 \<Rightarrow> nat" where
  "data_bit fs b = unat b - unat (data_area_start_block fs)"

text \<open>The blocks in use are distinct, lie in the data area and are those marked in the bitmap; free
  blocks are zero.\<close>

definition img :: "easy_fs \<Rightarrow> nat \<Rightarrow> (usize \<Rightarrow> u8 list) \<Rightarrow> disk_inode list \<Rightarrow> content list \<Rightarrow> bool" where
  "img fs C v dis X \<longleftrightarrow>
     length dis \<le> max_inodes fs \<and> list_all2 (inode_img v) dis X \<and>
     (\<forall>i<max_inodes fs. bm_bit (inode_bitmap fs) v i \<longleftrightarrow> i < length dis) \<and>
     distinct (uses v dis) \<and> ucast ` set (uses v dis) \<subseteq> data_area fs C \<and>
     (\<forall>m<4096 * unat (bm_blocks (data_bitmap fs)). bm_bit (data_bitmap fs) v m \<longleftrightarrow> m \<in> data_bit fs ` set (uses v dis)) \<and>
     (\<forall>b\<in>data_area fs C. b \<notin> ucast ` set (uses v dis) \<longrightarrow> v b = replicate 512 0)"

definition disk_inode_at :: "easy_fs \<Rightarrow> (usize \<Rightarrow> u8 list) \<Rightarrow> nat \<Rightarrow> disk_inode option" where
  "disk_inode_at fs v i = inode_of_bytes (slice_at (i mod 4 * 128) 128 (v (iblock fs i)))"

definition inodes_at :: "easy_fs \<Rightarrow> (usize \<Rightarrow> u8 list) \<Rightarrow> disk_inode list \<Rightarrow> bool" where
  "inodes_at fs v dis \<longleftrightarrow> (\<forall>i<length dis. disk_inode_at fs v i = Some (dis ! i))"

lemma bm_bit_cong:
  assumes "\<And>b. b \<in> bm_range bm \<Longrightarrow> v' b = v b" "m < 4096 * unat (bm_blocks bm)"
  shows "bm_bit bm v' m = bm_bit bm v m"
proof -
  have "m div 4096 < unat (bm_blocks bm)" using assms(2) by (simp add: less_mult_imp_div_less mult.commute)
  then have "word_of_nat (m div 4096) + start_block_id bm \<in> bm_range bm" by (auto simp: bm_range_def)
  with assms(1) show ?thesis by (simp add: bm_bit_def)
qed

lemma uses_frame:
  assumes "\<And>b. b \<in> set (uses v dis) \<Longrightarrow> v' (ucast b) = v (ucast b)"
  shows "uses v' dis = uses v dis" "list_all2 (inode_img v') dis X = list_all2 (inode_img v) dis X"
proof -
  have f: "v' (ucast b) = v (ucast b)" if "di \<in> set dis" "b \<in> set (dt v di)" for di b
    using assms that by (auto simp: uses_def)
  have "map (dt v') dis = map (dt v) dis" by (rule map_cong) (auto intro!: inode_frame(1) f)
  then show "uses v' dis = uses v dis" unfolding uses_def by (rule arg_cong)
  have "inode_img v' di x = inode_img v di x" if "di \<in> set dis" for di x by (rule inode_frame(2)) (rule f [OF that])
  then show "list_all2 (inode_img v') dis X = list_all2 (inode_img v) dis X" by (simp add: list_all2_conv_all_nth)
qed

lemma img_frame:
  assumes i: "img fs C v dis X"
    and same: "\<And>b. b \<in> bm_range (inode_bitmap fs) \<union> bm_range (data_bitmap fs) \<union> data_area fs C \<Longrightarrow> v' b = v b"
  shows "img fs C v' dis X"
proof -
  have "v' (ucast b) = v (ucast b)" if "b \<in> set (uses v dis)" for b using i that by (intro same) (auto simp: img_def)
  then have u: "uses v' dis = uses v dis" "list_all2 (inode_img v') dis X = list_all2 (inode_img v) dis X"
    by (intro uses_frame; blast)+
  have b: "bm_bit (inode_bitmap fs) v' m = bm_bit (inode_bitmap fs) v m" if "m < max_inodes fs" for m
    by (rule bm_bit_cong) (use same that in \<open>auto simp: max_inodes_def\<close>)
  have d: "bm_bit (data_bitmap fs) v' m = bm_bit (data_bitmap fs) v m" if "m < 4096 * unat (bm_blocks (data_bitmap fs))" for m
    by (rule bm_bit_cong) (use same that in auto)
  show ?thesis using i b d same by (simp add: img_def u)
qed

text \<open>How many blocks a content takes.\<close>

definition blocks_of :: "content \<Rightarrow> nat" where "blocks_of x = tcount (nblocks (length (snd x)))"

definition used :: "content list \<Rightarrow> nat" where "used X = sum_list (map blocks_of X)"

lemma length_dt: "inode_img v di x \<Longrightarrow> length (dt v di) = blocks_of x"
  using inode_img_length [of v di x] by (simp add: dt_def nb_def blocks_of_def)

lemma length_uses: "list_all2 (inode_img v) dis X \<Longrightarrow> length (uses v dis) = used X"
  by (induction rule: list_all2_induct) (simp_all add: uses_def used_def length_dt)

text \<open>Replacing one inode.\<close>

lemma uses_split:
  assumes "i < length dis"
  shows "uses v dis = uses v (take i dis) @ dt v (dis ! i) @ uses v (drop (Suc i) dis)"
    and "uses v (dis[i := di]) = uses v (take i dis) @ dt v di @ uses v (drop (Suc i) dis)"
proof -
  show "uses v dis = uses v (take i dis) @ dt v (dis ! i) @ uses v (drop (Suc i) dis)"
    by (subst id_take_nth_drop [OF assms]) (simp add: uses_def)
  show "uses v (dis[i := di]) = uses v (take i dis) @ dt v di @ uses v (drop (Suc i) dis)"
    by (simp add: upd_conv_take_nth_drop [OF assms] uses_def)
qed

definition others :: "(usize \<Rightarrow> u8 list) \<Rightarrow> disk_inode list \<Rightarrow> nat \<Rightarrow> u32 list" where
  "others v dis i = uses v (take i dis) @ uses v (drop (Suc i) dis)"

lemma set_uses:
  assumes "i < length dis"
  shows "set (uses v dis) = set (dt v (dis ! i)) \<union> set (others v dis i)"
    "set (uses v (dis[i := di])) = set (dt v di) \<union> set (others v dis i)"
    "distinct (uses v dis) \<longleftrightarrow> distinct (dt v (dis ! i)) \<and> distinct (others v dis i) \<and> set (dt v (dis ! i)) \<inter> set (others v dis i) = {}"
    "distinct (uses v (dis[i := di])) \<longleftrightarrow> distinct (dt v di) \<and> distinct (others v dis i) \<and> set (dt v di) \<inter> set (others v dis i) = {}"
  by (auto simp: uses_split [OF assms] others_def)

lemma others_frame:
  assumes "\<And>b. b \<in> set (others v dis i) \<Longrightarrow> v' (ucast b) = v (ucast b)"
  shows "others v' dis i = others v dis i"
proof -
  have "uses v' (take i dis) = uses v (take i dis)" "uses v' (drop (Suc i) dis) = uses v (drop (Suc i) dis)"
    by (rule uses_frame(1), rule assms, simp add: others_def)+
  then show ?thesis by (simp add: others_def)
qed

lemma list_all2_update_frame:
  assumes "list_all2 (inode_img v) dis X" "i < length dis" "inode_img v' di x"
    and "\<And>b. b \<in> set (others v dis i) \<Longrightarrow> v' (ucast b) = v (ucast b)"
  shows "list_all2 (inode_img v') (dis[i := di]) (X[i := x])"
proof (rule list_all2_all_nthI)
  have l: "length X = length dis" using assms(1) by (simp add: list_all2_lengthD)
  then show "length (dis[i := di]) = length (X[i := x])" by simp
  fix j
  assume j: "j < length (dis[i := di])"
  show "inode_img v' (dis[i := di] ! j) (X[i := x] ! j)"
  proof (cases "j = i")
    case True
    then show ?thesis using assms(2,3) l by simp
  next
    case False
    have "dis ! j \<in> set (take i dis) \<union> set (drop (Suc i) dis)"
    proof (cases "j < i")
      case True
      then show ?thesis using j nth_mem [of j "take i dis"] by simp
    next
      case F: False
      with False have "Suc i \<le> j" by simp
      then show ?thesis using j nth_mem [of "j - Suc i" "drop (Suc i) dis"] by simp
    qed
    then have "set (dt v (dis ! j)) \<subseteq> set (others v dis i)" by (auto simp: others_def uses_def)
    then have "inode_img v' (dis ! j) (X ! j) = inode_img v (dis ! j) (X ! j)" using assms(4) by (intro inode_frame(2)) blast
    then show ?thesis using False assms(1) j by (simp add: list_all2_nthD)
  qed
qed

end
