(* ===== verification/Alloc_Laws.thy ===== *)
theory Alloc_Laws
  imports Image_Laws
begin

text \<open>
  Taking and returning data blocks (\<open>EasyFileSystem::alloc_data\<close>, \<open>dealloc_data\<close> of
  \<open>easy-fs/src/efs.rs\<close>) as changes of the set of numbers marked in the data bitmap.
\<close>

definition bits :: "easy_fs \<Rightarrow> (usize \<Rightarrow> u8 list) \<Rightarrow> nat set" where
  "bits fs v = {m. m < 4096 * unat (bm_blocks (data_bitmap fs)) \<and> bm_bit (data_bitmap fs) v m}"

text \<open>A state in which data blocks can be reached: nothing but inode blocks is locked.\<close>

definition ready :: "easy_fs \<Rightarrow> nat \<Rightarrow> block_cache_manager \<Rightarrow> bool" where
  "ready fs C s \<longleftrightarrow> cache_inv s \<and> geom fs C (dev_size (device s)) \<and> length (held s) \<le> 8 \<and>
     set (held s) \<inter> (data_area fs C \<union> bm_range (data_bitmap fs)) = {}"

lemma ready_same_disk: "ready fs C s \<Longrightarrow> same_disk s s' \<Longrightarrow> ready fs C s'"
  by (simp add: ready_def same_disk_def)

lemma ready_usable: "ready fs C s \<Longrightarrow> b \<in> data_area fs C \<Longrightarrow> usable s b"
  by (auto simp: ready_def usable_def data_area_def geom_def BLOCK_CACHE_SIZE_def)

lemma ready_room: "ready fs C s \<Longrightarrow> Suc (length (held s)) < BLOCK_CACHE_SIZE"
  by (simp add: ready_def BLOCK_CACHE_SIZE_def)

lemma ready_inv: "ready fs C s \<Longrightarrow> cache_inv s"
  by (simp add: ready_def)

lemma ready_bm_inv: "ready fs C s \<Longrightarrow> bm_inv (data_bitmap fs) s"
  by (auto simp: ready_def bm_inv_def geom_def BLOCK_CACHE_SIZE_def bm_range_def)

lemma area_unat:
  assumes "geom fs C dsz" "ucast b \<in> data_area fs C"
  shows "unat b = unat (data_area_start_block fs) + data_bit fs b" "data_bit fs b < C"
    "data_bit fs b < 4096 * unat (bm_blocks (data_bitmap fs))"
  using assms by (auto simp: data_area_def data_bit_def geom_def)

lemma data_bit_inj:
  assumes "geom fs C dsz" "ucast b \<in> data_area fs C" "ucast b' \<in> data_area fs C"
  shows "data_bit fs b = data_bit fs b' \<longleftrightarrow> b = b'"
  using area_unat(1) [OF assms(1,2)] area_unat(1) [OF assms(1,3)] by (auto simp: word_unat_eq_iff)

lemma bits_frame:
  assumes "\<And>b. b \<in> bm_range (data_bitmap fs) \<Longrightarrow> v' b = v b"
  shows "bits fs v' = bits fs v"
  using bm_bit_cong [OF assms] by (auto simp: bits_def)

lemma alloc_data_ok:
  assumes r: "ready fs C s" and U: "bits fs (view s) \<subseteq> {..<C}" "card (bits fs (view s)) < C"
  shows "\<exists>b s'. alloc_data fs s = Some (b, s') \<and> same_disk s s' \<and> (\<forall>x. x \<notin> bm_range (data_bitmap fs) \<longrightarrow> view s' x = view s x) \<and>
     ucast b \<in> data_area fs C \<and> data_bit fs b \<notin> bits fs (view s) \<and> bits fs (view s') = insert (data_bit fs b) (bits fs (view s))"
proof -
  let ?N = "4096 * unat (bm_blocks (data_bitmap fs))" and ?S = "data_area_start_block fs"
  from r have g: "C \<le> ?N" "unat ?S + C < 2 ^ 32" unfolding ready_def geom_def by linarith+
  have full: "\<not> {..<C} \<subseteq> bits fs (view s)" using U(2) card_mono [OF finite_subset [OF U(1)], of "{..<C}"] by auto
  from bitmap_alloc_ok [OF ready_bm_inv [OF r]] obtain w s' where
    a: "bitmap_alloc (data_bitmap fs) s = Some (w, s')" "bm_allocated (data_bitmap fs) s w s'" by blast
  then obtain w where w: "bitmap_alloc (data_bitmap fs) s = Some (Some w, s')" "unat w < ?N" "\<not> bm_bit (data_bitmap fs) (view s) (unat w)"
      "\<forall>n<unat w. bm_bit (data_bitmap fs) (view s) n"
      "\<forall>n<?N. bm_bit (data_bitmap fs) (view s') n \<longleftrightarrow> n = unat w \<or> bm_bit (data_bitmap fs) (view s) n"
    using full g(1) by (cases w) (auto simp: bm_allocated_def Let_def bits_def)
  have sd: "same_disk s s'" "\<forall>x. x \<notin> bm_range (data_bitmap fs) \<longrightarrow> view s' x = view s x" using a(2) by (simp_all add: bm_allocated_def)
  have wC: "unat w < C"
  proof (rule ccontr)
    assume "\<not> unat w < C"
    with w(4) g(1) have "{..<C} \<subseteq> bits fs (view s)" by (auto simp: bits_def)
    with full show False ..
  qed
  let ?b = "ucast w + ?S :: u32"
  have "unat (ucast w :: u32) = unat w" using wC g(2) by (simp add: unsigned_ucast_eq take_bit_nat_eq_self)
  then have ub: "unat ?b = unat w + unat ?S" using wC g(2) by (simp add: unat_word_ariths)
  have "ucast ?b \<in> data_area fs C" "data_bit fs ?b = unat w" using ub wC by (simp_all add: data_area_def data_bit_def)
  moreover have "bits fs (view s') = insert (unat w) (bits fs (view s))" "unat w \<notin> bits fs (view s)" using w by (auto simp: bits_def)
  ultimately show ?thesis using w(1) sd by (simp add: alloc_data_def)
qed

lemma alloc_data_blocks_ok:
  assumes "ready fs C s" "bits fs (view s) \<subseteq> {..<C}" "card (bits fs (view s)) + n \<le> C"
  shows "\<exists>bs s'. alloc_data_blocks fs n s = Some (bs, s') \<and> same_disk s s' \<and> (\<forall>x. x \<notin> bm_range (data_bitmap fs) \<longrightarrow> view s' x = view s x) \<and>
     length bs = n \<and> distinct bs \<and> ucast ` set bs \<subseteq> data_area fs C \<and> data_bit fs ` set bs \<inter> bits fs (view s) = {} \<and>
     bits fs (view s') = data_bit fs ` set bs \<union> bits fs (view s)"
  using assms
proof (induction n arbitrary: s)
  case 0
  then show ?case using ready_inv by (simp add: same_disk_def)
next
  case (Suc n)
  have "card (bits fs (view s)) < C" using Suc.prems(3) by simp
  from alloc_data_ok [OF Suc.prems(1,2) this] obtain b s1 where b: "alloc_data fs s = Some (b, s1)" "same_disk s s1" "\<forall>x. x \<notin> bm_range (data_bitmap fs) \<longrightarrow> view s1 x = view s x"
     "ucast b \<in> data_area fs C" "data_bit fs b \<notin> bits fs (view s)" "bits fs (view s1) = insert (data_bit fs b) (bits fs (view s))"
    by (elim exE conjE)
  have g: "geom fs C (dev_size (device s))" using Suc.prems(1) by (simp add: ready_def)
  have fin: "finite (bits fs (view s))" using Suc.prems(2) by (rule finite_subset) simp
  have "\<exists>bs s'. alloc_data_blocks fs n s1 = Some (bs, s') \<and> same_disk s1 s' \<and> (\<forall>x. x \<notin> bm_range (data_bitmap fs) \<longrightarrow> view s' x = view s1 x) \<and>
     length bs = n \<and> distinct bs \<and> ucast ` set bs \<subseteq> data_area fs C \<and> data_bit fs ` set bs \<inter> bits fs (view s1) = {} \<and>
     bits fs (view s') = data_bit fs ` set bs \<union> bits fs (view s1)"
  proof (rule Suc.IH)
    show "ready fs C s1" by (rule ready_same_disk [OF Suc.prems(1) b(2)])
    show "bits fs (view s1) \<subseteq> {..<C}" using Suc.prems(2) area_unat(2) [OF g b(4)] by (simp add: b(6))
    show "card (bits fs (view s1)) + n \<le> C" using Suc.prems(3) fin b(5) by (simp add: b(6))
  qed
  then obtain bs s' where r: "alloc_data_blocks fs n s1 = Some (bs, s')" "same_disk s1 s'"
     "\<forall>x. x \<notin> bm_range (data_bitmap fs) \<longrightarrow> view s' x = view s1 x" "length bs = n" "distinct bs" "ucast ` set bs \<subseteq> data_area fs C"
     "data_bit fs ` set bs \<inter> bits fs (view s1) = {}" "bits fs (view s') = data_bit fs ` set bs \<union> bits fs (view s1)"
    by (elim exE conjE)
  have "b \<notin> set bs" using r(7) b(6) by auto
  then have "distinct (b # bs)" "length (b # bs) = Suc n" using r(4,5) by simp_all
  moreover have "ucast ` set (b # bs) \<subseteq> data_area fs C" using b(4) r(6) by simp
  moreover have "data_bit fs ` set (b # bs) \<inter> bits fs (view s) = {}" using b(5,6) r(7) by auto
  moreover have "bits fs (view s') = data_bit fs ` set (b # bs) \<union> bits fs (view s)" using b(6) r(8) by simp
  moreover have "alloc_data_blocks fs (Suc n) s = Some (b # bs, s')" using b(1) r(1) by simp
  moreover have "\<forall>x. x \<notin> bm_range (data_bitmap fs) \<longrightarrow> view s' x = view s x" using b(3) r(3) by simp
  ultimately show ?case using same_disk_trans [OF b(2) r(2)] by blast
qed

lemma zero_block_ok:
  assumes "usable s b"
  shows "\<exists>s'. zero_block b s = Some s' \<and> same_disk s s' \<and> view s' = (view s)(b := replicate 512 0)"
proof -
  have l: "length (view s b) = 512" using assms length_view by (auto simp: usable_def BLOCK_SZ_def)
  have "\<exists>s'. cache_modify b 0 BLOCK_SZ (\<lambda>bs s. Some ((), map (\<lambda>_. 0) bs, s)) s = Some ((), s') \<and> same_disk s s' \<and>
     view s' = (view s)(b := splice 0 (replicate 512 0) (view s b))"
    by (rule cache_modify_ok) (use assms l in \<open>auto simp: usable_def BLOCK_SZ_def slice_at_def same_disk_def map_replicate_const\<close>)
  then show ?thesis using l by (auto simp: zero_block_def splice_def)
qed

lemma dealloc_data_ok:
  assumes r: "ready fs C s" and b: "ucast b \<in> data_area fs C" "data_bit fs b \<in> bits fs (view s)"
  shows "\<exists>s'. dealloc_data fs b s = Some s' \<and> same_disk s s' \<and>
     (\<forall>x. x \<notin> bm_range (data_bitmap fs) \<longrightarrow> view s' x = (if x = ucast b then replicate 512 0 else view s x)) \<and>
     bits fs (view s') = bits fs (view s) - {data_bit fs b}"
proof -
  have g: "geom fs C (dev_size (device s))" using r by (simp add: ready_def)
  obtain s1 where s1: "zero_block (ucast b) s = Some s1" "same_disk s s1" "view s1 = (view s)(ucast b := replicate 512 0)"
    using zero_block_ok [OF ready_usable [OF r b(1)]] by blast
  note r1 = ready_same_disk [OF r s1(2)]
  let ?w = "ucast (b - data_area_start_block fs) :: usize"
  have w: "unat ?w = data_bit fs b"
    using b(1) by (simp add: data_bit_def data_area_def unat_sub word_le_nat_alt)
  have out: "ucast b \<notin> bm_range (data_bitmap fs)" using areas_disjoint(3) [OF g] b(1) by blast
  have same: "bits fs (view s1) = bits fs (view s)" by (rule bits_frame) (use out in \<open>auto simp: s1(3)\<close>)
  have u: "unat ?w < 4096 * unat (bm_blocks (data_bitmap fs))" "bm_bit (data_bitmap fs) (view s1) (unat ?w)"
    using b(2) same w by (auto simp: bits_def)
  from bitmap_dealloc_ok(2) [OF ready_bm_inv [OF r1] u] obtain s2 where
    s2: "bitmap_dealloc (data_bitmap fs) ?w s1 = Some s2" "same_disk s1 s2"
      "\<forall>i. i \<notin> bm_range (data_bitmap fs) \<longrightarrow> view s2 i = view s1 i"
      "\<forall>n<4096 * unat (bm_blocks (data_bitmap fs)). bm_bit (data_bitmap fs) (view s2) n \<longleftrightarrow> n \<noteq> unat ?w \<and> bm_bit (data_bitmap fs) (view s1) n" by blast
  have "bits fs (view s2) = bits fs (view s) - {data_bit fs b}" using s2(4) w unfolding same [symmetric] by (auto simp: bits_def)
  with s1 s2 same_disk_trans [OF s1(2) s2(2)] show ?thesis by (simp add: dealloc_data_def)
qed

lemma dealloc_all_ok:
  assumes "ready fs C s" "ucast ` set bs \<subseteq> data_area fs C" "data_bit fs ` set bs \<subseteq> bits fs (view s)" "distinct bs"
  shows "\<exists>s'. dealloc_all fs bs s = Some s' \<and> same_disk s s' \<and>
     (\<forall>x. x \<notin> bm_range (data_bitmap fs) \<longrightarrow> view s' x = (if x \<in> ucast ` set bs then replicate 512 0 else view s x)) \<and>
     bits fs (view s') = bits fs (view s) - data_bit fs ` set bs"
  using assms
proof (induction bs arbitrary: s)
  case Nil
  then show ?case using ready_inv by (simp add: same_disk_def)
next
  case (Cons b bs)
  have g: "geom fs C (dev_size (device s))" using Cons.prems(1) by (simp add: ready_def)
  obtain s1 where s1: "dealloc_data fs b s = Some s1" "same_disk s s1"
     "\<forall>x. x \<notin> bm_range (data_bitmap fs) \<longrightarrow> view s1 x = (if x = ucast b then replicate 512 0 else view s x)"
     "bits fs (view s1) = bits fs (view s) - {data_bit fs b}" using dealloc_data_ok [of fs C s b] Cons.prems by auto
  have ne: "data_bit fs b' \<noteq> data_bit fs b" if "b' \<in> set bs" for b'
    using data_bit_inj [OF g, of b' b] that Cons.prems(2,4) by auto
  have "\<exists>s'. dealloc_all fs bs s1 = Some s' \<and> same_disk s1 s' \<and>
     (\<forall>x. x \<notin> bm_range (data_bitmap fs) \<longrightarrow> view s' x = (if x \<in> ucast ` set bs then replicate 512 0 else view s1 x)) \<and>
     bits fs (view s') = bits fs (view s1) - data_bit fs ` set bs"
    by (rule Cons.IH) (use ready_same_disk [OF Cons.prems(1) s1(2)] Cons.prems(2-4) s1(4) ne in auto)
  then obtain s' where "dealloc_all fs bs s1 = Some s'" "same_disk s1 s'"
     "\<forall>x. x \<notin> bm_range (data_bitmap fs) \<longrightarrow> view s' x = (if x \<in> ucast ` set bs then replicate 512 0 else view s1 x)"
     "bits fs (view s') = bits fs (view s1) - data_bit fs ` set bs" by blast
  with s1 same_disk_trans [OF s1(2)] show ?case by auto
qed

end
