(* ===== verification/Store_Laws.thy ===== *)
theory Store_Laws
  imports Alloc_Laws
begin

text \<open>
  Operations on one inode of an image: growing, writing, clearing (\<open>Inode::increase_size\<close>, \<open>write_at\<close>,
  \<open>clear\<close> of \<open>easy-fs/src/vfs.rs\<close>) change the content of that inode as the corresponding list
  operation does, and no other.
\<close>

lemma imgD:
  assumes "img fs C v dis X"
  shows "length X = length dis" "i < length dis \<Longrightarrow> inode_img v (dis ! i) (X ! i)" "distinct (uses v dis)"
    "ucast ` set (uses v dis) \<subseteq> data_area fs C"
    "b \<in> data_area fs C \<Longrightarrow> b \<notin> ucast ` set (uses v dis) \<Longrightarrow> v b = replicate 512 0"
  using assms by (auto simp: img_def list_all2_lengthD list_all2_nthD)

lemma bits_uses:
  assumes "geom fs C dsz" "img fs C v dis X"
  shows "bits fs v = data_bit fs ` set (uses v dis)" "bits fs v \<subseteq> {..<C}" "card (bits fs v) = used X"
proof -
  have a: "data_bit fs b < C \<and> data_bit fs b < 4096 * unat (bm_blocks (data_bitmap fs))" if "b \<in> set (uses v dis)" for b
    using area_unat(2,3) [OF assms(1), of b] imgD(4) [OF assms(2)] that by blast
  show e: "bits fs v = data_bit fs ` set (uses v dis)"
    using assms(2) a by (auto simp: bits_def img_def)
  show "bits fs v \<subseteq> {..<C}" using a by (auto simp: e)
  have "inj_on (data_bit fs) (set (uses v dis))"
    using data_bit_inj [OF assms(1)] imgD(4) [OF assms(2)] by (auto simp: inj_on_def)
  then have "card (bits fs v) = length (uses v dis)"
    unfolding e using imgD(3) [OF assms(2)] by (simp add: card_image distinct_card)
  also have "\<dots> = used X" using assms(2) by (simp add: img_def length_uses)
  finally show "card (bits fs v) = used X" .
qed

text \<open>Replacing the inode and the blocks of one file.\<close>

lemma img_update:
  assumes g: "geom fs C dsz" and i: "img fs C v dis X" and k: "k < length dis"
    and d: "inode_img v' di x" "distinct (dt v' di)" "ucast ` set (dt v' di) \<subseteq> data_area fs C"
      "set (dt v' di) \<inter> set (others v dis k) = {}"
    and ot: "\<And>b. b \<in> set (others v dis k) \<Longrightarrow> v' (ucast b) = v (ucast b)"
    and bm: "\<And>b. b \<in> bm_range (inode_bitmap fs) \<Longrightarrow> v' b = v b"
    and bi: "bits fs v' = data_bit fs ` (set (dt v' di) \<union> set (others v dis k))"
    and fr: "\<And>b. b \<in> data_area fs C \<Longrightarrow> b \<notin> ucast ` (set (dt v' di) \<union> set (others v dis k)) \<Longrightarrow> v' b = replicate 512 0"
  shows "img fs C v' (dis[k := di]) (X[k := x])"
proof -
  note D = imgD [OF i]
  have o: "others v' dis k = others v dis k" by (rule others_frame) (rule ot)
  have kl: "k < length (dis[k := di])" using k by simp
  have su: "set (uses v' (dis[k := di])) = set (dt v' di) \<union> set (others v dis k)"
    "distinct (uses v' (dis[k := di])) \<longleftrightarrow> distinct (dt v' di) \<and> distinct (others v dis k) \<and> set (dt v' di) \<inter> set (others v dis k) = {}"
    using set_uses(2,4) [OF k, of v' di] by (simp_all add: o)
  have "list_all2 (inode_img v') (dis[k := di]) (X[k := x])"
  proof (rule list_all2_update_frame [OF _ k d(1)])
    show "list_all2 (inode_img v) dis X" using i by (simp add: img_def)
  qed (rule ot)
  moreover have "distinct (uses v' (dis[k := di]))"
    using su(2) d D(3) set_uses(3) [OF k, of v] by simp
  moreover have "ucast ` set (uses v' (dis[k := di])) \<subseteq> data_area fs C"
    using su(1) d(3) D(4) set_uses(1) [OF k, of v] by auto
  moreover have "bm_bit (inode_bitmap fs) v' m = bm_bit (inode_bitmap fs) v m" if "m < max_inodes fs" for m
    by (rule bm_bit_cong) (use bm that in \<open>auto simp: max_inodes_def\<close>)
  moreover have "bm_bit (data_bitmap fs) v' m \<longleftrightarrow> m \<in> data_bit fs ` set (uses v' (dis[k := di]))"
    if "m < 4096 * unat (bm_blocks (data_bitmap fs))" for m
    using bi that unfolding su(1) by (auto simp: bits_def)
  ultimately show ?thesis using i fr unfolding img_def su(1) by simp
qed

lemma others_disjoint:
  assumes "img fs C v dis X" "i < length dis"
  shows "set (dt v (dis ! i)) \<inter> set (others v dis i) = {}" "distinct (dt v (dis ! i))"
    "ucast ` set (dt v (dis ! i)) \<subseteq> data_area fs C" "ucast ` set (others v dis i) \<subseteq> data_area fs C"
  using imgD(3,4) [OF assms(1)] set_uses(1,3) [OF assms(2), of v] by (auto simp: image_Un)

lemma used_update:
  assumes "i < length X"
  shows "used (X[i := x]) + blocks_of (X ! i) = used X + blocks_of x"
proof -
  have "used X = used (take i X) + blocks_of (X ! i) + used (drop (Suc i) X)"
    by (subst id_take_nth_drop [OF assms]) (simp add: used_def)
  moreover have "used (X[i := x]) = used (take i X) + blocks_of x + used (drop (Suc i) X)"
    by (simp add: upd_conv_take_nth_drop [OF assms] used_def)
  ultimately show ?thesis by simp
qed

text \<open>The blocks of an inode of an image can be read and written.\<close>

lemma img_tree_ok:
  assumes r: "ready fs C s" and i: "img fs C (view s) dis X" "k < length dis"
  shows "tree_ok (nb (dis ! k)) (dis ! k) s"
proof -
  have "nb (dis ! k) \<le> MAX_BLOCKS" "length (direct (dis ! k)) = 28" using imgD(2) [OF i(1,2)] by (simp_all add: inode_img_def)
  moreover have "usable s (ucast b)" if "b \<in> set (dt (view s) (dis ! k))" for b
    using others_disjoint(3) [OF i] that by (intro ready_usable [OF r]) auto
  ultimately show ?thesis
    using others_disjoint(2) [OF i] nblocks_bound(1) by (simp add: tree_ok_def MAX_BLOCKS_def dt_def nb_def)
qed

section \<open>Writing\<close>

lemma img_write:
  assumes r: "ready fs C s" and i: "img fs C (view s) dis X" "k < length dis"
    and w: "off + length ws \<le> length (snd (X ! k))" "ws \<noteq> []"
  shows "\<exists>s'. inode_write_at (dis ! k) off ws s = Some (length ws, s') \<and> same_disk s s' \<and>
     img fs C (view s') dis (X[k := (fst (X ! k), splice off ws (snd (X ! k)))]) \<and>
     (\<forall>b. b \<notin> data_area fs C \<longrightarrow> view s' b = view s b)"
proof -
  let ?di = "dis ! k" and ?v = "view s"
  note im = imgD(2) [OF i] and ok = tree_inode_ok [OF img_tree_ok [OF r i]]
  have g: "geom fs C (dev_size (device s))" using r by (simp add: ready_def)
  have sz: "unat (di_size ?di) = length (snd (X ! k))" by (rule inode_img_length [OF im])
  obtain s' where s': "inode_write_at ?di off ws s = Some (length ws, s')" "written (nb ?di) ?di off ws s s'"
     "file_data ?di s' = splice off ws (file_data ?di s)"
    using inode_write_at_ok [OF ok _ w(2)] w(1) sz by metis
  have out: "view s' b = ?v b" if "b \<notin> file_blocks ?v ?di (nb ?di)" for b using s'(2) that by (simp add: written_def)
  have fb: "file_blocks ?v ?di (nb ?di) \<subseteq> ucast ` set (dt ?v ?di)" using file_blocks_tree by (simp add: dt_def)
  note oth = others_disjoint [OF i]
  have dt': "dt (view s') ?di = dt ?v ?di" unfolding dt_def
    by (rule tree_cong, rule out) (use ok in \<open>auto simp: inode_ok_def\<close>)
  have rng: "view s' b = ?v b" if "b \<notin> data_area fs C" for b using that fb oth(3) by (intro out) blast
  have "img fs C (view s') (dis[k := ?di]) (X[k := (fst (X ! k), splice off ws (snd (X ! k)))])"
  proof (rule img_update [OF g i])
    show "inode_img (view s') ?di (fst (X ! k), splice off ws (snd (X ! k)))"
      using im s'(2,3) sz w(1) by (auto simp: inode_img_def file_data_fdata written_def)
    show "distinct (dt (view s') ?di)" "ucast ` set (dt (view s') ?di) \<subseteq> data_area fs C"
      "set (dt (view s') ?di) \<inter> set (others ?v dis k) = {}" using oth by (simp_all add: dt')
    show "view s' (ucast b) = ?v (ucast b)" if "b \<in> set (others ?v dis k)" for b
    proof (rule out)
      have "(ucast b :: usize) \<notin> ucast ` set (dt ?v ?di)" using that oth(1) by (auto simp: u32_to_usize_inj)
      with fb show "ucast b \<notin> file_blocks ?v ?di (nb ?di)" by blast
    qed
    show "view s' b = ?v b" if "b \<in> bm_range (inode_bitmap fs)" for b using that areas_disjoint(2) [OF g] by (intro rng) blast
    have "bits fs (view s') = bits fs ?v" by (rule bits_frame, rule rng) (use areas_disjoint(3) [OF g] in blast)
    then show "bits fs (view s') = data_bit fs ` (set (dt (view s') ?di) \<union> set (others ?v dis k))"
      using bits_uses(1) [OF g i(1)] set_uses(1) [OF i(2)] by (simp add: dt')
    show "view s' b = replicate 512 0"
      if "b \<in> data_area fs C" "b \<notin> ucast ` (set (dt (view s') ?di) \<union> set (others ?v dis k))" for b
      using that fb out imgD(5) [OF i(1) that(1)] set_uses(1) [OF i(2), of ?v] unfolding dt' by fastforce
  qed
  then show ?thesis using s'(1,2) rng by (simp add: written_def)
qed

section \<open>Growing\<close>

definition grown :: "nat \<Rightarrow> content \<Rightarrow> content" where
  "grown n x = (fst x, snd x @ replicate (n - length (snd x)) 0)"

lemma grown_simps [simp]: "fst (grown n x) = fst x" "length (snd (grown n x)) = max n (length (snd x))"
  by (auto simp: grown_def)

lemma tcount_le_dslot: "n \<le> p \<Longrightarrow> tcount n \<le> dslot p"
  using dslot_mono [of "n - 1" p] tcount_Suc [of "n - 1"] by (cases n) auto

text \<open>A file grown by fresh zero blocks.\<close>

lemma grown_inode_img:
  assumes im: "inode_img v di x" and n: "unat (di_size di') = n" "length (snd x) \<le> n" "nblocks n \<le> MAX_BLOCKS"
    and di': "di_type di' = di_type di" "length (direct di') = 28"
    and t: "dt v' di' = dt v di @ bs" "distinct (dt v' di')"
    and v: "\<And>b. b \<notin> index_blocks v' di' (nb di') \<Longrightarrow> b \<in> ucast ` set (dt v' di') \<Longrightarrow> v' b = v b"
    and z: "\<And>b. b \<in> set bs \<Longrightarrow> v (ucast b) = replicate 512 0"
  shows "inode_img v' di' (grown n x)"
proof -
  have sz: "unat (di_size di) = length (snd x)" by (rule inode_img_length [OF im])
  have nb': "nb di' = nblocks n" using n(1) by (simp add: nb_def)
  have le: "nb di \<le> nb di'" using n(1,2) sz by (simp add: nb_def nblocks_mono)
  have ld: "length (dt v di) = tcount (nb di)" by (simp add: dt_def)
  have byte: "file_byte v' di' j = (if j < nb di * 512 then file_byte v di j else 0)" if j: "j < nb di' * 512" for j
  proof -
    let ?p = "j div 512"
    have p: "?p < nb di'" using j by (simp add: less_mult_imp_div_less)
    have ds: "dslot ?p < length (dt v' di')" using dslot_less [OF p] by (simp add: dt_def)
    have fb: "file_block v' di' ?p = ucast (dt v' di' ! dslot ?p)" using dslot_less [OF p] by (simp add: file_block_slot dt_def nth_tree)
    have "file_block v' di' ?p \<notin> index_blocks v' di' (nb di')"
    proof
      assume "file_block v' di' ?p \<in> index_blocks v' di' (nb di')"
      then obtain u where u: "u < tcount (nb di')" "islot u" "ucast (slot_block v' di' u) = file_block v' di' ?p"
        by (auto simp: index_blocks_slots)
      then have "dt v' di' ! u = dt v' di' ! dslot ?p" using fb by (simp add: u32_to_usize_inj dt_def nth_tree)
      then have "u = dslot ?p" using nth_eq_iff_index_eq [OF t(2), of u "dslot ?p"] u(1) ds by (simp add: dt_def)
      with u(2) dslot_not_islot show False by simp
    qed
    moreover have "file_block v' di' ?p \<in> ucast ` set (dt v' di')" using nth_mem [OF ds] fb by simp
    ultimately have same: "v' (file_block v' di' ?p) = v (file_block v' di' ?p)" by (rule v)
    show ?thesis
    proof (cases "j < nb di * 512")
      case True
      then have q: "?p < nb di" by (simp add: less_mult_imp_div_less)
      have "dt v' di' ! dslot ?p = dt v di ! dslot ?p" using dslot_less [OF q] by (simp add: t(1) nth_append ld)
      then have "file_block v' di' ?p = file_block v di ?p" using fb dslot_less [OF q] by (simp add: file_block_slot [of v] dt_def nth_tree)
      then show ?thesis using True same by (simp add: file_byte_def)
    next
      case False
      then have "nb di \<le> ?p" by (simp add: less_eq_div_iff_mult_less_eq)
      then have "tcount (nb di) \<le> dslot ?p" by (rule tcount_le_dslot)
      then have "dt v' di' ! dslot ?p \<in> set bs"
        using ds unfolding t(1) by (simp add: nth_append ld)
      then have "v (file_block v' di' ?p) = replicate 512 0" using z fb by simp
      then show ?thesis using False same by (simp add: file_byte_def)
    qed
  qed
  have len: "length (snd x) \<le> nb di * 512" using nblocks_bound(1) [of "length (snd x)"] sz by (simp add: nb_def)
  have len': "n \<le> nb di' * 512" using nblocks_bound(1) [of n] nb' by simp
  have tail: "file_byte v' di' j = 0" if "j < nb di' * 512" "length (snd x) \<le> j" for j
    using byte [OF that(1)] that(2) im sz by (simp add: inode_img_def)
  have "fdata v' di' = snd x @ replicate (n - length (snd x)) 0"
  proof (rule nth_equalityI)
    fix j
    assume "j < length (fdata v' di')"
    then have j: "j < n" by (simp add: fdata_def n(1))
    show "fdata v' di' ! j = (snd x @ replicate (n - length (snd x)) 0) ! j"
    proof (cases "j < length (snd x)")
      case True
      have "snd x ! j = fdata v di ! j" using im by (simp add: inode_img_def)
      also have "\<dots> = file_byte v di j" using True sz by (simp add: fdata_def)
      finally have "snd x ! j = file_byte v di j" .
      then show ?thesis using True j byte [of j] len len' n(1) by (simp add: fdata_def nth_append)
    next
      case False
      then show ?thesis using tail [of j] j len' n(1) by (simp add: fdata_def nth_append)
    qed
  qed (use n in \<open>simp add: fdata_def\<close>)
  then show ?thesis
    using im n(1,3) di' nb' tail n(2) by (auto simp: inode_img_def grown_def)
qed

lemma img_grow:
  assumes r: "ready fs C s" and i: "img fs C (view s) dis X" "k < length dis"
    and n: "nblocks n \<le> MAX_BLOCKS" and cap: "used (X[k := grown n (X ! k)]) \<le> C"
  shows "\<exists>di' s'. inode_increase_size fs (word_of_nat n) (dis ! k) s = Some (di', s') \<and> same_disk s s' \<and>
     img fs C (view s') (dis[k := di']) (X[k := grown n (X ! k)]) \<and>
     (\<forall>b. b \<notin> data_area fs C \<union> bm_range (data_bitmap fs) \<longrightarrow> view s' b = view s b)"
proof -
  let ?di = "dis ! k" and ?v = "view s" and ?sz = "word_of_nat n :: u32"
  note im = imgD(2) [OF i] and oth = others_disjoint [OF i]
  have g: "geom fs C (dev_size (device s))" using r by (simp add: ready_def)
  have sz: "unat (di_size ?di) = length (snd (X ! k))" by (rule inode_img_length [OF im])
  have "n < 2 ^ 32" using nblocks_bound(1) [of n] n by (simp add: MAX_BLOCKS_def)
  then have un: "unat ?sz = n" by (rule unat_of_nat_u32)
  show ?thesis
  proof (cases "n < length (snd (X ! k))")
    case True
    then have "grown n (X ! k) = X ! k" by (simp add: grown_def prod_eq_iff)
    moreover have "same_disk s s" using ready_inv [OF r] by (simp add: same_disk_def)
    ultimately show ?thesis using True i un sz by (intro exI [of _ ?di] exI [of _ s]) (simp add: inode_increase_size_def word_less_nat_alt)
  next
    case False
    let ?c = "nb ?di" and ?n = "nblocks n"
    have cn: "?c \<le> ?n" using False sz by (simp add: nb_def nblocks_mono)
    obtain w where w: "blocks_num_needed ?di ?sz = Some w" "unat w = tcount ?n - tcount ?c"
      using blocks_num_needed_nat [of ?di ?sz] n un sz False by (auto simp: nb_def)
    have "used X + (tcount ?n - tcount ?c) \<le> C"
    proof -
      have "blocks_of (grown n (X ! k)) = tcount ?n" "blocks_of (X ! k) = tcount ?c" using False sz by (simp_all add: blocks_of_def nb_def max_def)
      then show ?thesis using used_update [of k X "grown n (X ! k)"] cap i tcount_mono [OF cn] imgD(1) [OF i(1)] by simp
    qed
    then have fits: "card (bits fs ?v) + unat w \<le> C" using bits_uses(3) [OF g i(1)] w(2) by simp
    obtain bs s1 where b: "alloc_data_blocks fs (unat w) s = Some (bs, s1)" "same_disk s s1"
        "\<forall>x. x \<notin> bm_range (data_bitmap fs) \<longrightarrow> view s1 x = ?v x" "length bs = unat w" "distinct bs"
        "ucast ` set bs \<subseteq> data_area fs C" "data_bit fs ` set bs \<inter> bits fs ?v = {}" "bits fs (view s1) = data_bit fs ` set bs \<union> bits fs ?v"
      using alloc_data_blocks_ok [OF r bits_uses(2) [OF g i(1)] fits] by (elim exE conjE)
    note r1 = ready_same_disk [OF r b(2)]
    have v1: "view s1 x = ?v x" if "x \<in> data_area fs C" for x using that b(3) areas_disjoint(3) [OF g] by blast
    have fresh: "x \<notin> set (uses ?v dis)" if "x \<in> set bs" for x using that b(7) bits_uses(1) [OF g i(1)] by blast
    have "dt (view s1) ?di = dt ?v ?di" by (rule inode_frame(1)) (use v1 oth(3) in blast)
    then have tr: "tree (view s1) ?di ?c = dt ?v ?di" by (simp add: dt_def)
    have dd: "distinct (tree (view s1) ?di ?c @ bs)" using oth(2) b(5) fresh set_uses(1) [OF i(2), of ?v] by (auto simp: tr)
    have area: "ucast ` set (dt ?v ?di @ bs) \<subseteq> data_area fs C" using oth(3) b(6) by auto
    have us: "usable s1 (ucast x)" if "x \<in> set (tree (view s1) ?di ?c @ bs)" for x
      by (rule ready_usable [OF r1]) (use that area tr in auto)
    have l: "length (direct ?di) = 28" using im by (simp add: inode_img_def)
    have "\<exists>di' s'. increase_size ?sz bs ?di s1 = Some (di', s') \<and> same_disk s1 s' \<and> di_size di' = ?sz \<and> di_type di' = di_type ?di \<and>
       length (direct di') = 28 \<and> tree (view s') di' ?n = tree (view s1) ?di ?c @ bs \<and>
       (\<forall>x. x \<notin> index_blocks (view s') di' ?n \<longrightarrow> view s' x = view s1 x)"
    proof (rule increase_size_ok)
      show "?c = nblocks (unat (di_size ?di))" "?n = nblocks (unat ?sz)" "?c \<le> ?n" "?n \<le> MAX_BLOCKS" "length bs = tcount ?n - tcount ?c"
        using cn n by (simp_all only: nb_def un b(4) w(2))
    qed (rule l dd us ready_inv [OF r1] ready_room [OF r1], assumption?)+
    then obtain di' s2 where s2: "increase_size ?sz bs ?di s1 = Some (di', s2)" "same_disk s1 s2" "di_size di' = ?sz" "di_type di' = di_type ?di"
        "length (direct di') = 28" "tree (view s2) di' ?n = dt ?v ?di @ bs"
        "\<forall>x. x \<notin> index_blocks (view s2) di' ?n \<longrightarrow> view s2 x = view s1 x"
      unfolding tr by (elim exE conjE)
    have nb': "nb di' = ?n" using s2(3) un by (simp add: nb_def)
    then have dt': "dt (view s2) di' = dt ?v ?di @ bs" using s2(6) by (simp add: dt_def)
    have ib: "index_blocks (view s2) di' ?n \<subseteq> ucast ` set (dt ?v ?di @ bs)" using index_blocks_tree [of "view s2" di' ?n] unfolding s2(6) .
    have out: "view s2 x = ?v x" if "x \<notin> ucast ` set (dt ?v ?di @ bs)" "x \<notin> bm_range (data_bitmap fs)" for x
    proof -
      have "x \<notin> index_blocks (view s2) di' ?n" using that(1) ib by blast
      with s2(7) b(3) that(2) show ?thesis by simp
    qed
    have rng: "view s2 x = ?v x" if "x \<notin> data_area fs C" "x \<notin> bm_range (data_bitmap fs)" for x 
    proof (rule out)
      show "x \<notin> ucast ` set (dt ?v ?di @ bs)" using that(1) area by blast
    qed (rule that(2))
    have dis': "set (dt (view s2) di') \<inter> set (others ?v dis k) = {}"
      using oth(1) fresh set_uses(1) [OF i(2), of ?v] by (auto simp: dt')
    have "img fs C (view s2) (dis[k := di']) (X[k := grown n (X ! k)])"
    proof (rule img_update [OF g i])
      show "inode_img (view s2) di' (grown n (X ! k))"
      proof (rule grown_inode_img [OF im])
        show "unat (di_size di') = n" "length (snd (X ! k)) \<le> n" "nblocks n \<le> MAX_BLOCKS" "di_type di' = di_type ?di"
          "length (direct di') = 28" using s2 un False n by simp_all
        show "dt (view s2) di' = dt ?v ?di @ bs" by (rule dt')
        show "distinct (dt (view s2) di')" using dd by (simp add: dt' tr)
        show "view s2 x = ?v x" if "x \<notin> index_blocks (view s2) di' (nb di')" "x \<in> ucast ` set (dt (view s2) di')" for x
          using s2(7) that v1 area unfolding dt' nb' by auto
        show "?v (ucast x) = replicate 512 0" if "x \<in> set bs" for x
        proof (rule imgD(5) [OF i(1)])
          show "ucast x \<in> data_area fs C" using b(6) that by blast
          show "(ucast x :: usize) \<notin> ucast ` set (uses ?v dis)" using fresh [OF that] by (auto simp: u32_to_usize_inj)
        qed
      qed
      show "distinct (dt (view s2) di')" "ucast ` set (dt (view s2) di') \<subseteq> data_area fs C" using dd area by (simp_all add: dt' tr)
      show "set (dt (view s2) di') \<inter> set (others ?v dis k) = {}" by (rule dis')
      show "view s2 (ucast x) = ?v (ucast x)" if "x \<in> set (others ?v dis k)" for x
      proof (rule out)
        show "(ucast x :: usize) \<notin> ucast ` set (dt ?v ?di @ bs)" using dis' that unfolding dt' by (auto simp: u32_to_usize_inj)
        show "ucast x \<notin> bm_range (data_bitmap fs)" using that oth(4) areas_disjoint(3) [OF g] by blast
      qed
      show "view s2 x = ?v x" if "x \<in> bm_range (inode_bitmap fs)" for x
        using that areas_disjoint(1,2) [OF g] by (intro rng) blast+
      have "bits fs (view s2) = bits fs (view s1)"
        by (rule bits_frame) (use s2(7) ib area areas_disjoint(3) [OF g] in blast)
      then show "bits fs (view s2) = data_bit fs ` (set (dt (view s2) di') \<union> set (others ?v dis k))"
        using b(8) bits_uses(1) [OF g i(1)] set_uses(1) [OF i(2), of ?v] by (auto simp: dt')
      show "view s2 x = replicate 512 0" if "x \<in> data_area fs C" "x \<notin> ucast ` (set (dt (view s2) di') \<union> set (others ?v dis k))" for x
      proof -
        have "x \<notin> ucast ` set (dt ?v ?di @ bs)" "x \<notin> ucast ` set (uses ?v dis)"
          using that(2) set_uses(1) [OF i(2), of ?v] unfolding dt' by auto
        moreover have "x \<notin> bm_range (data_bitmap fs)" using that(1) areas_disjoint(3) [OF g] by blast
        ultimately show ?thesis using out imgD(5) [OF i(1) that(1)] by simp
      qed
    qed
    moreover have "inode_increase_size fs ?sz ?di s = Some (di', s2)"
      using False un sz w(1) b(1) s2(1) by (simp add: inode_increase_size_def word_less_nat_alt)
    ultimately show ?thesis using same_disk_trans [OF b(2) s2(2)] rng by auto
  qed
qed

section \<open>Clearing\<close>

definition clear_inode :: "easy_fs \<Rightarrow> disk_inode \<Rightarrow> block_cache_manager \<Rightarrow> (unit \<times> disk_inode \<times> block_cache_manager) option" where
  "clear_inode fs di s =
     Option.bind (clear_size di s) (\<lambda>(v, di', s).
       if length v = unat (total_blocks (di_size di)) then map_option (\<lambda>s. ((), di', s)) (dealloc_all fs v s) else None)"

lemma vfs_clear_inode:
  "vfs_clear fs ino s = Option.bind (modify_disk_inode ino (clear_inode fs) s) (\<lambda>(_, s). block_cache_sync_all s)"
  by (simp add: vfs_clear_def clear_inode_def [abs_def] Let_def)

lemma img_clear:
  assumes r: "ready fs C s" and i: "img fs C (view s) dis X" "k < length dis"
  shows "\<exists>di' s'. clear_inode fs (dis ! k) s = Some ((), di', s') \<and> same_disk s s' \<and>
     img fs C (view s') (dis[k := di']) (X[k := (fst (X ! k), [])]) \<and>
     (\<forall>b. b \<notin> data_area fs C \<union> bm_range (data_bitmap fs) \<longrightarrow> view s' b = view s b)"
proof -
  let ?di = "dis ! k" and ?v = "view s"
  note im = imgD(2) [OF i] and oth = others_disjoint [OF i]
  have g: "geom fs C (dev_size (device s))" using r by (simp add: ready_def)
  have l: "length (direct ?di) = 28" and m: "nb ?di \<le> MAX_BLOCKS" using im by (simp_all add: inode_img_def)
  have us: "usable s (ucast x)" if "x \<in> set (tree ?v ?di (nb ?di))" for x
    by (rule ready_usable [OF r]) (use that oth(3) in \<open>auto simp: dt_def\<close>)
  have d: "distinct (tree ?v ?di (nb ?di))" using oth(2) by (simp add: dt_def)
  have "\<exists>di' s'. clear_size ?di s = Some (tree ?v ?di (nb ?di), di', s') \<and> same_disk s s' \<and> view s' = ?v \<and>
     di_size di' = 0 \<and> di_type di' = di_type ?di \<and> length (direct di') = 28"
    by (rule clear_size_ok [OF nb_def m l d us ready_inv [OF r] ready_room [OF r]])
  then obtain di' s1 where
    c: "clear_size ?di s = Some (dt ?v ?di, di', s1)" "same_disk s s1" "view s1 = ?v" "di_size di' = 0" "di_type di' = di_type ?di"
      "length (direct di') = 28" unfolding dt_def by (elim exE conjE)
  have su: "set (dt ?v ?di) \<union> set (others ?v dis k) = set (uses ?v dis)" using set_uses(1) [OF i(2), of ?v] by simp
  have b: "data_bit fs ` set (dt ?v ?di) \<subseteq> bits fs (view s1)" unfolding c(3) bits_uses(1) [OF g i(1)] su [symmetric] by auto
  from dealloc_all_ok [OF ready_same_disk [OF r c(2)] oth(3) b oth(2)] obtain s2 where
    s2: "dealloc_all fs (dt ?v ?di) s1 = Some s2" "same_disk s1 s2"
      "\<forall>x. x \<notin> bm_range (data_bitmap fs) \<longrightarrow> view s2 x = (if x \<in> ucast ` set (dt ?v ?di) then replicate 512 0 else view s1 x)"
      "bits fs (view s2) = bits fs (view s1) - data_bit fs ` set (dt ?v ?di)" by (elim exE conjE)
  have out: "view s2 x = ?v x" if "x \<notin> ucast ` set (dt ?v ?di)" "x \<notin> bm_range (data_bitmap fs)" for x
    using s2(3) that by (simp add: c(3))
  have rng: "view s2 x = ?v x" if "x \<notin> data_area fs C" "x \<notin> bm_range (data_bitmap fs)" for x
    using that oth(3) by (intro out) blast+
  note e = inode_img_empty [OF c(6,4), of "view s2"]
  have "img fs C (view s2) (dis[k := di']) (X[k := (fst (X ! k), [])])"
  proof (rule img_update [OF g i])
    show "inode_img (view s2) di' (fst (X ! k), [])" using e(1) c(5) im by (simp add: inode_img_def)
    show "view s2 (ucast x) = ?v (ucast x)" if "x \<in> set (others ?v dis k)" for x
    proof (rule out)
      show "(ucast x :: usize) \<notin> ucast ` set (dt ?v ?di)" using oth(1) that by (auto simp: u32_to_usize_inj)
      show "ucast x \<notin> bm_range (data_bitmap fs)" using that oth(4) areas_disjoint(3) [OF g] by blast
    qed
    show "view s2 x = ?v x" if "x \<in> bm_range (inode_bitmap fs)" for x
      using that areas_disjoint(1,2) [OF g] by (intro rng) blast+
    have ne: "data_bit fs x \<noteq> data_bit fs y" if "x \<in> set (others ?v dis k)" "y \<in> set (dt ?v ?di)" for x y
      using data_bit_inj [OF g, of x y] that oth by auto
    show "bits fs (view s2) = data_bit fs ` (set (dt (view s2) di') \<union> set (others ?v dis k))"
      using ne unfolding s2(4) c(3) bits_uses(1) [OF g i(1)] su [symmetric] e(2) by auto
    show "view s2 x = replicate 512 0" if "x \<in> data_area fs C" "x \<notin> ucast ` (set (dt (view s2) di') \<union> set (others ?v dis k))" for x
    proof (cases "x \<in> ucast ` set (dt ?v ?di)")
      case True
      moreover have "x \<notin> bm_range (data_bitmap fs)" using that(1) areas_disjoint(3) [OF g] by blast
      ultimately show ?thesis using s2(3) by simp
    next
      case False
      moreover have "x \<notin> bm_range (data_bitmap fs)" using that(1) areas_disjoint(3) [OF g] by blast
      moreover have "x \<notin> ucast ` set (uses ?v dis)" using that(2) False unfolding su [symmetric] e(2) by auto
      ultimately show ?thesis using out imgD(5) [OF i(1) that(1)] by simp
    qed
  qed (simp_all add: e(2))
  moreover have "clear_inode fs ?di s = Some ((), di', s2)"
    using c(1) s2(1) total_blocks_nat m by (simp add: clear_inode_def dt_def nb_def)
  ultimately show ?thesis using same_disk_trans [OF c(2) s2(2)] rng by auto
qed

end
