(* ===== verification/Vfs_Laws.thy ===== *)
theory Vfs_Laws
  imports Store_Laws
begin

text \<open>
  The inode layer (\<open>easy-fs/src/vfs.rs\<close>) as operations on a list of contents: reading, writing and
  clearing through the disk inode in its place in the inode area, and making a new inode.
\<close>

section \<open>Inodes in their places\<close>

lemma le_split_append:
  "8 dvd LENGTH('a::len) \<Longrightarrow> length ws = k \<Longrightarrow> le_split k (le_concat (ws :: 'a word list) @ r) = ws"
proof (induction ws arbitrary: k)
  case (Cons w ws)
  then show ?case by (cases k) (simp_all add: le_concat_def from_to_le)
qed (simp add: le_concat_def)

lemma inode_bytes_roundtrip:
  assumes "length (direct di) = 28"
  shows "inode_of_bytes (inode_bytes di @ pad) = Some di" "length (inode_bytes di) = 125"
proof -
  let ?w = "[di_size di] @ direct di @ [indirect1 di, indirect2 di]"
  have l: "length ?w = 31" "length (le_concat ?w) = 124" using assms by (simp_all add: length_le_concat)
  then show "length (inode_bytes di) = 125" by (simp add: inode_bytes_def)
  have s: "le_split 31 (inode_bytes di @ pad) = ?w" using le_split_append [OF _ l(1), of "type_byte (di_type di) # pad"] by (simp add: inode_bytes_def)
  have "(inode_bytes di @ pad) ! 124 = type_byte (di_type di)" using l(2) by (simp add: inode_bytes_def nth_append)
  moreover have "slice_at 1 28 ?w = direct di" "?w ! 29 = indirect1 di" "?w ! 30 = indirect2 di" using assms by (simp_all add: slice_at_def nth_append)
  ultimately show "inode_of_bytes (inode_bytes di @ pad) = Some di"
    unfolding inode_of_bytes_def Let_def s by (cases "di_type di") simp_all
qed

definition inode_ref :: "easy_fs \<Rightarrow> nat \<Rightarrow> inode" where
  "inode_ref fs i = inode_new (get_disk_inode_pos fs (word_of_nat i))"

lemma inode_ref_pos:
  assumes g: "geom fs C dsz" and i: "i < max_inodes fs"
  shows "i_block_id (inode_ref fs i) = iblock fs i" "i_block_offset (inode_ref fs i) = i mod 4 * 128"
proof -
  have "i < 2 ^ 32" using g i unfolding geom_def max_inodes_def by linarith
  then have u: "unat (word_of_nat i :: u32) = i" by (rule unat_of_nat_u32)
  note b = unat_iblock [OF g i]
  have lt: "unat (inode_area_start_block fs) + i div 4 < 2 ^ 32" using b(2) g unfolding geom_def by linarith
  have "unat (inode_area_start_block fs + word_of_nat i div 4 :: u32) = unat (inode_area_start_block fs) + i div 4"
    using lt u by (subst unat_word_ariths) (simp add: unat_div)
  moreover have "get_disk_inode_pos fs (word_of_nat i) = (inode_area_start_block fs + word_of_nat i div 4, i mod 4 * 128)"
    by (simp add: get_disk_inode_pos_def Let_def BLOCK_SZ_def INODE_SIZE_def unat_mod u)
  ultimately show "i_block_id (inode_ref fs i) = iblock fs i" "i_block_offset (inode_ref fs i) = i mod 4 * 128"
    using b(1) by (simp_all add: inode_ref_def inode_new_def word_unat_eq_iff)
qed

lemma iblock_eq:
  assumes "geom fs C dsz" "i < max_inodes fs" "j < max_inodes fs"
  shows "iblock fs i = iblock fs j \<longleftrightarrow> i div 4 = j div 4"
  using unat_iblock(1) [OF assms(1,2)] unat_iblock(1) [OF assms(1,3)] by (auto simp: word_unat_eq_iff)

text \<open>Writing one disk inode into its place.\<close>

lemma inodes_at_write:
  assumes g: "geom fs C dsz" and at: "inodes_at fs v dis" "length dis \<le> max_inodes fs" and k: "k < max_inodes fs"
    and len: "length (v (iblock fs k)) = 512" and d: "length (direct di) = 28" "length pad = 3"
  defines "v' \<equiv> v(iblock fs k := splice (k mod 4 * 128) (inode_bytes di @ pad) (v (iblock fs k)))"
  shows "disk_inode_at fs v' k = Some di" "j < max_inodes fs \<Longrightarrow> j \<noteq> k \<Longrightarrow> disk_inode_at fs v' j = disk_inode_at fs v j"
    "k < length dis \<Longrightarrow> inodes_at fs v' (dis[k := di])" "k = length dis \<Longrightarrow> inodes_at fs v' (dis @ [di])"
proof -
  note rt = inode_bytes_roundtrip [OF d(1)]
  have k4: "k mod 4 < 4" by simp
  have lb: "length (inode_bytes di @ pad) = 128" using rt(2) d(2) by simp
  have fits: "k mod 4 * 128 + length (inode_bytes di @ pad) \<le> length (v (iblock fs k))" using k4 len lb by simp
  show 1: "disk_inode_at fs v' k = Some di"
    using slice_at_splice_same [OF fits] rt(1) unfolding lb by (simp add: disk_inode_at_def v'_def)
  show 2: "disk_inode_at fs v' j = disk_inode_at fs v j" if j: "j < max_inodes fs" "j \<noteq> k" for j
  proof (cases "iblock fs j = iblock fs k")
    case False
    then show ?thesis by (simp add: disk_inode_at_def v'_def)
  next
    case True
    then have "j div 4 = k div 4" using iblock_eq [OF g j(1) k] by simp
    then have "j mod 4 \<noteq> k mod 4" using j(2) by (metis div_mult_mod_eq)
    moreover have "j mod 4 < 4" by simp
    ultimately have "slice_at (j mod 4 * 128) 128 (splice (k mod 4 * 128) (inode_bytes di @ pad) (v (iblock fs k))) =
        slice_at (j mod 4 * 128) 128 (v (iblock fs k))"
      by (intro slice_at_splice_other) (use fits lb len in auto)
    then show ?thesis using True by (simp add: disk_inode_at_def v'_def)
  qed
  show "inodes_at fs v' (dis[k := di])" if "k < length dis"
    using at 1 2 that by (auto simp: inodes_at_def nth_list_update)
  show "inodes_at fs v' (dis @ [di])" if "k = length dis"
    using at 1 2 k that by (auto simp: inodes_at_def nth_append less_Suc_eq)
qed

section \<open>A file system at rest\<close>

text \<open>The super block describes the areas.\<close>

definition fs_of_super :: "super_block \<Rightarrow> easy_fs" where
  "fs_of_super sb =
     (let inode_total_blocks = sb_inode_bitmap_blocks sb + sb_inode_area_blocks sb in
      \<lparr>inode_bitmap = \<lparr>start_block_id = 1, bm_blocks = ucast (sb_inode_bitmap_blocks sb)\<rparr>,
       data_bitmap = \<lparr>start_block_id = ucast (1 + inode_total_blocks), bm_blocks = ucast (sb_data_bitmap_blocks sb)\<rparr>,
       inode_area_start_block = 1 + sb_inode_bitmap_blocks sb,
       data_area_start_block = 1 + inode_total_blocks + sb_data_bitmap_blocks sb\<rparr>)"

definition boot_ok :: "easy_fs \<Rightarrow> (usize \<Rightarrow> u8 list) \<Rightarrow> bool" where
  "boot_ok fs v \<longleftrightarrow> (let sb = super_block_of_bytes (slice_at 0 24 (v 0)) in super_block_is_valid sb \<and> fs_of_super sb = fs)"

lemma boot_outside:
  assumes "geom fs C dsz"
  shows "0 \<notin> bm_range (inode_bitmap fs)" "0 \<notin> bm_range (data_bitmap fs)" "0 \<notin> data_area fs C" "i < max_inodes fs \<Longrightarrow> 0 \<noteq> iblock fs i"
proof -
  have l: "1 \<le> unat (start_block_id (inode_bitmap fs))" "unat (start_block_id (inode_bitmap fs)) + unat (bm_blocks (inode_bitmap fs)) < 2 ^ 32"
    "1 \<le> unat (start_block_id (data_bitmap fs))" "unat (start_block_id (data_bitmap fs)) + unat (bm_blocks (data_bitmap fs)) < 2 ^ 32"
    "1 \<le> unat (data_area_start_block fs)" "1 \<le> unat (inode_area_start_block fs)"
    using assms unfolding geom_def by linarith+
  then show "0 \<notin> bm_range (inode_bitmap fs)" "0 \<notin> bm_range (data_bitmap fs)" "0 \<notin> data_area fs C"
    using bm_range_unat(1) [of 0 "inode_bitmap fs"] bm_range_unat(1) [of 0 "data_bitmap fs"] by (auto simp: data_area_def)
  assume "i < max_inodes fs"
  from unat_iblock(1) [OF assms this] l(6) have "unat (iblock fs i) \<noteq> 0" by simp
  then show "0 \<noteq> iblock fs i" by auto
qed

definition store :: "easy_fs \<Rightarrow> nat \<Rightarrow> block_cache_manager \<Rightarrow> disk_inode list \<Rightarrow> content list \<Rightarrow> bool" where
  "store fs C s dis X \<longleftrightarrow> cache_inv s \<and> held s = [] \<and> geom fs C (dev_size (device s)) \<and> img fs C (view s) dis X \<and> inodes_at fs (view s) dis \<and>
     boot_ok fs (view s)"

lemma storeD:
  assumes "store fs C s dis X"
  shows "cache_inv s" "held s = []" "geom fs C (dev_size (device s))" "img fs C (view s) dis X" "inodes_at fs (view s) dis"
    "length dis \<le> max_inodes fs" "length X = length dis" "ready fs C s"
    "boot_ok fs (view s)"
  using assms by (auto simp: store_def img_def ready_def list_all2_lengthD)

lemma iblock_usable:
  assumes "store fs C s dis X" "i < max_inodes fs"
  shows "usable s (iblock fs i)" "length (view s (iblock fs i)) = 512"
proof -
  note g = storeD(3) [OF assms(1)]
  have "unat (start_block_id (data_bitmap fs)) \<le> dev_size (device s)" using g unfolding geom_def by linarith
  then show "usable s (iblock fs i)"
    using unat_iblock(1,2) [OF g assms(2)] storeD(1,2) [OF assms(1)] by (simp add: usable_def BLOCK_CACHE_SIZE_def)
  show "length (view s (iblock fs i)) = 512" using length_view [OF storeD(1) [OF assms(1)]] by (simp add: BLOCK_SZ_def)
qed

text \<open>While the block of an inode is locked, data blocks can still be reached.\<close>

lemma ready_locked:
  assumes st: "store fs C s dis X" and i: "i < max_inodes fs"
    and s1: "cache_inv s1" "held s1 = iblock fs i # held s" "dev_size (device s1) = dev_size (device s)"
  shows "ready fs C s1"
  using s1 storeD(2,3) [OF st] areas_disjoint(4) [OF storeD(3) [OF st] i] by (auto simp: ready_def)

lemma store_same:
  assumes "store fs C s dis X" "same_disk s s'" "view s' = view s"
  shows "store fs C s' dis X"
  using assms by (simp add: store_def same_disk_def)

lemma read_inode_ok:
  assumes st: "store fs C s dis X" and i: "i < length dis"
    and f: "\<And>s1. ready fs C s1 \<Longrightarrow> view s1 = view s \<Longrightarrow> \<exists>s2. f (dis ! i) s1 = Some (r, s2) \<and> same_disk s1 s2 \<and> view s2 = view s"
  shows "\<exists>s'. read_disk_inode (inode_ref fs i) f s = Some (r, s') \<and> same_disk s s' \<and> view s' = view s"
proof -
  have im: "i < max_inodes fs" using i storeD(6) [OF st] by simp
  note p = inode_ref_pos [OF storeD(3) [OF st] im] and us = iblock_usable [OF st im]
  have at: "inode_of_bytes (slice_at (i mod 4 * 128) 128 (view s (iblock fs i))) = Some (dis ! i)"
    using storeD(5) [OF st] i by (simp add: inodes_at_def disk_inode_at_def)
  have "i mod 4 < 4" by simp
  then show ?thesis unfolding read_disk_inode_def p
    by (intro cache_read_ok) (use us at f ready_locked [OF st im] in \<open>simp_all add: usable_def BLOCK_SZ_def INODE_SIZE_def\<close>)
qed

lemma modify_inode_ok:
  assumes st: "store fs C s dis X" and i: "i < length dis"
    and f: "\<And>s1. ready fs C s1 \<Longrightarrow> view s1 = view s \<Longrightarrow> \<exists>di' s2. f (dis ! i) s1 = Some (r, di', s2) \<and> same_disk s1 s2 \<and>
        img fs C (view s2) (dis[i := di']) X' \<and>
        (\<forall>b. b \<notin> data_area fs C \<union> bm_range (data_bitmap fs) \<longrightarrow> view s2 b = view s b)"
  shows "\<exists>di' s'. modify_disk_inode (inode_ref fs i) f s = Some (r, s') \<and> same_disk s s' \<and> store fs C s' (dis[i := di']) X'"
proof -
  let ?b = "iblock fs i"
  have im: "i < max_inodes fs" using i storeD(6) [OF st] by simp
  note g = storeD(3) [OF st] and us = iblock_usable [OF st im]
  note p = inode_ref_pos [OF g im]
  have at: "inode_of_bytes (slice_at (i mod 4 * 128) 128 (view s ?b)) = Some (dis ! i)"
    using storeD(5) [OF st] i by (simp add: inodes_at_def disk_inode_at_def)
  have i4: "i mod 4 < 4" by simp
  let ?P = "\<lambda>v bs V. v = r \<and> (\<exists>di' pad. bs = inode_bytes di' @ pad \<and> length pad = 3 \<and> length (direct di') = 28 \<and> img fs C V (dis[i := di']) X' \<and>
      (\<forall>b. b \<notin> data_area fs C \<union> bm_range (data_bitmap fs) \<longrightarrow> V b = view s b))"
  have cl: "\<exists>v bs s2. Option.bind (inode_of_bytes (slice_at (i mod 4 * 128) INODE_SIZE (view s ?b)))
         (\<lambda>di. map_option (\<lambda>(v, di', s2). (v, inode_bytes di' @ drop 125 (slice_at (i mod 4 * 128) INODE_SIZE (view s ?b)), s2)) (f di s1)) = Some (v, bs, s2) \<and>
      same_disk s1 s2 \<and> length bs = INODE_SIZE \<and> ?P v bs (view s2)"
    if s1: "cache_inv s1" "view s1 = view s" "held s1 = ?b # held s" "dev_size (device s1) = dev_size (device s)" for s1
  proof -
    obtain di' s2 where d: "f (dis ! i) s1 = Some (r, di', s2)" "same_disk s1 s2" "img fs C (view s2) (dis[i := di']) X'"
        "\<forall>b. b \<notin> data_area fs C \<union> bm_range (data_bitmap fs) \<longrightarrow> view s2 b = view s b"
      using f [OF ready_locked [OF st im s1(1,3,4)] s1(2)] by blast
    have l: "length (direct di') = 28" using imgD(2) [OF d(3), of i] i by (simp add: inode_img_def)
    let ?pad = "drop 125 (slice_at (i mod 4 * 128) 128 (view s ?b))"
    have "length ?pad = 3" using us(2) i4 by (simp add: slice_at_def)
    with d(3,4) l have P: "?P r (inode_bytes di' @ ?pad) (view s2)" by blast
    have "Option.bind (inode_of_bytes (slice_at (i mod 4 * 128) INODE_SIZE (view s ?b)))
         (\<lambda>di. map_option (\<lambda>(v, di', s2). (v, inode_bytes di' @ drop 125 (slice_at (i mod 4 * 128) INODE_SIZE (view s ?b)), s2)) (f di s1)) =
        Some (r, inode_bytes di' @ ?pad, s2)" using d(1) at by (simp add: INODE_SIZE_def)
    moreover have "length (inode_bytes di' @ ?pad) = INODE_SIZE"
      using \<open>length ?pad = 3\<close> inode_bytes_roundtrip(2) [OF l] by (simp only: length_append INODE_SIZE_def)
    ultimately show ?thesis using d(2) P by blast
  qed
  have "\<exists>v bs V s'. modify_disk_inode (inode_ref fs i) f s = Some (v, s') \<and> same_disk s s' \<and>
      view s' = V(?b := splice (i mod 4 * 128) bs (view s ?b)) \<and> length bs = INODE_SIZE \<and> ?P v bs V"
    unfolding modify_disk_inode_def p
  proof (rule cache_modify_ex [where P = ?P])
    show "cache_inv s" "unat ?b < dev_size (device s)" "?b \<notin> set (held s)" "length (held s) < BLOCK_CACHE_SIZE"
      "i mod 4 * 128 + INODE_SIZE \<le> BLOCK_SZ" using us(1) i4 by (simp_all add: usable_def INODE_SIZE_def BLOCK_SZ_def)
  qed (rule cl)
  then obtain V s' di' pad where m: "modify_disk_inode (inode_ref fs i) f s = Some (r, s')" "same_disk s s'"
      "view s' = V(?b := splice (i mod 4 * 128) (inode_bytes di' @ pad) (view s ?b))" "length pad = 3" "length (direct di') = 28"
      "img fs C V (dis[i := di']) X'" "\<forall>b. b \<notin> data_area fs C \<union> bm_range (data_bitmap fs) \<longrightarrow> V b = view s b" by blast
  have out: "?b \<notin> bm_range (inode_bitmap fs) \<union> bm_range (data_bitmap fs) \<union> data_area fs C" by (rule areas_disjoint(4) [OF g im])
  then have vb: "V ?b = view s ?b" using m(7) by blast
  have "img fs C (view s') (dis[i := di']) X'"
    by (rule img_frame [OF m(6)]) (use out in \<open>auto simp: m(3)\<close>)
  moreover have "inodes_at fs (view s') (dis[i := di'])"
  proof -
    have "disk_inode_at fs V j = disk_inode_at fs (view s) j" if "j < max_inodes fs" for j
      using m(7) areas_disjoint(4) [OF g that] by (simp add: disk_inode_at_def)
    then have a: "inodes_at fs V dis" using storeD(5,6) [OF st] by (simp add: inodes_at_def)
    have "length (V ?b) = 512" using us(2) vb by simp
    from inodes_at_write(3) [OF g a storeD(6) [OF st] im this m(5,4) i] show ?thesis unfolding m(3) vb .
  qed
  moreover have "boot_ok fs (view s')"
  proof -
    have "view s' 0 = view s 0" using boot_outside [OF g] im m(7) by (auto simp: m(3))
    then show ?thesis using storeD(9) [OF st] by (simp add: boot_ok_def)
  qed
  ultimately show ?thesis using m(1,2) storeD(2,3) [OF st] by (intro exI [of _ di'] exI [of _ s']) (simp add: store_def same_disk_def)
qed

section \<open>Operations on one inode\<close>

definition content_read :: "nat \<Rightarrow> u8 list \<Rightarrow> u8 list \<Rightarrow> nat \<times> u8 list" where
  "content_read off buf bs = (let k = min (length buf) (length bs - off) in (k, splice 0 (slice_at off k bs) buf))"

definition content_write :: "nat \<Rightarrow> u8 list \<Rightarrow> u8 list \<Rightarrow> u8 list" where
  "content_write off ws bs = splice off ws (bs @ replicate (off + length ws - length bs) 0)"

lemma img_read:
  assumes r: "ready fs C s" and i: "img fs C (view s) dis X" "k < length dis"
  shows "\<exists>s'. inode_read_at (dis ! k) off buf s = Some (content_read off buf (snd (X ! k)), s') \<and> same_disk s s' \<and> view s' = view s"
proof -
  note im = imgD(2) [OF i]
  have sz: "unat (di_size (dis ! k)) = length (snd (X ! k))" by (rule inode_img_length [OF im])
  have fd: "file_data (dis ! k) s = snd (X ! k)" using im by (simp add: inode_img_def file_data_fdata)
  show ?thesis
  proof (cases "off < length (snd (X ! k)) \<and> buf \<noteq> []")
    case True
    with inode_read_at_ok [OF tree_inode_ok [OF img_tree_ok [OF r i]], of off buf] show ?thesis
      by (simp add: sz fd content_read_def Let_def)
  next
    case False
    moreover have "same_disk s s" using ready_inv [OF r] by (simp add: same_disk_def)
    ultimately show ?thesis
      by (auto simp: inode_read_at_def Let_def sz content_read_def splice_def slice_at_def)
  qed
qed

lemma store_read:
  assumes "store fs C s dis X" "i < length X"
  shows "\<exists>s'. vfs_read_at (inode_ref fs i) off buf s = Some (content_read off buf (snd (X ! i)), s') \<and> store fs C s' dis X \<and>
     same_disk s s' \<and> view s' = view s"
proof -
  have i: "i < length dis" using assms storeD(7) by metis
  have "\<exists>s'. vfs_read_at (inode_ref fs i) off buf s = Some (content_read off buf (snd (X ! i)), s') \<and> same_disk s s' \<and> view s' = view s"
    unfolding vfs_read_at_def
  proof (rule read_inode_ok [OF assms(1) i])
    fix s1
    assume "ready fs C s1" "view s1 = view s"
    with img_read [of fs C s1 dis X i off buf] storeD(4) [OF assms(1)] i
    show "\<exists>s2. inode_read_at (dis ! i) off buf s1 = Some (content_read off buf (snd (X ! i)), s2) \<and> same_disk s1 s2 \<and> view s2 = view s" by simp
  qed
  with store_same [OF assms(1)] show ?thesis by blast
qed

lemma store_sync:
  assumes "store fs C s dis X"
  shows "\<exists>s'. block_cache_sync_all s = Some s' \<and> store fs C s' dis X \<and> dev_data (device s') = view s' \<and> same_disk s s' \<and> view s' = view s"
proof -
  obtain s' where "block_cache_sync_all s = Some s'" "same_disk s s'" "view s' = view s" "dev_data (device s') = view s"
    using block_cache_sync_all_ok [OF storeD(1,2) [OF assms]] by blast
  with store_same [OF assms] show ?thesis by auto
qed

text \<open>The closure shared by \<open>write_at\<close> and \<open>create\<close>: grow, then write at the end or inside.\<close>

lemma img_grow_write:
  assumes r: "ready fs C s" and i: "img fs C (view s) dis X" "k < length dis"
    and n: "nblocks (off + length ws) \<le> MAX_BLOCKS" "ws \<noteq> []"
  defines "x \<equiv> (fst (X ! k), content_write off ws (snd (X ! k)))"
  assumes cap: "used (X[k := x]) \<le> C"
  shows "\<exists>di' s1 s2. inode_increase_size fs (word_of_nat (off + length ws)) (dis ! k) s = Some (di', s1) \<and>
     inode_write_at di' off ws s1 = Some (length ws, s2) \<and> same_disk s s2 \<and> img fs C (view s2) (dis[k := di']) (X[k := x]) \<and>
     (\<forall>b. b \<notin> data_area fs C \<union> bm_range (data_bitmap fs) \<longrightarrow> view s2 b = view s b)"
proof -
  let ?g = "grown (off + length ws) (X ! k)"
  have len: "length (snd x) = length (snd ?g)" by (simp add: x_def content_write_def max_def)
  have kX: "k < length X" using i imgD(1) [OF i(1)] by simp
  have "blocks_of x = blocks_of ?g" using len by (simp only: blocks_of_def)
  then have "used (X[k := ?g]) = used (X[k := x])" using used_update [OF kX, of x] used_update [OF kX, of ?g] by simp
  then obtain di' s1 where g: "inode_increase_size fs (word_of_nat (off + length ws)) (dis ! k) s = Some (di', s1)" "same_disk s s1"
      "img fs C (view s1) (dis[k := di']) (X[k := ?g])"
      "\<forall>b. b \<notin> data_area fs C \<union> bm_range (data_bitmap fs) \<longrightarrow> view s1 b = view s b"
    using img_grow [OF r i n(1)] cap by metis
  have fits: "off + length ws \<le> length (snd (X[k := ?g] ! k))" using kX by simp
  have k': "k < length (dis[k := di'])" using i(2) by simp
  from img_write [OF ready_same_disk [OF r g(2)] g(3) k' fits n(2)] obtain s2 where
    w: "inode_write_at di' off ws s1 = Some (length ws, s2)" "same_disk s1 s2"
      "img fs C (view s2) (dis[k := di']) (X[k := (fst (X ! k), splice off ws (snd ?g))])"
      "\<forall>b. b \<notin> data_area fs C \<longrightarrow> view s2 b = view s1 b" using kX i(2) by auto
  have "(fst (X ! k), splice off ws (snd ?g)) = x" by (simp add: x_def content_write_def grown_def)
  with g w same_disk_trans [OF g(2) w(2)] show ?thesis by auto
qed

lemma store_write:
  assumes st: "store fs C s dis X" and i: "i < length X"
    and n: "nblocks (off + length ws) \<le> MAX_BLOCKS" "ws \<noteq> []"
  defines "x \<equiv> (fst (X ! i), content_write off ws (snd (X ! i)))"
  assumes cap: "used (X[i := x]) \<le> C"
  shows "\<exists>dis' s'. vfs_write_at fs (inode_ref fs i) off ws s = Some (length ws, s') \<and> store fs C s' dis' (X[i := x]) \<and>
     dev_data (device s') = view s'"
proof -
  have il: "i < length dis" using i storeD(7) [OF st] by simp
  let ?f = "\<lambda>di s. Option.bind (inode_increase_size fs (word_of_nat (off + length ws)) di s) (\<lambda>(di, s).
         map_option (\<lambda>(n, s). (n, di, s)) (inode_write_at di off ws s))"
  have "\<exists>di' s'. modify_disk_inode (inode_ref fs i) ?f s = Some (length ws, s') \<and> same_disk s s' \<and> store fs C s' (dis[i := di']) (X[i := x])"
  proof (rule modify_inode_ok [OF st il])
    fix s1
    assume r: "ready fs C s1" and v: "view s1 = view s"
    have im: "img fs C (view s1) dis X" using storeD(4) [OF st] v by simp
    from img_grow_write [OF r im il n cap [unfolded x_def], folded x_def] v
    show "\<exists>di' s2. ?f (dis ! i) s1 = Some (length ws, di', s2) \<and> same_disk s1 s2 \<and>
        img fs C (view s2) (dis[i := di']) (X[i := x]) \<and>
        (\<forall>b. b \<notin> data_area fs C \<union> bm_range (data_bitmap fs) \<longrightarrow> view s2 b = view s b)" by auto
  qed
  then obtain di' s1 where m: "modify_disk_inode (inode_ref fs i) ?f s = Some (length ws, s1)" "store fs C s1 (dis[i := di']) (X[i := x])" by blast
  from store_sync [OF m(2)] m(1) show ?thesis by (auto simp: vfs_write_at_def)
qed

lemma store_clear:
  assumes st: "store fs C s dis X" and i: "i < length X"
  shows "\<exists>dis' s'. vfs_clear fs (inode_ref fs i) s = Some s' \<and> store fs C s' dis' (X[i := (fst (X ! i), [])]) \<and> dev_data (device s') = view s'"
proof -
  have il: "i < length dis" using i storeD(7) [OF st] by simp
  have "\<exists>di' s'. modify_disk_inode (inode_ref fs i) (clear_inode fs) s = Some ((), s') \<and> same_disk s s' \<and>
      store fs C s' (dis[i := di']) (X[i := (fst (X ! i), [])])"
  proof (rule modify_inode_ok [OF st il])
    fix s1
    assume "ready fs C s1" and v: "view s1 = view s"
    with img_clear [of fs C s1 dis X i] storeD(4) [OF st] il
    show "\<exists>di' s2. clear_inode fs (dis ! i) s1 = Some ((), di', s2) \<and> same_disk s1 s2 \<and>
        img fs C (view s2) (dis[i := di']) (X[i := (fst (X ! i), [])]) \<and>
        (\<forall>b. b \<notin> data_area fs C \<union> bm_range (data_bitmap fs) \<longrightarrow> view s2 b = view s b)" by simp
  qed
  then obtain di' s1 where m: "modify_disk_inode (inode_ref fs i) (clear_inode fs) s = Some ((), s1)"
      "store fs C s1 (dis[i := di']) (X[i := (fst (X ! i), [])])" by blast
  from store_sync [OF m(2)] m(1) show ?thesis by (auto simp: vfs_clear_inode)
qed

section \<open>A new inode\<close>

lemma store_new_inode:
  assumes st: "store fs C s dis X" and room: "length X < max_inodes fs"
  shows "\<exists>s1 s2 di. alloc_inode fs s = Some (word_of_nat (length X), s1) \<and>
     initialize_inode_at (i_block_id (inode_ref fs (length X))) (i_block_offset (inode_ref fs (length X))) ty s1 = Some s2 \<and>
     same_disk s s2 \<and> store fs C s2 (dis @ [di]) (X @ [(ty, [])])"
proof -
  let ?n = "length X" and ?b = "iblock fs (length X)" and ?o = "length X mod 4 * 128" and ?di = "inode_initialize ty"
  note g = storeD(3) [OF st] and l = storeD(7) [OF st]
  note ad = areas_disjoint [OF g] and p = inode_ref_pos [OF g room] and im = storeD(4) [OF st]
  have bi: "bm_inv (inode_bitmap fs) s"
    using storeD(1,2) [OF st] g by (auto simp: bm_inv_def geom_def BLOCK_CACHE_SIZE_def)
  from bitmap_alloc_ok [OF bi] obtain r s1 where a: "bitmap_alloc (inode_bitmap fs) s = Some (r, s1)" "bm_allocated (inode_bitmap fs) s r s1" by blast
  have set: "bm_bit (inode_bitmap fs) (view s) m \<longleftrightarrow> m < ?n" if "m < max_inodes fs" for m using im that l by (simp add: img_def)
  have sd: "same_disk s s1" and out: "\<forall>x. x \<notin> bm_range (inode_bitmap fs) \<longrightarrow> view s1 x = view s x" using a(2) by (simp_all add: bm_allocated_def)
  obtain w where r: "r = Some w" using a(2) set [OF room] room by (cases r) (auto simp: bm_allocated_def Let_def max_inodes_def)
  have w: "unat w < max_inodes fs" "\<not> unat w < ?n" "\<forall>m<unat w. bm_bit (inode_bitmap fs) (view s) m"
      "\<forall>m<max_inodes fs. bm_bit (inode_bitmap fs) (view s1) m \<longleftrightarrow> m = unat w \<or> bm_bit (inode_bitmap fs) (view s) m"
    using a(2) set unfolding r by (auto simp: bm_allocated_def Let_def max_inodes_def)
  have uw: "unat w = ?n"
  proof (rule ccontr)
    assume "unat w \<noteq> ?n"
    with w(2) have "?n < unat w" by simp
    with w(3) set [OF room] show False by simp
  qed
  have "ucast w = (word_of_nat ?n :: u32)" 
  proof -
    have "w = word_of_nat (unat w)" by simp
    then show ?thesis unfolding uw using ucast_of_nat_u32 [of ?n] by simp
  qed
  then have al: "alloc_inode fs s = Some (word_of_nat ?n, s1)" using a(1) r by (simp add: alloc_inode_def)
  note us = iblock_usable [OF st room]
  have nb: "?b \<notin> bm_range (inode_bitmap fs)" "?b \<notin> bm_range (data_bitmap fs)" "?b \<notin> data_area fs C" using ad(4) [OF room] by auto
  have v1: "view s1 ?b = view s ?b" using out nb(1) by simp
  have n4: "?n mod 4 < 4" by simp
  let ?pad = "drop 125 (slice_at ?o 128 (view s ?b))"
  have ld: "length (direct ?di) = 28" by (simp add: inode_initialize_def INODE_DIRECT_COUNT_def)
  have lp: "length ?pad = 3" using us(2) n4 by (simp add: slice_at_def)
  have "\<exists>s2. cache_modify ?b ?o INODE_SIZE (\<lambda>bs s. Some ((), inode_bytes (inode_initialize ty) @ drop 125 bs, s)) s1 = Some ((), s2) \<and>
      same_disk s1 s2 \<and> view s2 = (view s1)(?b := splice ?o (inode_bytes ?di @ ?pad) (view s1 ?b))"
    by (rule cache_modify_ok)
      (use usable_same_disk [OF sd us(1)] n4 v1 lp inode_bytes_roundtrip(2) [OF ld] in
        \<open>simp_all add: usable_def INODE_SIZE_def BLOCK_SZ_def same_disk_def\<close>)
  then obtain s2 where s2: "cache_modify ?b ?o INODE_SIZE (\<lambda>bs s. Some ((), inode_bytes (inode_initialize ty) @ drop 125 bs, s)) s1 = Some ((), s2)"
      "same_disk s1 s2" "view s2 = (view s1)(?b := splice ?o (inode_bytes ?di @ ?pad) (view s1 ?b))" by blast
  have vd: "view s2 x = view s x" if "x \<notin> bm_range (inode_bitmap fs)" "x \<noteq> ?b" for x using that out s2(3) by simp
  have data: "view s2 x = view s x" if "x \<in> bm_range (data_bitmap fs) \<union> data_area fs C" for x
    using that ad(1,2) nb(2,3) by (intro vd) blast+
  have us2: "uses (view s2) dis = uses (view s) dis" "list_all2 (inode_img (view s2)) dis X = list_all2 (inode_img (view s)) dis X"
    using imgD(4) [OF im] data by (intro uses_frame; blast)+
  have e: "inode_img (view s2) ?di (ty, [])" "dt (view s2) ?di = []"
    using inode_img_empty [OF ld, of "view s2"] by (simp_all add: inode_initialize_def)
  have ue: "uses (view s2) (dis @ [?di]) = uses (view s) dis" using us2(1) e(2) by (simp add: uses_def)
  have "img fs C (view s2) (dis @ [?di]) (X @ [(ty, [])])"
  proof -
    have "bm_bit (inode_bitmap fs) (view s2) m \<longleftrightarrow> m < Suc (length dis)" if "m < max_inodes fs" for m
    proof -
      have "bm_bit (inode_bitmap fs) (view s2) m = bm_bit (inode_bitmap fs) (view s1) m"
        by (rule bm_bit_cong) (use nb(1) s2(3) that in \<open>auto simp: max_inodes_def\<close>)
      then show ?thesis using w(4) set that uw l by auto
    qed
    moreover have "bm_bit (data_bitmap fs) (view s2) m = bm_bit (data_bitmap fs) (view s) m" if "m < 4096 * unat (bm_blocks (data_bitmap fs))" for m
      by (rule bm_bit_cong) (use data that in auto)
    moreover have "list_all2 (inode_img (view s2)) (dis @ [?di]) (X @ [(ty, [])])"
      using us2(2) im e(1) by (intro list_all2_appendI) (simp_all add: img_def)
    ultimately show ?thesis using im room l data by (simp add: img_def ue)
  qed
  moreover have "inodes_at fs (view s2) (dis @ [?di])"
  proof -
    have "disk_inode_at fs (view s1) j = disk_inode_at fs (view s) j" if "j < max_inodes fs" for j
      using out ad(4) [OF that] by (simp add: disk_inode_at_def)
    then have "inodes_at fs (view s1) dis" using storeD(5,6) [OF st] by (simp add: inodes_at_def)
    moreover have "length (view s1 ?b) = 512" using us(2) v1 by simp
    ultimately show ?thesis
      using inodes_at_write(4) [OF g _ storeD(6) [OF st] room _ ld lp] l unfolding s2(3) by simp
  qed
  moreover have "boot_ok fs (view s2)"
  proof -
    have "view s2 0 = view s 0" using boot_outside [OF g] room by (intro vd) auto
    then show ?thesis using storeD(9) [OF st] by (simp add: boot_ok_def)
  qed
  moreover note sd2 = same_disk_trans [OF sd s2(2)]
  ultimately have "store fs C s2 (dis @ [?di]) (X @ [(ty, [])])"
    using storeD(2,3) [OF st] by (simp add: store_def same_disk_def)
  then show ?thesis using al s2(1) sd2 by (auto simp: initialize_inode_at_def p)
qed

end
