(* ===== verification/Dir_Laws.thy ===== *)
theory Dir_Laws
  imports Vfs_Laws
begin

text \<open>
  The directory (\<open>Inode::find\<close>, \<open>create\<close>, \<open>ls\<close> of \<open>easy-fs/src/vfs.rs\<close>): the root inode holds one entry
  of 32 bytes for each file, in the order of creation; the \<open>j\<close>-th file has inode \<open>j + 1\<close>.
\<close>

section \<open>Directory contents\<close>

type_synonym files = "(rstring \<times> u8 list) list"

definition good_name :: "rstring \<Rightarrow> bool" where
  "good_name nm \<longleftrightarrow> utf8_valid nm \<and> 0 \<notin> set nm \<and> length nm \<le> NAME_LENGTH_LIMIT"

definition entry_of :: "rstring \<Rightarrow> nat \<Rightarrow> dir_entry" where
  "entry_of nm j = \<lparr>de_name = splice 0 nm (replicate (NAME_LENGTH_LIMIT + 1) 0), de_inode_number = word_of_nat (Suc j)\<rparr>"

definition dir_bytes :: "rstring list \<Rightarrow> u8 list" where
  "dir_bytes nms = concat (map (\<lambda>j. dirent_bytes (entry_of (nms ! j) j)) [0..<length nms])"

definition contents :: "files \<Rightarrow> content list" where
  "contents F = (Directory_Inode, dir_bytes (map fst F)) # map (\<lambda>f. (File_Inode, snd f)) F"

lemma entry_of_ok:
  assumes "good_name nm"
  shows "dirent_new nm (word_of_nat (Suc j)) = Some (entry_of nm j)" "length (dirent_bytes (entry_of nm j)) = 32"
    "dirent_of_bytes (dirent_bytes (entry_of nm j)) = entry_of nm j" "dirent_name (entry_of nm j) = Some nm"
proof -
  have g: "utf8_valid nm" "0 \<notin> set nm" "length nm \<le> NAME_LENGTH_LIMIT" using assms by (simp_all add: good_name_def)
  show n: "dirent_new nm (word_of_nat (Suc j)) = Some (entry_of nm j)" using g(3) by (simp add: dirent_new_def entry_of_def)
  from dirent_read_back [OF g, of "word_of_nat (Suc j)"] n
  show "length (dirent_bytes (entry_of nm j)) = 32" "dirent_of_bytes (dirent_bytes (entry_of nm j)) = entry_of nm j"
    "dirent_name (entry_of nm j) = Some nm" by (simp_all add: DIRENT_SZ_def)
qed

lemma concat_same_length:
  assumes "\<And>j. j < n \<Longrightarrow> length (f j) = w"
  shows "length (concat (map f [0..<n])) = w * n" "j < n \<Longrightarrow> slice_at (w * j) w (concat (map f [0..<n])) = f j"
proof -
  have len: "length (concat (map f [0..<m])) = w * m" if "m \<le> n" for m using that assms by (induction m) simp_all
  then show "length (concat (map f [0..<n])) = w * n" by simp
  assume j: "j < n"
  have "[0..<n] = [0..<j] @ j # [Suc j..<n]" using j upt_add_eq_append [of 0 j "n - j"] by (simp add: upt_conv_Cons)
  then have "concat (map f [0..<n]) = concat (map f [0..<j]) @ f j @ concat (map f [Suc j..<n])" by simp
  with slice_at_append [of "concat (map f [0..<j])" "f j"] len [of j] assms [OF j] j
  show "slice_at (w * j) w (concat (map f [0..<n])) = f j" by simp
qed

lemma dir_bytes_ok:
  assumes "\<forall>nm\<in>set nms. good_name nm"
  shows "length (dir_bytes nms) = 32 * length nms"
    "j < length nms \<Longrightarrow> slice_at (32 * j) 32 (dir_bytes nms) = dirent_bytes (entry_of (nms ! j) j)"
    "dir_bytes (nms @ [nm]) = dir_bytes nms @ dirent_bytes (entry_of nm (length nms))"
proof -
  have l: "length (dirent_bytes (entry_of (nms ! j) j)) = 32" if "j < length nms" for j
    by (rule entry_of_ok(2)) (use assms that in simp)
  show "length (dir_bytes nms) = 32 * length nms" unfolding dir_bytes_def by (rule concat_same_length(1)) (rule l)
  show "slice_at (32 * j) 32 (dir_bytes nms) = dirent_bytes (entry_of (nms ! j) j)" if "j < length nms"
    unfolding dir_bytes_def by (rule concat_same_length(2)) (use l that in auto)
  show "dir_bytes (nms @ [nm]) = dir_bytes nms @ dirent_bytes (entry_of nm (length nms))"
  proof -
    have "map (\<lambda>j. dirent_bytes (entry_of ((nms @ [nm]) ! j) j)) [0..<length nms] = map (\<lambda>j. dirent_bytes (entry_of (nms ! j) j)) [0..<length nms]"
      by (rule map_cong) (auto simp: nth_append)
    from arg_cong [OF this, of concat] show ?thesis by (simp add: dir_bytes_def)
  qed
qed

section \<open>Reading the directory\<close>

definition flat :: "easy_fs \<Rightarrow> nat \<Rightarrow> block_cache_manager \<Rightarrow> files \<Rightarrow> bool" where
  "flat fs C s F \<longleftrightarrow> (\<exists>dis. store fs C s dis (contents F)) \<and> (\<forall>nm\<in>set (map fst F). good_name nm) \<and> distinct (map fst F)"

lemma contents_simps [simp]: "length (contents F) = Suc (length F)" "contents F ! 0 = (Directory_Inode, dir_bytes (map fst F))"
  "j < length F \<Longrightarrow> contents F ! Suc j = (File_Inode, snd (F ! j))"
  by (simp_all add: contents_def)

text \<open>A state in which the directory can be read: its inode is \<open>di\<close>.\<close>

definition dir_ready :: "easy_fs \<Rightarrow> nat \<Rightarrow> block_cache_manager \<Rightarrow> disk_inode \<Rightarrow> files \<Rightarrow> bool" where
  "dir_ready fs C s di F \<longleftrightarrow> ready fs C s \<and> (\<exists>dis. img fs C (view s) dis (contents F) \<and> 0 < length dis \<and> di = dis ! 0) \<and>
     (\<forall>nm\<in>set (map fst F). good_name nm)"

lemma dir_ready_same: "dir_ready fs C s di F \<Longrightarrow> same_disk s s' \<Longrightarrow> view s' = view s \<Longrightarrow> dir_ready fs C s' di F"
  using ready_same_disk [of fs C s s'] by (auto simp: dir_ready_def)

lemma dir_ready_size:
  assumes "dir_ready fs C s di F"
  shows "unat (di_size di) = 32 * length F" "is_dir di"
proof -
  from assms obtain dis where d: "img fs C (view s) dis (contents F)" "0 < length dis" "di = dis ! 0" by (auto simp: dir_ready_def)
  have im: "inode_img (view s) di (Directory_Inode, dir_bytes (map fst F))" using imgD(2) [OF d(1,2)] d(3) by simp
  then show "is_dir di" by (simp add: inode_img_def is_dir_def)
  show "unat (di_size di) = 32 * length F"
    using inode_img_length [OF im] dir_bytes_ok(1) [of "map fst F"] assms by (simp add: dir_ready_def)
qed

lemma read_dirent_ok:
  assumes r: "dir_ready fs C s di F" and j: "j < length F"
  shows "\<exists>s'. read_dirent di j s = Some (entry_of (fst (F ! j)) j, s') \<and> same_disk s s' \<and> view s' = view s"
proof -
  from r obtain dis where d: "ready fs C s" "img fs C (view s) dis (contents F)" "0 < length dis" "di = dis ! 0"
    and g: "\<forall>nm\<in>set (map fst F). good_name nm" by (auto simp: dir_ready_def)
  have gj: "good_name (fst (F ! j))" using g j by auto
  note e = entry_of_ok [OF gj, of j]
  have len: "length (dir_bytes (map fst F)) = 32 * length F" using dir_bytes_ok(1) [OF g] by simp
  have sl: "slice_at (32 * j) 32 (dir_bytes (map fst F)) = dirent_bytes (entry_of (fst (F ! j)) j)"
    using dir_bytes_ok(2) [OF g, of j] j by simp
  have "32 * j + 32 \<le> 32 * length F" using j by simp
  then have "min 32 (32 * length F - 32 * j) = 32" by linarith
  then have "content_read (32 * j) (replicate 32 0) (dir_bytes (map fst F)) = (32, dirent_bytes (entry_of (fst (F ! j)) j))"
    using sl e(2) by (simp add: content_read_def Let_def len splice_def)
  with img_read [OF d(1-3), of "32 * j" "replicate 32 0"] e(3) show ?thesis
    by (auto simp: read_dirent_def DIRENT_SZ_def d(4))
qed

fun index_of :: "rstring \<Rightarrow> rstring list \<Rightarrow> nat option" where
  "index_of nm [] = None"
| "index_of nm (x # xs) = (if x = nm then Some 0 else map_option Suc (index_of nm xs))"

lemma index_of_Some: "index_of nm xs = Some j \<Longrightarrow> j < length xs \<and> xs ! j = nm"
  by (induction xs arbitrary: j) (auto split: if_splits)

lemma index_of_None: "index_of nm xs = None \<longleftrightarrow> nm \<notin> set xs"
  by (induction xs) auto

lemma find_loop_ok:
  assumes "dir_ready fs C s di F" "i \<le> length F"
  shows "\<exists>s'. find_loop nm di [i..<length F] s =
       Some (map_option (\<lambda>j. word_of_nat (Suc (i + j))) (index_of nm (drop i (map fst F))), s') \<and> same_disk s s' \<and> view s' = view s"
  using assms
proof (induction "length F - i" arbitrary: i s)
  case 0
  then have "same_disk s s" using ready_inv by (auto simp: dir_ready_def same_disk_def)
  with 0 show ?case by simp
next
  case (Suc d)
  then have i: "i < length F" by simp
  obtain s1 where s1: "read_dirent di i s = Some (entry_of (fst (F ! i)) i, s1)" "same_disk s s1" "view s1 = view s"
    using read_dirent_ok [OF Suc.prems(1) i] by blast
  have "good_name (fst (F ! i))" using Suc.prems(1) i by (auto simp: dir_ready_def)
  note e = entry_of_ok(4) [OF this, of i]
  have dr: "drop i (map fst F) = fst (F ! i) # drop (Suc i) (map fst F)" using Cons_nth_drop_Suc [of i "map fst F"] i by simp
  have upt: "[i..<length F] = i # [Suc i..<length F]" using i by (rule upt_conv_Cons)
  show ?case
  proof (cases "fst (F ! i) = nm")
    case True
    with s1 e dr upt show ?thesis by (simp add: entry_of_def)
  next
    case False
    have "\<exists>s'. find_loop nm di [Suc i..<length F] s1 =
       Some (map_option (\<lambda>j. word_of_nat (Suc (Suc i + j))) (index_of nm (drop (Suc i) (map fst F))), s') \<and> same_disk s1 s' \<and> view s' = view s1"
      by (rule Suc.hyps(1)) (use Suc.hyps(2) i dir_ready_same [OF Suc.prems(1) s1(2,3)] in simp_all)
    then obtain s2 where "find_loop nm di [Suc i..<length F] s1 =
       Some (map_option (\<lambda>j. word_of_nat (Suc (Suc i + j))) (index_of nm (drop (Suc i) (map fst F))), s2)" "same_disk s1 s2" "view s2 = view s1" by blast
    with s1 e dr upt False same_disk_trans [OF s1(2)] show ?thesis by (simp add: option.map_comp comp_def)
  qed
qed

lemma find_inode_id_ok:
  assumes "dir_ready fs C s di F"
  shows "\<exists>s'. find_inode_id nm di s = Some (map_option (\<lambda>j. word_of_nat (Suc j)) (index_of nm (map fst F)), s') \<and> same_disk s s' \<and> view s' = view s"
  using find_loop_ok [OF assms, of 0 nm] dir_ready_size [OF assms] by (simp add: find_inode_id_def DIRENT_SZ_def)

lemma ls_loop_ok:
  assumes "dir_ready fs C s di F" "i \<le> length F"
  shows "\<exists>s'. ls_loop di [i..<length F] s = Some (drop i (map fst F), s') \<and> same_disk s s' \<and> view s' = view s"
  using assms
proof (induction "length F - i" arbitrary: i s)
  case 0
  then have "same_disk s s" using ready_inv by (auto simp: dir_ready_def same_disk_def)
  with 0 show ?case by simp
next
  case (Suc d)
  then have i: "i < length F" by simp
  obtain s1 where s1: "read_dirent di i s = Some (entry_of (fst (F ! i)) i, s1)" "same_disk s s1" "view s1 = view s"
    using read_dirent_ok [OF Suc.prems(1) i] by blast
  have "good_name (fst (F ! i))" using Suc.prems(1) i by (auto simp: dir_ready_def)
  note e = entry_of_ok(4) [OF this, of i]
  have dr: "drop i (map fst F) = fst (F ! i) # drop (Suc i) (map fst F)" using Cons_nth_drop_Suc [of i "map fst F"] i by simp
  have upt: "[i..<length F] = i # [Suc i..<length F]" using i by (rule upt_conv_Cons)
  have "\<exists>s'. ls_loop di [Suc i..<length F] s1 = Some (drop (Suc i) (map fst F), s') \<and> same_disk s1 s' \<and> view s' = view s1"
    by (rule Suc.hyps(1)) (use Suc.hyps(2) i dir_ready_same [OF Suc.prems(1) s1(2,3)] in simp_all)
  then obtain s2 where "ls_loop di [Suc i..<length F] s1 = Some (drop (Suc i) (map fst F), s2)" "same_disk s1 s2" "view s2 = view s1" by blast
  with s1 e dr upt same_disk_trans [OF s1(2)] show ?case by simp
qed

end
