(* ===== verification/Flat_Laws.thy ===== *)
theory Flat_Laws
  imports Dir_Laws
begin

text \<open>
  The file system as a list of named byte arrays: each operation of \<open>easy-fs/src/vfs.rs\<close> on the root
  directory and on a file found in it, and their sequences, from \<open>EasyFileSystem::create\<close> on and after
  \<open>EasyFileSystem::open\<close>.
\<close>

section \<open>One operation\<close>

lemma flatE:
  assumes "flat fs C s F"
  obtains dis where "store fs C s dis (contents F)" "0 < length dis" "length dis = Suc (length F)"
    "\<forall>nm\<in>set (map fst F). good_name nm" "distinct (map fst F)"
  using assms storeD(7) by (fastforce simp: flat_def)

lemma flat_same:
  assumes "flat fs C s F" "same_disk s s'" "view s' = view s"
  shows "flat fs C s' F"
  using assms(1) store_same [OF _ assms(2,3)] unfolding flat_def by blast

lemma root_inode_ref: "root_inode fs = inode_ref fs 0"
  by (simp add: root_inode_def inode_ref_def)

lemma flat_dir_ready:
  assumes "store fs C s dis (contents F)" "\<forall>nm\<in>set (map fst F). good_name nm" "0 < length dis" "ready fs C s1" "view s1 = view s"
  shows "dir_ready fs C s1 (dis ! 0) F"
  using assms storeD(4) [OF assms(1)] by (auto simp: dir_ready_def)

lemma flat_read_dir:
  assumes fl: "flat fs C s F"
    and f: "\<And>di s1. dir_ready fs C s1 di F \<Longrightarrow> view s1 = view s \<Longrightarrow> \<exists>s2. f di s1 = Some (r, s2) \<and> same_disk s1 s2 \<and> view s2 = view s1"
  shows "\<exists>s'. read_disk_inode (root_inode fs) f s = Some (r, s') \<and> flat fs C s' F \<and> same_disk s s' \<and> view s' = view s"
proof -
  from flatE [OF fl] obtain dis where d: "store fs C s dis (contents F)" "0 < length dis" "\<forall>nm\<in>set (map fst F). good_name nm" by metis
  have "\<exists>s'. read_disk_inode (inode_ref fs 0) f s = Some (r, s') \<and> same_disk s s' \<and> view s' = view s"
  proof (rule read_inode_ok [OF d(1,2)])
    fix s1
    assume s1: "ready fs C s1" "view s1 = view s"
    from f [OF flat_dir_ready [OF d(1,3,2) s1] s1(2)] s1(2)
    show "\<exists>s2. f (dis ! 0) s1 = Some (r, s2) \<and> same_disk s1 s2 \<and> view s2 = view s" by simp
  qed
  with flat_same [OF fl] show ?thesis by (auto simp: root_inode_ref)
qed

lemma flat_find:
  assumes "flat fs C s F"
  shows "\<exists>s'. inode_find fs (root_inode fs) nm s = Some (map_option (\<lambda>j. inode_ref fs (Suc j)) (index_of nm (map fst F)), s') \<and>
     flat fs C s' F"
proof -
  let ?f = "\<lambda>di s. map_option (\<lambda>(r, s). (map_option (\<lambda>inode_id. inode_new (get_disk_inode_pos fs inode_id)) r, s)) (find_inode_id nm di s)"
  let ?r = "map_option (\<lambda>j. inode_ref fs (Suc j)) (index_of nm (map fst F))"
  have "\<exists>s'. read_disk_inode (root_inode fs) ?f s = Some (?r, s') \<and> flat fs C s' F \<and> same_disk s s' \<and> view s' = view s"
  proof (rule flat_read_dir [OF assms])
    fix di s1
    assume "dir_ready fs C s1 di F"
    from find_inode_id_ok [OF this, of nm] show "\<exists>s2. ?f di s1 = Some (?r, s2) \<and> same_disk s1 s2 \<and> view s2 = view s1"
      by (auto simp: option.map_comp comp_def inode_ref_def)
  qed
  then show ?thesis by (auto simp: inode_find_def)
qed

lemma flat_ls:
  assumes "flat fs C s F"
  shows "\<exists>s'. inode_ls (root_inode fs) s = Some (map fst F, s') \<and> flat fs C s' F"
proof -
  let ?f = "\<lambda>di s. ls_loop di [0..<unat (di_size di) div DIRENT_SZ] s"
  have "\<exists>s'. read_disk_inode (root_inode fs) ?f s = Some (map fst F, s') \<and> flat fs C s' F \<and> same_disk s s' \<and> view s' = view s"
  proof (rule flat_read_dir [OF assms])
    fix di s1
    assume r: "dir_ready fs C s1 di F"
    from ls_loop_ok [OF r, of 0] dir_ready_size(1) [OF r] show "\<exists>s2. ?f di s1 = Some (map fst F, s2) \<and> same_disk s1 s2 \<and> view s2 = view s1"
      by (simp add: DIRENT_SZ_def)
  qed
  then show ?thesis by (auto simp: inode_ls_def)
qed

lemma flat_read:
  assumes "flat fs C s F" "j < length F"
  shows "\<exists>s'. vfs_read_at (inode_ref fs (Suc j)) off buf s = Some (content_read off buf (snd (F ! j)), s') \<and> flat fs C s' F"
proof -
  from flatE [OF assms(1)] obtain dis where d: "store fs C s dis (contents F)" by metis
  have sj: "Suc j < length (contents F)" using assms(2) by simp
  from store_read [OF d sj, of off buf] obtain s' where
    "vfs_read_at (inode_ref fs (Suc j)) off buf s = Some (content_read off buf (snd (F ! j)), s')" "same_disk s s'" "view s' = view s"
    using assms(2) by auto
  with flat_same [OF assms(1)] show ?thesis by blast
qed

lemma contents_update:
  assumes "j < length F"
  shows "contents (F[j := (fst (F ! j), bs)]) = (contents F)[Suc j := (File_Inode, bs)]" "map fst (F[j := (fst (F ! j), bs)]) = map fst F"
proof -
  show "map fst (F[j := (fst (F ! j), bs)]) = map fst F" using assms by (simp add: map_update list_update_same_conv)
  then show "contents (F[j := (fst (F ! j), bs)]) = (contents F)[Suc j := (File_Inode, bs)]" by (simp add: contents_def map_update)
qed

lemma flat_update:
  assumes "flat fs C s F" "j < length F" "store fs C s' dis' ((contents F)[Suc j := (File_Inode, bs)])"
  shows "flat fs C s' (F[j := (fst (F ! j), bs)])"
  using assms(1,3) unfolding flat_def contents_update [OF assms(2)] by blast

lemma flat_write:
  assumes fl: "flat fs C s F" and j: "j < length F" and n: "nblocks (off + length ws) \<le> MAX_BLOCKS" "ws \<noteq> []"
  defines "F' \<equiv> F[j := (fst (F ! j), content_write off ws (snd (F ! j)))]"
  assumes cap: "used (contents F') \<le> C"
  shows "\<exists>s'. vfs_write_at fs (inode_ref fs (Suc j)) off ws s = Some (length ws, s') \<and> flat fs C s' F'"
proof -
  from flatE [OF fl] obtain dis where d: "store fs C s dis (contents F)" by metis
  have sj: "Suc j < length (contents F)" using j by simp
  from store_write [OF d sj n] cap j flat_update [OF fl j] show ?thesis
    unfolding F'_def contents_update(1) [OF j] by fastforce
qed

lemma flat_clear:
  assumes fl: "flat fs C s F" and j: "j < length F"
  shows "\<exists>s'. vfs_clear fs (inode_ref fs (Suc j)) s = Some s' \<and> flat fs C s' (F[j := (fst (F ! j), [])])"
proof -
  from flatE [OF fl] obtain dis where d: "store fs C s dis (contents F)" by metis
  have sj: "Suc j < length (contents F)" using j by simp
  from store_clear [OF d sj] j flat_update [OF fl j] show ?thesis by fastforce
qed

section \<open>Creating a file\<close>

lemma append_dirent_ok:
  assumes r: "ready fs C s" and i: "img fs C (view s) dis X" "0 < length dis"
    and X: "X ! 0 = (Directory_Inode, dir_bytes nms)" "\<forall>nm\<in>set nms. good_name nm" and g: "good_name nm"
    and n: "nblocks (32 * Suc (length nms)) \<le> MAX_BLOCKS" and cap: "used (X[0 := (Directory_Inode, dir_bytes (nms @ [nm]))]) \<le> C"
  shows "\<exists>di' s2. append_dirent fs nm (word_of_nat (Suc (length nms))) (dis ! 0) s = Some ((), di', s2) \<and> same_disk s s2 \<and>
     img fs C (view s2) (dis[0 := di']) (X[0 := (Directory_Inode, dir_bytes (nms @ [nm]))]) \<and>
     (\<forall>b. b \<notin> data_area fs C \<union> bm_range (data_bitmap fs) \<longrightarrow> view s2 b = view s b)"
proof -
  let ?ws = "dirent_bytes (entry_of nm (length nms))" and ?off = "32 * length nms"
  note e = entry_of_ok [OF g, of "length nms"]
  have lw: "length ?ws = 32" "?ws \<noteq> []" using e(2) by auto
  have cnt: "unat (di_size (dis ! 0)) div DIRENT_SZ = length nms"
    using inode_img_length [OF imgD(2) [OF i]] X(1) dir_bytes_ok(1) [OF X(2)] by (simp add: DIRENT_SZ_def)
  have cw: "content_write ?off ?ws (dir_bytes nms) = dir_bytes (nms @ [nm])"
    using dir_bytes_ok(1,3) [OF X(2)] lw(1) by (simp add: content_write_def splice_def)
  have n': "nblocks (?off + length ?ws) \<le> MAX_BLOCKS" using n lw(1) by (simp add: add.commute)
  note gw = img_grow_write [OF r i n' lw(2), unfolded X(1) fst_conv snd_conv cw lw(1), OF cap]
  then obtain di' s1 s2 where
    w: "inode_increase_size fs (word_of_nat (?off + 32)) (dis ! 0) s = Some (di', s1)"
      "inode_write_at di' ?off ?ws s1 = Some (32, s2)" "same_disk s s2"
      "img fs C (view s2) (dis[0 := di']) (X[0 := (Directory_Inode, dir_bytes (nms @ [nm]))])"
      "\<forall>b. b \<notin> data_area fs C \<union> bm_range (data_bitmap fs) \<longrightarrow> view s2 b = view s b"
    by (elim exE conjE)
  have "(length nms + 1) * DIRENT_SZ = ?off + 32" "length nms * DIRENT_SZ = ?off" by (simp_all add: DIRENT_SZ_def)
  then have "append_dirent fs nm (word_of_nat (Suc (length nms))) (dis ! 0) s = Some ((), di', s2)"
    using w(1,2) e(1) by (simp only: append_dirent_def Let_def cnt) simp
  with w(3-5) show ?thesis by blast
qed

lemma flat_create_existing:
  assumes fl: "flat fs C s F" and nm: "nm \<in> set (map fst F)"
  shows "\<exists>s'. inode_create fs (root_inode fs) nm s = Some (None, s') \<and> flat fs C s' F"
proof -
  from nm obtain j where j: "index_of nm (map fst F) = Some j" using index_of_None by fastforce
  let ?f = "\<lambda>di s. if is_dir di then find_inode_id nm di s else None"
  have "\<exists>s'. read_disk_inode (root_inode fs) ?f s = Some (Some (word_of_nat (Suc j)), s') \<and> flat fs C s' F \<and> same_disk s s' \<and> view s' = view s"
  proof (rule flat_read_dir [OF fl])
    fix di s1
    assume r: "dir_ready fs C s1 di F"
    from find_inode_id_ok [OF r, of nm] dir_ready_size(2) [OF r] j
    show "\<exists>s2. ?f di s1 = Some (Some (word_of_nat (Suc j)), s2) \<and> same_disk s1 s2 \<and> view s2 = view s1" by simp
  qed
  then show ?thesis by (auto simp: inode_create_def)
qed

definition create_fits :: "easy_fs \<Rightarrow> nat \<Rightarrow> files \<Rightarrow> rstring \<Rightarrow> bool" where
  "create_fits fs C F nm \<longleftrightarrow> Suc (length F) < max_inodes fs \<and> nblocks (32 * Suc (length F)) \<le> MAX_BLOCKS \<and> used (contents (F @ [(nm, [])])) \<le> C"

lemma contents_snoc:
  "contents (F @ [(nm, [])]) = (contents F @ [(File_Inode, [])])[0 := (Directory_Inode, dir_bytes (map fst F @ [nm]))]"
  by (simp add: contents_def)

lemma flat_create_new:
  assumes fl: "flat fs C s F" and nm: "nm \<notin> set (map fst F)" "good_name nm" and fits: "create_fits fs C F nm"
  shows "\<exists>s'. inode_create fs (root_inode fs) nm s = Some (Some (inode_ref fs (Suc (length F))), s') \<and> flat fs C s' (F @ [(nm, [])])"
proof -
  let ?n = "Suc (length F)" and ?X = "contents F @ [(File_Inode, [])]" and ?id = "word_of_nat (Suc (length F)) :: u32"
  let ?f = "\<lambda>di s. if is_dir di then find_inode_id nm di s else None"
  have no: "index_of nm (map fst F) = None" using nm(1) by (simp add: index_of_None)
  have "\<exists>s'. read_disk_inode (root_inode fs) ?f s = Some (None, s') \<and> flat fs C s' F \<and> same_disk s s' \<and> view s' = view s"
  proof (rule flat_read_dir [OF fl])
    fix di s1
    assume r: "dir_ready fs C s1 di F"
    from find_inode_id_ok [OF r, of nm] dir_ready_size(2) [OF r] no
    show "\<exists>s2. ?f di s1 = Some (None, s2) \<and> same_disk s1 s2 \<and> view s2 = view s1" by simp
  qed
  then obtain s1 where s1: "read_disk_inode (root_inode fs) ?f s = Some (None, s1)" "flat fs C s1 F" by blast
  from flatE [OF s1(2)] obtain dis where d: "store fs C s1 dis (contents F)" "length dis = Suc (length F)"
    "\<forall>nm\<in>set (map fst F). good_name nm" "distinct (map fst F)" by metis
  have room: "length (contents F) < max_inodes fs" using fits by (simp add: create_fits_def)
  from store_new_inode [OF d(1) room, of File_Inode] obtain s2 s3 di where
    a: "alloc_inode fs s1 = Some (?id, s2)"
      "initialize_inode_at (i_block_id (inode_ref fs ?n)) (i_block_offset (inode_ref fs ?n)) File_Inode s2 = Some s3"
      "store fs C s3 (dis @ [di]) ?X" by auto
  have "\<exists>di' s'. modify_disk_inode (inode_ref fs 0) (append_dirent fs nm ?id) s3 = Some ((), s') \<and> same_disk s3 s' \<and>
      store fs C s' ((dis @ [di])[0 := di']) (contents (F @ [(nm, [])]))"
  proof (rule modify_inode_ok [OF a(3)])
    fix s4
    assume r: "ready fs C s4" and v: "view s4 = view s3"
    have im: "img fs C (view s4) (dis @ [di]) ?X" using storeD(4) [OF a(3)] v by simp
    have X0: "?X ! 0 = (Directory_Inode, dir_bytes (map fst F))" by (simp add: nth_append)
    have n: "nblocks (32 * Suc (length (map fst F))) \<le> MAX_BLOCKS" using fits by (simp add: create_fits_def)
    have cap: "used (?X[0 := (Directory_Inode, dir_bytes (map fst F @ [nm]))]) \<le> C"
      using fits by (simp add: create_fits_def flip: contents_snoc)
    have pos: "0 < length (dis @ [di])" by simp
    from append_dirent_ok [OF r im pos X0 d(3) nm(2) n cap] v
    show "\<exists>di' s2. append_dirent fs nm ?id ((dis @ [di]) ! 0) s4 = Some ((), di', s2) \<and> same_disk s4 s2 \<and>
        img fs C (view s2) ((dis @ [di])[0 := di']) (contents (F @ [(nm, [])])) \<and>
        (\<forall>b. b \<notin> data_area fs C \<union> bm_range (data_bitmap fs) \<longrightarrow> view s2 b = view s3 b)"
      by (simp add: contents_snoc)
  qed simp
  then obtain s5 dis' where m: "modify_disk_inode (inode_ref fs 0) (append_dirent fs nm ?id) s3 = Some ((), s5)"
      "store fs C s5 dis' (contents (F @ [(nm, [])]))" by blast
  from store_sync [OF m(2)] obtain s6 where s6: "block_cache_sync_all s5 = Some s6" "store fs C s6 dis' (contents (F @ [(nm, [])]))" by blast
  have "flat fs C s6 (F @ [(nm, [])])" using s6(2) d(3,4) nm by (auto simp: flat_def)
  moreover have "inode_create fs (root_inode fs) nm s = Some (Some (inode_ref fs ?n), s6)"
    using s1(1) a(1,2) m(1) s6(1) by (simp add: inode_create_def Let_def root_inode_ref inode_ref_def [of fs ?n] inode_new_def)
  ultimately show ?thesis by blast
qed

section \<open>Sequences of operations\<close>

datatype fs_op = Op_Create rstring | Op_Ls | Op_Read rstring nat nat | Op_Write rstring nat "u8 list" | Op_Clear rstring

datatype fs_out = Out_Flag bool | Out_Names "rstring list" | Out_Bytes "u8 list" | Out_Count nat | Out_Absent

text \<open>A client that looks a file up in the root directory and calls a method of its inode.\<close>

definition on_file :: "easy_fs \<Rightarrow> rstring \<Rightarrow> (inode \<Rightarrow> block_cache_manager \<Rightarrow> (fs_out \<times> block_cache_manager) option) \<Rightarrow>
    block_cache_manager \<Rightarrow> (fs_out \<times> block_cache_manager) option" where
  "on_file fs nm f s = Option.bind (inode_find fs (root_inode fs) nm s) (\<lambda>(r, s). case r of None \<Rightarrow> Some (Out_Absent, s) | Some ino \<Rightarrow> f ino s)"

fun fs_step :: "easy_fs \<Rightarrow> fs_op \<Rightarrow> block_cache_manager \<Rightarrow> (fs_out \<times> block_cache_manager) option" where
  "fs_step fs (Op_Create nm) s = map_option (\<lambda>(r, s). (Out_Flag (r \<noteq> None), s)) (inode_create fs (root_inode fs) nm s)"
| "fs_step fs Op_Ls s = map_option (\<lambda>(nms, s). (Out_Names nms, s)) (inode_ls (root_inode fs) s)"
| "fs_step fs (Op_Read nm off n) s =
     on_file fs nm (\<lambda>ino s. map_option (\<lambda>((k, buf), s). (Out_Bytes (take k buf), s)) (vfs_read_at ino off (replicate n 0) s)) s"
| "fs_step fs (Op_Write nm off ws) s = on_file fs nm (\<lambda>ino s. map_option (\<lambda>(k, s). (Out_Count k, s)) (vfs_write_at fs ino off ws s)) s"
| "fs_step fs (Op_Clear nm) s = on_file fs nm (\<lambda>ino s. map_option (\<lambda>s. (Out_Flag True, s)) (vfs_clear fs ino s)) s"

text \<open>The same operations on the list of files.\<close>

definition flat_at :: "rstring \<Rightarrow> (nat \<Rightarrow> u8 list \<Rightarrow> fs_out \<times> files) \<Rightarrow> files \<Rightarrow> fs_out \<times> files" where
  "flat_at nm f F = (case index_of nm (map fst F) of None \<Rightarrow> (Out_Absent, F) | Some j \<Rightarrow> f j (snd (F ! j)))"

fun flat_step :: "fs_op \<Rightarrow> files \<Rightarrow> fs_out \<times> files" where
  "flat_step (Op_Create nm) F = (if nm \<in> set (map fst F) then (Out_Flag False, F) else (Out_Flag True, F @ [(nm, [])]))"
| "flat_step Op_Ls F = (Out_Names (map fst F), F)"
| "flat_step (Op_Read nm off n) F = flat_at nm (\<lambda>j bs. (Out_Bytes (slice_at off n bs), F)) F"
| "flat_step (Op_Write nm off ws) F = flat_at nm (\<lambda>j bs. (Out_Count (length ws), F[j := (nm, content_write off ws bs)])) F"
| "flat_step (Op_Clear nm) F = flat_at nm (\<lambda>j bs. (Out_Flag True, F[j := (nm, [])])) F"

text \<open>When an operation fits on the disk.\<close>

fun fs_fits :: "easy_fs \<Rightarrow> nat \<Rightarrow> files \<Rightarrow> fs_op \<Rightarrow> bool" where
  "fs_fits fs C F (Op_Create nm) \<longleftrightarrow> nm \<in> set (map fst F) \<or> good_name nm \<and> create_fits fs C F nm"
| "fs_fits fs C F (Op_Write nm off ws) \<longleftrightarrow>
     ws \<noteq> [] \<and> nblocks (off + length ws) \<le> MAX_BLOCKS \<and> used (contents (snd (flat_step (Op_Write nm off ws) F))) \<le> C"
| "fs_fits fs C F _ \<longleftrightarrow> True"

fun fs_run :: "(fs_op \<Rightarrow> 's \<Rightarrow> (fs_out \<times> 's) option) \<Rightarrow> fs_op list \<Rightarrow> 's \<Rightarrow> (fs_out list \<times> 's) option" where
  "fs_run step [] s = Some ([], s)"
| "fs_run step (op # ops) s = Option.bind (step op s) (\<lambda>(x, s). map_option (\<lambda>(xs, s). (x # xs, s)) (fs_run step ops s))"

fun flat_run :: "fs_op list \<Rightarrow> files \<Rightarrow> fs_out list \<times> files" where
  "flat_run [] F = ([], F)"
| "flat_run (op # ops) F = (let (x, F) = flat_step op F; (xs, F) = flat_run ops F in (x # xs, F))"

fun run_fits :: "(files \<Rightarrow> fs_op \<Rightarrow> bool) \<Rightarrow> fs_op list \<Rightarrow> files \<Rightarrow> bool" where
  "run_fits fits [] F \<longleftrightarrow> True"
| "run_fits fits (op # ops) F \<longleftrightarrow> fits F op \<and> run_fits fits ops (snd (flat_step op F))"

lemma run_fits_append: "run_fits fits (ops @ ops') F \<longleftrightarrow> run_fits fits ops F \<and> run_fits fits ops' (snd (flat_run ops F))"
  by (induction ops arbitrary: F) (simp_all add: split_beta)

locale flat_store =
  fixes rep :: "'s \<Rightarrow> files \<Rightarrow> bool"
    and step :: "fs_op \<Rightarrow> 's \<Rightarrow> (fs_out \<times> 's) option"
    and fits :: "files \<Rightarrow> fs_op \<Rightarrow> bool"
  assumes step_ok: "rep s F \<Longrightarrow> fits F op \<Longrightarrow> \<exists>s'. step op s = Some (fst (flat_step op F), s') \<and> rep s' (snd (flat_step op F))"
begin

lemma run_ok: "rep s F \<Longrightarrow> run_fits fits ops F \<Longrightarrow> \<exists>s'. fs_run step ops s = Some (fst (flat_run ops F), s') \<and> rep s' (snd (flat_run ops F))"
proof (induction ops arbitrary: s F)
  case (Cons op ops)
  obtain s1 where s1: "step op s = Some (fst (flat_step op F), s1)" "rep s1 (snd (flat_step op F))"
    using step_ok [of s F op] Cons.prems by auto
  from Cons.IH [OF s1(2)] Cons.prems(2) obtain s2 where
    "fs_run step ops s1 = Some (fst (flat_run ops (snd (flat_step op F))), s2)" "rep s2 (snd (flat_run ops (snd (flat_step op F))))" by auto
  with s1(1) show ?case by (simp add: split_beta)
qed simp

end

text \<open>Looking a file up.\<close>

lemma on_file_ok:
  assumes fl: "flat fs C s F"
    and f: "\<And>j s1. j < length F \<Longrightarrow> fst (F ! j) = nm \<Longrightarrow> index_of nm (map fst F) = Some j \<Longrightarrow> flat fs C s1 F \<Longrightarrow>
       \<exists>s'. f (inode_ref fs (Suc j)) s1 = Some (fst (g j (snd (F ! j))), s') \<and> flat fs C s' (snd (g j (snd (F ! j))))"
  shows "\<exists>s'. on_file fs nm f s = Some (fst (flat_at nm g F), s') \<and> flat fs C s' (snd (flat_at nm g F))"
proof -
  from flat_find [OF fl, of nm] obtain s1 where
    s1: "inode_find fs (root_inode fs) nm s = Some (map_option (\<lambda>j. inode_ref fs (Suc j)) (index_of nm (map fst F)), s1)" "flat fs C s1 F" by blast
  show ?thesis
  proof (cases "index_of nm (map fst F)")
    case None
    with s1 show ?thesis by (simp add: on_file_def flat_at_def)
  next
    case (Some j)
    with index_of_Some [OF Some] have "j < length F" "fst (F ! j) = nm" by auto
    from f [OF this Some s1(2)] s1(1) Some show ?thesis by (simp add: on_file_def flat_at_def)
  qed
qed

lemma content_read_slice: "take (fst (content_read off (replicate n 0) bs)) (snd (content_read off (replicate n 0) bs)) = slice_at off n bs"
proof -
  have "length (slice_at off (min n (length bs - off)) bs) = min n (length bs - off)" by (simp add: slice_at_def)
  then have "take (fst (content_read off (replicate n 0) bs)) (snd (content_read off (replicate n 0) bs)) = slice_at off (min n (length bs - off)) bs"
    by (simp add: content_read_def Let_def splice_def)
  also have "\<dots> = slice_at off n bs" by (simp add: slice_at_def min_def)
  finally show ?thesis .
qed

interpretation ef: flat_store "flat fs C" "fs_step fs" "fs_fits fs C" for fs C
proof (unfold_locales, goal_cases)
  case (1 s F op)
  note fl = 1(1)
  show ?case
  proof (cases op)
    case (Op_Create nm)
    with 1 flat_create_existing [OF fl, of nm] flat_create_new [OF fl, of nm] show ?thesis by (cases "nm \<in> set (map fst F)") auto
  next
    case Op_Ls
    with flat_ls [OF fl] show ?thesis by auto
  next
    case (Op_Read nm off n)
    show ?thesis unfolding Op_Read fs_step.simps flat_step.simps
    proof (rule on_file_ok [OF fl])
      fix j s1
      assume j: "j < length F" and s1: "flat fs C s1 F"
      from flat_read [OF s1 j, of off "replicate n 0"] content_read_slice [of off n "snd (F ! j)"]
      show "\<exists>s'. map_option (\<lambda>((k, buf), s). (Out_Bytes (take k buf), s)) (vfs_read_at (inode_ref fs (Suc j)) off (replicate n 0) s1) =
         Some (fst (Out_Bytes (slice_at off n (snd (F ! j))), F), s') \<and> flat fs C s' (snd (Out_Bytes (slice_at off n (snd (F ! j))), F))"
        by (cases "content_read off (replicate n 0) (snd (F ! j))") auto
    qed
  next
    case (Op_Write nm off ws)
    show ?thesis unfolding Op_Write fs_step.simps flat_step.simps
    proof (rule on_file_ok [OF fl])
      fix j s1
      assume j: "j < length F" "fst (F ! j) = nm" "index_of nm (map fst F) = Some j" and s1: "flat fs C s1 F"
      have n: "nblocks (off + length ws) \<le> MAX_BLOCKS" "ws \<noteq> []"
        and cap: "used (contents (F[j := (fst (F ! j), content_write off ws (snd (F ! j)))])) \<le> C"
        using 1(2) j unfolding Op_Write by (simp_all add: flat_at_def)
      from flat_write [OF s1 j(1) n cap] j(2)
      show "\<exists>s'. map_option (\<lambda>(k, s). (Out_Count k, s)) (vfs_write_at fs (inode_ref fs (Suc j)) off ws s1) =
         Some (fst (Out_Count (length ws), F[j := (nm, content_write off ws (snd (F ! j)))]), s') \<and>
         flat fs C s' (snd (Out_Count (length ws), F[j := (nm, content_write off ws (snd (F ! j)))]))" by auto
    qed
  next
    case (Op_Clear nm)
    show ?thesis unfolding Op_Clear fs_step.simps flat_step.simps
    proof (rule on_file_ok [OF fl])
      fix j s1
      assume j: "j < length F" "fst (F ! j) = nm" and s1: "flat fs C s1 F"
      from flat_clear [OF s1 j(1)] j(2)
      show "\<exists>s'. map_option (\<lambda>s. (Out_Flag True, s)) (vfs_clear fs (inode_ref fs (Suc j)) s1) =
         Some (fst (Out_Flag True, F[j := (nm, [])]), s') \<and> flat fs C s' (snd (Out_Flag True, F[j := (nm, [])]))" by auto
    qed
  qed
qed

end
