(* ===== verification/Format_Laws.thy ===== *)
theory Format_Laws
  imports Flat_Laws
begin

text \<open>
  Formatting a device and opening it again (\<open>EasyFileSystem::create\<close> and \<open>open\<close> of
  \<open>easy-fs/src/efs.rs\<close>).
\<close>

section \<open>The layout\<close>

definition data_total :: "u32 \<Rightarrow> u32 \<Rightarrow> nat" where "data_total n ib = unat n - 1 - 1025 * unat ib"

definition fs_capacity :: "u32 \<Rightarrow> u32 \<Rightarrow> nat" where
  "fs_capacity n ib = data_total n ib - (data_total n ib + 4096) div 4097"

definition format_ok :: "u32 \<Rightarrow> u32 \<Rightarrow> nat \<Rightarrow> bool" where
  "format_ok n ib dsz \<longleftrightarrow> 0 < unat ib \<and> unat ib \<le> 2 ^ 20 \<and> 1 + 1025 * unat ib < unat n \<and> unat n \<le> dsz \<and> dsz + 4096 < 2 ^ 32"

lemma layout_numbers:
  assumes f: "format_ok n ib dsz"
  defines "fs \<equiv> snd (efs_layout n ib)" and "db \<equiv> (data_total n ib + 4096) div 4097"
  shows "unat (start_block_id (inode_bitmap fs)) = 1" "unat (bm_blocks (inode_bitmap fs)) = unat ib"
    "unat (inode_area_start_block fs) = 1 + unat ib" "unat (start_block_id (data_bitmap fs)) = 1 + 1025 * unat ib"
    "unat (bm_blocks (data_bitmap fs)) = db" "unat (data_area_start_block fs) = 1 + 1025 * unat ib + db"
    "fs_of_super (fst (efs_layout n ib)) = fs"
proof -
  from f have ib: "unat ib \<le> 1048576" "1 + 1025 * unat ib < unat n" by (simp_all add: format_ok_def)
  have n32: "unat n < 4294967296" using unat_bound [of n] by simp
  let ?ibm = "\<lparr>start_block_id = 1, bm_blocks = ucast ib\<rparr> :: bitmap"
  let ?num = "bitmap_maximum ?ibm * word_of_nat INODE_SIZE + word_of_nat BLOCK_SZ - 1 :: usize"
  have num: "unat ?num = unat ib * 524288 + 511"
  proof -
    have "?num = word_of_nat (unat ib * 524288 + 511)"
      by (simp add: bitmap_maximum_def BLOCK_BITS_def BLOCK_SZ_def INODE_SIZE_def)
    then show ?thesis using ib(1) by (simp add: unat_of_nat_u64 del: of_nat_add of_nat_mult)
  qed
  let ?area = "ucast (?num div word_of_nat BLOCK_SZ) :: u32"
  have area: "unat ?area = 1024 * unat ib"
  proof -
    have "unat (?num div word_of_nat BLOCK_SZ) = (unat ib * 524288 + 511) div 512" by (simp only: unat_div num) (simp add: BLOCK_SZ_def)
    also have "\<dots> = 1024 * unat ib" by simp
    finally show ?thesis using ib(1) by (simp add: unsigned_ucast_eq take_bit_nat_eq_self)
  qed
  have tot: "unat (ib + ?area) = 1025 * unat ib" using area ib n32 by (subst unat_word_ariths) simp
  let ?dt = "n - 1 - (ib + ?area)"
  have dt: "unat ?dt = data_total n ib"
  proof -
    have "unat (n - 1) = unat n - 1" using ib(2) by (subst unat_sub) (simp_all add: word_le_nat_alt)
    then show ?thesis using tot ib(2) by (subst unat_sub) (simp_all add: word_le_nat_alt data_total_def)
  qed
  have "data_total n ib \<le> unat n" by (simp add: data_total_def)
  then have dtb: "data_total n ib + 4096 < 2 ^ 32" using f unfolding format_ok_def by linarith
  let ?db = "(?dt + 4096) div 4097"
  have db: "unat ?db = db"
  proof -
    have "unat (?dt + 4096) = data_total n ib + 4096" using dt dtb by (subst unat_word_ariths) simp
    then show ?thesis by (simp add: unat_div db_def)
  qed
  have dbl: "db \<le> data_total n ib" by (simp add: db_def div_le_dividend)
  have L: "efs_layout n ib =
      (super_block_initialize n ib ?area ?db (?dt - ?db),
       \<lparr>inode_bitmap = ?ibm, data_bitmap = \<lparr>start_block_id = ucast (1 + (ib + ?area)), bm_blocks = ucast ?db\<rparr>,
        inode_area_start_block = 1 + ib, data_area_start_block = 1 + (ib + ?area) + ?db\<rparr>)"
    by (simp only: efs_layout_def Let_def)
  show "unat (start_block_id (inode_bitmap fs)) = 1" "unat (bm_blocks (inode_bitmap fs)) = unat ib" by (simp_all add: fs_def L)
  show "unat (inode_area_start_block fs) = 1 + unat ib" using ib n32 by (simp add: fs_def L unat_word_ariths)
  have t1: "unat (1 + (ib + ?area)) = 1 + 1025 * unat ib" using tot ib n32 by (subst unat_word_ariths) simp
  then show "unat (start_block_id (data_bitmap fs)) = 1 + 1025 * unat ib" by (simp add: fs_def L)
  show "unat (bm_blocks (data_bitmap fs)) = db" using db by (simp add: fs_def L)
  have "1 + 1025 * unat ib + db < 2 ^ 32" using dbl ib(2) n32 by (simp add: data_total_def)
  then have "unat (1 + (ib + ?area) + ?db) = 1 + 1025 * unat ib + db" using t1 db by (subst unat_word_ariths) simp
  then show "unat (data_area_start_block fs) = 1 + 1025 * unat ib + db" by (simp add: fs_def L)
  show "fs_of_super (fst (efs_layout n ib)) = fs"
    by (simp add: fs_def L fs_of_super_def super_block_initialize_def Let_def)
qed

abbreviation fs_format :: "u32 \<Rightarrow> u32 \<Rightarrow> easy_fs" where "fs_format n ib \<equiv> snd (efs_layout n ib)"

lemma format_geom:
  assumes "format_ok n ib dsz"
  shows "geom (fs_format n ib) (fs_capacity n ib) dsz" "max_inodes (fs_format n ib) = 4096 * unat ib"
proof -
  note L = layout_numbers [OF assms]
  let ?dt = "data_total n ib" and ?db = "(data_total n ib + 4096) div 4097"
  have d: "?db * 4097 \<le> ?dt + 4096" "?dt < ?db * 4097 + 1" "?db \<le> ?dt"
    using div_times_less_eq_dividend [of "?dt + 4096" 4097] dividend_less_div_times [of 4097 "?dt + 4096"] by simp_all
  have f: "0 < unat ib" "unat ib \<le> 2 ^ 20" "1 + 1025 * unat ib < unat n" "unat n \<le> dsz" "dsz + 4096 < 2 ^ 32"
    using assms by (simp_all add: format_ok_def)
  have t: "1 + 1025 * unat ib + ?dt = unat n" using f(3) by (simp add: data_total_def)
  have C: "fs_capacity n ib + ?db = ?dt" using d(3) by (simp add: fs_capacity_def)
  show "max_inodes (fs_format n ib) = 4096 * unat ib" by (simp add: max_inodes_def L)
  show "geom (fs_format n ib) (fs_capacity n ib) dsz"
    unfolding geom_def L using f t C d by simp
qed

section \<open>Clearing the device\<close>

lemma zero_blocks_ok:
  assumes "cache_inv s" "held s = []" "\<And>i. i \<in> set is \<Longrightarrow> i < 2 ^ 32 \<and> i < dev_size (device s)"
  shows "\<exists>s'. zero_blocks is s = Some s' \<and> same_disk s s' \<and>
     (\<forall>b. view s' b = (if unat b \<in> set is then replicate 512 0 else view s b))"
  using assms
proof (induction "is" arbitrary: s)
  case Nil
  then show ?case by (simp add: same_disk_def)
next
  case (Cons i "is")
  have u: "unat (word_of_nat i :: usize) = i" using Cons.prems(3) [of i] by (intro unat_of_nat_u64) simp
  have "usable s (word_of_nat i)" using Cons.prems u by (simp add: usable_def BLOCK_CACHE_SIZE_def)
  from zero_block_ok [OF this] obtain s1 where s1: "zero_block (word_of_nat i) s = Some s1" "same_disk s s1"
      "view s1 = (view s)(word_of_nat i := replicate 512 0)" by blast
  note d = same_diskD [OF s1(2)]
  have "\<exists>s'. zero_blocks is s1 = Some s' \<and> same_disk s1 s' \<and> (\<forall>b. view s' b = (if unat b \<in> set is then replicate 512 0 else view s1 b))"
    by (rule Cons.IH) (use d Cons.prems in auto)
  then obtain s2 where s2: "zero_blocks is s1 = Some s2" "same_disk s1 s2" "\<forall>b. view s2 b = (if unat b \<in> set is then replicate 512 0 else view s1 b)" by blast
  have "b = word_of_nat i \<longleftrightarrow> unat b = i" for b :: usize using u by (auto simp: word_unat_eq_iff)
  with s1(1,3) s2 same_disk_trans [OF s1(2) s2(2)] show ?case by auto
qed

lemma block_bit_zero: "n < 4096 \<Longrightarrow> \<not> block_bit (replicate 512 0) n"
proof -
  assume n: "n < 4096"
  then have k: "n div 64 < 64" by simp
  have "slice_at (8 * (n div 64)) 8 (replicate 512 (0 :: u8)) = replicate 8 0" using k by (simp add: slice_at_def)
  moreover have "from_le_bytes (replicate 8 0) = (0 :: u64)" by code_simp
  ultimately have "(le_split 64 (replicate 512 0) :: u64 list) ! (n div 64) = 0" using nth_le_split [OF k, of "replicate 512 0", where 'a = 64] by simp
  then show ?thesis by (simp add: block_bit_def)
qed

lemma bm_bit_zero:
  assumes "\<And>b. b \<in> bm_range bm \<Longrightarrow> v b = replicate 512 0" "m < 4096 * unat (bm_blocks bm)"
  shows "\<not> bm_bit bm v m"
proof -
  have "m div 4096 < unat (bm_blocks bm)" using assms(2) by (simp add: less_mult_imp_div_less mult.commute)
  then have "word_of_nat (m div 4096) + start_block_id bm \<in> bm_range bm" by (auto simp: bm_range_def)
  then show ?thesis using assms(1) block_bit_zero [of "m mod 4096"] by (simp add: bm_bit_def)
qed

lemma empty_store:
  assumes "cache_inv s" "held s = []" "geom fs C (dev_size (device s))" "boot_ok fs (view s)"
    and z: "\<And>b. b \<in> bm_range (inode_bitmap fs) \<union> bm_range (data_bitmap fs) \<union> data_area fs C \<Longrightarrow> view s b = replicate 512 0"
  shows "store fs C s [] []"
proof -
  have "\<not> bm_bit (inode_bitmap fs) (view s) m" if "m < max_inodes fs" for m
    by (rule bm_bit_zero) (use z that in \<open>auto simp: max_inodes_def\<close>)
  moreover have "\<not> bm_bit (data_bitmap fs) (view s) m" if "m < 4096 * unat (bm_blocks (data_bitmap fs))" for m
    by (rule bm_bit_zero) (use z that in auto)
  ultimately have "img fs C (view s) [] []" using z by (simp add: img_def uses_def)
  with assms(1-4) show ?thesis by (simp add: store_def inodes_at_def)
qed

section \<open>Formatting and opening\<close>

lemma super_block_roundtrip:
  "length (super_block_bytes sb) = 24" "super_block_of_bytes (super_block_bytes sb) = sb"
proof -
  let ?ws = "[sb_magic sb, sb_total_blocks sb, sb_inode_bitmap_blocks sb, sb_inode_area_blocks sb, sb_data_bitmap_blocks sb, sb_data_area_blocks sb]"
  show "length (super_block_bytes sb) = 24" by (simp add: super_block_bytes_def length_le_concat)
  have six: "6 = length ?ws" by simp
  have "le_split 6 (super_block_bytes sb) = ?ws"
    unfolding super_block_bytes_def six by (rule le_split_concat) simp
  then show "super_block_of_bytes (super_block_bytes sb) = sb" by (simp add: super_block_of_bytes_def Let_def)
qed

lemma efs_create_ok:
  assumes s: "cache_inv s" "held s = []" and f: "format_ok n ib (dev_size (device s))"
  shows "\<exists>s'. efs_create n ib s = Some (fs_format n ib, s') \<and> flat (fs_format n ib) (fs_capacity n ib) s' []"
proof -
  let ?sb = "fst (efs_layout n ib)" and ?fs = "fs_format n ib" and ?C = "fs_capacity n ib"
  note g = format_geom(1) [OF f] and L = layout_numbers [OF f]
  have n: "unat n \<le> dev_size (device s)" "0 < unat n" "unat n < 2 ^ 32" using f by (simp_all add: format_ok_def)
  from zero_blocks_ok [OF s, of "[0..<unat n]"] n obtain s1 where s1: "zero_blocks [0..<unat n] s = Some s1" "same_disk s s1"
      "\<forall>b. view s1 b = (if unat b < unat n then replicate 512 0 else view s b)" by auto
  note d1 = same_diskD [OF s1(2)]
  have "\<exists>s2. cache_modify 0 0 24 (\<lambda>bs s. Some ((), super_block_bytes ?sb, s)) s1 = Some ((), s2) \<and> same_disk s1 s2 \<and>
      view s2 = (view s1)(0 := splice 0 (super_block_bytes ?sb) (view s1 0))"
    by (rule cache_modify_ok) (use d1 s n super_block_roundtrip(1) in \<open>simp_all add: BLOCK_CACHE_SIZE_def BLOCK_SZ_def same_disk_def\<close>)
  then obtain s2 where s2: "cache_modify 0 0 24 (\<lambda>bs s. Some ((), super_block_bytes ?sb, s)) s1 = Some ((), s2)" "same_disk s1 s2"
      "view s2 = (view s1)(0 := splice 0 (super_block_bytes ?sb) (view s1 0))" by blast
  have sd2: "same_disk s s2" by (rule same_disk_trans [OF s1(2) s2(2)])
  note d2 = same_diskD [OF sd2]
  have len0: "length (view s1 0) = 512" using length_view [OF d1(1)] by (simp add: BLOCK_SZ_def)
  have "slice_at 0 24 (view s2 0) = super_block_bytes ?sb"
    using slice_at_splice_same [of 0 "super_block_bytes ?sb" "view s1 0"] len0 super_block_roundtrip(1) [of ?sb] by (simp add: s2(3))
  moreover have "super_block_is_valid ?sb" by (simp add: efs_layout_def Let_def super_block_initialize_def super_block_is_valid_def)
  ultimately have boot: "boot_ok ?fs (view s2)" using L(7) by (simp add: boot_ok_def super_block_roundtrip(2) Let_def)
  have z: "view s2 b = replicate 512 0" if b: "b \<in> bm_range (inode_bitmap ?fs) \<union> bm_range (data_bitmap ?fs) \<union> data_area ?fs ?C" for b
  proof -
    have ne: "b \<noteq> 0" using b boot_outside [OF g] by auto
    have ends: "unat (start_block_id (inode_bitmap ?fs)) + unat (bm_blocks (inode_bitmap ?fs)) < 2 ^ 32"
      "unat (start_block_id (data_bitmap ?fs)) + unat (bm_blocks (data_bitmap ?fs)) < 2 ^ 32"
      using g unfolding geom_def by linarith+
    have "geom ?fs ?C (unat n)" using format_geom(1) [of n ib "unat n"] f by (simp add: format_ok_def)
    then have hi: "unat (start_block_id (inode_bitmap ?fs)) + unat (bm_blocks (inode_bitmap ?fs)) \<le> unat n"
      "unat (start_block_id (data_bitmap ?fs)) + unat (bm_blocks (data_bitmap ?fs)) \<le> unat n"
      "unat (data_area_start_block ?fs) + ?C \<le> unat n"
      unfolding geom_def by linarith+
    have "unat b < unat n" using b bm_range_unat(2) [OF _ ends(1), of b] bm_range_unat(2) [OF _ ends(2), of b] hi by (auto simp: data_area_def)
    then show ?thesis using ne s1(3) by (simp add: s2(3))
  qed
  have st: "store ?fs ?C s2 [] []" by (rule empty_store) (use d2 s g boot z in simp_all)
  have room: "length ([] :: content list) < max_inodes ?fs" using f format_geom(2) [OF f] by (simp add: format_ok_def)
  from store_new_inode [OF st room, of Directory_Inode] obtain s3 s4 di where
    a: "alloc_inode ?fs s2 = Some (0, s3)"
      "initialize_inode_at (i_block_id (inode_ref ?fs 0)) (i_block_offset (inode_ref ?fs 0)) Directory_Inode s3 = Some s4"
      "store ?fs ?C s4 [di] [(Directory_Inode, [])]" by auto
  from store_sync [OF a(3)] obtain s5 where s5: "block_cache_sync_all s4 = Some s5" "store ?fs ?C s5 [di] [(Directory_Inode, [])]" by blast
  have "contents [] = [(Directory_Inode, [])]" by (simp add: contents_def dir_bytes_def)
  then have "flat ?fs ?C s5 []" using s5(2) unfolding flat_def by auto
  moreover have "efs_create n ib s = Some (?fs, s5)"
    using s1(1) s2(1) a(1,2) s5(1) by (simp add: efs_create_def split_beta inode_ref_def inode_new_def)
  ultimately show ?thesis by blast
qed

lemma efs_open_ok:
  assumes st: "store fs C s dis X"
  shows "\<exists>s'. efs_open s = Some (fs, s') \<and> same_disk s s' \<and> view s' = view s"
proof -
  note b = storeD(9) [OF st]
  have d: "0 < dev_size (device s)" using storeD(3) [OF st] by (simp add: geom_def)
  show ?thesis unfolding efs_open_def
    by (rule cache_read_ok)
      (use storeD(1,2) [OF st] d b in
        \<open>auto simp: BLOCK_CACHE_SIZE_def BLOCK_SZ_def boot_ok_def Let_def fs_of_super_def same_disk_def\<close>)
qed

text \<open>A device that was synchronised, opened by a new kernel with an empty cache.\<close>

lemma open_synced:
  assumes fl: "flat fs C s F" and d: "dev_data (device s) = view s"
  shows "\<exists>s'. efs_open (bcm_new (device s)) = Some (fs, s') \<and> flat fs C s' F"
proof -
  from flatE [OF fl] obtain dis where st: "store fs C s dis (contents F)" by metis
  have len: "\<forall>i. length (dev_data (device s) i) = BLOCK_SZ" using length_view [OF storeD(1) [OF st]] d by simp
  have st': "store fs C (bcm_new (device s)) dis (contents F)"
    using bcm_new_inv(1) [OF len] bcm_new_inv(2-4) [of "device s"] st d by (simp add: store_def)
  from efs_open_ok [OF st'] obtain s2 where s2: "efs_open (bcm_new (device s)) = Some (fs, s2)" "same_disk (bcm_new (device s)) s2"
      "view s2 = view (bcm_new (device s))" by blast
  have "flat fs C s2 F" using store_same [OF st' s2(2,3)] fl by (auto simp: flat_def)
  with s2(1) show ?thesis by blast
qed

lemma reopen_ok:
  assumes fl: "flat fs C s F"
  shows "\<exists>s1 s2. block_cache_sync_all s = Some s1 \<and> efs_open (bcm_new (device s1)) = Some (fs, s2) \<and> flat fs C s2 F"
proof -
  from flatE [OF fl] obtain dis where st: "store fs C s dis (contents F)" by metis
  from store_sync [OF st] obtain s1 where s1: "block_cache_sync_all s = Some s1" "store fs C s1 dis (contents F)" "dev_data (device s1) = view s1" by blast
  have "flat fs C s1 F" using s1(2) fl by (auto simp: flat_def)
  from open_synced [OF this s1(3)] s1(1) show ?thesis by blast
qed

section \<open>The file system is a list of named byte arrays\<close>

text \<open>
  C3: An \<open>easy-fs\<close> behaves as a list of named byte arrays.  On any device of blocks of 512 bytes,
  formatting returns a file system in which every sequence of \<open>create\<close>, \<open>ls\<close>, \<open>find\<close>, \<open>read_at\<close>, \<open>write_at\<close>
  and \<open>clear\<close> that fits on the disk returns, and returns what the same operations give on a list of files
  that starts empty: no operation on one file changes another, growing fills with zeros, and clearing
  gives back all blocks, so that only the sizes of the files there are decide what fits.  The files are
  still there, for any further operations, when the device is synchronised and opened with an empty cache.
\<close>

theorem easy_fs_is_a_flat_store:
  assumes "\<forall>i. length (dev_data d i) = BLOCK_SZ" "format_ok n ib (dev_size d)"
    and "run_fits (fs_fits (snd (efs_layout n ib)) (fs_capacity n ib)) (ops @ ops') []"
  shows "\<exists>fs s0 s1 s2 s3 s4. efs_create n ib (bcm_new d) = Some (fs, s0) \<and>
     fs_run (fs_step fs) ops s0 = Some (fst (flat_run ops []), s1) \<and>
     block_cache_sync_all s1 = Some s2 \<and> efs_open (bcm_new (device s2)) = Some (fs, s3) \<and>
     fs_run (fs_step fs) ops' s3 = Some (fst (flat_run ops' (snd (flat_run ops []))), s4)"
proof -
  let ?fs = "snd (efs_layout n ib)" and ?C = "fs_capacity n ib"
  note split = run_fits_append [of "fs_fits ?fs ?C" ops ops']
  obtain s0 where s0: "efs_create n ib (bcm_new d) = Some (?fs, s0)" "flat ?fs ?C s0 []"
    using efs_create_ok [of "bcm_new d" n ib] bcm_new_inv assms(1,2) by auto
  from ef.run_ok [OF s0(2)] assms(3) split obtain s1 where
    s1: "fs_run (fs_step ?fs) ops s0 = Some (fst (flat_run ops []), s1)" "flat ?fs ?C s1 (snd (flat_run ops []))" by blast
  from reopen_ok [OF s1(2)] obtain s2 s3 where
    s2: "block_cache_sync_all s1 = Some s2" "efs_open (bcm_new (device s2)) = Some (?fs, s3)" "flat ?fs ?C s3 (snd (flat_run ops []))" by blast
  from ef.run_ok [OF s2(3)] assms(3) split obtain s4 where
    "fs_run (fs_step ?fs) ops' s3 = Some (fst (flat_run ops' (snd (flat_run ops []))), s4)" by blast
  with s0(1) s1(1) s2(1,2) show ?thesis by blast
qed

theorem easy_fs_is_a_flat_store_witness:
  "\<exists>fs s0 s1 s2 s3 s4. efs_create 4096 1 (bcm_new \<lparr>dev_size = 4096, dev_data = \<lambda>_. replicate 512 0\<rparr>) = Some (fs, s0) \<and>
     fs_run (fs_step fs) [Op_Create [97], Op_Write [97] 2 [7, 8]] s0 = Some ([Out_Flag True, Out_Count 2], s1) \<and>
     block_cache_sync_all s1 = Some s2 \<and> efs_open (bcm_new (device s2)) = Some (fs, s3) \<and>
     fs_run (fs_step fs) [Op_Ls, Op_Read [97] 1 9] s3 = Some ([Out_Names [[97]], Out_Bytes [0, 7, 8]], s4)"
proof -
  let ?d = "\<lparr>dev_size = 4096, dev_data = \<lambda>_. replicate 512 0\<rparr>"
  let ?ops = "[Op_Create [97], Op_Write [97] 2 [7, 8]]" and ?ops' = "[Op_Ls, Op_Read [97] 1 9]"
  have f: "format_ok 4096 1 4096" by (simp add: format_ok_def)
  have C: "fs_capacity 4096 1 = 3069" by (simp add: fs_capacity_def data_total_def)
  have m: "max_inodes (snd (efs_layout 4096 1)) = 4096" using format_geom(2) [OF f] by simp
  have "good_name [97]" unfolding good_name_def by code_simp
  then have "run_fits (fs_fits (snd (efs_layout 4096 1)) (fs_capacity 4096 1)) (?ops @ ?ops') []"
    unfolding C by (simp add: create_fits_def m flat_at_def contents_def used_def blocks_of_def nblocks_def tcount_def MAX_BLOCKS_def
        content_write_def splice_def dir_bytes_def entry_of_def dirent_bytes_def NAME_LENGTH_LIMIT_def)
  moreover have "flat_run ?ops [] = ([Out_Flag True, Out_Count 2], [([97], [0, 0, 7, 8])])"
    by (simp add: flat_at_def content_write_def splice_def numeral_2_eq_2)
  moreover have "flat_run ?ops' [([97], [0, 0, 7, 8])] = ([Out_Names [[97]], Out_Bytes [0, 7, 8]], [([97], [0, 0, 7, 8])])"
    by (simp add: flat_at_def slice_at_def)
  ultimately show ?thesis
    using easy_fs_is_a_flat_store [of ?d 4096 1 ?ops ?ops'] f by (simp add: BLOCK_SZ_def)
qed

end
