(* ===== verification/Os_Fs_Laws.thy ===== *)
theory Os_Fs_Laws
  imports Format_Laws Os_Fs
begin

text \<open>
  Open files of the kernel over a file system that holds a list of named byte arrays: opening with
  every combination of flags, reading a whole file, and the listing at start-up.
\<close>

section \<open>Opening\<close>

lemma index_of_map_update:
  "index_of nm (map fst F) = Some j \<Longrightarrow> map fst (F[j := (nm, bs)]) = map fst F"
  using index_of_Some [of nm "map fst F" j] by (simp add: map_update list_update_same_conv)

lemma index_of_snoc: "nm \<notin> set xs \<Longrightarrow> index_of nm (xs @ [nm]) = Some (length xs)"
  by (induction xs) auto

definition opened :: "rstring \<Rightarrow> open_flags \<Rightarrow> files \<Rightarrow> files" where
  "opened nm fl F =
     (case index_of nm (map fst F) of
        Some j \<Rightarrow> if flags_contains fl O_CREATE \<or> flags_contains fl O_TRUNC then F[j := (nm, [])] else F
      | None \<Rightarrow> if flags_contains fl O_CREATE then F @ [(nm, [])] else F)"

definition open_result :: "rstring \<Rightarrow> open_flags \<Rightarrow> files \<Rightarrow> fs_state \<Rightarrow> nat option \<times> fs_state" where
  "open_result nm fl F st =
     (case index_of nm (map fst F) of
        None \<Rightarrow> (None, st)
      | Some j \<Rightarrow> (Some (length (open_files st)),
          st\<lparr>open_files := open_files st @ [\<lparr>os_readable = fst (flags_read_write fl), os_writable = snd (flags_read_write fl), os_offset = 0,
             os_ino = inode_ref (root_fs st) (Suc j)\<rparr>]\<rparr>))"

lemma open_file_ok:
  assumes fl: "flat (root_fs st) C (fs_cache st) F"
    and fits: "flags_contains fl O_CREATE \<Longrightarrow> nm \<notin> set (map fst F) \<Longrightarrow> good_name nm \<and> create_fits (root_fs st) C F nm"
  shows "\<exists>c. open_file nm fl st = Some (open_result nm fl (opened nm fl F) (st\<lparr>fs_cache := c\<rparr>)) \<and>
     flat (root_fs st) C c (opened nm fl F)"
proof -
  let ?fs = "root_fs st"
  obtain c where c: "inode_find ?fs (root_inode ?fs) nm (fs_cache st) = Some (map_option (\<lambda>j. inode_ref ?fs (Suc j)) (index_of nm (map fst F)), c)"
      "flat ?fs C c F" using flat_find [OF fl, of nm] by blast
  show ?thesis
  proof (cases "index_of nm (map fst F)")
    case (Some j)
    note j = index_of_Some [OF Some]
    have f: "root_find nm st = Some (Some (inode_ref ?fs (Suc j)), st\<lparr>fs_cache := c\<rparr>)" using c(1) Some by (simp add: root_find_def)
    obtain c' where c': "vfs_clear ?fs (inode_ref ?fs (Suc j)) c = Some c'" "flat ?fs C c' (F[j := (nm, [])])"
      using flat_clear [OF c(2), of j] j by auto
    have cl: "inode_clear (inode_ref ?fs (Suc j)) (st\<lparr>fs_cache := c\<rparr>) = Some (st\<lparr>fs_cache := c'\<rparr>)" using c'(1) by (simp add: inode_clear_def)
    show ?thesis
    proof (cases "flags_contains fl O_CREATE \<or> flags_contains fl O_TRUNC")
      case True
      then have "open_file nm fl st = Some (open_result nm fl (opened nm fl F) (st\<lparr>fs_cache := c'\<rparr>))"
        using f cl Some index_of_map_update [OF Some, of "[]"]
        by (auto simp: open_file_def opened_def open_result_def add_inode_file_def new_open_file_def os_inode_new_def Let_def)
      moreover have "opened nm fl F = F[j := (nm, [])]" using True Some by (auto simp: opened_def)
      ultimately show ?thesis using c'(2) by auto
    next
      case False
      then have "open_file nm fl st = Some (open_result nm fl (opened nm fl F) (st\<lparr>fs_cache := c\<rparr>))"
        using f Some by (simp add: open_file_def opened_def open_result_def add_inode_file_def new_open_file_def os_inode_new_def Let_def)
      with False Some c(2) show ?thesis by (auto simp: opened_def)
    qed
  next
    case None
    then have new: "nm \<notin> set (map fst F)" by (simp only: index_of_None not_False_eq_True)
    have f: "root_find nm st = Some (None, st\<lparr>fs_cache := c\<rparr>)" using c(1) None by (simp add: root_find_def)
    show ?thesis
    proof (cases "flags_contains fl O_CREATE")
      case True
      from flat_create_new [OF c(2) new] fits [OF True new] obtain c' where
        c': "inode_create ?fs (root_inode ?fs) nm c = Some (Some (inode_ref ?fs (Suc (length F))), c')" "flat ?fs C c' (F @ [(nm, [])])" by blast
      have "open_file nm fl st = Some (open_result nm fl (opened nm fl F) (st\<lparr>fs_cache := c'\<rparr>))"
        using f c'(1) None True index_of_snoc [OF new]
        by (simp add: open_file_def opened_def open_result_def root_create_def add_inode_file_def new_open_file_def os_inode_new_def Let_def)
      with c'(2) None True show ?thesis by (auto simp: opened_def)
    next
      case False
      with f None have "open_file nm fl st = Some (open_result nm fl (opened nm fl F) (st\<lparr>fs_cache := c\<rparr>))"
        by (simp add: open_file_def opened_def open_result_def Let_def)
      with False None c(2) show ?thesis by (auto simp: opened_def)
    qed
  qed
qed

section \<open>Reading a whole file\<close>

lemma content_read_count: "fst (content_read off buf bs) = min (length buf) (length bs - off)"
  by (simp add: content_read_def Let_def)

lemma read_all_loop_ok:
  assumes "flat fs C c F" "j < length F"
  shows "\<exists>c'. read_all_loop (inode_ref fs (Suc j)) off v c =
     Some (v @ drop off (snd (F ! j)), max off (length (snd (F ! j))), c') \<and> flat fs C c' F"
  using assms(1)
proof (induction "length (snd (F ! j)) - off" arbitrary: off v c rule: less_induct)
  case less
  let ?bs = "snd (F ! j)" and ?r = "content_read off (replicate 512 0) (snd (F ! j))"
  obtain c1 where c1: "vfs_read_at (inode_ref fs (Suc j)) off (replicate 512 0) c = Some (?r, c1)" "flat fs C c1 F"
    using flat_read [OF less.prems assms(2), of off "replicate 512 0"] by blast
  have k: "fst ?r = min 512 (length ?bs - off)" by (simp add: content_read_count)
  have t: "take (fst ?r) (snd ?r) = take 512 (drop off ?bs)" by (simp only: content_read_slice slice_at_def)
  show ?case
  proof (cases "length ?bs \<le> off")
    case True
    then have "read_all_loop (inode_ref fs (Suc j)) off v c = Some (v, off, c1)"
      using c1(1) k by (subst read_all_loop.simps) (simp add: split_beta)
    with True c1(2) show ?thesis by auto
  next
    case False
    then have nz: "0 < fst ?r" and "length ?bs - (off + fst ?r) < length ?bs - off" using k by simp_all
    from less.hyps [OF this(2) c1(2), of "v @ take (fst ?r) (snd ?r)"] obtain c2 where
      c2: "read_all_loop (inode_ref fs (Suc j)) (off + fst ?r) (v @ take (fst ?r) (snd ?r)) c1 =
        Some ((v @ take (fst ?r) (snd ?r)) @ drop (off + fst ?r) ?bs, max (off + fst ?r) (length ?bs), c2)" "flat fs C c2 F" by blast
    have "read_all_loop (inode_ref fs (Suc j)) off v c = read_all_loop (inode_ref fs (Suc j)) (off + fst ?r) (v @ take (fst ?r) (snd ?r)) c1"
      using c1(1) nz by (subst read_all_loop.simps) (simp add: split_beta)
    moreover have "take (fst ?r) (snd ?r) @ drop (off + fst ?r) ?bs = drop off ?bs"
    proof (cases "512 \<le> length ?bs - off")
      case True
      then have "drop (off + fst ?r) ?bs = drop 512 (drop off ?bs)" using k by (simp add: add.commute)
      then show ?thesis by (simp only: t append_take_drop_id)
    next
      case False
      then have "take (fst ?r) (snd ?r) = drop off ?bs" unfolding t by simp
      moreover have "drop (off + fst ?r) ?bs = []" using k False by simp
      ultimately show ?thesis by simp
    qed
    moreover have "max (off + fst ?r) (length ?bs) = max off (length ?bs)" using k by linarith
    ultimately show ?thesis using c2 by simp
  qed
qed

text \<open>What \<open>sys_exec\<close> does with an application name: open it for reading and read all of it.\<close>

lemma open_and_read_all:
  assumes "flat (root_fs st) C (fs_cache st) F" "j < length F" "index_of (fst (F ! j)) (map fst F) = Some j"
  shows "\<exists>st1 st2. open_file (fst (F ! j)) O_RDONLY st = Some (Some (length (open_files st)), st1) \<and>
     os_inode_read_all (length (open_files st)) st1 = Some (snd (F ! j), st2) \<and> root_fs st2 = root_fs st \<and> flat (root_fs st) C (fs_cache st2) F"
proof -
  let ?nm = "fst (F ! j)"
  have ro: "\<not> flags_contains O_RDONLY O_CREATE" "\<not> flags_contains O_RDONLY O_TRUNC"
    by (simp_all add: flags_contains_def O_RDONLY_def O_CREATE_def O_TRUNC_def)
  then have same: "opened ?nm O_RDONLY F = F" by (simp add: opened_def split: option.splits)
  obtain c where c: "open_file ?nm O_RDONLY st = Some (open_result ?nm O_RDONLY F (st\<lparr>fs_cache := c\<rparr>))" "flat (root_fs st) C c F"
    using open_file_ok [OF assms(1), of O_RDONLY ?nm] ro same by auto
  obtain c' where "read_all_loop (inode_ref (root_fs st) (Suc j)) 0 [] c = Some (snd (F ! j), length (snd (F ! j)), c')" "flat (root_fs st) C c' F"
    using read_all_loop_ok [OF c(2) assms(2), of 0 "[]"] by auto
  with c(1) assms(3) show ?thesis by (auto simp: open_result_def os_inode_read_all_def Let_def)
qed

lemma index_of_nth: "distinct xs \<Longrightarrow> j < length xs \<Longrightarrow> index_of (xs ! j) xs = Some j"
  by (induction xs arbitrary: j) (auto simp: nth_Cons split: nat.splits)

end
