(* ===== verification/File_Calls.thy ===== *)
theory File_Calls
  imports Os_Fs_Laws User_Laws
begin

text \<open>
  \<open>sys_read\<close> and \<open>sys_write\<close> on an open file: the bytes of a user buffer, which may lie in several
  pages, against the byte array the file holds.
\<close>

section \<open>Slices of a buffer\<close>

lemma translated_loop_pos:
  assumes "unat s \<le> unat e" "unat e < 2 ^ 38" "translated_loop m pt s e = Some sl"
  shows "\<forall>p\<in>set sl. 0 < snd p"
  using assms
proof (induction "unat e - unat s" arbitrary: s sl rule: less_induct)
  case less
  show ?case
  proof (cases "unat s = unat e")
    case True
    with less.prems(3) show ?thesis by (subst (asm) translated_loop.simps) (simp add: word_less_unat)
  next
    case False
    with less.prems(1) have lt: "unat s < unat e" by simp
    with less.prems(3) obtain pte where tr: "pt_translate m pt (va_floor s) = Some pte"
      using less.prems(2)
      by (subst (asm) translated_loop.simps) (auto simp: word_less_unat Let_def va_from_usize_id bind_eq_Some_conv)
    from translated_step [OF lt less.prems(2) tr] obtain t where
      t: "unat t = min (unat s div 4096 * 4096 + 4096) (unat e)"
      and step: "translated_loop m pt s e = Option.bind (translated_loop m pt t e)
         (\<lambda>v. Some ((pa_from_ppn (pte_ppn pte) + va_page_offset s, unat t - unat s) # v))" by blast
    have "unat s = unat s div 4096 * 4096 + unat s mod 4096" "unat s mod 4096 < 4096" by simp_all
    then have st: "unat s < unat t" "unat t \<le> unat e" using t lt by linarith+
    have "Option.bind (translated_loop m pt t e) (\<lambda>v. Some ((pa_from_ppn (pte_ppn pte) + va_page_offset s, unat t - unat s) # v)) = Some sl"
      using step less.prems(3) by simp
    then obtain v where v: "translated_loop m pt t e = Some v"
      "sl = (pa_from_ppn (pte_ppn pte) + va_page_offset s, unat t - unat s) # v" unfolding bind_eq_Some_conv by auto
    have "\<forall>p\<in>set v. 0 < snd p" by (rule less.hyps [OF _ st(2) less.prems(2) v(1)]) (use st in simp)
    with v(2) st(1) show ?thesis by simp
  qed
qed

text \<open>The slices of a whole region.\<close>

lemma region_buffer:
  assumes "user_region token base addrs m" "length addrs = unat len"
  shows "\<exists>sl. translated_byte_buffer m token base len = Some sl \<and> slice_addrs sl = addrs \<and> (\<forall>p\<in>set sl. 0 < snd p)"
proof -
  have b: "unat base + unat len < 2 ^ 38" using assms by (simp add: user_region_def)
  obtain sl where sl: "translated_byte_buffer m token base len = Some sl" "slice_addrs sl = slice_at 0 (length addrs) addrs"
    using region_slices [OF assms(1), of 0 "length addrs"] assms(2) by auto
  have "unat (base + len) = unat base + unat len" using b by (subst unat_add_u64_small) simp_all
  then have "\<forall>p\<in>set sl. 0 < snd p"
    using translated_loop_pos [of base "base + len"] sl(1) b by (auto simp: translated_byte_buffer_def)
  with sl show ?thesis by (simp add: slice_at_def)
qed

section \<open>Reading\<close>

text \<open>A slice of the buffer after \<open>read_at\<close>: the bytes behind those read are put back as they were.\<close>

lemma store_prefix:
  assumes "length bs \<le> n" "n < 2 ^ 64"
  shows "store_bytes m a (splice 0 bs (load_bytes m a n)) = write_at (take (length bs) (map (\<lambda>i. a + word_of_nat i) [0..<n])) bs m"
proof -
  have "splice 0 bs (load_bytes m a n) = bs @ map m (map (\<lambda>i. a + word_of_nat i) [length bs..<n])"
    using assms(1) by (simp add: splice_def load_bytes_map drop_map)
  moreover have "store_bytes m a (bs @ map m (map (\<lambda>i. a + word_of_nat i) [length bs..<n])) = store_bytes m a bs"
  proof
    fix x
    show "store_bytes m a (bs @ map m (map (\<lambda>i. a + word_of_nat i) [length bs..<n])) x = store_bytes m a bs x"
      using assms(1) by (auto simp: store_bytes_def nth_append)
  qed
  moreover have "take (length bs) (map (\<lambda>i. a + word_of_nat i) [0..<n]) = map (\<lambda>i. a + word_of_nat i) [0..<length bs]"
    using assms(1) by (simp add: take_map)
  ultimately show ?thesis using assms by (simp add: store_bytes_write_at)
qed

lemma read_buffers_Cons:
  "vfs_read_at ino off (load_bytes m a len) c = Some ((k, buf), c1) \<Longrightarrow> k \<noteq> 0 \<Longrightarrow>
   read_buffers ino ((a, len) # sl) off n (c, m) = read_buffers ino sl (off + k) (n + k) (c1, store_bytes m a buf)"
  by simp

lemma read_buffers_ok:
  assumes "flat fs C c F" "j < length F" "\<forall>p\<in>set sl. 0 < snd p" "distinct (slice_addrs sl)" "length (slice_addrs sl) < 2 ^ 64"
  defines "bs \<equiv> snd (F ! j)"
  shows "\<exists>c'. read_buffers (inode_ref fs (Suc j)) sl off n (c, m) =
      (let k = min (length (slice_addrs sl)) (length bs - off) in
       Some (n + k, off + k, c', write_at (take k (slice_addrs sl)) (slice_at off k bs) m)) \<and> flat fs C c' F"
  using assms(1,3-5)
proof (induction sl arbitrary: off n c m)
  case Nil
  then show ?case by (auto simp: write_at_def)
next
  case (Cons p sl)
  obtain a len where p: "p = (a, len)" by fastforce
  let ?as = "map (\<lambda>i. a + word_of_nat i) [0..<len]" and ?k = "min len (length bs - off)"
  let ?m = "write_at (take ?k ?as) (slice_at off ?k bs) m"
  obtain c1 where c1: "vfs_read_at (inode_ref fs (Suc j)) off (load_bytes m a len) c =
      Some ((?k, splice 0 (slice_at off ?k bs) (load_bytes m a len)), c1)" "flat fs C c1 F"
    using flat_read [OF Cons.prems(1) assms(2), of off "load_bytes m a len"] by (auto simp: content_read_def Let_def bs_def load_bytes_map)
  have len: "0 < len" "len < 2 ^ 64" using Cons.prems(2,4) p by simp_all
  have sk: "length (slice_at off ?k bs) = ?k" by (simp add: slice_at_def)
  have st: "store_bytes m a (splice 0 (slice_at off ?k bs) (load_bytes m a len)) = ?m"
    using store_prefix [of "slice_at off ?k bs" len m a] len(2) by (simp only: sk)
  show ?case
  proof (cases "?k = 0")
    case True
    then have "length bs \<le> off" using len(1) by simp
    with c1 st True show ?thesis by (simp add: p write_at_def Let_def)
  next
    case False
    have "distinct (slice_addrs sl)" "length (slice_addrs sl) < 2 ^ 64" "\<forall>p\<in>set sl. 0 < snd p" using Cons.prems(2-4) p by simp_all
    from Cons.IH [OF c1(2) this(3,1,2), of "off + ?k" "n + ?k" ?m] obtain c2 where
      c2: "read_buffers (inode_ref fs (Suc j)) sl (off + ?k) (n + ?k) (c1, ?m) =
        (let k = min (length (slice_addrs sl)) (length bs - (off + ?k)) in
         Some (n + ?k + k, off + ?k + k, c2, write_at (take k (slice_addrs sl)) (slice_at (off + ?k) k bs) ?m))" "flat fs C c2 F" by blast
    define k' where "k' = min (length (slice_addrs sl)) (length bs - (off + ?k))"
    have run: "read_buffers (inode_ref fs (Suc j)) (p # sl) off n (c, m) =
        Some (n + ?k + k', off + ?k + k', c2, write_at (take k' (slice_addrs sl)) (slice_at (off + ?k) k' bs) ?m)"
      by (simp only: p read_buffers_Cons [OF c1(1) False] st c2(1) Let_def k'_def)
    have K: "min (length (slice_addrs (p # sl))) (length bs - off) = ?k + k'" by (simp add: p k'_def)
    have as: "take (?k + k') (slice_addrs (p # sl)) = take ?k ?as @ take k' (slice_addrs sl)"
      by (auto simp: p k'_def min_def)
    have ds: "slice_at off (?k + k') bs = slice_at off ?k bs @ slice_at (off + ?k) k' bs"
      by (simp only: slice_at_def take_add drop_drop add.commute [of off])
    have "set (take ?k ?as) \<inter> set (take k' (slice_addrs sl)) = {}"
      using Cons.prems(3) by (auto simp: p dest!: in_set_takeD)
    then have "write_at (take k' (slice_addrs sl)) (slice_at (off + ?k) k' bs) ?m = write_at (take (?k + k') (slice_addrs (p # sl))) (slice_at off (?k + k') bs) m"
      unfolding as ds using sk by (intro write_at_append) simp_all
    with run c2(2) show ?thesis unfolding K Let_def by (auto simp: add.assoc)
  qed
qed

section \<open>Writing\<close>

lemma content_write_append:
  "content_write (off + length ws) ws' (content_write off ws bs) = content_write off (ws @ ws') bs"
proof -
  let ?B = "bs @ replicate (off + length ws - length bs) 0"
  let ?r = "off + length ws + length ws' - length (splice off ws ?B)"
  have B: "off + length ws \<le> length ?B" by simp
  then have "splice off ws ?B @ replicate ?r 0 = splice off ws (?B @ replicate ?r 0)" by (simp add: splice_def)
  moreover have "?B @ replicate ?r 0 = bs @ replicate (off + length (ws @ ws') - length bs) 0"
    using B by (simp add: replicate_add [symmetric] del: replicate_add)
  moreover have "off + length ws + length ws' \<le> length (?B @ replicate ?r 0)" using B by simp
  ultimately show ?thesis unfolding content_write_def
    by (simp only: splice_splice length_append add.assoc)
qed

text \<open>A file that gets longer takes no fewer blocks.\<close>

lemma used_longer:
  assumes "j < length F" "length bs \<le> length bs'"
  shows "used (contents (F[j := (fst (F ! j), bs)])) \<le> used (contents (F[j := (fst (F ! j), bs')]))"
proof -
  let ?X = "contents F"
  have j: "Suc j < length ?X" using assms(1) by simp
  have "blocks_of (File_Inode, bs) \<le> blocks_of (File_Inode, bs')"
    using assms(2) by (simp add: blocks_of_def tcount_mono nblocks_mono)
  then have "used (?X[Suc j := (File_Inode, bs)]) \<le> used (?X[Suc j := (File_Inode, bs')])"
    using used_update [OF j, of "(File_Inode, bs)"] used_update [OF j, of "(File_Inode, bs')"] by simp
  then show ?thesis by (simp only: contents_update(1) [OF assms(1)])
qed

lemma length_content_write: "length (content_write off ws bs) = max (length bs) (off + length ws)"
  by (auto simp: content_write_def)

text \<open>What a write leaves: nothing changes when there is nothing to write, even behind the end.\<close>

definition bytes_written :: "nat \<Rightarrow> u8 list \<Rightarrow> u8 list \<Rightarrow> u8 list" where
  "bytes_written off ws bs = (if ws = [] then bs else content_write off ws bs)"

lemma write_buffers_ok:
  assumes "flat fs C c F" "j < length F" "\<forall>p\<in>set sl. 0 < snd p"
    "nblocks (off + length (slice_addrs sl)) \<le> MAX_BLOCKS"
    "used (contents (F[j := (fst (F ! j), bytes_written off (map m (slice_addrs sl)) (snd (F ! j)))])) \<le> C"
  shows "\<exists>c'. write_buffers fs (inode_ref fs (Suc j)) sl off n (c, m) = Some (n + length (slice_addrs sl), off + length (slice_addrs sl), c') \<and>
     flat fs C c' (F[j := (fst (F ! j), bytes_written off (map m (slice_addrs sl)) (snd (F ! j)))])"
  using assms
proof (induction sl arbitrary: off n c F)
  case Nil
  then show ?case by (simp add: bytes_written_def)
next
  case (Cons p sl)
  obtain a len where p: "p = (a, len)" by fastforce
  let ?bs = "snd (F ! j)" and ?w = "load_bytes m a len" and ?ws = "map m (slice_addrs sl)"
  let ?F = "F[j := (fst (F ! j), content_write off ?w ?bs)]"
  have len: "0 < len" "length ?w = len" "?w \<noteq> []" using Cons.prems(3) p by (auto simp: load_bytes_map)
  have ws: "map m (slice_addrs (p # sl)) = ?w @ ?ws" by (simp add: p load_bytes_map)
  have all: "bytes_written off (?w @ ?ws) ?bs = bytes_written (off + len) ?ws (content_write off ?w ?bs)"
    using content_write_append [of off ?w ?ws ?bs] len by (simp add: bytes_written_def)
  have n1: "nblocks (off + length ?w) \<le> MAX_BLOCKS" and n2: "nblocks (off + len + length ?ws) \<le> MAX_BLOCKS"
    using Cons.prems(4) nblocks_mono [of "off + len" "off + len + length ?ws"] by (simp_all add: p len(2) add.assoc)
  have cap: "used (contents (F[j := (fst (F ! j), bytes_written (off + len) ?ws (content_write off ?w ?bs))])) \<le> C"
    using Cons.prems(5) unfolding ws all .
  have "used (contents ?F) \<le> C"
    by (rule order_trans [OF used_longer [OF Cons.prems(2)] cap]) (auto simp: bytes_written_def length_content_write max_def)
  from flat_write [OF Cons.prems(1,2) n1 len(3) this] obtain c1 where
    c1: "vfs_write_at fs (inode_ref fs (Suc j)) off ?w c = Some (len, c1)" "flat fs C c1 ?F" unfolding len(2) by blast
  have j: "j < length ?F" using Cons.prems(2) by simp
  have Fj: "?F ! j = (fst (F ! j), content_write off ?w ?bs)" using Cons.prems(2) by simp
  have "\<exists>c'. write_buffers fs (inode_ref fs (Suc j)) sl (off + len) (n + len) (c1, m) =
      Some (n + len + length (slice_addrs sl), off + len + length (slice_addrs sl), c') \<and>
      flat fs C c' (?F[j := (fst (?F ! j), bytes_written (off + len) ?ws (snd (?F ! j)))])"
    by (rule Cons.IH [OF c1(2) j]) (use Cons.prems(3) n2 cap Fj in simp_all)
  then obtain c2 where "write_buffers fs (inode_ref fs (Suc j)) sl (off + len) (n + len) (c1, m) =
      Some (n + len + length (slice_addrs sl), off + len + length (slice_addrs sl), c2)"
      "flat fs C c2 (F[j := (fst (F ! j), bytes_written off (?w @ ?ws) ?bs)])" unfolding Fj all by auto
  with c1(1) show ?case unfolding ws by (simp add: p add.assoc)
qed

section \<open>The system calls\<close>

definition file_moved :: "nat \<Rightarrow> nat \<Rightarrow> block_cache_manager \<Rightarrow> memory \<Rightarrow> kernel \<Rightarrow> kernel" where
  "file_moved i off c m k =
     set_mem m (k\<lparr>k_fs := (k_fs k)\<lparr>fs_cache := c, open_files := (open_files (k_fs k))[i := (open_files (k_fs k) ! i)\<lparr>os_offset := off\<rparr>]\<rparr>\<rparr>)"

text \<open>Descriptor \<open>fd\<close> of the current task is open on the file at position \<open>j\<close> of \<open>F\<close>.\<close>

definition open_on :: "kernel \<Rightarrow> task_control_block \<Rightarrow> usize \<Rightarrow> nat \<Rightarrow> nat \<Rightarrow> nat \<Rightarrow> files \<Rightarrow> bool" where
  "open_on k t fd i j C F \<longleftrightarrow> (\<exists>p. current_tcb k = Some (p, t)) \<and> fd_file t fd = Some (OSInode i) \<and> i < length (open_files (k_fs k)) \<and>
     os_ino (open_files (k_fs k) ! i) = inode_ref (root_fs (k_fs k)) (Suc j) \<and> j < length F \<and>
     flat (root_fs (k_fs k)) C (fs_cache (k_fs k)) F"

lemma sys_read_file:
  assumes o: "open_on k t fd i j C F" and reg: "user_region (get_user_token t) buf addrs (user_mem k)" "length addrs = unat len"
    and r: "os_readable (open_files (k_fs k) ! i)"
  defines "off \<equiv> os_offset (open_files (k_fs k) ! i)" and "n \<equiv> min (unat len) (length (snd (F ! j)) - os_offset (open_files (k_fs k) ! i))"
  shows "\<exists>c m. sys_read ch fd buf len k = Some (Ret (int n) (file_moved i (off + n) c m k)) \<and>
     flat (root_fs (k_fs k)) C c F \<and> map m addrs = splice 0 (slice_at off n (snd (F ! j))) (map (user_mem k) addrs) \<and>
     (\<forall>x. x \<notin> set addrs \<longrightarrow> m x = user_mem k x)"
proof -
  from region_buffer [OF reg] obtain sl where sl: "translated_byte_buffer (user_mem k) (get_user_token t) buf len = Some sl"
    "slice_addrs sl = addrs" "\<forall>p\<in>set sl. 0 < snd p" by blast
  have d: "distinct addrs" using reg(1) by (simp add: user_region_def)
  have "length addrs < 2 ^ 64" using reg(1) by (simp add: user_region_def)
  with o sl(2,3) d obtain c where c:
    "read_buffers (inode_ref (root_fs (k_fs k)) (Suc j)) sl off 0 (fs_cache (k_fs k), user_mem k) =
       Some (n, off + n, c, write_at (take n addrs) (slice_at off n (snd (F ! j))) (user_mem k))" "flat (root_fs (k_fs k)) C c F"
    using read_buffers_ok [of "root_fs (k_fs k)" C "fs_cache (k_fs k)" F j sl off 0 "user_mem k"] reg(2)
    by (auto simp: open_on_def n_def off_def Let_def)
  let ?m = "write_at (take n addrs) (slice_at off n (snd (F ! j))) (user_mem k)"
  have ln: "length (slice_at off n (snd (F ! j))) = n" by (simp add: slice_at_def n_def off_def)
  have "n \<le> length addrs" using reg(2) by (simp add: n_def)
  then have "map ?m addrs = splice 0 (slice_at off n (snd (F ! j))) (map (user_mem k) addrs)"
    using write_at_slice [OF d, of 0 "slice_at off n (snd (F ! j))" "user_mem k"] by (simp only: ln) (simp add: slice_at_def)
  moreover have "?m x = user_mem k x" if "x \<notin> set addrs" for x
    using that by (intro write_at_other) (auto dest: in_set_takeD)
  moreover have "sys_read ch fd buf len k = Some (Ret (int n) (file_moved i (off + n) c ?m k))"
    using o r sl(1) c(1) by (auto simp: open_on_def sys_read_def os_inode_read_def file_moved_def off_def Let_def)
  ultimately show ?thesis using c(2) by blast
qed

lemma set_mem_same: "set_mem (user_mem k) k' = k'" if "k_machine k' = k_machine k"
  using that by (simp add: set_mem_def user_mem_def)

lemma sys_write_file:
  assumes o: "open_on k t fd i j C F" and reg: "user_region (get_user_token t) buf addrs (user_mem k)" "length addrs = unat len"
    and w: "os_writable (open_files (k_fs k) ! i)"
  defines "off \<equiv> os_offset (open_files (k_fs k) ! i)"
    and "F' \<equiv> F[j := (fst (F ! j), bytes_written (os_offset (open_files (k_fs k) ! i)) (map (user_mem k) addrs) (snd (F ! j)))]"
  assumes fits: "nblocks (off + unat len) \<le> MAX_BLOCKS" "used (contents F') \<le> C"
  shows "\<exists>c. sys_write fd buf len k = Some (int (unat len), file_moved i (off + unat len) c (user_mem k) k) \<and>
     flat (root_fs (k_fs k)) C c F'"
proof -
  from region_buffer [OF reg] obtain sl where sl: "translated_byte_buffer (user_mem k) (get_user_token t) buf len = Some sl"
    "slice_addrs sl = addrs" "\<forall>p\<in>set sl. 0 < snd p" by blast
  with o fits obtain c where c:
    "write_buffers (root_fs (k_fs k)) (inode_ref (root_fs (k_fs k)) (Suc j)) sl off 0 (fs_cache (k_fs k), user_mem k) =
       Some (unat len, off + unat len, c)" "flat (root_fs (k_fs k)) C c F'"
    using write_buffers_ok [of "root_fs (k_fs k)" C "fs_cache (k_fs k)" F j sl off "user_mem k" 0] reg(2)
    by (auto simp: open_on_def off_def F'_def)
  have "sys_write fd buf len k = Some (int (unat len), file_moved i (off + unat len) c (user_mem k) k)"
    using o w sl(1) c(1) by (auto simp: open_on_def sys_write_def os_inode_write_def file_moved_def off_def Let_def set_mem_same)
  with c(2) show ?thesis by blast
qed

lemma file_calls_refused:
  assumes "open_on k t fd i j C F"
  shows "\<not> os_readable (open_files (k_fs k) ! i) \<Longrightarrow> sys_read ch fd buf len k = Some (Ret (- 1) k)"
    "\<not> os_writable (open_files (k_fs k) ! i) \<Longrightarrow> sys_write fd buf len k = Some (- 1, k)"
  using assms by (auto simp: open_on_def sys_read_def sys_write_def)

text \<open>
  C8: \<open>sys_read\<close> and \<open>sys_write\<close> on a descriptor of a file are \<open>read\<close> and \<open>write\<close> of the byte array that the
  file is, at the offset of the open file, for a user buffer that may be scattered over pages.  A read
  puts the next bytes, as many as there are, at the start of the buffer, leaves the rest of the buffer
  and all other memory, returns their number and moves the offset by it.  A write that fits on the disk
  writes the whole buffer, fills a gap behind the end with zeros, and leaves every other file and memory.
  A descriptor not open for the access gives \<open>-1\<close> and changes nothing.
\<close>

theorem file_calls_follow_contents:
  assumes "open_on k t fd i j C F" "user_region (get_user_token t) buf addrs (user_mem k)" "length addrs = unat len"
  defines "f \<equiv> open_files (k_fs k) ! i" and "bs \<equiv> snd (F ! j)" and "fs \<equiv> root_fs (k_fs k)"
  defines "n \<equiv> min (unat len) (length bs - os_offset f)"
    and "F' \<equiv> F[j := (fst (F ! j), bytes_written (os_offset f) (map (user_mem k) addrs) bs)]"
  shows "(os_readable f \<longrightarrow> (\<exists>c m. sys_read ch fd buf len k = Some (Ret (int n) (file_moved i (os_offset f + n) c m k)) \<and> flat fs C c F \<and>
       map m addrs = splice 0 (slice_at (os_offset f) n bs) (map (user_mem k) addrs) \<and> (\<forall>x. x \<notin> set addrs \<longrightarrow> m x = user_mem k x))) \<and>
     (os_writable f \<longrightarrow> nblocks (os_offset f + unat len) \<le> MAX_BLOCKS \<longrightarrow> used (contents F') \<le> C \<longrightarrow>
       (\<exists>c. sys_write fd buf len k = Some (int (unat len), file_moved i (os_offset f + unat len) c (user_mem k) k) \<and> flat fs C c F')) \<and>
     (\<not> os_readable f \<longrightarrow> sys_read ch fd buf len k = Some (Ret (- 1) k)) \<and>
     (\<not> os_writable f \<longrightarrow> sys_write fd buf len k = Some (- 1, k))"
  using sys_read_file [OF assms(1-3)] sys_write_file [OF assms(1-3)] file_calls_refused [OF assms(1)]
  unfolding f_def bs_def fs_def n_def F'_def by blast

lemma demo_files:
  obtains fs c where "flat fs 3069 c [([97], [7, 8, 9])]"
proof -
  let ?d = "\<lparr>dev_size = 4096, dev_data = \<lambda>_. replicate 512 0\<rparr>" and ?fs = "snd (efs_layout 4096 1)"
  let ?ops = "[Op_Create [97], Op_Write [97] 0 [7, 8, 9]]"
  have f: "format_ok 4096 1 4096" by (simp add: format_ok_def)
  have C: "fs_capacity 4096 1 = 3069" by (simp add: fs_capacity_def data_total_def)
  have m: "max_inodes ?fs = 4096" using format_geom(2) [OF f] by simp
  obtain c where c: "flat ?fs 3069 c []" using efs_create_ok [of "bcm_new ?d" 4096 1] bcm_new_inv [of ?d] f by (auto simp: C BLOCK_SZ_def)
  have "good_name [97]" unfolding good_name_def by code_simp
  then have "run_fits (fs_fits ?fs 3069) ?ops []"
    by (simp add: create_fits_def m flat_at_def contents_def used_def blocks_of_def nblocks_def tcount_def MAX_BLOCKS_def
        content_write_def splice_def dir_bytes_def entry_of_def dirent_bytes_def NAME_LENGTH_LIMIT_def)
  with ef.run_ok [OF c, of ?ops] obtain c' where "flat ?fs 3069 c' (snd (flat_run ?ops []))" by blast
  moreover have "snd (flat_run ?ops []) = [([97], [7, 8, 9])]" by (simp add: flat_at_def content_write_def splice_def)
  ultimately show ?thesis using that by simp
qed

theorem file_calls_follow_contents_witness:
  "\<exists>k k' addrs. sys_read 0 0 0x80000000 0x10000 k = Some (Ret 2 k') \<and> length addrs = 0x10000 \<and>
     take 2 (map (user_mem k') addrs) = [8, 9]"
proof -
  obtain k t addrs where k: "current k = Some 1" "tcbs k 1 = Some t" "agent_ext_of t = Some demo_ext"
    and inv: "path_inv (get_user_token t) addrs [] (demo_ext, user_mem k)" by (rule demo_agent)
  have base: "context_area_base demo_ext = 0x80000000" by (simp add: demo_ext_def agent_ext_new_def)
  with inv have reg: "user_region (get_user_token t) 0x80000000 addrs (user_mem k)" "length addrs = 0x10000"
    by (simp_all add: path_inv_def path_core_def)
  obtain fs c where fl: "flat fs 3069 c [([97], [7, 8, 9])]" by (rule demo_files)
  let ?f = "\<lparr>os_readable = True, os_writable = True, os_offset = 1, os_ino = inode_ref fs 1\<rparr>"
  let ?t = "t\<lparr>fd_table := [Some (OSInode 0)]\<rparr>"
  let ?k = "k\<lparr>k_fs := \<lparr>root_fs = fs, fs_cache = c, open_files = [?f]\<rparr>, tcbs := (tcbs k)(1 \<mapsto> ?t)\<rparr>"
  have o: "open_on ?k ?t 0 0 0 3069 [([97], [7, 8, 9])]" using k(1) fl by (simp add: open_on_def current_tcb_def fd_file_def)
  have u: "user_mem ?k = user_mem k" by (simp add: user_mem_def)
  have "user_region (get_user_token ?t) 0x80000000 addrs (user_mem ?k)" "length addrs = unat (0x10000 :: usize)"
    using reg u by (simp_all add: get_user_token_def)
  from conjunct1 [OF file_calls_follow_contents [OF o this, of 0]] obtain off' c' m where
    "sys_read 0 0 0x80000000 0x10000 ?k = Some (Ret 2 (file_moved 0 off' c' m ?k))" "take 2 (map m addrs) = [8, 9]"
    by (auto simp: u slice_at_def splice_def)
  moreover have "user_mem (file_moved 0 off' c' m ?k) = m" by (simp add: file_moved_def set_mem_def user_mem_def)
  ultimately show ?thesis using reg(2) by metis
qed

end
