(* ===== verification/Fs_Image.thy ===== *)
theory Fs_Image
  imports File_Calls
begin

text \<open>
  The host tool that packs the applications into a file system image
  (\<open>easy-fs-fuse/src/main.rs\<close>), and the test of \<open>easy-fs\<close> in the same file.  The directory of
  applications and the contents of the host files are parameters.
\<close>

section \<open>A host file as a block device\<close>

type_synonym host_file = "u8 list"

text \<open>\<open>BlockFile\<close>: seek to the block, then read or write one block; both assert that all of it was
  transferred.  Writing behind the end makes the file longer.\<close>

definition block_file_read :: "usize \<Rightarrow> host_file \<Rightarrow> u8 list option" where
  "block_file_read i f =
     (let bs = slice_at (unat (i * word_of_nat BLOCK_SZ)) BLOCK_SZ f in if length bs = BLOCK_SZ then Some bs else None)"

definition block_file_write :: "usize \<Rightarrow> u8 list \<Rightarrow> host_file \<Rightarrow> host_file option" where
  "block_file_write i bs f =
     (let pos = unat (i * word_of_nat BLOCK_SZ) in
      if length bs = BLOCK_SZ then Some (splice pos bs (f @ replicate (pos - length f) 0)) else None)"

text \<open>\<open>File::set_len\<close> keeps what the file has and fills up with zeros.\<close>

definition set_len :: "nat \<Rightarrow> host_file \<Rightarrow> host_file" where
  "set_len n f = take n f @ replicate (n - length f) 0"

text \<open>The device of the block cache that a file of whole blocks is.\<close>

definition block_file :: "host_file \<Rightarrow> block_device" where
  "block_file f =
     \<lparr>dev_size = length f div BLOCK_SZ,
      dev_data = \<lambda>i. if unat i < length f div BLOCK_SZ then slice_at (BLOCK_SZ * unat i) BLOCK_SZ f else replicate BLOCK_SZ 0\<rparr>"

lemma length_set_len [simp]: "length (set_len n f) = n"
  by (simp add: set_len_def)

lemma block_file_ok: "length (dev_data (block_file f) i) = BLOCK_SZ"
proof (cases "unat i < length f div BLOCK_SZ")
  case True
  then have "Suc (unat i) * BLOCK_SZ \<le> length f div BLOCK_SZ * BLOCK_SZ" by (intro mult_right_mono) auto
  also have "\<dots> \<le> length f" by (rule div_times_less_eq_dividend)
  finally have "BLOCK_SZ * unat i + BLOCK_SZ \<le> length f" by (simp add: mult.commute)
  with True show ?thesis by (simp add: block_file_def slice_at_length)
qed (simp add: block_file_def)

lemma block_position:
  assumes "length f = n * BLOCK_SZ" "n < 2 ^ 32"
  shows "unat (i :: usize) < n \<Longrightarrow> unat (i * word_of_nat BLOCK_SZ) = BLOCK_SZ * unat i" "length f div BLOCK_SZ = n"
  using assms by (simp_all add: unat_word_ariths(2) BLOCK_SZ_def)

text \<open>Within its length the file behaves as that device.\<close>

lemma block_file_read_ok:
  assumes "length f = n * BLOCK_SZ" "n < 2 ^ 32" "unat i < n"
  shows "block_file_read i f = read_block i (block_file f)"
  using block_file_ok [of f i] assms(3) block_position [OF assms(1,2)]
  by (auto simp: block_file_read_def read_block_def block_file_def Let_def)

lemma block_file_write_ok:
  assumes f: "length f = n * BLOCK_SZ" "n < 2 ^ 32" and i: "unat i < n" and bs: "length bs = BLOCK_SZ"
  shows "\<exists>f'. block_file_write i bs f = Some f' \<and> length f' = length f \<and> write_block i bs (block_file f) = Some (block_file f')"
proof -
  let ?f = "splice (BLOCK_SZ * unat i) bs f"
  note p = block_position [OF f]
  have "Suc (unat i) * BLOCK_SZ \<le> n * BLOCK_SZ" using i by (intro mult_right_mono) auto
  then have fit: "BLOCK_SZ * unat i + length bs \<le> length f" using f(1) bs by (simp add: mult.commute)
  then have w: "block_file_write i bs f = Some ?f" using p(1) [OF i] bs by (simp add: block_file_write_def)
  have "slice_at (BLOCK_SZ * unat j) BLOCK_SZ ?f = (if j = i then bs else slice_at (BLOCK_SZ * unat j) BLOCK_SZ f)" if "unat j < n" for j :: usize
  proof (cases "j = i")
    case True
    with slice_at_splice_same [OF fit] bs show ?thesis by simp
  next
    case False
    then have ne: "unat j < unat i \<or> unat i < unat j" by (auto simp: word_unat_eq_iff)
    have "Suc (unat j) * BLOCK_SZ \<le> n * BLOCK_SZ" using that by (intro mult_right_mono) auto
    moreover have "Suc (unat j) * BLOCK_SZ \<le> unat i * BLOCK_SZ" if "unat j < unat i" using that by (intro mult_right_mono) auto
    moreover have "Suc (unat i) * BLOCK_SZ \<le> unat j * BLOCK_SZ" if "unat i < unat j" using that by (intro mult_right_mono) auto
    ultimately have "slice_at (BLOCK_SZ * unat j) BLOCK_SZ ?f = slice_at (BLOCK_SZ * unat j) BLOCK_SZ f"
      using ne f(1) bs by (intro slice_at_splice_other [OF fit]) (auto simp: mult.commute)
    with False show ?thesis by simp
  qed
  then have "dev_data (block_file ?f) = (dev_data (block_file f))(i := bs)"
    using fit p(2) i by (auto simp: block_file_def fun_eq_iff)
  then have "write_block i bs (block_file f) = Some (block_file ?f)"
    using fit p(2) i by (simp add: write_block_def block_file_def)
  with w fit show ?thesis by auto
qed

section \<open>The packer\<close>

text \<open>The name of an application: the entry of the directory up to its first dot, which must be there.\<close>

definition app_name :: "rstring \<Rightarrow> rstring option" where
  "app_name name_with_ext = map_option (\<lambda>i. take i name_with_ext) (position (\<lambda>b. b = 46) name_with_ext)"

definition pack_app :: "(rstring \<Rightarrow> u8 list option) \<Rightarrow> easy_fs \<Rightarrow> rstring \<Rightarrow> block_cache_manager \<Rightarrow> block_cache_manager option" where
  "pack_app host fs app s =
     Option.bind (host app) (\<lambda>all_data.
     Option.bind (inode_create fs (root_inode fs) app s) (\<lambda>(r, s).
     Option.bind r (\<lambda>ino. map_option snd (vfs_write_at fs ino 0 all_data s))))"

fun pack_apps :: "(rstring \<Rightarrow> u8 list option) \<Rightarrow> easy_fs \<Rightarrow> rstring list \<Rightarrow> block_cache_manager \<Rightarrow> block_cache_manager option" where
  "pack_apps host fs [] s = Some s"
| "pack_apps host fs (app # apps) s = Option.bind (pack_app host fs app s) (pack_apps host fs apps)"

text \<open>\<open>entries\<close> are the names in the source directory, \<open>host\<close> gives the bytes of a file in the target
  directory, and \<open>old\<close> is what \<open>fs.img\<close> held before.  The result is the device the image is.\<close>

definition easy_fs_pack :: "rstring list \<Rightarrow> (rstring \<Rightarrow> u8 list option) \<Rightarrow> host_file \<Rightarrow> block_device option" where
  "easy_fs_pack entries host old =
     Option.bind (efs_create (16 * 2048) 1 (bcm_new (block_file (set_len (16 * 2048 * 512) old)))) (\<lambda>(fs, s).
     Option.bind (those (map app_name entries)) (\<lambda>apps.
     map_option device (pack_apps host fs apps s)))"

section \<open>The image\<close>

lemma sync_queue_clean: "sync_queue q d = Some (q', d') \<Longrightarrow> \<forall>p\<in>set q'. \<not> modified (snd p)"
  by (induction q arbitrary: d q') (fastforce simp: bind_eq_Some_conv block_cache_sync_def split: if_splits)+

lemma synced_view:
  assumes "block_cache_sync_all s = Some s'" "cache_inv s'"
  shows "dev_data (device s') = view s'"
proof
  fix i
  have clean: "\<forall>p\<in>set (queue s'). \<not> modified (snd p)"
    using assms(1) sync_queue_clean by (fastforce simp: block_cache_sync_all_def split: if_splits)
  show "dev_data (device s') i = view s' i"
  proof (cases "map_of (queue s') i")
    case (Some c)
    then have "(i, c) \<in> set (queue s')" by (rule map_of_SomeD)
    with clean assms(2) Some show ?thesis by (auto simp: cache_inv_def entry_ok_def view_def disk_at_def)
  qed (simp add: view_def disk_at_def)
qed

lemma write_at_synced: "vfs_write_at fs ino off ws s = Some (n, s') \<Longrightarrow> cache_inv s' \<Longrightarrow> dev_data (device s') = view s'"
  by (auto simp: vfs_write_at_def bind_eq_Some_conv intro: synced_view)

lemma efs_create_synced: "efs_create n ib s = Some (fs, s') \<Longrightarrow> cache_inv s' \<Longrightarrow> dev_data (device s') = view s'"
  by (auto simp: efs_create_def bind_eq_Some_conv Let_def intro: synced_view split: if_splits prod.splits)

lemma flat_cache_inv: "flat fs C s F \<Longrightarrow> cache_inv s"
  by (auto simp: flat_def store_def)

lemma used_prefix:
  assumes "\<forall>nm\<in>set (map fst (F @ G)). good_name nm"
  shows "used (contents F) \<le> used (contents (F @ G))"
proof -
  have "nblocks (32 * length F) \<le> nblocks (32 * (length F + length G))" by (intro nblocks_mono) simp
  then have "blocks_of (Directory_Inode, dir_bytes (map fst F)) \<le> blocks_of (Directory_Inode, dir_bytes (map fst (F @ G)))"
    using dir_bytes_ok(1) [of "map fst F"] dir_bytes_ok(1) [of "map fst (F @ G)"] assms by (simp add: blocks_of_def tcount_mono)
  then show ?thesis by (simp add: used_def contents_def)
qed

lemma pack_app_ok:
  assumes fl: "flat fs C s F" and app: "app \<notin> set (map fst F)" "good_name app" "Suc (length F) < max_inodes fs" "length F < 4096"
    and host: "host app = Some bs" "bs \<noteq> []" "nblocks (length bs) \<le> MAX_BLOCKS" and cap: "used (contents (F @ [(app, bs)])) \<le> C"
  shows "\<exists>s'. pack_app host fs app s = Some s' \<and> flat fs C s' (F @ [(app, bs)]) \<and> dev_data (device s') = view s'"
proof -
  let ?F = "F @ [(app, [])]"
  have upd: "?F[length F := (fst (?F ! length F), bs)] = F @ [(app, bs)]" for bs by simp
  have "used (contents ?F) \<le> C"
    using used_longer [of "length F" ?F "[]" bs] cap unfolding upd by simp
  moreover have "nblocks (32 * Suc (length F)) \<le> nblocks (32 * 4096)" using app(4) by (intro nblocks_mono) simp
  then have "nblocks (32 * Suc (length F)) \<le> MAX_BLOCKS" by (simp add: nblocks_def MAX_BLOCKS_def)
  ultimately have "create_fits fs C F app" using app(3) by (simp add: create_fits_def)
  from flat_create_new [OF fl app(1,2) this] obtain s1 where
    s1: "inode_create fs (root_inode fs) app s = Some (Some (inode_ref fs (Suc (length F))), s1)" "flat fs C s1 ?F" by blast
  have c: "content_write 0 bs [] = bs" by (simp add: content_write_def splice_def)
  obtain s2 where s2: "vfs_write_at fs (inode_ref fs (Suc (length F))) 0 bs s1 = Some (length bs, s2)" "flat fs C s2 (F @ [(app, bs)])"
    using flat_write [OF s1(2), of "length F" 0 bs] host(2,3) cap c by auto
  have "pack_app host fs app s = Some s2" using host(1) s1(1) s2(1) by (simp add: pack_app_def)
  with s2 write_at_synced [OF s2(1) flat_cache_inv [OF s2(2)]] show ?thesis by blast
qed

definition packed :: "(rstring \<Rightarrow> u8 list option) \<Rightarrow> rstring list \<Rightarrow> files" where
  "packed host apps = map (\<lambda>app. (app, the (host app))) apps"

definition app_ok :: "(rstring \<Rightarrow> u8 list option) \<Rightarrow> rstring \<Rightarrow> bool" where
  "app_ok host app \<longleftrightarrow> good_name app \<and> (case host app of None \<Rightarrow> False | Some bs \<Rightarrow> bs \<noteq> [] \<and> nblocks (length bs) \<le> MAX_BLOCKS)"

lemma pack_apps_ok:
  assumes "flat fs C s F" "dev_data (device s) = view s"
    and "distinct (map fst F @ apps)" "\<forall>app\<in>set apps. app_ok host app" "max_inodes fs = 4096" "length F + length apps < 4096"
    and "used (contents (F @ packed host apps)) \<le> C"
  shows "\<exists>s'. pack_apps host fs apps s = Some s' \<and> flat fs C s' (F @ packed host apps) \<and> dev_data (device s') = view s'"
  using assms
proof (induction apps arbitrary: s F)
  case Nil
  then show ?case by (simp add: packed_def)
next
  case (Cons app apps)
  from Cons.prems(4) obtain bs where bs: "good_name app" "host app = Some bs" "bs \<noteq> []" "nblocks (length bs) \<le> MAX_BLOCKS"
    by (auto simp: app_ok_def split: option.splits)
  let ?F = "F @ [(app, bs)]"
  have step: "F @ packed host (app # apps) = ?F @ packed host apps" using bs(2) by (simp add: packed_def)
  have "\<forall>nm\<in>set (map fst F). good_name nm" using Cons.prems(1) by (simp add: flat_def)
  then have "\<forall>nm\<in>set (map fst (?F @ packed host apps)). good_name nm"
    using Cons.prems(4) bs(1) by (auto simp: packed_def app_ok_def)
  from order_trans [OF used_prefix [OF this]] have cap: "used (contents ?F) \<le> C" using Cons.prems(7) unfolding step by blast
  have "\<exists>s'. pack_app host fs app s = Some s' \<and> flat fs C s' ?F \<and> dev_data (device s') = view s'"
    by (rule pack_app_ok) (use Cons.prems bs cap in auto)
  then obtain s1 where s1: "pack_app host fs app s = Some s1" "flat fs C s1 ?F" "dev_data (device s1) = view s1" by blast
  have "\<exists>s'. pack_apps host fs apps s1 = Some s' \<and> flat fs C s' (?F @ packed host apps) \<and> dev_data (device s') = view s'"
    by (rule Cons.IH [OF s1(2,3)]) (use Cons.prems step in auto)
  with s1(1) show ?case unfolding step by auto
qed

lemma easy_fs_pack_ok:
  assumes "map app_name entries = map Some apps" "distinct apps" "length apps < 4096" "\<forall>app\<in>set apps. app_ok host app"
    and "used (contents (packed host apps)) \<le> fs_capacity 32768 1"
  shows "\<exists>d fs c. easy_fs_pack entries host old = Some d \<and> efs_open (bcm_new d) = Some (fs, c) \<and> flat fs (fs_capacity 32768 1) c (packed host apps)"
proof -
  let ?d = "block_file (set_len (16 * 2048 * 512) old)" and ?fs = "snd (efs_layout 32768 1)"
  have size: "dev_size ?d = 32768" by (simp add: block_file_def BLOCK_SZ_def)
  have f: "format_ok 32768 1 (dev_size ?d)" unfolding size by (simp add: format_ok_def)
  have m: "max_inodes ?fs = 4096" using format_geom(2) [OF f] by simp
  obtain s where s: "efs_create 32768 1 (bcm_new ?d) = Some (?fs, s)" "flat ?fs (fs_capacity 32768 1) s []"
    using efs_create_ok [of "bcm_new ?d" 32768 1] bcm_new_inv [of ?d] block_file_ok f by auto
  have "those (map Some apps) = Some apps" by (induction apps) simp_all
  then have apps: "those (map app_name entries) = Some apps" using assms(1) by simp
  obtain s' where s': "pack_apps host ?fs apps s = Some s'" "flat ?fs (fs_capacity 32768 1) s' (packed host apps)" "dev_data (device s') = view s'"
    using pack_apps_ok [OF s(2) efs_create_synced [OF s(1) flat_cache_inv [OF s(2)]], of apps host] assms(2-5) m by auto
  have "easy_fs_pack entries host old = Some (device s')" using s(1) apps s'(1) by (simp add: easy_fs_pack_def)
  with open_synced [OF s'(2,3)] show ?thesis by blast
qed

lemma open_absent:
  assumes "flat (root_fs st) C (fs_cache st) F" "nm \<notin> set (map fst F)"
  shows "\<exists>st'. open_file nm O_RDONLY st = Some (None, st')"
proof -
  have ro: "\<not> flags_contains O_RDONLY O_CREATE" "\<not> flags_contains O_RDONLY O_TRUNC"
    by (simp_all add: flags_contains_def O_RDONLY_def O_CREATE_def O_TRUNC_def)
  moreover have "index_of nm (map fst F) = None" using assms(2) by (simp only: index_of_None not_False_eq_True)
  ultimately show ?thesis using open_file_ok [OF assms(1), of O_RDONLY nm] by (auto simp: opened_def open_result_def)
qed

text \<open>
  C9: The applications reach the kernel.  For any directory of at most 4095 applications with distinct
  names of at most 27 bytes before the dot, whose files are not empty and fit on the disk together, the
  packer returns, whatever the image file held before; a kernel that opens the image lists exactly
  the applications, finds no other file, and reads for each of them exactly the bytes of its host file.
\<close>

theorem packed_apps_reach_kernel:
  assumes "map app_name entries = map Some apps" "distinct apps" "length apps < 4096" "\<forall>app\<in>set apps. app_ok host app"
    and "used (contents (packed host apps)) \<le> fs_capacity 32768 1"
  shows "\<exists>d fs c. easy_fs_pack entries host old = Some d \<and> efs_open (bcm_new d) = Some (fs, c) \<and>
     (let st = \<lparr>root_fs = fs, fs_cache = c, open_files = []\<rparr> in
      (\<exists>st'. list_apps st = Some (println (str ''/**** APPS ****'') @ concat (map println apps) @ println (str ''**************/''), st')) \<and>
      (\<forall>app. if app \<in> set apps
         then \<exists>st1 st2. open_file app O_RDONLY st = Some (Some 0, st1) \<and> os_inode_read_all 0 st1 = Some (the (host app), st2)
         else \<exists>st'. open_file app O_RDONLY st = Some (None, st')))"
proof -
  from easy_fs_pack_ok [OF assms] obtain d fs c where
    d: "easy_fs_pack entries host old = Some d" "efs_open (bcm_new d) = Some (fs, c)" "flat fs (fs_capacity 32768 1) c (packed host apps)" by blast
  let ?st = "\<lparr>root_fs = fs, fs_cache = c, open_files = []\<rparr>" and ?F = "packed host apps"
  have names: "map fst ?F = apps" by (simp add: packed_def comp_def)
  have fl: "flat (root_fs ?st) (fs_capacity 32768 1) (fs_cache ?st) ?F" using d(3) by simp
  have "\<exists>st'. list_apps ?st = Some (println (str ''/**** APPS ****'') @ concat (map println apps) @ println (str ''**************/''), st')"
    using flat_ls [OF d(3)] by (auto simp: list_apps_def names)
  moreover have "\<exists>st1 st2. open_file app O_RDONLY ?st = Some (Some 0, st1) \<and> os_inode_read_all 0 st1 = Some (the (host app), st2)"
    if app: "app \<in> set apps" for app
  proof -
    from app obtain j where j: "j < length apps" "apps ! j = app" by (auto simp: in_set_conv_nth)
    then have "fst (?F ! j) = app" "snd (?F ! j) = the (host app)" "j < length ?F" by (simp_all add: packed_def)
    with open_and_read_all [OF fl, of j] index_of_nth [OF assms(2) j(1)] j(2) names show ?thesis by auto
  qed
  moreover have "\<exists>st'. open_file app O_RDONLY ?st = Some (None, st')" if "app \<notin> set apps" for app
    using open_absent [OF fl] that names by simp
  ultimately show ?thesis using d(1,2) by (intro exI [of _ d] exI [of _ fs] exI [of _ c]) (simp add: Let_def)
qed

theorem packed_apps_reach_kernel_witness:
  "\<exists>d fs c st1 st2. easy_fs_pack [str ''sh.rs''] (\<lambda>_. Some [127, 69]) [1, 2, 3] = Some d \<and> efs_open (bcm_new d) = Some (fs, c) \<and>
     open_file (str ''sh'') O_RDONLY \<lparr>root_fs = fs, fs_cache = c, open_files = []\<rparr> = Some (Some 0, st1) \<and>
     os_inode_read_all 0 st1 = Some ([127, 69], st2)"
proof -
  let ?host = "\<lambda>_ :: rstring. Some [127, 69 :: u8]"
  have s: "str ''sh.rs'' = [115, 104, 46, 114, 115]" "str ''sh'' = [115, 104]" by code_simp+
  have n: "map app_name [str ''sh.rs''] = map Some [str ''sh'']" unfolding s by code_simp
  have "good_name (str ''sh'')" unfolding good_name_def s by code_simp
  then have ok: "\<forall>app\<in>set [str ''sh'']. app_ok ?host app" by (simp add: app_ok_def nblocks_def MAX_BLOCKS_def)
  have "used (contents (packed ?host [str ''sh''])) \<le> fs_capacity 32768 1"
    by (simp add: packed_def s contents_def used_def blocks_of_def nblocks_def tcount_def dir_bytes_def entry_of_def dirent_bytes_def
        splice_def NAME_LENGTH_LIMIT_def fs_capacity_def data_total_def)
  from packed_apps_reach_kernel [OF n _ _ ok this, of "[1, 2, 3]", unfolded Let_def] obtain d fs c where
    d: "easy_fs_pack [str ''sh.rs''] ?host [1, 2, 3] = Some d" "efs_open (bcm_new d) = Some (fs, c)"
    "if str ''sh'' \<in> set [str ''sh'']
         then \<exists>st1 st2. open_file (str ''sh'') O_RDONLY \<lparr>root_fs = fs, fs_cache = c, open_files = []\<rparr> = Some (Some 0, st1) \<and>
           os_inode_read_all 0 st1 = Some (the (?host (str ''sh'')), st2)
         else \<exists>st'. open_file (str ''sh'') O_RDONLY \<lparr>root_fs = fs, fs_cache = c, open_files = []\<rparr> = Some (None, st')" by fastforce
  then show ?thesis by auto
qed

end
