(* ===== verification/Efs_Test.thy ===== *)
theory Efs_Test
  imports Fs_Image
begin

text \<open>
  The test of \<open>easy-fs\<close> (\<open>efs_test\<close> in \<open>easy-fs-fuse/src/main.rs\<close>) with its random bytes as a
  parameter: it passes for all of them.
\<close>

section \<open>The test\<close>

text \<open>\<open>str.push(char::from('0' as u8 + rand::random::<u8>() % 10))\<close>.\<close>

definition random_digits :: "(nat \<Rightarrow> u8) \<Rightarrow> nat \<Rightarrow> rstring" where
  "random_digits r len = map (\<lambda>i. 48 + r i mod 10) [0..<len]"

partial_function (option) read_str_loop :: "inode \<Rightarrow> u8 list \<Rightarrow> nat \<Rightarrow> rstring \<Rightarrow> block_cache_manager \<Rightarrow> (rstring \<times> block_cache_manager) option" where
  "read_str_loop ino read_buffer off read_str s =
     Option.bind (vfs_read_at ino off read_buffer s) (\<lambda>r.
       (case r of ((len, read_buffer), s) \<Rightarrow>
          if len = 0 then Some (read_str, s)
          else Option.bind (from_utf8 (take len read_buffer)) (\<lambda>t. read_str_loop ino read_buffer (off + len) (read_str @ t) s)))"

text \<open>The closure \<open>random_str_test\<close>; \<open>buffer\<close> is captured from the test.\<close>

definition random_str_test :: "easy_fs \<Rightarrow> inode \<Rightarrow> (nat \<Rightarrow> u8) \<Rightarrow> nat \<Rightarrow> u8 list \<times> block_cache_manager \<Rightarrow> (u8 list \<times> block_cache_manager) option" where
  "random_str_test fs filea r len = (\<lambda>(buffer, s).
     Option.bind (vfs_clear fs filea s) (\<lambda>s.
     Option.bind (vfs_read_at filea 0 buffer s) (\<lambda>((n, buffer), s).
     if n \<noteq> 0 then None
     else let st = random_digits r len in
     Option.bind (vfs_write_at fs filea 0 st s) (\<lambda>(_, s).
     Option.bind (read_str_loop filea (replicate 127 0) 0 [] s) (\<lambda>(read_str, s).
     if st = read_str then Some (buffer, s) else None)))))"

definition test_sizes :: "nat list" where
  "test_sizes = [4 * BLOCK_SZ, 8 * BLOCK_SZ + BLOCK_SZ div 2, 100 * BLOCK_SZ, 70 * BLOCK_SZ + BLOCK_SZ div 7, (12 + 128) * BLOCK_SZ,
     400 * BLOCK_SZ, 1000 * BLOCK_SZ, 2000 * BLOCK_SZ]"

fun random_str_tests :: "easy_fs \<Rightarrow> inode \<Rightarrow> (nat \<Rightarrow> nat \<Rightarrow> u8) \<Rightarrow> nat \<Rightarrow> nat list \<Rightarrow> u8 list \<times> block_cache_manager \<Rightarrow>
    (u8 list \<times> block_cache_manager) option" where
  "random_str_tests fs filea r k [] x = Some x"
| "random_str_tests fs filea r k (len # lens) x = Option.bind (random_str_test fs filea (r k) len x) (random_str_tests fs filea r (Suc k) lens)"

text \<open>The result is the list of names the test prints.  \<open>old\<close> is what the image file held before.\<close>

definition efs_test :: "(nat \<Rightarrow> nat \<Rightarrow> u8) \<Rightarrow> host_file \<Rightarrow> rstring list option" where
  "efs_test r old =
     Option.bind (efs_create 4096 1 (bcm_new (block_file (set_len (8192 * 512) old)))) (\<lambda>(_, s).
     Option.bind (efs_open s) (\<lambda>(fs, s).
     Option.bind (inode_create fs (root_inode fs) (str ''filea'') s) (\<lambda>(_, s).
     Option.bind (inode_create fs (root_inode fs) (str ''fileb'') s) (\<lambda>(_, s).
     Option.bind (inode_ls (root_inode fs) s) (\<lambda>(names, s).
     Option.bind (inode_find fs (root_inode fs) (str ''filea'') s) (\<lambda>(filea, s).
     Option.bind filea (\<lambda>filea.
     let greet_str = str ''Hello, world!'' in
     Option.bind (vfs_write_at fs filea 0 greet_str s) (\<lambda>(_, s).
     Option.bind (vfs_read_at filea 0 (replicate 233 0) s) (\<lambda>((len, buffer), s).
     if from_utf8 (take len buffer) \<noteq> Some greet_str then None
     else map_option (\<lambda>_. names) (random_str_tests fs filea r 0 test_sizes (buffer, s)))))))))))"

section \<open>Its laws\<close>

lemma utf8_valid_ascii: "\<forall>b\<in>set bs. b < 0x80 \<Longrightarrow> utf8_valid bs"
  by (induction bs) (simp_all add: utf8_first_def)

lemma random_digits_ascii: "b \<in> set (random_digits r len) \<Longrightarrow> b < 0x80"
proof -
  assume "b \<in> set (random_digits r len)"
  then obtain i where b: "b = 48 + r i mod 10" by (auto simp: random_digits_def)
  have "unat (r i mod 10) < 10" by (simp add: unat_mod)
  then have "unat b < 58" unfolding b by (subst unat_word_ariths) simp
  then show ?thesis by (simp add: word_less_nat_alt)
qed

lemma length_random_digits [simp]: "length (random_digits r len) = len"
  by (simp add: random_digits_def)

lemma read_str_loop_ok:
  assumes "flat fs C s F" "j < length F" "\<forall>b\<in>set (snd (F ! j)). b < 0x80" "buf \<noteq> []"
  shows "\<exists>s'. read_str_loop (inode_ref fs (Suc j)) buf off v s = Some (v @ drop off (snd (F ! j)), s') \<and> flat fs C s' F"
  using assms(1,4)
proof (induction "length (snd (F ! j)) - off" arbitrary: off v s buf rule: less_induct)
  case less
  let ?bs = "snd (F ! j)"
  define k where "k = min (length buf) (length ?bs - off)"
  let ?buf = "splice 0 (slice_at off k ?bs) buf"
  obtain s1 where s1: "vfs_read_at (inode_ref fs (Suc j)) off buf s = Some ((k, ?buf), s1)" "flat fs C s1 F"
    using flat_read [OF less.prems(1) assms(2), of off buf] by (auto simp: content_read_def Let_def k_def)
  have sl: "length (slice_at off k ?bs) = k" by (simp add: slice_at_def k_def)
  show ?case
  proof (cases "k = 0")
    case True
    then have "length ?bs \<le> off" using less.prems(2) by (simp add: k_def min_def split: if_splits)
    moreover have "read_str_loop (inode_ref fs (Suc j)) buf off v s = Some (v, s1)"
      using s1(1) True by (subst read_str_loop.simps) simp
    ultimately show ?thesis using s1(2) by auto
  next
    case False
    have t: "take k ?buf = slice_at off k ?bs" using sl by (simp add: splice_def)
    have "\<forall>b\<in>set (slice_at off k ?bs). b < 0x80" using assms(3) by (auto simp: slice_at_def dest: in_set_takeD in_set_dropD)
    then have u: "from_utf8 (take k ?buf) = Some (slice_at off k ?bs)" unfolding t from_utf8_def by (simp add: utf8_valid_ascii)
    have shorter: "length ?bs - (off + k) < length ?bs - off" using False k_def by linarith
    have "?buf \<noteq> []" using False sl by (cases "slice_at off k ?bs") (auto simp: splice_def)
    from less.hyps [OF shorter s1(2) this, of "v @ slice_at off k ?bs"] obtain s2 where
      s2: "read_str_loop (inode_ref fs (Suc j)) ?buf (off + k) (v @ slice_at off k ?bs) s1 = Some ((v @ slice_at off k ?bs) @ drop (off + k) ?bs, s2)"
        "flat fs C s2 F" by blast
    have "read_str_loop (inode_ref fs (Suc j)) buf off v s = read_str_loop (inode_ref fs (Suc j)) ?buf (off + k) (v @ slice_at off k ?bs) s1"
      using s1(1) False u by (subst read_str_loop.simps) simp
    moreover have "slice_at off k ?bs @ drop (off + k) ?bs = drop off ?bs"
      by (simp only: slice_at_def add.commute [of off k] drop_drop [symmetric] append_take_drop_id)
    ultimately show ?thesis using s2 by auto
  qed
qed

text \<open>The two files of the test: any contents of \<open>filea\<close> up to the largest size fit.\<close>

abbreviation filea :: rstring where "filea \<equiv> [102, 105, 108, 101, 97]"
abbreviation fileb :: rstring where "fileb \<equiv> [102, 105, 108, 101, 98]"

lemma test_fits:
  assumes "length bs \<le> 1024000"
  shows "nblocks (length bs) \<le> MAX_BLOCKS" "used (contents [(filea, bs), (fileb, [])]) \<le> 3069"
proof -
  have n: "nblocks (length bs) \<le> nblocks 1024000" by (rule nblocks_mono) (rule assms)
  then show "nblocks (length bs) \<le> MAX_BLOCKS" by (simp add: nblocks_def MAX_BLOCKS_def)
  have "tcount (nblocks (length bs)) \<le> tcount (nblocks 1024000)" by (rule tcount_mono) (rule n)
  moreover have "tcount (nblocks 1024000) = 2017" by (simp add: tcount_def nblocks_def)
  moreover have "good_name filea" "good_name fileb" unfolding good_name_def by code_simp+
  then have "length (dir_bytes [filea, fileb]) = 64" using dir_bytes_ok(1) [of "[filea, fileb]"] by simp
  ultimately show "used (contents [(filea, bs), (fileb, [])]) \<le> 3069"
    by (simp add: used_def contents_def blocks_of_def) (simp add: nblocks_def tcount_def)
qed

lemma random_str_test_ok:
  assumes fl: "flat fs 3069 s [(filea, bs), (fileb, [])]" and len: "0 < len" "len \<le> 1024000"
  shows "\<exists>buffer' s'. random_str_test fs (inode_ref fs 1) r len (buffer, s) = Some (buffer', s') \<and>
     flat fs 3069 s' [(filea, random_digits r len), (fileb, [])]"
proof -
  let ?d = "random_digits r len"
  obtain s1 where s1: "vfs_clear fs (inode_ref fs 1) s = Some s1" "flat fs 3069 s1 [(filea, []), (fileb, [])]"
    using flat_clear [OF fl, of 0] by auto
  obtain s2 where s2: "vfs_read_at (inode_ref fs 1) 0 buffer s1 = Some ((0, buffer), s2)" "flat fs 3069 s2 [(filea, []), (fileb, [])]"
    using flat_read [OF s1(2), of 0 0 buffer] by (auto simp: content_read_def splice_def slice_at_def)
  have c: "content_write 0 ?d [] = ?d" by (simp add: content_write_def splice_def)
  have ne: "?d \<noteq> []" using len(1) by (auto simp: random_digits_def)
  obtain s3 where s3: "vfs_write_at fs (inode_ref fs 1) 0 ?d s2 = Some (len, s3)" "flat fs 3069 s3 [(filea, ?d), (fileb, [])]"
    using flat_write [OF s2(2), of 0 0 ?d] test_fits [of ?d] len(2) ne c by auto
  obtain s4 where s4: "read_str_loop (inode_ref fs 1) (replicate 127 0) 0 [] s3 = Some (?d, s4)" "flat fs 3069 s4 [(filea, ?d), (fileb, [])]"
    using read_str_loop_ok [OF s3(2), of 0 "replicate 127 0" 0 "[]"] by (auto dest: random_digits_ascii)
  show ?thesis using s1(1) s2(1) s3(1) s4 by (simp add: random_str_test_def Let_def)
qed

lemma random_str_tests_ok:
  assumes "flat fs 3069 s [(filea, bs), (fileb, [])]" "\<forall>len\<in>set lens. 0 < len \<and> len \<le> 1024000"
  shows "\<exists>x. random_str_tests fs (inode_ref fs 1) r k lens (buffer, s) = Some x"
  using assms
proof (induction lens arbitrary: k buffer s bs)
  case (Cons len lens)
  then obtain buffer' s' where "random_str_test fs (inode_ref fs 1) (r k) len (buffer, s) = Some (buffer', s')"
    "flat fs 3069 s' [(filea, random_digits (r k) len), (fileb, [])]" using random_str_test_ok by (metis list.set_intros(1))
  with Cons.IH Cons.prems(2) show ?case by simp
qed simp

text \<open>
  C17: The test of \<open>easy-fs\<close> passes, whatever the random digits are and whatever the image file held
  before: no step panics, the greeting and every random string, up to two thousand blocks, are read
  back in pieces of 127 bytes as they were written, the loop ends, and the names listed are those created.
\<close>

theorem efs_test_passes: "efs_test r old = Some [str ''filea'', str ''fileb'']"
proof -
  let ?d = "block_file (set_len (8192 * 512) old)" and ?fs = "snd (efs_layout 4096 1)" and ?g = "str ''Hello, world!''"
  have names: "str ''filea'' = filea" "str ''fileb'' = fileb" by code_simp+
  have g: "?g = [72, 101, 108, 108, 111, 44, 32, 119, 111, 114, 108, 100, 33]" by code_simp
  have size: "dev_size ?d = 8192" by (simp add: block_file_def BLOCK_SZ_def)
  have f: "format_ok 4096 1 (dev_size ?d)" unfolding size by (simp add: format_ok_def)
  have C: "fs_capacity 4096 1 = 3069" by (simp add: fs_capacity_def data_total_def)
  have m: "max_inodes ?fs = 4096" using format_geom(2) [OF f] by simp
  have good: "good_name filea" "good_name fileb" unfolding good_name_def by code_simp+
  obtain s0 where s0: "efs_create 4096 1 (bcm_new ?d) = Some (?fs, s0)" "flat ?fs 3069 s0 []"
    using efs_create_ok [of "bcm_new ?d" 4096 1] bcm_new_inv [of ?d] block_file_ok f C by auto
  from flatE [OF s0(2)] obtain dis where st: "store ?fs 3069 s0 dis (contents [])" by metis
  from efs_open_ok [OF st] flat_same [OF s0(2)] obtain s1 where s1: "efs_open s0 = Some (?fs, s1)" "flat ?fs 3069 s1 []" by blast
  have l: "length (dir_bytes [filea]) = 32" using dir_bytes_ok(1) [of "[filea]"] good by simp
  have "create_fits ?fs 3069 [] filea" using l
    by (simp add: create_fits_def m used_def contents_def blocks_of_def) (simp add: nblocks_def tcount_def MAX_BLOCKS_def)
  from flat_create_new [OF s1(2) _ good(1) this] obtain s2 r2 where
    s2: "inode_create ?fs (root_inode ?fs) filea s1 = Some (r2, s2)" "flat ?fs 3069 s2 [(filea, [])]" by auto
  have "create_fits ?fs 3069 [(filea, [])] fileb" using test_fits(2) [of "[]"]
    by (simp add: create_fits_def m) (simp add: nblocks_def MAX_BLOCKS_def)
  from flat_create_new [OF s2(2) _ good(2) this] obtain s3 r3 where
    s3: "inode_create ?fs (root_inode ?fs) fileb s2 = Some (r3, s3)" "flat ?fs 3069 s3 [(filea, []), (fileb, [])]" by auto
  obtain s4 where s4: "inode_ls (root_inode ?fs) s3 = Some ([filea, fileb], s4)" "flat ?fs 3069 s4 [(filea, []), (fileb, [])]"
    using flat_ls [OF s3(2)] by auto
  obtain s5 where s5: "inode_find ?fs (root_inode ?fs) filea s4 = Some (Some (inode_ref ?fs 1), s5)" "flat ?fs 3069 s5 [(filea, []), (fileb, [])]"
    using flat_find [OF s4(2), of filea] by auto
  have c: "content_write 0 ?g [] = ?g" by (simp add: content_write_def splice_def)
  obtain n s6 where s6: "vfs_write_at ?fs (inode_ref ?fs 1) 0 ?g s5 = Some (n, s6)" "flat ?fs 3069 s6 [(filea, ?g), (fileb, [])]"
    using flat_write [OF s5(2), of 0 0 ?g] test_fits [of ?g] c by (auto simp: g)
  obtain len buffer s7 where s7: "vfs_read_at (inode_ref ?fs 1) 0 (replicate 233 0) s6 = Some ((len, buffer), s7)"
      "flat ?fs 3069 s7 [(filea, ?g), (fileb, [])]" "(len, buffer) = content_read 0 (replicate 233 0) ?g"
    using flat_read [OF s6(2), of 0 0 "replicate 233 0"] by (cases "content_read 0 (replicate 233 0) ?g") auto
  have "take len buffer = ?g" using content_read_slice [of 0 233 ?g] unfolding s7(3) [symmetric] by (simp add: slice_at_def g)
  moreover have "utf8_valid ?g" unfolding g by code_simp
  ultimately have u: "from_utf8 (take len buffer) = Some ?g" by (simp add: from_utf8_def)
  have "\<forall>len\<in>set test_sizes. 0 < len \<and> len \<le> 1024000" by (simp add: test_sizes_def BLOCK_SZ_def)
  from random_str_tests_ok [OF s7(2) this] obtain x where "random_str_tests ?fs (inode_ref ?fs 1) r 0 test_sizes (buffer, s7) = Some x" by blast
  then show ?thesis using s0(1) s1(1) s2(1) s3(1) s4(1) s5(1) s6(1) s7(1) u by (simp add: efs_test_def names Let_def)
qed

end
