(* ===== verification/Spec2Isabelle.thy ===== *)
theory Spec2Isabelle
  imports File_Attr Agent_Proto Context_Path_Laws Tool_Laws Efs_Test
begin

text \<open>
  A verification development of Agent-OS, a teaching kernel for RISC-V (SV39) extended with
  ``agents'': processes with a shared context area, a tool-call interface, events and priorities.

  \<^bold>\<open>How the model reads.\<close>  Machine integers are words of their width (\<open>usize\<close> is \<open>64 word\<close>), strings
  are UTF-8 byte lists, \<open>BTreeMap\<close> is a sorted association list, \<open>Vec\<close> and \<open>VecDeque\<close> are lists.  A
  panic, an out-of-range index, a failed assertion or a loop that does not return is \<open>None\<close>; a
  \<open>Result\<close> is a sum with the error on the left.  State is passed explicitly.  Physical memory is a
  function from addresses to bytes, shared by everything that maps it.  What lies outside the sources
  is a parameter: the \<open>postcard\<close> serializer (record \<open>postcard\<close>), the ELF parser and the linker symbols
  (record \<open>kernel_env\<close>), readings of the clock and the console (record \<open>inputs\<close>), the padding bytes of
  a C structure.

  \<^bold>\<open>Foundations.\<close>  \<open>Prelude\<close>: word abbreviations, little-endian bytes, slices.  \<open>Rust_Std\<close>: UTF-8,
  decimal numbers, ordered maps (locale \<open>ordered_map\<close>).

  \<^bold>\<open>Memory management\<close> (\<open>os/src/mm\<close>, \<open>os/src/task/pid.rs\<close>).  \<open>Address\<close>: address types and page
  ranges.  \<open>Allocators\<close>: the frame and pid allocators (one locale, interpreted twice) and kernel
  stacks; live frames and pids are distinct and no release panics.  \<open>Page_Table\<close> and
  \<open>Page_Table_Laws\<close>: the three-level tables, as a tree in memory that refines a map of page numbers to
  entries.  \<open>User_Memory\<close>: scattered pages seen as one byte array.  \<open>Memory_Set\<close> and \<open>Memory_Set_Laws\<close>:
  address spaces, ELF loading, \<open>fork\<close>; a forked space is a disjoint copy, and how many frames it needs.

  \<^bold>\<open>File system\<close> (\<open>easy-fs\<close>, \<open>os/src/fs\<close>).  \<open>Block_Cache\<close>: the 16-block write-back cache, equivalent to a
  plain array of blocks.  \<open>Le_Arrays\<close>, \<open>Bitmap\<close>: allocation bitmaps as sets of numbers.  \<open>Layout\<close>: super
  block, inodes with indirect blocks, directory entries.  \<open>Easy_Fs\<close>: creation and every inode
  operation.  \<open>File_Laws\<close>: through both levels of index blocks a file behaves as one byte array under
  \<open>read_at\<close> and \<open>write_at\<close>.  \<open>Tree_Laws\<close>, \<open>Grow_Laws\<close>, \<open>Indirect2_Laws\<close>, \<open>Clear_Laws\<close>: the blocks of an
  inode as one list, to which growing appends and which clearing returns.  \<open>Image_Laws\<close>: what the blocks
  of a disk mean, as a list of inode contents; \<open>Alloc_Laws\<close>, \<open>Store_Laws\<close>, \<open>Vfs_Laws\<close>: allocation and the
  operations on one inode as changes of that list.  \<open>Dir_Laws\<close>, \<open>Flat_Laws\<close>, \<open>Format_Laws\<close>: the directory,
  sequences of operations (locale \<open>flat_store\<close>) and formatting; the file system is a list of named byte
  arrays, also after it is opened again.  \<open>Os_Fs\<close>: open files, flags, standard input and output;
  \<open>Os_Fs_Laws\<close>: what opening and reading them gives on that list, and \<open>File_Calls\<close>: \<open>sys_read\<close> and
  \<open>sys_write\<close> on a file, for user buffers scattered over pages.  \<open>Fs_Image\<close> (\<open>easy-fs-fuse\<close>): the host tool
  that packs applications into an image, from which the kernel reads them; \<open>Efs_Test\<close>: the test of
  \<open>easy-fs\<close>, which passes for all random inputs.

  \<^bold>\<open>Agents\<close> (\<open>os/src/agent\<close>, \<open>agent_proto\<close>).  \<open>File_Attr\<close>: file attributes with two inverted indexes;
  the indexes are exact and indexed queries equal scans.  \<open>Agent_Proto\<close>: frames and envelopes; round
  trip, the answer for every frame header, damaged headers rejected.  \<open>Pcb_Ext\<close>: the agent part of a control block.  \<open>Context_Area\<close>: the 64 KiB area, its header and the
  tool-result ring.  \<open>Context_Path\<close> and \<open>Context_Path_Laws\<close>: the history of nodes with eviction, as a
  bounded log.  \<open>Tools\<close>: registry, dispatcher and handlers.

  \<^bold>\<open>Processes\<close> (\<open>os/src/task\<close>, \<open>os/src/trap\<close>, \<open>os/src/timer.rs\<close>, \<open>os/src/syscall\<close>).  \<open>Task\<close>: the control
  block and the record \<open>kernel\<close> that holds all global state; a control block is reached through its
  pid, which stands for the \<open>Arc\<close>.  \<open>Scheduler\<close>: ready queue, idle loop, exit, blocking, heartbeats,
  messages.  \<open>Syscall_Agent\<close>, \<open>Syscall\<close>: every system call and the dispatcher.  \<open>Trap\<close>: \<open>trap_handler\<close>.
  A call that gives up the processor returns \<open>Switch\<close>; what remains of it is the field \<open>resume\<close> of the
  control block, which stands for the saved kernel stack, and \<open>continue_task\<close> runs it when the task is
  scheduled again.

  \<^bold>\<open>Laws of the kernel.\<close>  \<open>Kernel_Inv\<close> states the invariant (queues match statuses, the process tree,
  pids, mailboxes, priorities) with its frame rules.  \<open>Kernel_Sched\<close>, \<open>Kernel_Tree\<close>, \<open>Kernel_Life\<close> show it
  for scheduling and blocking, for the traversals and events, and for fork, exit and waitpid;
  \<open>Kernel_Laws\<close> for every system call and trap.  \<open>Kernel_Runs\<close> gives the step relation \<open>kernel_step\<close> (a
  trap, an idle round, or arbitrary changes of memory by user code) and its runs (locale
  \<open>bounded_system\<close>).  \<open>Kernel_Theorems\<close> holds the properties of the kernel with an example state,
  \<open>Agent_Laws\<close> those of becoming an agent.

  \<^bold>\<open>User library\<close> (\<open>user/src\<close>).  \<open>User_Lib\<close>: the system call wrappers as requests (a number and six
  arguments), the library functions over them, and the reader of context nodes in shared memory.
  \<open>User_Laws\<close>: every wrapper reaches the kernel function of its name, and a pushed context node is read
  back unchanged.  \<open>Tool_Laws\<close>: a tool call writes the result of the tool into the memory of the caller.

  \<^bold>\<open>Bounds.\<close>  The invariant counts pids handed out, so that runs are bounded by \<open>2^64\<close> steps: the pid
  counter wraps after that.  No fuel is used except in \<open>snapshot_loop\<close> and the other loops declared
  by \<open>partial_function\<close>, whose results are proved to exist.  User memory may change arbitrarily between
  traps, so nothing is assumed of user programs.

  \<^bold>\<open>Not modelled.\<close>  Device drivers, firmware calls and assembly (hardware); the kernel heap (a
  third-party allocator); log output; the demonstration programs.
\<close>

end
